(* ===== verification/Rust_Prelude.thy ===== *)
theory Rust_Prelude
  imports Main "HOL-Library.Word"
begin

text \<open>
  The prelude of the development: names for Rust's machine integers, the \<open>Result\<close> type,
  the operations of Rust's \<open>str\<close> that the crates call, UTF-8, decimal printing and parsing
  of integers, and buffered readers.

  A Rust \<open>String\<close> is a vector of UTF-8 bytes, and a \<open>string\<close> of this development is
  that vector, one \<open>char\<close> per byte: \<open>len()\<close> is the list's length, \<open>as_bytes()\<close> is the
  identity, and splitting at or replacing an ASCII character works byte by byte because an
  ASCII byte never occurs inside a multi-byte character.

  A Rust panic is the value \<open>None\<close> of an option type, an \<open>Err\<close> the constructor \<open>Err\<close>.
\<close>

section \<open>Machine integers and results\<close>

type_synonym u8 = "8 word"
type_synonym u16 = "16 word"
type_synonym u32 = "32 word"
type_synonym u64 = "64 word"

datatype (dead 'a, dead 'e) result = Ok 'a | Err 'e

datatype io_error = Unexpected_Eof | Invalid_Data | Invalid_Input | Os_Error nat

text \<open>\<open>usize::MAX\<close> and \<open>isize::MAX\<close> of a 64-bit target, the latter the largest vector
  that can be allocated without a capacity panic.\<close>

definition usize_max :: nat where
  "usize_max = 2 ^ 64 - 1"

definition isize_max :: nat where
  "isize_max = 2 ^ 63 - 1"

abbreviation code_of :: "char \<Rightarrow> nat" where
  "code_of c \<equiv> of_char c"

definition u8_of_char :: "char \<Rightarrow> u8" where
  "u8_of_char c = of_nat (code_of c)"

definition char_of_u8 :: "u8 \<Rightarrow> char" where
  "char_of_u8 b = char_of (unat b)"

text \<open>Addition of the language: a panic on overflow when the build checks for it.\<close>

definition add_checked :: "bool \<Rightarrow> 'a::len word \<Rightarrow> 'a word \<Rightarrow> 'a word option" where
  "add_checked checks a b =
     (if checks \<and> 2 ^ LENGTH('a) \<le> unat a + unat b then None else Some (a + b))"

section \<open>Splitting and joining\<close>

fun split_on :: "'a \<Rightarrow> 'a list \<Rightarrow> 'a list list" where
  "split_on c [] = [[]]"
| "split_on c (x # xs) =
     (if x = c then [] # split_on c xs
      else (case split_on c xs of [] \<Rightarrow> [[x]] | p # ps \<Rightarrow> (x # p) # ps))"

definition split_once :: "'a \<Rightarrow> 'a list \<Rightarrow> ('a list \<times> 'a list) option" where
  "split_once c s =
     (if c \<in> set s
      then Some (takeWhile (\<lambda>x. x \<noteq> c) s, tl (dropWhile (\<lambda>x. x \<noteq> c) s))
      else None)"

fun splitn :: "nat \<Rightarrow> 'a \<Rightarrow> 'a list \<Rightarrow> 'a list list" where
  "splitn 0 c s = []"
| "splitn (Suc 0) c s = [s]"
| "splitn (Suc (Suc n)) c s =
     (case split_once c s of None \<Rightarrow> [s] | Some (a, b) \<Rightarrow> a # splitn (Suc n) c b)"

fun join_with :: "'a list \<Rightarrow> 'a list list \<Rightarrow> 'a list" where
  "join_with sep [] = []"
| "join_with sep [x] = x"
| "join_with sep (x # y # zs) = x @ sep @ join_with sep (y # zs)"

text \<open>\<open>str::replace\<close> of one character by a string.\<close>

definition replace_char :: "'a \<Rightarrow> 'a list \<Rightarrow> 'a list \<Rightarrow> 'a list" where
  "replace_char c r s = concat (map (\<lambda>x. if x = c then r else [x]) s)"

definition trim_start_matches :: "'a \<Rightarrow> 'a list \<Rightarrow> 'a list" where
  "trim_start_matches c s = dropWhile (\<lambda>x. x = c) s"

text \<open>
  \<open>str::lines\<close>: a line ends at a newline, and a carriage return just before that newline
  belongs to the line ending. The last line may lack the newline, and then keeps a final
  carriage return; a final newline starts no further line.
\<close>

definition strip_last :: "'a \<Rightarrow> 'a list \<Rightarrow> 'a list" where
  "strip_last c s = (if s \<noteq> [] \<and> last s = c then butlast s else s)"

lemma split_once_length [termination_simp]:
  "split_once c s = Some (a, b) \<Longrightarrow> length b < length s"
proof -
  assume "split_once c s = Some (a, b)"
  then have "c \<in> set s" and b: "b = tl (dropWhile (\<lambda>x. x \<noteq> c) s)"
    by (auto simp: split_once_def split: if_splits)
  then have "dropWhile (\<lambda>x. x \<noteq> c) s \<noteq> []"
    by (auto simp: dropWhile_eq_Nil_conv)
  moreover have "length (dropWhile (\<lambda>x. x \<noteq> c) s) \<le> length s"
    by (rule length_dropWhile_le)
  ultimately show ?thesis
    unfolding b by (cases "dropWhile (\<lambda>x. x \<noteq> c) s") auto
qed

function lines_gen :: "'a \<Rightarrow> 'a \<Rightarrow> 'a list \<Rightarrow> 'a list list" where
  "lines_gen nl cr s =
     (if s = [] then []
      else (case split_once nl s of
              None \<Rightarrow> [s]
            | Some (l, rest) \<Rightarrow> strip_last cr l # lines_gen nl cr rest))"
  by pat_completeness auto
termination
  by (relation "measure (\<lambda>(nl, cr, s). length s)") (auto dest: split_once_length)

declare lines_gen.simps [simp del]

definition lines :: "string \<Rightarrow> string list" where
  "lines s = lines_gen (CHR 0x0A) (CHR 0x0D) s"

section \<open>White space\<close>

text \<open>The UTF-8 encodings of the characters with the Unicode property \<open>White_Space\<close>, which
  \<open>char::is_whitespace\<close> and \<open>str::trim\<close> use.\<close>

definition ws_seqs :: "string list" where
  "ws_seqs =
     [[CHR 0x20], [CHR 0x0A], [CHR 0x0D], [CHR 0x09], [CHR 0x0B], [CHR 0x0C],
      [CHR 0xC2, CHR 0x85], [CHR 0xC2, CHR 0xA0], [CHR 0xE1, CHR 0x9A, CHR 0x80],
      [CHR 0xE2, CHR 0x80, CHR 0x80], [CHR 0xE2, CHR 0x80, CHR 0x81],
      [CHR 0xE2, CHR 0x80, CHR 0x82], [CHR 0xE2, CHR 0x80, CHR 0x83],
      [CHR 0xE2, CHR 0x80, CHR 0x84], [CHR 0xE2, CHR 0x80, CHR 0x85],
      [CHR 0xE2, CHR 0x80, CHR 0x86], [CHR 0xE2, CHR 0x80, CHR 0x87],
      [CHR 0xE2, CHR 0x80, CHR 0x88], [CHR 0xE2, CHR 0x80, CHR 0x89],
      [CHR 0xE2, CHR 0x80, CHR 0x8A], [CHR 0xE2, CHR 0x80, CHR 0xA8],
      [CHR 0xE2, CHR 0x80, CHR 0xA9], [CHR 0xE2, CHR 0x80, CHR 0xAF],
      [CHR 0xE2, CHR 0x81, CHR 0x9F], [CHR 0xE3, CHR 0x80, CHR 0x80]]"

definition starts_with :: "'a list \<Rightarrow> 'a list \<Rightarrow> bool" where
  "starts_with w s \<longleftrightarrow> take (length w) s = w"

text \<open>Drop sequences of \<open>P\<close> from the front while one matches.\<close>

function strip_seqs :: "'a list list \<Rightarrow> 'a list \<Rightarrow> 'a list" where
  "strip_seqs P s =
     (case find (\<lambda>w. w \<noteq> [] \<and> starts_with w s) P of
        None \<Rightarrow> s
      | Some w \<Rightarrow> strip_seqs P (drop (length w) s))"
  by pat_completeness auto
termination
proof (relation "measure (\<lambda>(P, s). length s)", goal_cases)
  case 1
  then show ?case by simp
next
  case (2 P s w)
  then have "w \<noteq> []" and w: "take (length w) s = w"
    by (auto simp: find_Some_iff starts_with_def)
  then have "s \<noteq> []" by auto
  with \<open>w \<noteq> []\<close> show ?case by simp
qed

declare strip_seqs.simps [simp del]

definition trim_start :: "string \<Rightarrow> string" where
  "trim_start s = strip_seqs ws_seqs s"

definition trim_end :: "string \<Rightarrow> string" where
  "trim_end s = rev (strip_seqs (map rev ws_seqs) (rev s))"

definition trim :: "string \<Rightarrow> string" where
  "trim s = trim_end (trim_start s)"

section \<open>ASCII case, decimal numbers\<close>

definition ascii_lower :: "char \<Rightarrow> char" where
  "ascii_lower c = (if 65 \<le> code_of c \<and> code_of c \<le> 90 then char_of (code_of c + 32) else c)"

definition to_ascii_lowercase :: "string \<Rightarrow> string" where
  "to_ascii_lowercase s = map ascii_lower s"

definition eq_ignore_ascii_case :: "string \<Rightarrow> string \<Rightarrow> bool" where
  "eq_ignore_ascii_case s t \<longleftrightarrow> to_ascii_lowercase s = to_ascii_lowercase t"

definition digit :: "nat \<Rightarrow> char" where
  "digit d = char_of (48 + d)"

fun show_nat :: "nat \<Rightarrow> string" where
  "show_nat n = (if n < 10 then [digit n] else show_nat (n div 10) @ [digit (n mod 10)])"

declare show_nat.simps [simp del]

definition show_int :: "int \<Rightarrow> string" where
  "show_int n = (if n < 0 then ''-'' @ show_nat (nat (- n)) else show_nat (nat n))"

definition digit_val :: "char \<Rightarrow> nat option" where
  "digit_val c = (if 48 \<le> code_of c \<and> code_of c \<le> 57 then Some (code_of c - 48) else None)"

text \<open>\<open>str::parse\<close> for an unsigned type whose largest value is \<open>max\<close>: an optional plus
  sign, then at least one digit, and an error on overflow.\<close>

fun parse_digits :: "nat \<Rightarrow> nat \<Rightarrow> string \<Rightarrow> nat option" where
  "parse_digits mx acc [] = Some acc"
| "parse_digits mx acc (c # cs) =
     (case digit_val c of
        None \<Rightarrow> None
      | Some d \<Rightarrow> if 10 * acc + d > mx then None else parse_digits mx (10 * acc + d) cs)"

definition parse_uint :: "nat \<Rightarrow> string \<Rightarrow> nat option" where
  "parse_uint mx s =
     (case s of
        [] \<Rightarrow> None
      | c # cs \<Rightarrow>
          if c = CHR ''+'' then (if cs = [] then None else parse_digits mx 0 cs)
          else parse_digits mx 0 s)"

section \<open>UTF-8\<close>

text \<open>
  \<open>utf8_lead\<close> gives for a first byte how many continuation bytes follow it and the range
  of the first of them. \<open>utf8_step\<close> is one step of the decoder of \<open>core::str\<close> at a
  first byte \<open>c\<close> followed by \<open>cs\<close>: whether a
  well-formed character starts here, and how many bytes of \<open>cs\<close> belong to it (or, when it
  is ill-formed, to the longest prefix of a character found).
\<close>

definition cont_in :: "nat \<Rightarrow> nat \<Rightarrow> string \<Rightarrow> bool" where
  "cont_in lo hi cs = (case cs of [] \<Rightarrow> False | d # _ \<Rightarrow> lo \<le> code_of d \<and> code_of d \<le> hi)"

definition utf8_lead :: "nat \<Rightarrow> (nat \<times> nat \<times> nat) option" where
  "utf8_lead b =
     (if b < 0x80 then Some (0, 0, 0)
      else if 0xC2 \<le> b \<and> b \<le> 0xDF then Some (1, 0x80, 0xBF)
      else if b = 0xE0 then Some (2, 0xA0, 0xBF)
      else if 0xE1 \<le> b \<and> b \<le> 0xEC then Some (2, 0x80, 0xBF)
      else if b = 0xED then Some (2, 0x80, 0x9F)
      else if 0xEE \<le> b \<and> b \<le> 0xEF then Some (2, 0x80, 0xBF)
      else if b = 0xF0 then Some (3, 0x90, 0xBF)
      else if 0xF1 \<le> b \<and> b \<le> 0xF3 then Some (3, 0x80, 0xBF)
      else if b = 0xF4 then Some (3, 0x80, 0x8F)
      else None)"

definition utf8_step :: "char \<Rightarrow> string \<Rightarrow> bool \<times> nat" where
  "utf8_step c cs =
     (case utf8_lead (code_of c) of
        None \<Rightarrow> (False, 0)
      | Some (n, lo, hi) \<Rightarrow>
          if n = 0 then (True, 0)
          else if \<not> cont_in lo hi cs then (False, 0)
          else if n = 1 then (True, 1)
          else if \<not> cont_in 0x80 0xBF (drop 1 cs) then (False, 1)
          else if n = 2 then (True, 2)
          else if \<not> cont_in 0x80 0xBF (drop 2 cs) then (False, 2)
          else (True, 3))"

fun utf8_valid :: "string \<Rightarrow> bool" where
  "utf8_valid [] = True"
| "utf8_valid (c # cs) =
     (case utf8_step c cs of (ok, k) \<Rightarrow> ok \<and> utf8_valid (drop k cs))"

text \<open>\<open>String::from_utf8_lossy\<close>: every ill-formed prefix becomes U+FFFD.\<close>

fun from_utf8_lossy :: "string \<Rightarrow> string" where
  "from_utf8_lossy [] = []"
| "from_utf8_lossy (c # cs) =
     (case utf8_step c cs of (ok, k) \<Rightarrow>
        (if ok then c # take k cs else [CHR 0xEF, CHR 0xBF, CHR 0xBD]) @ from_utf8_lossy (drop k cs))"

text \<open>\<open>chars().count()\<close> and \<open>chars().take(n).collect()\<close> on a well-formed string.\<close>

fun char_count :: "string \<Rightarrow> nat" where
  "char_count [] = 0"
| "char_count (c # cs) = Suc (char_count (drop (snd (utf8_step c cs)) cs))"

fun take_chars :: "nat \<Rightarrow> string \<Rightarrow> string" where
  "take_chars n [] = []"
| "take_chars 0 s = []"
| "take_chars (Suc n) (c # cs) =
     (let k = snd (utf8_step c cs) in c # take k cs @ take_chars n (drop k cs))"

section \<open>Buffered readers\<close>

text \<open>
  A reader holds the bytes that will still arrive and what a read past them gives: the end
  of the stream (\<open>None\<close>) or an error of the operating system such as a time-out or a reset
  connection.
\<close>

record reader =
  rd_bytes :: string
  rd_fault :: "io_error option"

definition read_line :: "reader \<Rightarrow> (string, io_error) result \<times> reader" where
  "read_line r =
     (case split_once (CHR 0x0A) (rd_bytes r) of
        Some (l, rest) \<Rightarrow>
          (if utf8_valid (l @ [CHR 0x0A]) then Ok (l @ [CHR 0x0A]) else Err Invalid_Data,
           r\<lparr>rd_bytes := rest\<rparr>)
      | None \<Rightarrow>
          (case rd_fault r of
             Some e \<Rightarrow> Err e
           | None \<Rightarrow> if utf8_valid (rd_bytes r) then Ok (rd_bytes r) else Err Invalid_Data,
           r\<lparr>rd_bytes := []\<rparr>))"

definition read_exact :: "nat \<Rightarrow> reader \<Rightarrow> (string, io_error) result \<times> reader" where
  "read_exact n r =
     (if n \<le> length (rd_bytes r)
      then (Ok (take n (rd_bytes r)), r\<lparr>rd_bytes := drop n (rd_bytes r)\<rparr>)
      else (Err (case rd_fault r of Some e \<Rightarrow> e | None \<Rightarrow> Unexpected_Eof), r\<lparr>rd_bytes := []\<rparr>))"

section \<open>Lemmas on machine integers\<close>

lemma unat_plus_one:
  "unat (a :: 'a::len word) + 1 < 2 ^ LENGTH('a) \<Longrightarrow> unat (a + 1) = unat a + 1"
  by (simp add: unat_word_ariths)

lemma add_checked_one:
  fixes i :: "'a::len word"
  shows "unat i + 1 < 2 ^ LENGTH('a) \<Longrightarrow> add_checked checks i 1 = Some (i + 1)"
    and "\<not> unat i + 1 < 2 ^ LENGTH('a) \<Longrightarrow> add_checked checks i 1 = (if checks then None else Some 0)"
proof -
  show "unat i + 1 < 2 ^ LENGTH('a) \<Longrightarrow> add_checked checks i 1 = Some (i + 1)"
    by (simp add: add_checked_def)
  assume a: "\<not> unat i + 1 < 2 ^ LENGTH('a)"
  moreover have "unat i < 2 ^ LENGTH('a)" by (rule unsigned_less)
  ultimately have e: "unat i + 1 = 2 ^ LENGTH('a)" by linarith
  have "unat (i + 1) = 0"
    by (simp add: unat_word_ariths e [simplified])
  then have "i + 1 = 0" by (simp add: unat_eq_0)
  with a show "add_checked checks i 1 = (if checks then None else Some 0)"
    by (simp add: add_checked_def)
qed

section \<open>Codecs\<close>

text \<open>An encoder together with a decoder that inverts it, on the values the encoder is used for.\<close>

locale codec =
  fixes enc :: "'a \<Rightarrow> 'b" and dec :: "'b \<Rightarrow> 'a" and ok :: "'a \<Rightarrow> bool"
  assumes dec_enc: "ok x \<Longrightarrow> dec (enc x) = x"
begin

lemma enc_inj: "ok x \<Longrightarrow> ok y \<Longrightarrow> enc x = enc y \<longleftrightarrow> x = y"
  using dec_enc by metis

lemma dec_enc_map: "\<forall>x \<in> set xs. ok x \<Longrightarrow> map dec (map enc xs) = xs"
  by (induction xs) (auto simp: dec_enc)

lemma distinct_enc: "\<forall>x \<in> set xs. ok x \<Longrightarrow> distinct (map enc xs) \<longleftrightarrow> distinct xs"
  by (induction xs) (auto simp: enc_inj)

end

section \<open>Lemmas of the string library\<close>

subsection \<open>Splitting\<close>

lemma split_on_not_Nil [simp]: "split_on c s \<noteq> []"
  by (induction s) (auto split: list.splits)

lemma join_split_on: "join_with [c] (split_on c s) = s"
proof (induction s)
  case (Cons x xs)
  show ?case
  proof (cases "split_on c xs")
    case (Cons p ps)
    with Cons.IH show ?thesis by (cases ps) auto
  qed simp
qed simp

lemma split_on_absent [simp]: "c \<notin> set s \<Longrightarrow> split_on c s = [s]"
  by (induction s) auto

lemma split_on_append [simp]: "c \<notin> set a \<Longrightarrow> split_on c (a @ c # b) = a # split_on c b"
  by (induction a) auto

lemma split_on_pieces: "p \<in> set (split_on c s) \<Longrightarrow> c \<notin> set p"
  by (induction s arbitrary: p) (auto split: list.splits if_splits)

lemma split_on_join:
  "ps \<noteq> [] \<Longrightarrow> (\<And>p. p \<in> set ps \<Longrightarrow> c \<notin> set p) \<Longrightarrow> split_on c (join_with [c] ps) = ps"
  by (induction "[c]" ps rule: join_with.induct) auto

lemma split_once_append [simp]: "c \<notin> set a \<Longrightarrow> split_once c (a @ c # b) = Some (a, b)"
  unfolding split_once_def by (induction a) auto

lemma split_once_Cons_same [simp]: "split_once c (c # b) = Some ([], b)"
  by (simp add: split_once_def)

lemma split_once_None [simp]: "split_once c s = None \<longleftrightarrow> c \<notin> set s"
  by (simp add: split_once_def)

lemma split_once_absent [simp]: "c \<notin> set s \<Longrightarrow> split_once c s = None"
  by simp

lemma split_once_SomeD: "split_once c s = Some (a, b) \<Longrightarrow> s = a @ c # b \<and> c \<notin> set a"
proof -
  assume sp: "split_once c s = Some (a, b)"
  then have "c \<in> set s"
    by (auto simp: split_once_def split: if_splits)
  then obtain p q where s: "s = p @ c # q" and p: "c \<notin> set p"
    by (meson split_list_first)
  with sp show ?thesis by simp
qed

lemma splitn_3 [simp]:
  "c \<notin> set a \<Longrightarrow> c \<notin> set b \<Longrightarrow> splitn 3 c (a @ c # b @ c # d) = [a, b, d]"
  by (simp add: numeral_3_eq_3)

lemma lines_gen_Nil [simp]: "lines_gen nl cr [] = []"
  by (simp add: lines_gen.simps)

lemma lines_gen_last: "nl \<notin> set l \<Longrightarrow> l \<noteq> [] \<Longrightarrow> lines_gen nl cr l = [l]"
  by (subst lines_gen.simps) simp

lemma lines_gen_append:
  "nl \<notin> set l \<Longrightarrow> lines_gen nl cr (l @ nl # r) = strip_last cr l # lines_gen nl cr r"
  by (subst lines_gen.simps) simp

lemma strip_last_id: "s = [] \<or> last s \<noteq> c \<Longrightarrow> strip_last c s = s"
  by (auto simp: strip_last_def)

text \<open>Lines that contain no newline and end in no carriage return survive being joined by
  newlines, with or without a final newline.\<close>

lemma lines_gen_concat:
  assumes "\<And>l. l \<in> set ls \<Longrightarrow> nl \<notin> set l"
    and "\<And>l. l \<in> set ls \<Longrightarrow> l = [] \<or> last l \<noteq> cr"
  shows "lines_gen nl cr (concat (map (\<lambda>l. l @ [nl]) ls)) = ls"
  using assms by (induction ls) (simp_all add: lines_gen_append strip_last_id)

lemma lines_gen_join:
  assumes "\<And>l. l \<in> set ls \<Longrightarrow> nl \<notin> set l"
    and "\<And>l. l \<in> set ls \<Longrightarrow> l \<noteq> [] \<and> last l \<noteq> cr"
  shows "lines_gen nl cr (join_with [nl] ls) = ls"
  using assms
  by (induction "[nl]" ls rule: join_with.induct)
    (simp_all add: lines_gen_append lines_gen_last strip_last_id)

lemma replace_char_simps [simp]:
  "replace_char c r [] = []"
  "replace_char c r (x # xs) = (if x = c then r else [x]) @ replace_char c r xs"
  "replace_char c r (xs @ ys) = replace_char c r xs @ replace_char c r ys"
  by (simp_all add: replace_char_def)

lemma set_replace_char:
  "set (replace_char c r s) = (set s - {c}) \<union> (if c \<in> set s then set r else {})"
  by (induction s) auto

subsection \<open>Trimming\<close>

lemma starts_with_append: "starts_with w s \<Longrightarrow> starts_with w (s @ t)"
  unfolding starts_with_def
  by (metis append.assoc append_eq_conv_conj append_take_drop_id)

lemma strip_seqs_suffix: "\<exists>p. s = p @ strip_seqs P s"
proof (induction P s rule: strip_seqs.induct)
  case (1 P s)
  show ?case
  proof (cases "find (\<lambda>w. w \<noteq> [] \<and> starts_with w s) P")
    case None
    then show ?thesis by (subst strip_seqs.simps) simp
  next
    case (Some w)
    from "1"[OF Some] obtain p where p: "drop (length w) s = p @ strip_seqs P (drop (length w) s)"
      by blast
    have "s = (take (length w) s @ p) @ strip_seqs P (drop (length w) s)"
      by (metis append.assoc append_take_drop_id p)
    moreover have "strip_seqs P s = strip_seqs P (drop (length w) s)"
      using Some by (subst strip_seqs.simps) simp
    ultimately show ?thesis by metis
  qed
qed

lemma strip_seqs_None: "find (\<lambda>w. w \<noteq> [] \<and> starts_with w (strip_seqs P s)) P = None"
proof (induction P s rule: strip_seqs.induct)
  case (1 P s)
  then show ?case
    by (cases "find (\<lambda>w. w \<noteq> [] \<and> starts_with w s) P") (simp_all add: strip_seqs.simps [of P s])
qed

lemma strip_seqs_id: "find (\<lambda>w. w \<noteq> [] \<and> starts_with w s) P = None \<Longrightarrow> strip_seqs P s = s"
  by (subst strip_seqs.simps) simp

lemma strip_seqs_idem [simp]: "strip_seqs P (strip_seqs P s) = strip_seqs P s"
  by (rule strip_seqs_id) (rule strip_seqs_None)

text \<open>A prefix of a string that starts with no sequence of \<open>P\<close> starts with none either.\<close>

lemma strip_seqs_prefix_id:
  assumes "strip_seqs P (s @ t) = s @ t"
  shows "strip_seqs P s = s"
proof (rule strip_seqs_id)
  have "find (\<lambda>w. w \<noteq> [] \<and> starts_with w (s @ t)) P = None"
    using strip_seqs_None [of P "s @ t"] assms by simp
  then show "find (\<lambda>w. w \<noteq> [] \<and> starts_with w s) P = None"
    by (auto simp: find_None_iff dest: starts_with_append)
qed

lemma trim_start_idem [simp]: "trim_start (trim_start s) = trim_start s"
  by (simp add: trim_start_def)

lemma trim_end_idem [simp]: "trim_end (trim_end s) = trim_end s"
  by (simp add: trim_end_def)

lemma trim_end_prefix: "\<exists>t. s = trim_end s @ t"
  using strip_seqs_suffix [of "rev s" "map rev ws_seqs"]
  by (metis rev_append rev_rev_ident trim_end_def)

lemma trim_start_trim_end:
  "trim_start s = s \<Longrightarrow> trim_start (trim_end s) = trim_end s"
  using trim_end_prefix [of s] strip_seqs_prefix_id [of ws_seqs "trim_end s"]
  by (metis trim_start_def)

lemma trim_start_trim [simp]: "trim_start (trim s) = trim s"
  by (simp add: trim_def trim_start_trim_end)

lemma trim_end_trim [simp]: "trim_end (trim s) = trim s"
  by (simp add: trim_def)

lemma trim_trim [simp]: "trim (trim s) = trim s"
  by (metis trim_def trim_end_trim trim_start_trim)

lemma trimmed_trim_start: "trim s = s \<Longrightarrow> trim_start s = s"
  by (metis trim_start_trim)

lemma trimmed_trim_end: "trim s = s \<Longrightarrow> trim_end s = s"
  by (metis trim_end_trim)

text \<open>A non-empty trimmed string ends in no ASCII white space.\<close>

lemma trim_end_last:
  assumes "trim_end s = s" and "s \<noteq> []" and "[c] \<in> set ws_seqs"
  shows "last s \<noteq> c"
proof
  assume "last s = c"
  with assms(2) have "starts_with [c] (rev s)"
    by (cases s rule: rev_cases) (auto simp: starts_with_def)
  moreover have "[c] \<in> set (map rev ws_seqs)"
    using assms(3) by (metis image_eqI list.set_map rev_singleton_conv)
  ultimately have "find (\<lambda>w. w \<noteq> [] \<and> starts_with w (rev s)) (map rev ws_seqs) \<noteq> None"
    by (auto simp: find_None_iff)
  moreover have "strip_seqs (map rev ws_seqs) (rev s) = rev s"
    using assms(1) by (simp add: trim_end_def rev_swap)
  ultimately show False
    using strip_seqs_None [of "map rev ws_seqs" "rev s"] by simp
qed

lemma ws_seqs_cr: "[CHR 0x0D] \<in> set ws_seqs" and ws_seqs_nl: "[CHR 0x0A] \<in> set ws_seqs"
  by (simp_all add: ws_seqs_def)

lemma strip_rev_ws:
  "c = CHR 0x20 \<or> c = CHR 0x0A \<or> c = CHR 0x0D \<or> c = CHR 0x09 \<Longrightarrow>
   strip_seqs (map rev ws_seqs) (c # s) = strip_seqs (map rev ws_seqs) s"
  by (elim disjE; subst strip_seqs.simps; simp add: ws_seqs_def starts_with_def)

lemma trim_end_ws [simp]:
  "trim_end (s @ [CHR 0x20]) = trim_end s"
  "trim_end (s @ [CHR 0x0A]) = trim_end s"
  "trim_end (s @ [CHR 0x0D]) = trim_end s"
  by (simp_all add: trim_end_def strip_rev_ws)

lemma trim_end_crlf [simp]: "trim_end (s @ [CHR 0x0D, CHR 0x0A]) = trim_end s"
  using trim_end_ws(2) [of "s @ [CHR 0x0D]"] by simp

lemma trim_start_space [simp]: "trim_start (CHR 0x20 # s) = trim_start s"
  unfolding trim_start_def by (subst strip_seqs.simps) (simp add: ws_seqs_def starts_with_def)

lemma trim_space [simp]: "trim (CHR 0x20 # s) = trim s"
  by (simp add: trim_def)

lemma trim_Nil [simp]: "trim [] = []" "trim_end [] = []" "trim_start [] = []"
  by (simp_all add: trim_def trim_start_def trim_end_def strip_seqs.simps ws_seqs_def starts_with_def)

text \<open>A string whose first and last characters are ASCII and no white space is trimmed.\<close>

lemma starts_with_hd: "starts_with w s \<Longrightarrow> w \<noteq> [] \<Longrightarrow> s \<noteq> [] \<and> hd s = hd w"
  by (cases w; cases s) (auto simp: starts_with_def)

lemma ws_seqs_hd:
  "list_all (\<lambda>w. code_of (hd w) \<le> 0x20 \<or> 0x80 \<le> code_of (hd w)) ws_seqs"
  "list_all (\<lambda>w. code_of (hd w) \<le> 0x20 \<or> 0x80 \<le> code_of (hd w)) (map rev ws_seqs)"
  by (simp_all add: ws_seqs_def)

lemma find_hd_None:
  assumes "s = [] \<or> 0x20 < code_of (hd s) \<and> code_of (hd s) < 0x80"
    and "list_all (\<lambda>w. code_of (hd w) \<le> 0x20 \<or> 0x80 \<le> code_of (hd w)) P"
  shows "find (\<lambda>w. w \<noteq> [] \<and> starts_with w s) P = None"
  using assms by (fastforce simp: find_None_iff list_all_iff dest: starts_with_hd)

lemmas find_ws_None = find_hd_None [OF _ ws_seqs_hd(1)]
  and find_rev_ws_None = find_hd_None [OF _ ws_seqs_hd(2)]

lemma trim_start_ascii:
  "s = [] \<or> 0x20 < code_of (hd s) \<and> code_of (hd s) < 0x80 \<Longrightarrow> trim_start s = s"
  by (simp add: trim_start_def strip_seqs_id find_ws_None)

lemma trim_end_ascii:
  assumes "s = [] \<or> 0x20 < code_of (last s) \<and> code_of (last s) < 0x80"
  shows "trim_end s = s"
proof -
  have "rev s = [] \<or> 0x20 < code_of (hd (rev s)) \<and> code_of (hd (rev s)) < 0x80"
    using assms by (auto simp: hd_rev)
  then have "strip_seqs (map rev ws_seqs) (rev s) = rev s"
    by (intro strip_seqs_id find_rev_ws_None)
  then show ?thesis by (simp add: trim_end_def)
qed

lemma trim_ascii:
  assumes "\<And>c. c \<in> set s \<Longrightarrow> 0x20 < code_of c \<and> code_of c < 0x80"
  shows "trim s = s" "trim_end s = s" "trim_start s = s"
proof -
  have h: "s = [] \<or> 0x20 < code_of (hd s) \<and> code_of (hd s) < 0x80"
    and l: "s = [] \<or> 0x20 < code_of (last s) \<and> code_of (last s) < 0x80"
    using assms by (cases "s = []"; simp)+
  from h l show "trim s = s" "trim_end s = s" "trim_start s = s"
    by (simp_all add: trim_def trim_start_ascii trim_end_ascii)
qed

subsection \<open>Decimal numbers\<close>

lemma char_of_nat_eq: "char_of (n::nat) = c \<longleftrightarrow> n mod 256 = code_of c"
  by (simp add: char_of_eq_iff take_bit_eq_mod)

lemma digit_literals [simp]:
  "digit 0 = CHR ''0''" "digit (Suc 0) = CHR ''1''" "digit 2 = CHR ''2''" "digit 3 = CHR ''3''"
  "digit 4 = CHR ''4''" "digit 5 = CHR ''5''" "digit 6 = CHR ''6''" "digit 7 = CHR ''7''"
  "digit 8 = CHR ''8''" "digit 9 = CHR ''9''"
  by (simp_all add: digit_def char_of_nat_eq)

lemma code_digit [simp]: "d < 10 \<Longrightarrow> code_of (digit d) = 48 + d"
  by (simp add: digit_def)

lemma digit_val_digit [simp]: "d < 10 \<Longrightarrow> digit_val (digit d) = Some d"
  by (simp add: digit_val_def)

lemma show_nat_not_Nil [simp]: "show_nat n \<noteq> []"
  by (subst show_nat.simps) simp

lemma show_nat_digits: "c \<in> set (show_nat n) \<Longrightarrow> 48 \<le> code_of c \<and> code_of c \<le> 57"
proof (induction n rule: show_nat.induct)
  case (1 n)
  show ?case
  proof (cases "n < 10")
    case True
    with "1.prems" show ?thesis by (simp add: show_nat.simps [of n])
  next
    case False
    with "1.prems" have "c = digit (n mod 10) \<or> c \<in> set (show_nat (n div 10))"
      by (simp add: show_nat.simps [of n])
    with "1.IH" False show ?thesis by auto
  qed
qed

lemma show_nat_char:
  "48 > code_of c \<or> code_of c > 57 \<Longrightarrow> c \<notin> set (show_nat n)"
  using show_nat_digits [of c n] by linarith

lemma parse_digits_append:
  "parse_digits mx acc (xs @ ys) =
     (case parse_digits mx acc xs of None \<Rightarrow> None | Some v \<Rightarrow> parse_digits mx v ys)"
  by (induction xs arbitrary: acc) (auto split: option.splits)

lemma parse_digits_show_nat: "n \<le> mx \<Longrightarrow> parse_digits mx 0 (show_nat n) = Some n"
proof (induction n rule: show_nat.induct)
  case (1 n)
  show ?case
  proof (cases "n < 10")
    case True
    with "1.prems" show ?thesis by (simp add: show_nat.simps [of n])
  next
    case False
    with "1" have "parse_digits mx 0 (show_nat (n div 10)) = Some (n div 10)" by simp
    moreover have "10 * (n div 10) + n mod 10 = n" by simp
    ultimately show ?thesis
      using False "1.prems" by (simp add: show_nat.simps [of n] parse_digits_append)
  qed
qed

lemma parse_uint_show_nat [simp]: "n \<le> mx \<Longrightarrow> parse_uint mx (show_nat n) = Some n"
proof -
  assume "n \<le> mx"
  then have p: "parse_digits mx 0 (show_nat n) = Some n"
    by (rule parse_digits_show_nat)
  obtain c cs where s: "show_nat n = c # cs"
    by (cases "show_nat n") auto
  with show_nat_digits [of c n] have "c \<noteq> CHR ''+''" by auto
  with p s show ?thesis by (simp add: parse_uint_def)
qed

lemma parse_digits_bound: "parse_digits mx acc s = Some n \<Longrightarrow> acc \<le> mx \<Longrightarrow> n \<le> mx"
  by (induction s arbitrary: acc) (auto split: option.splits if_splits)

lemma parse_uint_bound: "parse_uint mx s = Some n \<Longrightarrow> n \<le> mx"
  by (auto simp: parse_uint_def simp del: parse_digits.simps
      split: list.splits if_splits dest: parse_digits_bound)

lemma show_nat_trim [simp]: "trim (show_nat n) = show_nat n"
  by (rule trim_ascii) (use show_nat_digits in fastforce)

lemma show_nat_inj: "show_nat m = show_nat n \<Longrightarrow> m = n"
  by (metis max.cobounded1 max.cobounded2 option.inject parse_uint_show_nat)

subsection \<open>UTF-8\<close>

lemma utf8_step_ascii [simp]: "code_of c < 0x80 \<Longrightarrow> utf8_step c cs = (True, 0)"
  by (simp add: utf8_step_def utf8_lead_def)

lemma cont_in_drop: "cont_in lo hi (drop n cs) \<Longrightarrow> n < length cs"
  by (cases "n < length cs") (auto simp: cont_in_def)

lemma cont_in_length: "cont_in lo hi cs \<Longrightarrow> 0 < length cs"
  by (auto simp: cont_in_def)

lemma utf8_step_bound: "utf8_step c cs = (ok, k) \<Longrightarrow> k \<le> length cs"
  by (auto simp: utf8_step_def Suc_le_eq split: option.splits if_splits
      dest!: cont_in_drop cont_in_length)

lemma utf8_valid_ascii:
  "(\<And>c. c \<in> set s \<Longrightarrow> code_of c < 0x80) \<Longrightarrow> utf8_valid s"
  by (induction s) auto

lemma cont_in_append: "cont_in lo hi cs \<Longrightarrow> cont_in lo hi (cs @ ds)"
  by (auto simp: cont_in_def split: list.splits)

lemma utf8_step_append:
  assumes "utf8_step c cs = (True, k)"
  shows "utf8_step c (cs @ ds) = (True, k)"
proof -
  have c: "cont_in lo hi (drop n cs) \<Longrightarrow> cont_in lo hi (drop n (cs @ ds))" for lo hi n
    by (simp add: cont_in_append)
  show ?thesis
    using assms c [of _ _ 0] c [of _ _ 1] c [of _ _ 2]
    by (auto simp: utf8_step_def split: option.splits if_splits)
qed

lemma utf8_valid_append: "utf8_valid s \<Longrightarrow> utf8_valid t \<Longrightarrow> utf8_valid (s @ t)"
proof (induction s rule: utf8_valid.induct)
  case (2 c cs)
  obtain k where st: "utf8_step c cs = (True, k)" and v: "utf8_valid (drop k cs)"
    using "2.prems"(1) by (auto split: prod.splits)
  have "utf8_valid (drop k cs @ t)"
    using "2.IH" st v "2.prems"(2) by auto
  moreover have "k \<le> length cs" using st by (rule utf8_step_bound)
  ultimately show ?case using utf8_step_append [OF st, of t] by simp
qed simp

lemma from_utf8_lossy_valid: "utf8_valid s \<Longrightarrow> from_utf8_lossy s = s"
  by (induction s rule: utf8_valid.induct) (auto split: prod.splits)

lemma cont_in_take: "cont_in lo hi (drop n cs) \<Longrightarrow> n < k \<Longrightarrow> cont_in lo hi (drop n (take k cs))"
  by (auto simp: cont_in_def drop_take take_Cons' split: list.splits)

lemma utf8_step_take:
  assumes "utf8_step c cs = (True, k)"
  shows "utf8_step c (take k cs @ ds) = (True, k)"
proof -
  have c: "cont_in lo hi (drop n cs) \<Longrightarrow> n < k \<Longrightarrow> cont_in lo hi (drop n (take k cs))" for lo hi n
    by (rule cont_in_take)
  have "utf8_step c (take k cs) = (True, k)"
    using assms c [of _ _ 0] c [of _ _ 1] c [of _ _ 2]
    by (auto simp: utf8_step_def split: option.splits if_splits)
  then show ?thesis by (rule utf8_step_append)
qed

text \<open>A continuation byte belongs to the character before it: a well-formed string can be cut before
  any byte that is not one.\<close>

lemma utf8_step_cont:
  assumes "utf8_step c cs = (True, k)" and "n < k"
  shows "cont_in 0x80 0xBF (drop n cs)"
proof -
  have lead: "utf8_lead b = Some (m, lo, hi) \<Longrightarrow> cont_in lo hi ds \<Longrightarrow> m \<noteq> 0 \<Longrightarrow> cont_in 0x80 0xBF ds" for b m lo hi ds
    by (auto simp: utf8_lead_def cont_in_def split: if_splits list.splits)
  have "n = 0 \<or> n = 1 \<or> n = 2"
    using assms by (auto simp: utf8_step_def split: option.splits if_splits)
  then show ?thesis
    using assms lead by (auto simp: utf8_step_def split: option.splits if_splits)
qed

lemma utf8_valid_cut:
  "utf8_valid (a @ w) \<Longrightarrow> w = [] \<or> code_of (hd w) < 0x80 \<or> 0xBF < code_of (hd w) \<Longrightarrow> utf8_valid a"
proof (induction a rule: utf8_valid.induct)
  case (2 c cs)
  obtain k where st: "utf8_step c (cs @ w) = (True, k)" and v: "utf8_valid (drop k (cs @ w))"
    using "2.prems"(1) by (auto split: prod.splits)
  have k: "k \<le> length cs"
  proof (rule ccontr)
    assume "\<not> k \<le> length cs"
    then have "cont_in 0x80 0xBF w" using utf8_step_cont [OF st, of "length cs"] by simp
    then show False using "2.prems"(2) by (auto simp: cont_in_def split: list.splits)
  qed
  have s: "utf8_step c cs = (True, k)"
    using utf8_step_take [OF st, of "drop k cs"] k by simp
  have "utf8_valid (drop k cs)"
    using "2.IH" [OF s [symmetric]] v k "2.prems"(2) by simp
  with s show ?case by simp
qed simp

lemma utf8_valid_take_chars: "utf8_valid s \<Longrightarrow> utf8_valid (take_chars n s) \<and> char_count (take_chars n s) \<le> n \<and>
    (s \<noteq> [] \<longrightarrow> n \<noteq> 0 \<longrightarrow> take_chars n s \<noteq> [])"
proof (induction n s rule: take_chars.induct)
  case (3 n c cs)
  obtain k where st: "utf8_step c cs = (True, k)" and v: "utf8_valid (drop k cs)"
    using "3.prems" by (auto split: prod.splits)
  have k: "k \<le> length cs" using st by (rule utf8_step_bound)
  show ?case
    using "3.IH" [of k] st v k utf8_step_take [OF st] by (simp add: Let_def)
qed simp_all

lemma take_chars_all: "char_count s \<le> n \<Longrightarrow> take_chars n s = s"
proof (induction n s rule: take_chars.induct)
  case (3 n c cs)
  then show ?case by (simp add: Let_def)
qed simp_all

lemma utf8_valid_lossy: "utf8_valid (from_utf8_lossy s)"
proof (induction s rule: from_utf8_lossy.induct)
  case (2 c cs)
  obtain ok k where st: "utf8_step c cs = (ok, k)" by fastforce
  have k: "k \<le> length cs" using st by (rule utf8_step_bound)
  have v: "utf8_valid (from_utf8_lossy (drop k cs))" using "2" st by simp
  show ?case
  proof (cases ok)
    case True
    with st have "utf8_step c (take k cs @ from_utf8_lossy (drop k cs)) = (True, k)"
      by (intro utf8_step_take) simp
    with True st v k show ?thesis by simp
  next
    case False
    have "utf8_step (CHR 0xEF) ([CHR 0xBF, CHR 0xBD] @ from_utf8_lossy (drop k cs)) = (True, 2)"
      by (simp add: utf8_step_def utf8_lead_def cont_in_def)
    with False st v show ?thesis by simp
  qed
qed simp

lemma ws_seqs_utf8:
  "list_all (\<lambda>w. w \<noteq> [] \<and> utf8_valid w \<and> (code_of (hd w) < 0x80 \<or> 0xBF < code_of (hd w)) \<and>
     utf8_step (hd w) (tl w) = (True, length w - 1)) ws_seqs"
  by (simp add: ws_seqs_def utf8_step_def utf8_lead_def cont_in_def)

lemma ws_seqs_utf8D:
  assumes "w \<in> set ws_seqs"
  shows "w \<noteq> []" and "code_of (hd w) < 0x80 \<or> 0xBF < code_of (hd w)"
    and "utf8_step (hd w) (tl w) = (True, length w - 1)"
  using ws_seqs_utf8 assms by (auto simp: list_all_iff)

lemma trim_start_valid: "utf8_valid s \<Longrightarrow> utf8_valid (trim_start s)"
  unfolding trim_start_def
proof (induction ws_seqs s rule: strip_seqs.induct)
  case (1 s)
  show ?case
  proof (cases "find (\<lambda>w. w \<noteq> [] \<and> starts_with w s) ws_seqs")
    case None
    then show ?thesis using 1 by (subst strip_seqs.simps) simp
  next
    case (Some w)
    then have w: "w \<in> set ws_seqs" and t: "take (length w) s = w"
      by (auto simp: find_Some_iff starts_with_def)
    then have s: "s = w @ drop (length w) s" by (metis append_take_drop_id)
    note ww = ws_seqs_utf8D [OF w]
    obtain c cs where cw: "w = c # cs" using ww(1) by (cases w) auto
    have "utf8_step c (cs @ drop (length w) s) = (True, length cs)"
      using ww(3) cw utf8_step_append [of c cs "length cs"] by simp
    then have "utf8_valid (drop (length w) s)"
      using "1.prems" s cw by (metis (no_types, lifting) append_Cons append_eq_conv_conj case_prod_conv utf8_valid.simps(2))
    then show ?thesis using "1.hyps" Some by (subst strip_seqs.simps) simp
  qed
qed

lemma trim_end_valid: "utf8_valid s \<Longrightarrow> utf8_valid (trim_end s)"
proof -
  have "utf8_valid (rev t) \<Longrightarrow> utf8_valid (rev (strip_seqs (map rev ws_seqs) t))" for t
  proof (induction "map rev ws_seqs" t rule: strip_seqs.induct)
    case (1 t)
    show ?case
    proof (cases "find (\<lambda>w. w \<noteq> [] \<and> starts_with w t) (map rev ws_seqs)")
      case None
      then show ?thesis using 1 by (subst strip_seqs.simps) simp
    next
      case (Some w)
      then have w: "rev w \<in> set ws_seqs" and t: "take (length w) t = w"
        by (auto simp: find_Some_iff starts_with_def)
      then have "t = w @ drop (length w) t" by (metis append_take_drop_id)
      then have r: "rev t = rev (drop (length w) t) @ rev w" by (metis rev_append)
      have "utf8_valid (rev (drop (length w) t) @ rev w)"
        using "1.prems" r by metis
      then have "utf8_valid (rev (drop (length w) t))"
        by (rule utf8_valid_cut) (use ws_seqs_utf8D [OF w] in blast)
      moreover have "strip_seqs (map rev ws_seqs) t = strip_seqs (map rev ws_seqs) (drop (length w) t)"
        by (subst strip_seqs.simps) (simp only: Some option.case)
      ultimately show ?thesis using "1.hyps" [OF Some] by simp
    qed
  qed
  then show "utf8_valid s \<Longrightarrow> utf8_valid (trim_end s)" by (simp add: trim_end_def)
qed

lemma trim_valid: "utf8_valid s \<Longrightarrow> utf8_valid (trim s)"
  by (simp add: trim_def trim_start_valid trim_end_valid)

subsection \<open>Readers\<close>

lemma read_line_decreases [termination_simp]:
  "read_line r = (Ok l, r') \<Longrightarrow> l \<noteq> [] \<Longrightarrow> length (rd_bytes r') < length (rd_bytes r)"
  by (auto simp: read_line_def split: option.splits if_splits dest: split_once_length)

lemma read_line_newline:
  "CHR 0x0A \<notin> set l \<Longrightarrow> utf8_valid (l @ [CHR 0x0A]) \<Longrightarrow> rd_bytes r = l @ CHR 0x0A # rest \<Longrightarrow>
   read_line r = (Ok (l @ [CHR 0x0A]), r\<lparr>rd_bytes := rest\<rparr>)"
  by (simp add: read_line_def)

lemma read_exact_Ok:
  "rd_bytes r = s @ rest \<Longrightarrow> n = length s \<Longrightarrow> read_exact n r = (Ok s, r\<lparr>rd_bytes := rest\<rparr>)"
  by (simp add: read_exact_def)

lemma u8_of_char_inverse [simp]: "char_of_u8 (u8_of_char c) = c"
proof -
  have "code_of c mod 256 = code_of c"
    using of_char_of [of "code_of c"] by simp
  then show ?thesis by (simp add: char_of_u8_def u8_of_char_def unat_of_nat)
qed

lemma char_of_u8_inverse [simp]: "u8_of_char (char_of_u8 b) = b"
proof -
  have "unat b < 256" using unsigned_less [of b] by simp
  then show ?thesis by (simp add: char_of_u8_def u8_of_char_def)
qed

end
