(* ===== verification/Cpu6502.thy ===== *)
theory Cpu6502
  imports Rust_Prelude
begin

text \<open>
  The MOS 6502 core of \<open>2026-10-12-rust-nes-6502/src/lib.rs\<close>: the opcode table, the
  addressing modes, every instruction of \<open>Cpu::step\<close>, \<open>run\<close>, \<open>load\<close> and \<open>reset\<close>.

  Registers are \<open>u8\<close> and \<open>u16\<close> words, the 64 KiB memory array is a total function of the
  16-bit address. \<open>unreachable!\<close> and the slice panic of \<open>load\<close> are the value \<open>None\<close>.
\<close>

unbundle bit_operations_syntax

section \<open>Flags, modes, opcodes\<close>

definition FLAG_C :: u8 where "FLAG_C = 0x01"
definition FLAG_Z :: u8 where "FLAG_Z = 0x02"
definition FLAG_I :: u8 where "FLAG_I = 0x04"
definition FLAG_D :: u8 where "FLAG_D = 0x08"
definition FLAG_B :: u8 where "FLAG_B = 0x10"
definition FLAG_U :: u8 where "FLAG_U = 0x20"
definition FLAG_V :: u8 where "FLAG_V = 0x40"
definition FLAG_N :: u8 where "FLAG_N = 0x80"

definition STACK_BASE :: u16 where "STACK_BASE = 0x0100"
definition RESET_VECTOR :: u16 where "RESET_VECTOR = 0xFFFC"
definition IRQ_VECTOR :: u16 where "IRQ_VECTOR = 0xFFFE"

lemmas flag_defs = FLAG_C_def FLAG_Z_def FLAG_I_def FLAG_D_def FLAG_B_def FLAG_U_def
  FLAG_V_def FLAG_N_def

datatype Mode = Imp | Acc | Imm | Zp | ZpX | ZpY | Abs | AbsX | AbsY | Ind | IndX | IndY | Rel

fun mode_size :: "Mode \<Rightarrow> u16" where
  "mode_size Imp = 1"
| "mode_size Acc = 1"
| "mode_size Imm = 2"
| "mode_size Zp = 2"
| "mode_size ZpX = 2"
| "mode_size ZpY = 2"
| "mode_size IndX = 2"
| "mode_size IndY = 2"
| "mode_size Rel = 2"
| "mode_size Abs = 3"
| "mode_size AbsX = 3"
| "mode_size AbsY = 3"
| "mode_size Ind = 3"

datatype Op =
    Adc | And | Asl | Bcc | Bcs | Beq | Bit | Bmi | Bne | Bpl | Brk | Bvc | Bvs | Clc | Cld
    | Cli | Clv | Cmp | Cpx | Cpy | Dec | Dex | Dey | Eor | Inc | Inx | Iny | Jmp | Jsr | Lda
    | Ldx | Ldy | Lsr | Nop | Ora | Pha | Php | Pla | Plp | Rol | Ror | Rti | Rts | Sbc | Sec
    | Sed | Sei | Sta | Stx | Sty | Tax | Tay | Tsx | Txa | Txs | Tya

definition OPCODES :: "(u8 \<times> Op \<times> Mode) list" where
  "OPCODES =
     [
      (0x69, Adc, Imm), (0x65, Adc, Zp), (0x75, Adc, ZpX), (0x6D, Adc, Abs), (0x7D, Adc, AbsX),
      (0x79, Adc, AbsY), (0x61, Adc, IndX), (0x71, Adc, IndY),
      (0x29, And, Imm), (0x25, And, Zp), (0x35, And, ZpX), (0x2D, And, Abs), (0x3D, And, AbsX),
      (0x39, And, AbsY), (0x21, And, IndX), (0x31, And, IndY),
      (0x0A, Asl, Acc), (0x06, Asl, Zp), (0x16, Asl, ZpX), (0x0E, Asl, Abs), (0x1E, Asl, AbsX),
      (0x90, Bcc, Rel), (0xB0, Bcs, Rel), (0xF0, Beq, Rel), (0x30, Bmi, Rel), (0xD0, Bne, Rel),
      (0x10, Bpl, Rel), (0x50, Bvc, Rel), (0x70, Bvs, Rel),
      (0x24, Bit, Zp), (0x2C, Bit, Abs), (0x00, Brk, Imp),
      (0x18, Clc, Imp), (0xD8, Cld, Imp), (0x58, Cli, Imp), (0xB8, Clv, Imp),
      (0xC9, Cmp, Imm), (0xC5, Cmp, Zp), (0xD5, Cmp, ZpX), (0xCD, Cmp, Abs), (0xDD, Cmp, AbsX),
      (0xD9, Cmp, AbsY), (0xC1, Cmp, IndX), (0xD1, Cmp, IndY),
      (0xE0, Cpx, Imm), (0xE4, Cpx, Zp), (0xEC, Cpx, Abs),
      (0xC0, Cpy, Imm), (0xC4, Cpy, Zp), (0xCC, Cpy, Abs),
      (0xC6, Dec, Zp), (0xD6, Dec, ZpX), (0xCE, Dec, Abs), (0xDE, Dec, AbsX), (0xCA, Dex, Imp),
      (0x88, Dey, Imp),
      (0x49, Eor, Imm), (0x45, Eor, Zp), (0x55, Eor, ZpX), (0x4D, Eor, Abs), (0x5D, Eor, AbsX),
      (0x59, Eor, AbsY), (0x41, Eor, IndX), (0x51, Eor, IndY),
      (0xE6, Inc, Zp), (0xF6, Inc, ZpX), (0xEE, Inc, Abs), (0xFE, Inc, AbsX), (0xE8, Inx, Imp),
      (0xC8, Iny, Imp),
      (0x4C, Jmp, Abs), (0x6C, Jmp, Ind), (0x20, Jsr, Abs),
      (0xA9, Lda, Imm), (0xA5, Lda, Zp), (0xB5, Lda, ZpX), (0xAD, Lda, Abs), (0xBD, Lda, AbsX),
      (0xB9, Lda, AbsY), (0xA1, Lda, IndX), (0xB1, Lda, IndY),
      (0xA2, Ldx, Imm), (0xA6, Ldx, Zp), (0xB6, Ldx, ZpY), (0xAE, Ldx, Abs), (0xBE, Ldx, AbsY),
      (0xA0, Ldy, Imm), (0xA4, Ldy, Zp), (0xB4, Ldy, ZpX), (0xAC, Ldy, Abs), (0xBC, Ldy, AbsX),
      (0x4A, Lsr, Acc), (0x46, Lsr, Zp), (0x56, Lsr, ZpX), (0x4E, Lsr, Abs), (0x5E, Lsr, AbsX),
      (0xEA, Nop, Imp),
      (0x09, Ora, Imm), (0x05, Ora, Zp), (0x15, Ora, ZpX), (0x0D, Ora, Abs), (0x1D, Ora, AbsX),
      (0x19, Ora, AbsY), (0x01, Ora, IndX), (0x11, Ora, IndY),
      (0x48, Pha, Imp), (0x08, Php, Imp), (0x68, Pla, Imp), (0x28, Plp, Imp),
      (0x2A, Rol, Acc), (0x26, Rol, Zp), (0x36, Rol, ZpX), (0x2E, Rol, Abs), (0x3E, Rol, AbsX),
      (0x6A, Ror, Acc), (0x66, Ror, Zp), (0x76, Ror, ZpX), (0x6E, Ror, Abs), (0x7E, Ror, AbsX),
      (0x40, Rti, Imp), (0x60, Rts, Imp),
      (0xE9, Sbc, Imm), (0xE5, Sbc, Zp), (0xF5, Sbc, ZpX), (0xED, Sbc, Abs), (0xFD, Sbc, AbsX),
      (0xF9, Sbc, AbsY), (0xE1, Sbc, IndX), (0xF1, Sbc, IndY),
      (0x38, Sec, Imp), (0xF8, Sed, Imp), (0x78, Sei, Imp),
      (0x85, Sta, Zp), (0x95, Sta, ZpX), (0x8D, Sta, Abs), (0x9D, Sta, AbsX), (0x99, Sta, AbsY),
      (0x81, Sta, IndX), (0x91, Sta, IndY),
      (0x86, Stx, Zp), (0x96, Stx, ZpY), (0x8E, Stx, Abs),
      (0x84, Sty, Zp), (0x94, Sty, ZpX), (0x8C, Sty, Abs),
      (0xAA, Tax, Imp), (0xA8, Tay, Imp), (0xBA, Tsx, Imp), (0x8A, Txa, Imp), (0x9A, Txs, Imp),
      (0x98, Tya, Imp)]"

definition decode :: "u8 \<Rightarrow> (Op \<times> Mode) option" where
  "decode opcode = map_option snd (find (\<lambda>e. fst e = opcode) OPCODES)"

datatype StepError = UnknownOpcode u8 u16

section \<open>The processor\<close>

record Cpu =
  cpu_a :: u8
  cpu_x :: u8
  cpu_y :: u8
  cpu_sp :: u8
  cpu_pc :: u16
  cpu_status :: u8
  cpu_memory :: "u16 \<Rightarrow> u8"

definition cpu_new :: Cpu where
  "cpu_new = \<lparr>cpu_a = 0, cpu_x = 0, cpu_y = 0, cpu_sp = 0xFD, cpu_pc = 0,
     cpu_status = FLAG_I OR FLAG_U, cpu_memory = (\<lambda>_. 0)\<rparr>"

definition cpu_read :: "Cpu \<Rightarrow> u16 \<Rightarrow> u8" where
  "cpu_read c addr = cpu_memory c addr"

definition cpu_write :: "u16 \<Rightarrow> u8 \<Rightarrow> Cpu \<Rightarrow> Cpu" where
  "cpu_write addr v c = c\<lparr>cpu_memory := (cpu_memory c)(addr := v)\<rparr>"

text \<open>\<open>u16::from_le_bytes\<close>.\<close>

definition from_le_bytes :: "u8 \<Rightarrow> u8 \<Rightarrow> u16" where
  "from_le_bytes lo hi = ucast lo OR push_bit 8 (ucast hi)"

definition read_u16 :: "Cpu \<Rightarrow> u16 \<Rightarrow> u16" where
  "read_u16 c addr = from_le_bytes (cpu_read c addr) (cpu_read c (addr + 1))"

definition load :: "u16 \<Rightarrow> u8 list \<Rightarrow> Cpu \<Rightarrow> Cpu option" where
  "load origin program c =
     (let start = unat origin in
      if start + length program > 0x10000 then None
      else Some (cpu_write (RESET_VECTOR + 1) (ucast (drop_bit 8 origin))
                  (cpu_write RESET_VECTOR (ucast origin)
                    (c\<lparr>cpu_memory := (\<lambda>a. if start \<le> unat a \<and> unat a < start + length program
                                         then program ! (unat a - start)
                                         else cpu_memory c a)\<rparr>))))"

definition reset :: "Cpu \<Rightarrow> Cpu" where
  "reset c = c\<lparr>cpu_a := 0, cpu_x := 0, cpu_y := 0, cpu_sp := 0xFD,
     cpu_status := FLAG_I OR FLAG_U, cpu_pc := read_u16 c RESET_VECTOR\<rparr>"

definition flag :: "Cpu \<Rightarrow> u8 \<Rightarrow> bool" where
  "flag c f \<longleftrightarrow> cpu_status c AND f \<noteq> 0"

definition set_flag :: "u8 \<Rightarrow> bool \<Rightarrow> Cpu \<Rightarrow> Cpu" where
  "set_flag f on c =
     (if on then c\<lparr>cpu_status := cpu_status c OR f\<rparr>
      else c\<lparr>cpu_status := cpu_status c AND NOT f\<rparr>)"

text \<open>\<open>set_zn\<close> returns its argument; the model returns the new processor only.\<close>

definition set_zn :: "u8 \<Rightarrow> Cpu \<Rightarrow> Cpu" where
  "set_zn v c = set_flag FLAG_N (v AND 0x80 \<noteq> 0) (set_flag FLAG_Z (v = 0) c)"

definition push :: "u8 \<Rightarrow> Cpu \<Rightarrow> Cpu" where
  "push v c = (cpu_write (STACK_BASE + ucast (cpu_sp c)) v c)\<lparr>cpu_sp := cpu_sp c - 1\<rparr>"

definition pull :: "Cpu \<Rightarrow> u8 \<times> Cpu" where
  "pull c =
     (let c' = c\<lparr>cpu_sp := cpu_sp c + 1\<rparr>
      in (cpu_read c' (STACK_BASE + ucast (cpu_sp c')), c'))"

definition push_u16 :: "u16 \<Rightarrow> Cpu \<Rightarrow> Cpu" where
  "push_u16 v c = push (ucast v) (push (ucast (drop_bit 8 v)) c)"

definition pull_u16 :: "Cpu \<Rightarrow> u16 \<times> Cpu" where
  "pull_u16 c =
     (let (lo, c1) = pull c; (hi, c2) = pull c1
      in (ucast lo OR push_bit 8 (ucast hi), c2))"

text \<open>Effective address of the operand; the processor's \<open>pc\<close> points at the first operand byte.\<close>

fun operand_addr :: "Cpu \<Rightarrow> Mode \<Rightarrow> u16 option" where
  "operand_addr c Imm = Some (cpu_pc c)"
| "operand_addr c Zp = Some (ucast (cpu_read c (cpu_pc c)))"
| "operand_addr c ZpX = Some (ucast (cpu_read c (cpu_pc c) + cpu_x c))"
| "operand_addr c ZpY = Some (ucast (cpu_read c (cpu_pc c) + cpu_y c))"
| "operand_addr c Abs = Some (read_u16 c (cpu_pc c))"
| "operand_addr c AbsX = Some (read_u16 c (cpu_pc c) + ucast (cpu_x c))"
| "operand_addr c AbsY = Some (read_u16 c (cpu_pc c) + ucast (cpu_y c))"
| "operand_addr c IndX =
     (let ptr = cpu_read c (cpu_pc c) + cpu_x c
      in Some (from_le_bytes (cpu_read c (ucast ptr)) (cpu_read c (ucast (ptr + 1)))))"
| "operand_addr c IndY =
     (let ptr = cpu_read c (cpu_pc c);
          base = from_le_bytes (cpu_read c (ucast ptr)) (cpu_read c (ucast (ptr + 1)))
      in Some (base + ucast (cpu_y c)))"
| "operand_addr c Ind =
     (let ptr = read_u16 c (cpu_pc c);
          hi_addr = (ptr AND 0xFF00) OR ((ptr + 1) AND 0x00FF)
      in Some (from_le_bytes (cpu_read c ptr) (cpu_read c hi_addr)))"
| "operand_addr c Rel = None"
| "operand_addr c Imp = None"
| "operand_addr c Acc = None"

definition add_with_carry :: "u8 \<Rightarrow> Cpu \<Rightarrow> Cpu" where
  "add_with_carry m c =
     (let sum = ucast (cpu_a c) + ucast m + (if flag c FLAG_C then 1 else 0) :: u16;
          result = ucast sum :: u8;
          c1 = set_flag FLAG_C (sum > 0xFF) c;
          c2 = set_flag FLAG_V ((cpu_a c XOR result) AND (m XOR result) AND 0x80 \<noteq> 0) c1
      in (set_zn result c2)\<lparr>cpu_a := result\<rparr>)"

definition compare :: "u8 \<Rightarrow> u8 \<Rightarrow> Cpu \<Rightarrow> Cpu" where
  "compare reg m c = set_zn (reg - m) (set_flag FLAG_C (reg \<ge> m) c)"

definition branch :: "bool \<Rightarrow> Cpu \<Rightarrow> Cpu" where
  "branch cond c =
     (let offset = cpu_read c (cpu_pc c); nxt = cpu_pc c + 1
      in c\<lparr>cpu_pc := (if cond then nxt + scast offset else nxt)\<rparr>)"

definition shift :: "Mode \<Rightarrow> (Cpu \<Rightarrow> u8 \<Rightarrow> u8 \<times> Cpu) \<Rightarrow> Cpu \<Rightarrow> Cpu option" where
  "shift mode f c =
     (if mode = Acc then (let (r, c') = f c (cpu_a c) in Some (c'\<lparr>cpu_a := r\<rparr>))
      else (case operand_addr c mode of
              None \<Rightarrow> None
            | Some addr \<Rightarrow> (let (r, c') = f c (cpu_read c addr) in Some (cpu_write addr r c'))))"

text \<open>The four closures that \<open>step\<close> passes to \<open>shift\<close>.\<close>

definition asl_f :: "Cpu \<Rightarrow> u8 \<Rightarrow> u8 \<times> Cpu" where
  "asl_f c v = (let r = push_bit 1 v in (r, set_zn r (set_flag FLAG_C (v AND 0x80 \<noteq> 0) c)))"

definition lsr_f :: "Cpu \<Rightarrow> u8 \<Rightarrow> u8 \<times> Cpu" where
  "lsr_f c v = (let r = drop_bit 1 v in (r, set_zn r (set_flag FLAG_C (v AND 1 \<noteq> 0) c)))"

definition rol_f :: "Cpu \<Rightarrow> u8 \<Rightarrow> u8 \<times> Cpu" where
  "rol_f c v =
     (let r = push_bit 1 v OR (if flag c FLAG_C then 1 else 0)
      in (r, set_zn r (set_flag FLAG_C (v AND 0x80 \<noteq> 0) c)))"

definition ror_f :: "Cpu \<Rightarrow> u8 \<Rightarrow> u8 \<times> Cpu" where
  "ror_f c v =
     (let r = drop_bit 1 v OR push_bit 7 (if flag c FLAG_C then 1 else 0)
      in (r, set_zn r (set_flag FLAG_C (v AND 1 \<noteq> 0) c)))"

text \<open>An arm of the \<open>match\<close> in \<open>step\<close> either falls through to the code after the match or
  returns from \<open>step\<close> at once.\<close>

datatype flow = Fall | Return

definition with_operand :: "Mode \<Rightarrow> (u16 \<Rightarrow> Cpu) \<Rightarrow> Cpu \<Rightarrow> (flow \<times> Cpu) option" where
  "with_operand mode k c = map_option (\<lambda>addr. (Fall, k addr)) (operand_addr c mode)"

fun exec :: "Op \<Rightarrow> Mode \<Rightarrow> Cpu \<Rightarrow> (flow \<times> Cpu) option" where
  "exec Lda m c = with_operand m (\<lambda>d. let v = cpu_read c d in (set_zn v c)\<lparr>cpu_a := v\<rparr>) c"
| "exec Ldx m c = with_operand m (\<lambda>d. let v = cpu_read c d in (set_zn v c)\<lparr>cpu_x := v\<rparr>) c"
| "exec Ldy m c = with_operand m (\<lambda>d. let v = cpu_read c d in (set_zn v c)\<lparr>cpu_y := v\<rparr>) c"
| "exec Sta m c = with_operand m (\<lambda>d. cpu_write d (cpu_a c) c) c"
| "exec Stx m c = with_operand m (\<lambda>d. cpu_write d (cpu_x c) c) c"
| "exec Sty m c = with_operand m (\<lambda>d. cpu_write d (cpu_y c) c) c"
| "exec Tax m c = Some (Fall, (set_zn (cpu_a c) c)\<lparr>cpu_x := cpu_a c\<rparr>)"
| "exec Tay m c = Some (Fall, (set_zn (cpu_a c) c)\<lparr>cpu_y := cpu_a c\<rparr>)"
| "exec Txa m c = Some (Fall, (set_zn (cpu_x c) c)\<lparr>cpu_a := cpu_x c\<rparr>)"
| "exec Tya m c = Some (Fall, (set_zn (cpu_y c) c)\<lparr>cpu_a := cpu_y c\<rparr>)"
| "exec Tsx m c = Some (Fall, (set_zn (cpu_sp c) c)\<lparr>cpu_x := cpu_sp c\<rparr>)"
| "exec Txs m c = Some (Fall, c\<lparr>cpu_sp := cpu_x c\<rparr>)"
| "exec Pha m c = Some (Fall, push (cpu_a c) c)"
| "exec Php m c = Some (Fall, push (cpu_status c OR FLAG_B OR FLAG_U) c)"
| "exec Pla m c = (let (v, c') = pull c in Some (Fall, (set_zn v c')\<lparr>cpu_a := v\<rparr>))"
| "exec Plp m c =
     (let (v, c') = pull c in Some (Fall, c'\<lparr>cpu_status := (v AND NOT FLAG_B) OR FLAG_U\<rparr>))"
| "exec And m c =
     with_operand m (\<lambda>d. let v = cpu_a c AND cpu_read c d in (set_zn v c)\<lparr>cpu_a := v\<rparr>) c"
| "exec Eor m c =
     with_operand m (\<lambda>d. let v = cpu_a c XOR cpu_read c d in (set_zn v c)\<lparr>cpu_a := v\<rparr>) c"
| "exec Ora m c =
     with_operand m (\<lambda>d. let v = cpu_a c OR cpu_read c d in (set_zn v c)\<lparr>cpu_a := v\<rparr>) c"
| "exec Bit m c =
     with_operand m (\<lambda>d. let v = cpu_read c d in
       set_flag FLAG_N (v AND 0x80 \<noteq> 0)
         (set_flag FLAG_V (v AND 0x40 \<noteq> 0) (set_flag FLAG_Z (cpu_a c AND v = 0) c))) c"
| "exec Adc m c = with_operand m (\<lambda>d. add_with_carry (cpu_read c d) c) c"
| "exec Sbc m c = with_operand m (\<lambda>d. add_with_carry (NOT (cpu_read c d)) c) c"
| "exec Cmp m c = with_operand m (\<lambda>d. compare (cpu_a c) (cpu_read c d) c) c"
| "exec Cpx m c = with_operand m (\<lambda>d. compare (cpu_x c) (cpu_read c d) c) c"
| "exec Cpy m c = with_operand m (\<lambda>d. compare (cpu_y c) (cpu_read c d) c) c"
| "exec Inc m c = with_operand m (\<lambda>d. let r = cpu_read c d + 1 in cpu_write d r (set_zn r c)) c"
| "exec Dec m c = with_operand m (\<lambda>d. let r = cpu_read c d - 1 in cpu_write d r (set_zn r c)) c"
| "exec Inx m c = Some (Fall, let v = cpu_x c + 1 in (set_zn v c)\<lparr>cpu_x := v\<rparr>)"
| "exec Iny m c = Some (Fall, let v = cpu_y c + 1 in (set_zn v c)\<lparr>cpu_y := v\<rparr>)"
| "exec Dex m c = Some (Fall, let v = cpu_x c - 1 in (set_zn v c)\<lparr>cpu_x := v\<rparr>)"
| "exec Dey m c = Some (Fall, let v = cpu_y c - 1 in (set_zn v c)\<lparr>cpu_y := v\<rparr>)"
| "exec Asl m c = map_option (Pair Fall) (shift m asl_f c)"
| "exec Lsr m c = map_option (Pair Fall) (shift m lsr_f c)"
| "exec Rol m c = map_option (Pair Fall) (shift m rol_f c)"
| "exec Ror m c = map_option (Pair Fall) (shift m ror_f c)"
| "exec Jmp m c = map_option (\<lambda>target. (Return, c\<lparr>cpu_pc := target\<rparr>)) (operand_addr c m)"
| "exec Jsr m c =
     map_option (\<lambda>target. (Return, (push_u16 (cpu_pc c + 1) c)\<lparr>cpu_pc := target\<rparr>)) (operand_addr c m)"
| "exec Rts m c = (let (v, c') = pull_u16 c in Some (Return, c'\<lparr>cpu_pc := v + 1\<rparr>))"
| "exec Rti m c =
     (let (s, c1) = pull c;
          (v, c2) = pull_u16 (c1\<lparr>cpu_status := (s AND NOT FLAG_B) OR FLAG_U\<rparr>)
      in Some (Return, c2\<lparr>cpu_pc := v\<rparr>))"
| "exec Brk m c =
     (let c1 = push_u16 (cpu_pc c + 1) c;
          c2 = push (cpu_status c1 OR FLAG_B OR FLAG_U) c1;
          c3 = set_flag FLAG_I True c2
      in Some (Return, c3\<lparr>cpu_pc := read_u16 c3 IRQ_VECTOR\<rparr>))"
| "exec Bcc m c = Some (Fall, branch (\<not> flag c FLAG_C) c)"
| "exec Bcs m c = Some (Fall, branch (flag c FLAG_C) c)"
| "exec Beq m c = Some (Fall, branch (flag c FLAG_Z) c)"
| "exec Bne m c = Some (Fall, branch (\<not> flag c FLAG_Z) c)"
| "exec Bmi m c = Some (Fall, branch (flag c FLAG_N) c)"
| "exec Bpl m c = Some (Fall, branch (\<not> flag c FLAG_N) c)"
| "exec Bvs m c = Some (Fall, branch (flag c FLAG_V) c)"
| "exec Bvc m c = Some (Fall, branch (\<not> flag c FLAG_V) c)"
| "exec Clc m c = Some (Fall, set_flag FLAG_C False c)"
| "exec Sec m c = Some (Fall, set_flag FLAG_C True c)"
| "exec Cld m c = Some (Fall, set_flag FLAG_D False c)"
| "exec Sed m c = Some (Fall, set_flag FLAG_D True c)"
| "exec Cli m c = Some (Fall, set_flag FLAG_I False c)"
| "exec Sei m c = Some (Fall, set_flag FLAG_I True c)"
| "exec Clv m c = Some (Fall, set_flag FLAG_V False c)"
| "exec Nop m c = Some (Fall, c)"

definition is_branch :: "Op \<Rightarrow> bool" where
  "is_branch op \<longleftrightarrow> op \<in> {Bcc, Bcs, Beq, Bne, Bmi, Bpl, Bvs, Bvc}"

definition step :: "Cpu \<Rightarrow> ((u8, StepError) result \<times> Cpu) option" where
  "step c =
     (let at = cpu_pc c; opcode = cpu_read c at
      in case decode opcode of
           None \<Rightarrow> Some (Err (UnknownOpcode opcode at), c)
         | Some (op, mode) \<Rightarrow>
             (case exec op mode (c\<lparr>cpu_pc := at + 1\<rparr>) of
                None \<Rightarrow> None
              | Some (Return, c') \<Rightarrow> Some (Ok opcode, c')
              | Some (Fall, c') \<Rightarrow>
                  Some (Ok opcode,
                    if is_branch op then c' else c'\<lparr>cpu_pc := cpu_pc c' + (mode_size mode - 1)\<rparr>)))"

text \<open>The loop of \<open>run\<close>: \<open>k\<close> iterations are left and \<open>n\<close> are done.\<close>

fun run_loop :: "nat \<Rightarrow> nat \<Rightarrow> Cpu \<Rightarrow> ((nat, StepError) result \<times> Cpu) option" where
  "run_loop 0 n c = Some (Ok n, c)"
| "run_loop (Suc k) n c =
     (case step c of
        None \<Rightarrow> None
      | Some (Err e, c') \<Rightarrow> Some (Err e, c')
      | Some (Ok opcode, c') \<Rightarrow> if opcode = 0 then Some (Ok (Suc n), c') else run_loop k (Suc n) c')"

definition run :: "nat \<Rightarrow> Cpu \<Rightarrow> ((nat, StepError) result \<times> Cpu) option" where
  "run max_steps c = run_loop max_steps 0 c"

definition load_and_run :: "u16 \<Rightarrow> u8 list \<Rightarrow> Cpu \<Rightarrow> ((nat, StepError) result \<times> Cpu) option" where
  "load_and_run origin program c =
     (case load origin program c of
        None \<Rightarrow> None
      | Some c1 \<Rightarrow> run 1000000 (reset c1))"

section \<open>Words of eight and sixteen bits\<close>

lemma unat_u8_less: "unat (w :: u8) < 256"
  using unsigned_less [of w] by simp

lemma unat_ucast: "unat (ucast (w :: 'a::len word) :: 'b::len word) = unat w mod 2 ^ LENGTH('b)"
  by (simp add: unsigned_ucast_eq take_bit_eq_mod)

lemma bit7_u8: "bit (w :: u8) 7 \<longleftrightarrow> 128 \<le> unat w"
proof -
  have "odd (n div 128) \<longleftrightarrow> 128 \<le> n" if "n < 256" for n :: nat
  proof (cases "n < 128")
    case False
    with that have "n div 128 = 1" by (intro div_nat_eqI) simp_all
    with False show ?thesis by simp
  qed simp
  moreover have "bit w 7 \<longleftrightarrow> odd (unat w div 128)"
  proof -
    have "bit w 7 \<longleftrightarrow> bit (unat w) 7" by (simp add: bit_unsigned_iff)
    then show ?thesis by (simp add: bit_iff_odd)
  qed
  ultimately show ?thesis using unat_u8_less [of w] by metis
qed

lemma sint_u8: "sint (w :: u8) = (if 128 \<le> unat w then int (unat w) - 256 else int (unat w))"
proof -
  have "uint w < 2 ^ LENGTH(8)" by (rule unsigned_less)
  then have t: "take_bit 8 (uint w) = int (unat w)"
    by (simp add: take_bit_int_eq_self)
  have "sint w = take_bit 8 (uint w) - 256 * of_bool (bit (uint w) 7)"
    by (simp add: sint_uint signed_take_bit_eq_take_bit_minus)
  then show ?thesis
    by (simp add: t bit_uint_iff bit7_u8)
qed

lemma from_le_bytes_split [simp]: "from_le_bytes (ucast (v :: u16)) (ucast (drop_bit 8 v)) = v"
  unfolding from_le_bytes_def by (rule bit_word_eqI) (auto simp: bit_simps)

lemma unat_not_u8: "unat (NOT (m :: u8)) = 255 - unat m"
proof -
  have "NOT m = 255 - m" by (simp add: not_eq_complement)
  moreover have "m \<le> 255" using unat_u8_less [of m] by (simp add: word_le_nat_alt)
  ultimately show ?thesis by (simp add: unat_sub)
qed

section \<open>Flags\<close>

definition is_flag :: "u8 \<Rightarrow> bool" where
  "is_flag f \<longleftrightarrow> (\<exists>k < 8. f = 2 ^ k)"

lemma is_flag [simp]:
  "is_flag FLAG_C" "is_flag FLAG_Z" "is_flag FLAG_I" "is_flag FLAG_D"
  "is_flag FLAG_B" "is_flag FLAG_U" "is_flag FLAG_V" "is_flag FLAG_N"
  unfolding is_flag_def flag_defs
  by (rule exI [of _ 0], simp) (rule exI [of _ 1], simp, rule exI [of _ 2], simp,
      rule exI [of _ 3], simp, rule exI [of _ 4], simp, rule exI [of _ 5], simp,
      rule exI [of _ 6], simp, rule exI [of _ 7], simp)

lemma flag_neq [simp]:
  "FLAG_C \<noteq> FLAG_Z" "FLAG_C \<noteq> FLAG_I" "FLAG_C \<noteq> FLAG_D" "FLAG_C \<noteq> FLAG_B" "FLAG_C \<noteq> FLAG_U" "FLAG_C \<noteq> FLAG_V" "FLAG_C \<noteq> FLAG_N"
  "FLAG_Z \<noteq> FLAG_C" "FLAG_Z \<noteq> FLAG_I" "FLAG_Z \<noteq> FLAG_D" "FLAG_Z \<noteq> FLAG_B" "FLAG_Z \<noteq> FLAG_U" "FLAG_Z \<noteq> FLAG_V" "FLAG_Z \<noteq> FLAG_N"
  "FLAG_I \<noteq> FLAG_C" "FLAG_I \<noteq> FLAG_Z" "FLAG_I \<noteq> FLAG_D" "FLAG_I \<noteq> FLAG_B" "FLAG_I \<noteq> FLAG_U" "FLAG_I \<noteq> FLAG_V" "FLAG_I \<noteq> FLAG_N"
  "FLAG_D \<noteq> FLAG_C" "FLAG_D \<noteq> FLAG_Z" "FLAG_D \<noteq> FLAG_I" "FLAG_D \<noteq> FLAG_B" "FLAG_D \<noteq> FLAG_U" "FLAG_D \<noteq> FLAG_V" "FLAG_D \<noteq> FLAG_N"
  "FLAG_B \<noteq> FLAG_C" "FLAG_B \<noteq> FLAG_Z" "FLAG_B \<noteq> FLAG_I" "FLAG_B \<noteq> FLAG_D" "FLAG_B \<noteq> FLAG_U" "FLAG_B \<noteq> FLAG_V" "FLAG_B \<noteq> FLAG_N"
  "FLAG_U \<noteq> FLAG_C" "FLAG_U \<noteq> FLAG_Z" "FLAG_U \<noteq> FLAG_I" "FLAG_U \<noteq> FLAG_D" "FLAG_U \<noteq> FLAG_B" "FLAG_U \<noteq> FLAG_V" "FLAG_U \<noteq> FLAG_N"
  "FLAG_V \<noteq> FLAG_C" "FLAG_V \<noteq> FLAG_Z" "FLAG_V \<noteq> FLAG_I" "FLAG_V \<noteq> FLAG_D" "FLAG_V \<noteq> FLAG_B" "FLAG_V \<noteq> FLAG_U" "FLAG_V \<noteq> FLAG_N"
  "FLAG_N \<noteq> FLAG_C" "FLAG_N \<noteq> FLAG_Z" "FLAG_N \<noteq> FLAG_I" "FLAG_N \<noteq> FLAG_D" "FLAG_N \<noteq> FLAG_B" "FLAG_N \<noteq> FLAG_U" "FLAG_N \<noteq> FLAG_V"
  by (simp_all add: flag_defs)

lemma set_flag_fields [simp]:
  "cpu_a (set_flag f b c) = cpu_a c" "cpu_x (set_flag f b c) = cpu_x c"
  "cpu_y (set_flag f b c) = cpu_y c" "cpu_sp (set_flag f b c) = cpu_sp c"
  "cpu_pc (set_flag f b c) = cpu_pc c" "cpu_memory (set_flag f b c) = cpu_memory c"
  by (simp_all add: set_flag_def)

lemma flag_upd [simp]:
  "flag (c\<lparr>cpu_a := v\<rparr>) f = flag c f" "flag (c\<lparr>cpu_x := v\<rparr>) f = flag c f"
  "flag (c\<lparr>cpu_y := v\<rparr>) f = flag c f" "flag (c\<lparr>cpu_sp := v\<rparr>) f = flag c f"
  "flag (c\<lparr>cpu_pc := p\<rparr>) f = flag c f" "flag (c\<lparr>cpu_memory := mm\<rparr>) f = flag c f"
  by (simp_all add: flag_def)

lemma flag_bit: "flag c (2 ^ k) \<longleftrightarrow> bit (cpu_status c) k"
  using bit_iff_and_push_bit_not_eq_0 [of "cpu_status c" k] by (simp add: flag_def)

lemma flag_set_flag [simp]:
  assumes "is_flag f" and "is_flag g"
  shows "flag (set_flag f b c) g = (if g = f then b else flag c g)"
proof -
  from assms obtain j k where f: "f = 2 ^ j" "j < 8" and g: "g = 2 ^ k" "k < 8"
    by (auto simp: is_flag_def)
  have "bit (2 ^ j :: u8) j \<noteq> bit (2 ^ k :: u8) j" if "j \<noteq> k"
    using that f(2) by (auto simp: bit_simps)
  then have eq: "g = f \<longleftrightarrow> k = j" using f g by metis
  have "bit (cpu_status (set_flag (2 ^ j) b c)) k \<longleftrightarrow> (if k = j then b else bit (cpu_status c) k)"
    using f(2) g(2) by (auto simp: set_flag_def bit_simps)
  then show ?thesis
    using f g eq by (simp add: flag_bit)
qed

lemma set_zn_fields [simp]:
  "cpu_a (set_zn v c) = cpu_a c" "cpu_x (set_zn v c) = cpu_x c" "cpu_y (set_zn v c) = cpu_y c"
  "cpu_sp (set_zn v c) = cpu_sp c" "cpu_pc (set_zn v c) = cpu_pc c"
  "cpu_memory (set_zn v c) = cpu_memory c"
  by (simp_all add: set_zn_def)

lemma and_0x80: "(v :: u8) AND 0x80 \<noteq> 0 \<longleftrightarrow> 128 \<le> unat v"
proof -
  have "v AND 0x80 \<noteq> 0 \<longleftrightarrow> bit v 7"
    using bit_iff_and_push_bit_not_eq_0 [of v 7] by simp
  then show ?thesis by (simp add: bit7_u8)
qed

lemma flag_set_zn [simp]:
  "is_flag g \<Longrightarrow> flag (set_zn v c) g =
     (if g = FLAG_N then 128 \<le> unat v else if g = FLAG_Z then v = 0 else flag c g)"
  by (simp add: set_zn_def and_0x80)

section \<open>Arithmetic\<close>

lemma add_with_carry_sum:
  "unat (cpu_a (add_with_carry m c)) + (if flag (add_with_carry m c) FLAG_C then 256 else 0)
     = unat (cpu_a c) + unat m + (if flag c FLAG_C then 1 else 0)"
proof -
  define s where "s = (ucast (cpu_a c) + ucast m + (if flag c FLAG_C then 1 else 0) :: u16)"
  have s: "unat s = unat (cpu_a c) + unat m + (if flag c FLAG_C then 1 else 0)"
    using unat_u8_less [of "cpu_a c"] unat_u8_less [of m]
    by (simp add: s_def unat_word_ariths unat_ucast mod_less)
  have a: "unat (cpu_a (add_with_carry m c)) = unat s mod 256"
    by (simp add: add_with_carry_def s_def Let_def unat_ucast)
  have f: "flag (add_with_carry m c) FLAG_C \<longleftrightarrow> 255 < unat s"
    by (simp add: add_with_carry_def s_def Let_def word_less_nat_alt)
  have "x mod 256 + (if 255 < x then 256 else 0) = x" if "x < 512" for x :: nat
    using that by (cases "x < 256") (auto simp: le_mod_geq mod_if)
  moreover have "unat s < 512"
    using s unat_u8_less [of "cpu_a c"] unat_u8_less [of m] by simp
  ultimately show ?thesis
    unfolding a f s [symmetric] by blast
qed

lemma add_with_carry_flags:
  "flag (add_with_carry m c) FLAG_Z \<longleftrightarrow> cpu_a (add_with_carry m c) = 0"
  "flag (add_with_carry m c) FLAG_N \<longleftrightarrow> bit (cpu_a (add_with_carry m c)) 7"
  "flag (add_with_carry m c) FLAG_V \<longleftrightarrow>
     bit ((cpu_a c XOR cpu_a (add_with_carry m c)) AND (m XOR cpu_a (add_with_carry m c))) 7"
  by (simp_all add: add_with_carry_def Let_def bit7_u8 and_0x80 flip: and.assoc)

text \<open>The overflow flag is set exactly when the signed sum does not fit in a byte.\<close>

lemma add_with_carry_V:
  "flag (add_with_carry m c) FLAG_V \<longleftrightarrow>
     sint (cpu_a c) + sint m + (if flag c FLAG_C then 1 else 0) \<notin> {-128..127}"
proof -
  define r where "r = cpu_a (add_with_carry m c)"
  have v: "flag (add_with_carry m c) FLAG_V \<longleftrightarrow>
      bit (cpu_a c) 7 \<noteq> bit r 7 \<and> bit m 7 \<noteq> bit r 7"
    by (simp add: add_with_carry_flags r_def bit_simps)
  have s: "unat r + (if flag (add_with_carry m c) FLAG_C then 256 else 0)
      = unat (cpu_a c) + unat m + (if flag c FLAG_C then 1 else 0)"
    unfolding r_def by (rule add_with_carry_sum)
  have "int (unat r) + (if flag (add_with_carry m c) FLAG_C then 256 else 0)
      = int (unat (cpu_a c)) + int (unat m) + (if flag c FLAG_C then 1 else 0)"
    using s by (simp split: if_splits del: of_nat_unat)
  then show ?thesis
    unfolding v bit7_u8 sint_u8
    using unat_u8_less [of r] unat_u8_less [of "cpu_a c"] unat_u8_less [of m]
    by (auto split: if_splits simp del: of_nat_unat)
qed

lemma unat_sub_u8: "int (unat (a - b :: u8)) = (int (unat a) - int (unat b)) mod 256"
  by (simp add: uint_word_ariths)

lemma compare_flags:
  "flag (compare reg m c) FLAG_C \<longleftrightarrow> unat m \<le> unat reg"
  "flag (compare reg m c) FLAG_Z \<longleftrightarrow> reg = m"
  "flag (compare reg m c) FLAG_N \<longleftrightarrow> 128 \<le> (int (unat reg) - int (unat m)) mod 256"
  by (simp_all add: compare_def word_le_nat_alt del: of_nat_unat flip: unat_sub_u8)

text \<open>Subtraction: \<open>SBC\<close> adds the complement, and the carry flag is the inverted borrow.\<close>

lemma add_with_carry_not:
  fixes m :: u8 and c :: Cpu
  defines "d \<equiv> int (unat (cpu_a c)) - int (unat m) - (if flag c FLAG_C then 0 else 1)"
  shows "int (unat (cpu_a (add_with_carry (NOT m) c))) = d mod 256"
    and "flag (add_with_carry (NOT m) c) FLAG_C \<longleftrightarrow> 0 \<le> d"
proof -
  define r where "r = cpu_a (add_with_carry (NOT m) c)"
  define k where "k = flag (add_with_carry (NOT m) c) FLAG_C"
  have "unat r + (if k then 256 else 0) = unat (cpu_a c) + (255 - unat m) + (if flag c FLAG_C then 1 else 0)"
    unfolding r_def k_def using add_with_carry_sum [of "NOT m" c] by (simp add: unat_not_u8)
  then have s: "int (unat r) + (if k then 256 else 0) = d + 256"
    unfolding d_def using unat_u8_less [of m] by (simp split: if_splits del: of_nat_unat)
  have r: "0 \<le> int (unat r)" "int (unat r) < 256"
    using unat_u8_less [of r] by linarith+
  show "k \<longleftrightarrow> 0 \<le> d"
    using s r by (simp split: if_splits del: of_nat_unat)
  have "int (unat r) = int (unat r) mod 256"
    using r by simp
  also have "\<dots> = (int (unat r) + (if k then 256 else 0)) mod 256"
    by simp
  also have "\<dots> = d mod 256"
    unfolding s by simp
  finally show "int (unat r) = d mod 256" .
qed

section \<open>The bus, the stack\<close>

text \<open>What the processor relies on: a byte-addressed memory.\<close>

locale bus =
  fixes rd :: "'s \<Rightarrow> u16 \<Rightarrow> u8" and wr :: "u16 \<Rightarrow> u8 \<Rightarrow> 's \<Rightarrow> 's"
  assumes rd_wr: "rd (wr a v s) b = (if b = a then v else rd s b)"
begin

lemma rd_wr_same: "rd (wr a v s) a = v"
  by (simp add: rd_wr)

lemma rd_wr_other: "b \<noteq> a \<Longrightarrow> rd (wr a v s) b = rd s b"
  by (simp add: rd_wr)

text \<open>A 16-bit value written low byte first reads back, at any address, also across the
  end of memory.\<close>

lemma word_roundtrip:
  assumes "t = wr (a + 1) (ucast (drop_bit 8 v)) (wr a (ucast v) s)"
  shows "from_le_bytes (rd t a) (rd t (a + 1)) = v"
proof -
  have "a + 1 \<noteq> a" by simp
  then show ?thesis unfolding assms by (simp add: rd_wr)
qed

end

interpretation cpu_bus: bus cpu_read cpu_write
  by unfold_locales (simp add: cpu_read_def cpu_write_def)

lemma cpu_read_upd [simp]:
  "cpu_read (c\<lparr>cpu_a := v\<rparr>) a = cpu_read c a" "cpu_read (c\<lparr>cpu_x := v\<rparr>) a = cpu_read c a"
  "cpu_read (c\<lparr>cpu_y := v\<rparr>) a = cpu_read c a" "cpu_read (c\<lparr>cpu_sp := v\<rparr>) a = cpu_read c a"
  "cpu_read (c\<lparr>cpu_pc := p\<rparr>) a = cpu_read c a" "cpu_read (c\<lparr>cpu_status := v\<rparr>) a = cpu_read c a"
  "cpu_read (set_flag f b c) a = cpu_read c a" "cpu_read (set_zn v c) a = cpu_read c a"
  by (simp_all add: cpu_read_def)

lemma cpu_write_fields [simp]:
  "cpu_a (cpu_write a v c) = cpu_a c" "cpu_x (cpu_write a v c) = cpu_x c"
  "cpu_y (cpu_write a v c) = cpu_y c" "cpu_sp (cpu_write a v c) = cpu_sp c"
  "cpu_pc (cpu_write a v c) = cpu_pc c" "cpu_status (cpu_write a v c) = cpu_status c"
  "flag (cpu_write a v c) f = flag c f"
  by (simp_all add: cpu_write_def flag_def)

definition stack_addr :: "u8 \<Rightarrow> u16" where
  "stack_addr s = STACK_BASE + ucast s"

lemma unat_stack_addr: "unat (stack_addr s) = 256 + unat s"
  using unat_u8_less [of s]
  by (simp add: stack_addr_def STACK_BASE_def unat_word_ariths unat_ucast)

lemma stack_addr_eq [simp]: "stack_addr s = stack_addr t \<longleftrightarrow> s = t"
proof
  assume "stack_addr s = stack_addr t"
  then have "unat (stack_addr s) = unat (stack_addr t)" by simp
  then show "s = t" by (simp add: unat_stack_addr word_unat_eq_iff)
qed simp

text \<open>The stack wraps within page one: a push only ever writes there.\<close>

lemma stack_addr_page: "0x100 \<le> unat (stack_addr s) \<and> unat (stack_addr s) \<le> 0x1FF"
  using unat_u8_less [of s] by (simp add: unat_stack_addr)

lemma push_eq: "push v c = (cpu_write (stack_addr (cpu_sp c)) v c)\<lparr>cpu_sp := cpu_sp c - 1\<rparr>"
  by (simp add: push_def stack_addr_def)

lemma pull_eq: "pull c = (cpu_read c (stack_addr (cpu_sp c + 1)), c\<lparr>cpu_sp := cpu_sp c + 1\<rparr>)"
  by (simp add: pull_def stack_addr_def Let_def)

lemma pull_u16_eq:
  "pull_u16 c =
     (from_le_bytes (cpu_read c (stack_addr (cpu_sp c + 1))) (cpu_read c (stack_addr (cpu_sp c + 2))),
      c\<lparr>cpu_sp := cpu_sp c + 2\<rparr>)"
  by (simp add: pull_u16_def pull_eq from_le_bytes_def add.commute)

lemma push_u16_eq:
  "push_u16 v c =
     (cpu_write (stack_addr (cpu_sp c - 1)) (ucast v)
       (cpu_write (stack_addr (cpu_sp c)) (ucast (drop_bit 8 v)) c))\<lparr>cpu_sp := cpu_sp c - 2\<rparr>"
  by (simp add: push_u16_def push_eq cpu_write_def)

lemma pull_push: "pull (push v c) = (v, cpu_write (stack_addr (cpu_sp c)) v c)"
  by (simp add: pull_eq push_eq cpu_bus.rd_wr)

lemma pull_u16_push_u16:
  "fst (pull_u16 (push_u16 v c)) = v \<and> cpu_sp (snd (pull_u16 (push_u16 v c))) = cpu_sp c"
  by (simp add: pull_u16_eq push_u16_eq cpu_bus.rd_wr)

section \<open>Decoding: no instruction reaches \<open>unreachable!\<close>\<close>

text \<open>The operations that compute an operand address in the mode they are decoded with.\<close>

definition takes_operand :: "Op \<Rightarrow> Mode \<Rightarrow> bool" where
  "takes_operand op m \<longleftrightarrow>
     op \<in> {Lda, Ldx, Ldy, Sta, Stx, Sty, And, Eor, Ora, Bit, Adc, Sbc, Cmp, Cpx, Cpy, Inc, Dec, Jmp, Jsr}
     \<or> op \<in> {Asl, Lsr, Rol, Ror} \<and> m \<noteq> Acc"

definition has_operand :: "Mode \<Rightarrow> bool" where
  "has_operand m \<longleftrightarrow> m \<notin> {Rel, Imp, Acc}"

lemma operand_addr_None [simp]: "operand_addr c m = None \<longleftrightarrow> \<not> has_operand m"
  by (cases m) (simp_all add: has_operand_def Let_def)

lemma shift_None: "shift m f c = None \<longleftrightarrow> m \<noteq> Acc \<and> \<not> has_operand m"
  using operand_addr_None [of c m] by (auto simp: shift_def simp del: operand_addr_None split: option.splits prod.splits)

lemma exec_None: "exec op m c = None \<longleftrightarrow> takes_operand op m \<and> \<not> has_operand m"
  by (cases op) (simp_all add: takes_operand_def with_operand_def shift_None pull_eq pull_u16_eq Let_def
      split: option.splits prod.splits)

lemma OPCODES_operands:
  "list_all (\<lambda>(b, op, m). takes_operand op m \<longrightarrow> has_operand m) OPCODES"
  by (simp add: OPCODES_def takes_operand_def has_operand_def)

lemma OPCODES_distinct: "distinct (map fst OPCODES)"
  by (simp add: OPCODES_def)

lemma decode_Some: "decode b = Some (op, m) \<longleftrightarrow> (b, op, m) \<in> set OPCODES"
proof
  assume "decode b = Some (op, m)"
  then show "(b, op, m) \<in> set OPCODES"
    by (auto simp: decode_def find_Some_iff) (metis fst_conv nth_mem)
next
  assume e: "(b, op, m) \<in> set OPCODES"
  then obtain e where f: "find (\<lambda>e. fst e = b) OPCODES = Some e"
    by (cases "find (\<lambda>e. fst e = b) OPCODES") (auto simp: find_None_iff)
  then have "e \<in> set OPCODES" "fst e = b"
    by (auto simp: find_Some_iff)
  with e have "e = (b, op, m)"
    using OPCODES_distinct by (metis eq_key_imp_eq_value prod.collapse)
  with f show "decode b = Some (op, m)"
    by (simp add: decode_def)
qed

lemma decode_exec: "decode b = Some (op, m) \<Longrightarrow> \<exists>f c'. exec op m c = Some (f, c')"
  using OPCODES_operands exec_None [of op m c]
  by (cases "exec op m c") (auto simp: decode_Some list_all_iff)

section \<open>What one instruction changes\<close>

lemma branch_fields [simp]:
  "cpu_a (branch b c) = cpu_a c" "cpu_x (branch b c) = cpu_x c" "cpu_y (branch b c) = cpu_y c"
  "cpu_sp (branch b c) = cpu_sp c" "cpu_status (branch b c) = cpu_status c"
  "cpu_memory (branch b c) = cpu_memory c" "flag (branch b c) f = flag c f"
  by (simp_all add: branch_def Let_def flag_def)

lemma push_fields [simp]:
  "cpu_a (push v c) = cpu_a c" "cpu_x (push v c) = cpu_x c" "cpu_y (push v c) = cpu_y c"
  "cpu_pc (push v c) = cpu_pc c" "cpu_status (push v c) = cpu_status c" "flag (push v c) f = flag c f"
  by (simp_all add: push_eq)

lemma push_u16_fields [simp]:
  "cpu_a (push_u16 v c) = cpu_a c" "cpu_x (push_u16 v c) = cpu_x c" "cpu_y (push_u16 v c) = cpu_y c"
  "cpu_pc (push_u16 v c) = cpu_pc c" "cpu_status (push_u16 v c) = cpu_status c"
  "flag (push_u16 v c) f = flag c f"
  by (simp_all add: push_u16_def)

lemma add_with_carry_frame [simp]:
  "cpu_pc (add_with_carry m c) = cpu_pc c" "cpu_memory (add_with_carry m c) = cpu_memory c"
  "is_flag g \<Longrightarrow> g \<notin> {FLAG_C, FLAG_V, FLAG_Z, FLAG_N} \<Longrightarrow> flag (add_with_carry m c) g = flag c g"
  by (simp_all add: add_with_carry_def Let_def)

lemma compare_frame [simp]:
  "cpu_pc (compare r m c) = cpu_pc c" "cpu_memory (compare r m c) = cpu_memory c"
  "is_flag g \<Longrightarrow> g \<notin> {FLAG_C, FLAG_Z, FLAG_N} \<Longrightarrow> flag (compare r m c) g = flag c g"
  by (simp_all add: compare_def)

definition pure_shift :: "(Cpu \<Rightarrow> u8 \<Rightarrow> u8 \<times> Cpu) \<Rightarrow> bool" where
  "pure_shift f \<longleftrightarrow> (\<forall>c v. cpu_pc (snd (f c v)) = cpu_pc c \<and> cpu_memory (snd (f c v)) = cpu_memory c
     \<and> (\<forall>g. is_flag g \<and> g \<notin> {FLAG_C, FLAG_Z, FLAG_N} \<longrightarrow> flag (snd (f c v)) g = flag c g))"

lemma pure_shifts [simp]: "pure_shift asl_f" "pure_shift lsr_f" "pure_shift rol_f" "pure_shift ror_f"
  by (simp_all add: pure_shift_def asl_f_def lsr_f_def rol_f_def ror_f_def Let_def)

lemma shift_frame:
  assumes "shift m f c = Some c'" and "pure_shift f"
  shows "cpu_pc c' = cpu_pc c"
    and "cpu_memory c' a \<noteq> cpu_memory c a \<Longrightarrow> operand_addr c m = Some a"
    and "is_flag g \<Longrightarrow> g \<notin> {FLAG_C, FLAG_Z, FLAG_N} \<Longrightarrow> flag c' g = flag c g"
  using assms
  by (auto simp: shift_def pure_shift_def cpu_write_def split: if_splits option.splits prod.splits;
      metis snd_conv)+

text \<open>An arm that falls through leaves the program counter to the code after the match.\<close>

lemma exec_pc:
  "exec op m c = Some (Fall, c') \<Longrightarrow> \<not> is_branch op \<Longrightarrow> cpu_pc c' = cpu_pc c"
  by (cases op)
    (auto simp: with_operand_def is_branch_def pull_eq pull_u16_eq Let_def cpu_write_def
      dest: shift_frame(1) split: prod.splits)

text \<open>Memory changes at the operand's address or in the stack page only.\<close>

definition stack_page :: "u16 set" where
  "stack_page = range stack_addr"

lemma stack_addr_in [simp]: "stack_addr s \<in> stack_page"
  by (simp add: stack_page_def)

lemma push_memory: "cpu_memory (push v c) a \<noteq> cpu_memory c a \<Longrightarrow> a \<in> stack_page"
  by (auto simp: push_eq cpu_write_def split: if_splits)

lemma push_u16_memory: "cpu_memory (push_u16 v c) a \<noteq> cpu_memory c a \<Longrightarrow> a \<in> stack_page"
  by (metis push_memory push_u16_def)

lemma exec_memory:
  assumes "exec op m c = Some (f, c')" and "cpu_memory c' a \<noteq> cpu_memory c a"
  shows "operand_addr c m = Some a \<or> a \<in> stack_page"
  using assms
  by (cases op)
    (auto simp: with_operand_def pull_eq pull_u16_eq Let_def cpu_write_def
      dest: shift_frame(2) push_memory push_u16_memory split: prod.splits if_splits,
     (metis push_memory push_u16_memory)+)

section \<open>The status register\<close>

text \<open>In the status register the unused bit is always set and the break bit never is: it
  exists only in the copies pushed by \<open>PHP\<close> and \<open>BRK\<close>.\<close>

definition status_ok :: "Cpu \<Rightarrow> bool" where
  "status_ok c \<longleftrightarrow> flag c FLAG_U \<and> \<not> flag c FLAG_B"

lemma flag_UB:
  "flag c FLAG_U \<longleftrightarrow> bit (cpu_status c) 5" "flag c FLAG_B \<longleftrightarrow> bit (cpu_status c) 4"
  using flag_bit [of c 5] flag_bit [of c 4] by (simp_all add: flag_defs)

lemma pulled_status_bits:
  "bit ((v AND NOT FLAG_B) OR FLAG_U) 5" "\<not> bit ((v AND NOT FLAG_B) OR FLAG_U) 4"
  by (simp_all add: bit_simps flag_defs)

lemma pulled_status_ok: "status_ok (c\<lparr>cpu_status := (v AND NOT FLAG_B) OR FLAG_U\<rparr>)"
  by (simp add: status_ok_def flag_UB pulled_status_bits)

lemma exec_status:
  assumes "exec op m c = Some (f, c')" and "status_ok c"
  shows "status_ok c'"
  using assms pulled_status_ok
  by (cases op)
    (auto simp: with_operand_def pull_eq pull_u16_eq Let_def status_ok_def
      dest: shift_frame(3) [where g = FLAG_U] shift_frame(3) [where g = FLAG_B] split: prod.splits)

section \<open>Steps and runs\<close>

lemma step_cases:
  assumes "decode (cpu_read c (cpu_pc c)) = Some (op, m)"
  obtains c' where "exec op m (c\<lparr>cpu_pc := cpu_pc c + 1\<rparr>) = Some (Return, c')"
      and "step c = Some (Ok (cpu_read c (cpu_pc c)), c')"
  | c' where "exec op m (c\<lparr>cpu_pc := cpu_pc c + 1\<rparr>) = Some (Fall, c')"
      and "step c = Some (Ok (cpu_read c (cpu_pc c)),
             if is_branch op then c' else c'\<lparr>cpu_pc := cpu_pc c' + (mode_size m - 1)\<rparr>)"
proof -
  obtain f c' where e: "exec op m (c\<lparr>cpu_pc := cpu_pc c + 1\<rparr>) = Some (f, c')"
    using decode_exec [OF assms] by blast
  show thesis
    by (cases f) (use e assms that in \<open>auto simp: step_def Let_def\<close>)
qed

lemma status_ok_upd_pc [simp]: "status_ok (c\<lparr>cpu_pc := p\<rparr>) = status_ok c"
  by (simp add: status_ok_def)

lemma step_status: "step c = Some (r, c') \<Longrightarrow> status_ok c \<Longrightarrow> status_ok c'"
proof (cases "decode (cpu_read c (cpu_pc c))")
  case None
  moreover assume "step c = Some (r, c')" "status_ok c"
  ultimately show ?thesis by (simp add: step_def Let_def)
next
  case (Some d)
  moreover assume s: "step c = Some (r, c')" "status_ok c"
  obtain op m where d: "d = (op, m)" by (cases d)
  have ok: "status_ok (c\<lparr>cpu_pc := cpu_pc c + 1\<rparr>)" using s(2) by simp
  from Some d show ?thesis
    by (auto elim!: step_cases simp: s(1) dest: exec_status [OF _ ok] split: if_splits)
qed

lemma step_exists: "\<exists>r c'. step c = Some (r, c')"
  by (cases "decode (cpu_read c (cpu_pc c))") (auto elim: step_cases simp: step_def Let_def)

text \<open>Instructions that completed without being \<open>BRK\<close>, one after the other.\<close>

inductive plain_steps :: "nat \<Rightarrow> Cpu \<Rightarrow> Cpu \<Rightarrow> bool" where
  plain_0: "plain_steps 0 c c"
| plain_Suc: "step c = Some (Ok b, c1) \<Longrightarrow> b \<noteq> 0 \<Longrightarrow> plain_steps n c1 c2 \<Longrightarrow> plain_steps (Suc n) c c2"

inductive_cases plain_steps_SucE: "plain_steps (Suc n) c c2"

lemma plain_steps_snoc:
  "plain_steps n c c1 \<Longrightarrow> step c1 = Some (Ok b, c2) \<Longrightarrow> b \<noteq> 0 \<Longrightarrow> plain_steps (Suc n) c c2"
  by (induction rule: plain_steps.induct) (auto intro: plain_steps.intros)

lemma plain_steps_status: "plain_steps n c c' \<Longrightarrow> status_ok c \<Longrightarrow> status_ok c'"
  by (induction rule: plain_steps.induct) (auto dest: step_status)

text \<open>How a run may end: the budget is used up, a \<open>BRK\<close> executed as the last of the counted
  instructions, or an unknown opcode stopped it.\<close>

inductive run_end :: "nat \<Rightarrow> Cpu \<Rightarrow> (nat, StepError) result \<Rightarrow> Cpu \<Rightarrow> bool" where
  budget: "plain_steps k c c' \<Longrightarrow> run_end k c (Ok k) c'"
| brk: "plain_steps n c c1 \<Longrightarrow> n < k \<Longrightarrow> step c1 = Some (Ok 0, c') \<Longrightarrow> run_end k c (Ok (Suc n)) c'"
| unknown: "plain_steps n c c' \<Longrightarrow> n < k \<Longrightarrow> step c' = Some (Err e, c') \<Longrightarrow> run_end k c (Err e) c'"

lemma step_Err: "step c = Some (Err e, c') \<Longrightarrow> c' = c \<and> e = UnknownOpcode (cpu_read c (cpu_pc c)) (cpu_pc c)"
  by (auto simp: step_def Let_def split: option.splits flow.splits)

lemma run_loop_end:
  assumes "plain_steps n c0 c"
  shows "\<exists>r c'. run_loop k n c = Some (r, c') \<and> run_end (n + k) c0 r c'"
  using assms
proof (induction k arbitrary: n c)
  case 0
  then show ?case by (auto intro: run_end.budget)
next
  case (Suc k)
  obtain r c1 where s: "step c = Some (r, c1)"
    using step_exists by blast
  show ?case
  proof (cases r)
    case (Ok b)
    show ?thesis
    proof (cases "b = 0")
      case True
      with s Ok Suc.prems show ?thesis
        by (auto intro: run_end.brk)
    next
      case False
      with s Ok Suc.prems have "plain_steps (Suc n) c0 c1"
        by (auto intro: plain_steps_snoc)
      from Suc.IH [OF this] show ?thesis
        using s Ok False by simp
    qed
  next
    case (Err e)
    with s step_Err have "c1 = c" by blast
    with s Err Suc.prems show ?thesis
      by (auto intro: run_end.unknown)
  qed
qed

lemma run_ends: "\<exists>r c'. run k c = Some (r, c') \<and> run_end k c r c'"
  unfolding run_def using run_loop_end [OF plain_steps.plain_0, of k c] by simp

lemma run_end_status: "run_end k c r c' \<Longrightarrow> status_ok c \<Longrightarrow> status_ok c'"
  by (induction rule: run_end.induct) (auto dest: plain_steps_status step_status)

lemma reset_status: "status_ok (reset c)"
proof -
  have "bit (FLAG_I OR FLAG_U) 5" "\<not> bit (FLAG_I OR FLAG_U) 4"
    by (simp_all add: flag_defs)
  then show ?thesis by (simp add: status_ok_def flag_UB reset_def)
qed

lemma load_reset_pc: "load origin program c = Some c1 \<Longrightarrow> cpu_pc (reset c1) = origin"
  using cpu_bus.word_roundtrip [of _ RESET_VECTOR origin]
  by (auto simp: load_def reset_def read_u16_def Let_def split: if_splits)

lemma load_bytes:
  assumes "load origin program c = Some c1" and "i < length program"
    and "unat origin + i \<notin> {0xFFFC, 0xFFFD}"
  shows "cpu_read (reset c1) (origin + of_nat i) = program ! i"
proof -
  have len: "unat origin + length program \<le> 0x10000"
    using assms(1) by (simp add: load_def Let_def split: if_splits)
  have u: "unat (origin + of_nat i) = unat origin + i"
    using len assms(2) by (simp add: unat_word_ariths unat_of_nat)
  have "origin + of_nat i \<noteq> RESET_VECTOR" "origin + of_nat i \<noteq> RESET_VECTOR + 1"
    using assms(3) u by (auto simp: RESET_VECTOR_def)
  then show ?thesis
    using assms(1,2) u
    by (auto simp: load_def Let_def reset_def cpu_read_def cpu_write_def split: if_splits)
qed

text \<open>The rotations through the carry flag undo each other.\<close>

lemma ror_rol: "rol_f c v = (r, c1) \<Longrightarrow> ror_f c1 r = (w, c2) \<Longrightarrow> w = v \<and> flag c2 FLAG_C = flag c FLAG_C"
proof -
  assume rol: "rol_f c v = (r, c1)" and ror: "ror_f c1 r = (w, c2)"
  have r: "r = push_bit 1 v OR (if flag c FLAG_C then 1 else 0)"
    and c1: "flag c1 FLAG_C \<longleftrightarrow> bit v 7"
    using rol by (auto simp: rol_f_def Let_def bit7_u8 and_0x80)
  have w: "w = drop_bit 1 r OR push_bit 7 (if flag c1 FLAG_C then 1 else 0)"
    and c2: "flag c2 FLAG_C \<longleftrightarrow> r AND 1 \<noteq> 0"
    using ror by (auto simp: ror_f_def Let_def)
  have "w = v"
    unfolding w r c1
  proof (rule bit_word_eqI)
    fix n assume "n < LENGTH(8)"
    then have "n = 7 \<or> n < 7" by auto
    then show "bit (drop_bit 1 (push_bit 1 v OR (if flag c FLAG_C then 1 else 0)) OR
        push_bit 7 (if bit v 7 then 1 else 0)) n = bit v n"
      by (auto simp: bit_simps simp del: push_bit_Suc)
  qed
  moreover have "r AND 1 \<noteq> 0 \<longleftrightarrow> flag c FLAG_C"
    unfolding r by (auto simp: and_one_eq mod_2_eq_odd bit_simps simp del: push_bit_Suc simp flip: bit_0)
  ultimately show ?thesis using c2 by simp
qed

text \<open>The program of \<open>main.rs\<close>, and the equations that evaluate a concrete machine.\<close>

definition demo_program :: "u8 list" where
  "demo_program =
     [0xA9, 0x00, 0xA2, 0x07, 0x18, 0x69, 0x06, 0xCA, 0xD0, 0xFA, 0x8D, 0x00, 0x02, 0x00]"

lemma run_loop_numeral:
  "run_loop (numeral k) n c =
     (case step c of
        None \<Rightarrow> None
      | Some (Err e, c') \<Rightarrow> Some (Err e, c')
      | Some (Ok opcode, c') \<Rightarrow>
          if opcode = 0 then Some (Ok (Suc n), c') else run_loop (pred_numeral k) (Suc n) c')"
  by (simp add: numeral_eq_Suc)

lemma decode_demo:
  "decode 0xA9 = Some (Lda, Imm)" "decode 0xA2 = Some (Ldx, Imm)" "decode 0x18 = Some (Clc, Imp)"
  "decode 0x69 = Some (Adc, Imm)" "decode 0xCA = Some (Dex, Imp)" "decode 0xD0 = Some (Bne, Rel)"
  "decode 0x8D = Some (Sta, Abs)" "decode 0 = Some (Brk, Imp)"
  by (simp_all add: decode_Some OPCODES_def)

lemmas machine_eval = step_def Let_def with_operand_def set_zn_def set_flag_def flag_def flag_defs
  cpu_read_def is_branch_def branch_def add_with_carry_def cpu_write_def read_u16_def
  from_le_bytes_def push_u16_def push_def STACK_BASE_def IRQ_VECTOR_def

section \<open>Properties\<close>

text \<open>C1: \<open>Cpu::step\<close> is total: it never reaches the \<open>unreachable!\<close> of \<open>operand_addr\<close>. When
  the byte at the program counter is an official opcode it returns that opcode; otherwise it
  returns \<open>UnknownOpcode\<close> with the byte and its address and leaves the whole machine as it was.\<close>

theorem step_total:
  "\<exists>r c'. step c = Some (r, c') \<and>
     (if cpu_read c (cpu_pc c) \<in> fst ` set OPCODES then r = Ok (cpu_read c (cpu_pc c))
      else r = Err (UnknownOpcode (cpu_read c (cpu_pc c)) (cpu_pc c)) \<and> c' = c)"
proof (cases "decode (cpu_read c (cpu_pc c))")
  case None
  then have "cpu_read c (cpu_pc c) \<notin> fst ` set OPCODES"
    by (auto simp: decode_def find_None_iff)
  with None show ?thesis by (auto simp: step_def Let_def)
next
  case (Some d)
  then obtain op m where d: "decode (cpu_read c (cpu_pc c)) = Some (op, m)" by (cases d) auto
  then have "cpu_read c (cpu_pc c) \<in> fst ` set OPCODES"
    using decode_Some by force
  with d show ?thesis by (auto elim: step_cases)
qed

text \<open>C6: \<open>ADC\<close>: accumulator and carry together are the exact sum of accumulator, operand and old
  carry; the overflow flag is set exactly when the sum of the signed readings leaves the
  range of a signed byte; zero and negative describe the new accumulator.\<close>

theorem adc_correct:
  "unat (cpu_a (add_with_carry m c)) + (if flag (add_with_carry m c) FLAG_C then 256 else 0)
     = unat (cpu_a c) + unat m + (if flag c FLAG_C then 1 else 0) \<and>
   (flag (add_with_carry m c) FLAG_V \<longleftrightarrow>
     sint (cpu_a c) + sint m + (if flag c FLAG_C then 1 else 0) \<notin> {-128..127}) \<and>
   (flag (add_with_carry m c) FLAG_Z \<longleftrightarrow> cpu_a (add_with_carry m c) = 0) \<and>
   (flag (add_with_carry m c) FLAG_N \<longleftrightarrow> sint (cpu_a (add_with_carry m c)) < 0)"
proof (intro conjI)
  show "flag (add_with_carry m c) FLAG_N \<longleftrightarrow> sint (cpu_a (add_with_carry m c)) < 0"
    using unat_u8_less [of "cpu_a (add_with_carry m c)"]
    by (simp add: add_with_carry_flags(2) bit7_u8 sint_u8 del: of_nat_unat)
qed (fact add_with_carry_sum add_with_carry_V add_with_carry_flags(1))+

text \<open>Property: \<open>SBC\<close>, which adds the complement of the operand, is subtraction with borrow: the
  accumulator is the difference modulo 256 and the carry flag says that no borrow occurred.\<close>

theorem sbc_correct:
  "int (unat (cpu_a (add_with_carry (NOT m) c)))
     = (int (unat (cpu_a c)) - int (unat m) - (if flag c FLAG_C then 0 else 1)) mod 256 \<and>
   (flag (add_with_carry (NOT m) c) FLAG_C \<longleftrightarrow>
     0 \<le> int (unat (cpu_a c)) - int (unat m) - (if flag c FLAG_C then 0 else 1))"
  by (rule conjI) (fact add_with_carry_not)+

text \<open>Property: Returning from a subroutine. After a \<open>JSR\<close> at \<open>c\<close>, if the called code arrives at an
  \<open>RTS\<close> with the stack pointer and the two bytes above it as the call left them, then the
  \<open>RTS\<close> continues at the instruction after the \<open>JSR\<close> with the stack pointer of the caller.\<close>

theorem jsr_rts_returns:
  assumes "cpu_read c (cpu_pc c) = 0x20" and "step c = Some (r, c1)"
    and "cpu_read c2 (cpu_pc c2) = 0x60" and "cpu_sp c2 = cpu_sp c1"
    and "cpu_read c2 (stack_addr (cpu_sp c1 + 1)) = cpu_read c1 (stack_addr (cpu_sp c1 + 1))"
    and "cpu_read c2 (stack_addr (cpu_sp c1 + 2)) = cpu_read c1 (stack_addr (cpu_sp c1 + 2))"
  shows "step c2 = Some (Ok 0x60, c2\<lparr>cpu_sp := cpu_sp c, cpu_pc := cpu_pc c + 3\<rparr>)"
proof -
  have d: "decode 0x20 = Some (Jsr, Abs)" "decode 0x60 = Some (Rts, Imp)"
    by (simp_all add: decode_Some OPCODES_def)
  have c1: "c1 = (push_u16 (cpu_pc c + 2) (c\<lparr>cpu_pc := cpu_pc c + 1\<rparr>))\<lparr>cpu_pc := cpu_pc c1\<rparr>"
    using assms(1,2) d by (auto simp: step_def Let_def add.commute)
  have "cpu_sp c1 = cpu_sp c - 2"
    by (subst c1) (simp add: push_u16_eq)
  moreover have "cpu_read c1 (stack_addr (cpu_sp c - 1)) = ucast (cpu_pc c + 2)"
    "cpu_read c1 (stack_addr (cpu_sp c)) = ucast (drop_bit 8 (cpu_pc c + 2))"
    by (subst c1, simp add: push_u16_eq cpu_bus.rd_wr)+
  ultimately show ?thesis
    using assms(3-6) d by (simp add: step_def Let_def pull_u16_eq add.commute)
qed

text \<open>When each branch is taken.\<close>

fun branch_taken :: "Op \<Rightarrow> Cpu \<Rightarrow> bool" where
  "branch_taken Bcc c = (\<not> flag c FLAG_C)"
| "branch_taken Bcs c = flag c FLAG_C"
| "branch_taken Beq c = flag c FLAG_Z"
| "branch_taken Bne c = (\<not> flag c FLAG_Z)"
| "branch_taken Bmi c = flag c FLAG_N"
| "branch_taken Bpl c = (\<not> flag c FLAG_N)"
| "branch_taken Bvs c = flag c FLAG_V"
| "branch_taken Bvc c = (\<not> flag c FLAG_V)"
| "branch_taken _ c = False"

lemma exec_branch: "is_branch op \<Longrightarrow> exec op m c = Some (Fall, branch (branch_taken op c) c)"
  by (auto simp: is_branch_def)

lemma exec_Return: "exec op m c = Some (Return, c') \<Longrightarrow> op \<in> {Jmp, Jsr, Rts, Rti, Brk}"
  by (cases op) (auto simp: with_operand_def pull_eq Let_def)

theorem jsr_rts_returns_witness:
  "let c = cpu_new\<lparr>cpu_pc := 0x8000, cpu_memory := (\<lambda>_. 0)(0x8000 := 0x20, 0x8001 := 0x05, 0x8002 := 0x90,
             0x9005 := 0x60)\<rparr>;
       c1 = snd (the (step c))
   in step c = Some (Ok 0x20, c1) \<and> cpu_pc c1 = 0x9005 \<and>
      step c1 = Some (Ok 0x60, c1\<lparr>cpu_sp := 0xFD, cpu_pc := 0x8003\<rparr>)"
proof -
  define c where "c = cpu_new\<lparr>cpu_pc := 0x8000,
    cpu_memory := (\<lambda>_. 0)(0x8000 := 0x20, 0x8001 := 0x05, 0x8002 := 0x90, 0x9005 := 0x60)\<rparr>"
  define c1 where "c1 = snd (the (step c))"
  have d: "decode 0x20 = Some (Jsr, Abs)"
    by (simp add: decode_Some OPCODES_def)
  have s: "step c = Some (Ok 0x20, c1)" and p: "cpu_pc c1 = 0x9005" and r: "cpu_read c1 0x9005 = 0x60"
    by (simp_all add: c1_def c_def d cpu_new_def machine_eval)
  have "step c1 = Some (Ok 0x60, c1\<lparr>cpu_sp := cpu_sp c, cpu_pc := cpu_pc c + 3\<rparr>)"
    by (rule jsr_rts_returns [OF _ s]) (simp_all add: p r, simp add: c_def cpu_read_def)
  then show ?thesis
    unfolding Let_def c_def [symmetric] c1_def [symmetric] using s p by (simp add: c_def cpu_new_def)
qed

text \<open>Property: An instruction that is no branch and no jump leaves the program counter just behind
  itself, by the length of its addressing mode; a branch continues behind its two bytes, and
  a taken one adds the signed offset to that address.\<close>

theorem step_pc:
  assumes "decode (cpu_read c (cpu_pc c)) = Some (op, m)"
    and "step c = Some (r, c')" and "op \<notin> {Jmp, Jsr, Rts, Rti, Brk}"
  shows "cpu_pc c' =
    (if is_branch op
     then cpu_pc c + 2 + (if branch_taken op c then scast (cpu_read c (cpu_pc c + 1)) else 0)
     else cpu_pc c + mode_size m)"
  using assms(1)
proof (cases rule: step_cases)
  case (1 c1)
  then show ?thesis using assms(3) exec_Return by blast
next
  case (2 c1)
  have t: "branch_taken op (c\<lparr>cpu_pc := p\<rparr>) = branch_taken op c" for p
    by (cases op) simp_all
  show ?thesis
  proof (cases "is_branch op")
    case True
    then show ?thesis
      using 2 assms(2) exec_branch [OF True, of m "c\<lparr>cpu_pc := cpu_pc c + 1\<rparr>"]
      by (auto simp: branch_def Let_def t add.commute add.left_commute)
  next
    case False
    then show ?thesis
      using 2 assms(2) exec_pc [OF 2(1) False] by auto
  qed
qed

theorem step_pc_witness:
  "\<exists>c'. step (cpu_new\<lparr>cpu_pc := 0x8000, cpu_memory := (\<lambda>_. 0)(0x8000 := 0xD0, 0x8001 := 0xFA)\<rparr>)
           = Some (Ok 0xD0, c') \<and> cpu_pc c' = 0x7FFC"
proof -
  define c where
    "c = cpu_new\<lparr>cpu_pc := 0x8000, cpu_memory := (\<lambda>_. 0)(0x8000 := 0xD0, 0x8001 := 0xFA)\<rparr>"
  have d: "decode (cpu_read c (cpu_pc c)) = Some (Bne, Rel)"
    by (simp add: c_def decode_Some OPCODES_def cpu_read_def)
  from d obtain c' where s: "step c = Some (Ok (cpu_read c (cpu_pc c)), c')"
    by (auto elim: step_cases)
  have "cpu_pc c' = 0x7FFC"
    using step_pc [OF d s] by (simp add: c_def cpu_read_def is_branch_def cpu_new_def flag_def flag_defs)
  with s show ?thesis by (simp add: c_def cpu_read_def)
qed

text \<open>C23: Memory safety of an instruction: a step changes no byte of memory other than the one at
  the instruction's effective address and bytes of the stack page $0100-$01FF.\<close>

theorem step_memory:
  assumes "decode (cpu_read c (cpu_pc c)) = Some (op, m)"
    and "step c = Some (r, c')" and "cpu_read c' a \<noteq> cpu_read c a"
  shows "operand_addr (c\<lparr>cpu_pc := cpu_pc c + 1\<rparr>) m = Some a \<or> (0x100 \<le> unat a \<and> unat a \<le> 0x1FF)"
proof -
  have p: "a \<in> stack_page \<Longrightarrow> 0x100 \<le> unat a \<and> unat a \<le> 0x1FF"
    by (auto simp: stack_page_def stack_addr_page)
  from assms(1) show ?thesis
  proof (cases rule: step_cases)
    case (1 c1)
    then show ?thesis
      using assms(2,3) p exec_memory [OF 1(1)] by (auto simp: cpu_read_def)
  next
    case (2 c1)
    then show ?thesis
      using assms(2,3) p exec_memory [OF 2(1)] by (auto simp: cpu_read_def split: if_splits)
  qed
qed

theorem step_memory_witness:
  "let c = cpu_new\<lparr>cpu_a := 7, cpu_pc := 0x8000, cpu_memory := (\<lambda>_. 0)(0x8000 := 0x85, 0x8001 := 0x10)\<rparr>
   in \<exists>c'. step c = Some (Ok 0x85, c') \<and> cpu_read c' 0x10 = 7 \<and>
        operand_addr (c\<lparr>cpu_pc := 0x8001\<rparr>) Zp = Some 0x10"
proof -
  define c where
    "c = cpu_new\<lparr>cpu_a := 7, cpu_pc := 0x8000, cpu_memory := (\<lambda>_. 0)(0x8000 := 0x85, 0x8001 := 0x10)\<rparr>"
  have d: "decode (cpu_read c (cpu_pc c)) = Some (Sta, Zp)"
    by (simp add: c_def decode_Some OPCODES_def cpu_read_def)
  from d obtain c' where s: "step c = Some (Ok (cpu_read c (cpu_pc c)), c')"
    by (auto elim: step_cases)
  have r: "cpu_read c' 0x10 = 7"
    using s d by (auto simp: machine_eval c_def)
  then have ne: "cpu_read c' 0x10 \<noteq> cpu_read c 0x10"
    by (simp add: c_def cpu_read_def)
  have "operand_addr (c\<lparr>cpu_pc := cpu_pc c + 1\<rparr>) Zp = Some 0x10"
    using step_memory [OF d s ne] by simp
  with s r show ?thesis
    unfolding Let_def c_def [symmetric] by (auto simp: c_def cpu_read_def)
qed

text \<open>Property: In every state a program can be in after \<open>load_and_run\<close>, the unused bit of the status
  register is set and its break bit is clear.\<close>

theorem load_and_run_status:
  "load_and_run origin program c = Some (r, c') \<Longrightarrow> flag c' FLAG_U \<and> \<not> flag c' FLAG_B"
proof -
  assume "load_and_run origin program c = Some (r, c')"
  then obtain c1 where "run 1000000 (reset c1) = Some (r, c')"
    by (auto simp: load_and_run_def split: option.splits)
  then have "run_end 1000000 (reset c1) r c'"
    using run_ends [of 1000000 "reset c1"] by auto
  then show ?thesis
    using run_end_status reset_status by (auto simp: status_ok_def)
qed

text \<open>The demonstration of \<open>main.rs\<close>: six times seven by repeated addition takes 32
  instructions and leaves 42 in the accumulator and at $0200.\<close>

theorem load_and_run_status_witness:
  "\<exists>c. load_and_run 0x8000 demo_program cpu_new = Some (Ok 32, c) \<and>
     cpu_a c = 42 \<and> cpu_read c 0x0200 = 42 \<and> flag c FLAG_U \<and> \<not> flag c FLAG_B"
proof -
  have "case load_and_run 0x8000 demo_program cpu_new of
      None \<Rightarrow> False | Some (r, c) \<Rightarrow> r = Ok 32 \<and> cpu_a c = 42 \<and> cpu_read c 0x0200 = 42"
    by (simp add: load_and_run_def load_def run_def run_loop_numeral machine_eval decode_demo
        cpu_new_def reset_def RESET_VECTOR_def demo_program_def)
  then obtain c where "load_and_run 0x8000 demo_program cpu_new = Some (Ok 32, c)"
    and "cpu_a c = 42" "cpu_read c 0x0200 = 42"
    by (auto split: option.splits)
  with load_and_run_status [OF this(1)] show ?thesis by blast
qed

text \<open>C25: \<open>run\<close> ends with a result for every budget, and the result says what happened: the whole
  budget was spent without a \<open>BRK\<close>; or the counted instructions ended with the first \<open>BRK\<close>;
  or an unknown opcode stopped it within the budget.\<close>

theorem run_correct: "\<exists>r c'. run k c = Some (r, c') \<and> run_end k c r c'"
  by (rule run_ends)

text \<open>Property: \<open>load\<close> followed by \<open>reset\<close> starts the processor at the program's origin with the program
  in memory (but for bytes in the reset vector itself), and \<open>load\<close> panics only when the
  program does not fit below the end of memory.\<close>

theorem load_reset:
  "(load origin program c = None \<longleftrightarrow> 0x10000 < unat origin + length program) \<and>
   (\<forall>c1. load origin program c = Some c1 \<longrightarrow>
      cpu_pc (reset c1) = origin \<and>
      (\<forall>i < length program. unat origin + i \<notin> {0xFFFC, 0xFFFD} \<longrightarrow>
         cpu_read (reset c1) (origin + of_nat i) = program ! i))"
proof (intro conjI allI impI)
  show "load origin program c = None \<longleftrightarrow> 0x10000 < unat origin + length program"
    by (auto simp: load_def Let_def)
qed (auto simp: load_reset_pc load_bytes)

theorem load_reset_witness:
  "\<exists>c1. load 0x8000 demo_program cpu_new = Some c1 \<and> cpu_pc (reset c1) = 0x8000 \<and>
     cpu_read (reset c1) (0x8000 + of_nat 2) = 0xA2"
proof -
  have "load 0x8000 demo_program cpu_new \<noteq> None"
    using load_reset [of "0x8000" demo_program cpu_new] by (simp add: demo_program_def)
  then obtain c1 where c1: "load 0x8000 demo_program cpu_new = Some c1" by blast
  moreover have "demo_program ! 2 = 0xA2" "2 < length demo_program"
    by (simp_all add: demo_program_def)
  moreover have "unat (0x8000 :: u16) + 2 \<notin> {0xFFFC, 0xFFFD}"
    by simp
  ultimately show ?thesis
    using load_reset [of "0x8000" demo_program cpu_new] by metis
qed

end
