(* ===== verification/Cpu_Main.thy ===== *)
theory Cpu_Main
  imports Cpu6502
begin

text \<open>
  \<open>main.rs\<close> of the 6502 processor: the program it runs, and the text it prints about the machine. The program multiplies by repeated addition; the theory
  verifies it for every pair of bytes with a loop invariant over the processor's steps.
\<close>

section \<open>The code\<close>

text \<open>The program with its two operands; \<open>main\<close> uses 6 and 7.\<close>

definition multiply_program :: "u8 \<Rightarrow> u8 \<Rightarrow> u8 list" where
  "multiply_program a b =
     [0xA9, 0x00, 0xA2, b, 0x18, 0x69, a, 0xCA, 0xD0, 0xFA, 0x8D, 0x00, 0x02, 0x00]"

text \<open>The formats \<open>{:02X}\<close>, \<open>{:04X}\<close> and \<open>{:08b}\<close>: digits of a base, padded with zeros.\<close>

definition radix_digit :: "nat \<Rightarrow> char" where
  "radix_digit d = (if d < 10 then char_of (48 + d) else char_of (55 + d))"

fun show_radix :: "nat \<Rightarrow> nat \<Rightarrow> string" where
  "show_radix b n = (if b < 2 \<or> n < b then [radix_digit n] else show_radix b (n div b) @ [radix_digit (n mod b)])"

declare show_radix.simps [simp del]

definition padded :: "nat \<Rightarrow> string \<Rightarrow> string" where
  "padded w s = replicate (w - length s) (CHR ''0'') @ s"

definition show_machine :: "Cpu \<Rightarrow> string" where
  "show_machine c =
     ''A='' @ padded 2 (show_radix 16 (unat (cpu_a c))) @ '' X='' @ padded 2 (show_radix 16 (unat (cpu_x c))) @
     '' Y='' @ padded 2 (show_radix 16 (unat (cpu_y c))) @ '' SP='' @ padded 2 (show_radix 16 (unat (cpu_sp c))) @
     '' PC='' @ padded 4 (show_radix 16 (unat (cpu_pc c))) @ '' P='' @ padded 8 (show_radix 2 (unat (cpu_status c)))"

text \<open>What \<open>main\<close> prints; \<open>None\<close> where \<open>load\<close> or \<open>expect\<close> panics.\<close>

definition cpu_main :: "string option" where
  "cpu_main =
     (case load_and_run 0x8000 demo_program cpu_new of
        Some (Ok steps, c) \<Rightarrow>
          Some (''ran '' @ show_nat steps @ '' instructions'' @ [CHR 0x0A] @
            ''6 * 7 = '' @ show_nat (unat (cpu_a c)) @ '' (stored at $0200: '' @ show_nat (unat (cpu_read c 0x0200)) @ '')'' @ [CHR 0x0A] @
            show_machine c @ [CHR 0x0A])
      | _ \<Rightarrow> None)"

section \<open>The program, instruction by instruction\<close>

definition multiplies :: "u8 \<Rightarrow> u8 \<Rightarrow> (u16 \<Rightarrow> u8) \<Rightarrow> bool" where
  "multiplies a b m \<longleftrightarrow> map m [0x8000, 0x8001, 0x8002, 0x8003, 0x8004, 0x8005, 0x8006, 0x8007, 0x8008, 0x8009, 0x800A, 0x800B, 0x800C, 0x800D] =
     multiply_program a b"

lemmas mul_simps = multiplies_def multiply_program_def step_def Let_def with_operand_def cpu_read_def is_branch_def decode_demo

lemma add_no_carry: "\<not> flag c FLAG_C \<Longrightarrow> cpu_a (add_with_carry m c) = cpu_a c + m"
proof -
  assume "\<not> flag c FLAG_C"
  then have "(unat (cpu_a c) + unat m) mod 256 = (unat (cpu_a (add_with_carry m c)) + (if flag (add_with_carry m c) FLAG_C then 256 else 0)) mod 256"
    using add_with_carry_sum [of m c] by simp
  also have "\<dots> = unat (cpu_a (add_with_carry m c))" using unat_u8_less [of "cpu_a (add_with_carry m c)"] by simp
  finally show ?thesis by (simp add: word_unat_eq_iff unat_word_ariths)
qed

lemma add_with_carry_fields [simp]:
  "cpu_x (add_with_carry m c) = cpu_x c" "cpu_memory (add_with_carry m c) = cpu_memory c" "cpu_pc (add_with_carry m c) = cpu_pc c"
  by (simp_all add: add_with_carry_def Let_def)

lemma mul_load:
  assumes "multiplies a b (cpu_memory c)" and "cpu_pc c = 0x8000"
  shows "\<exists>c1 c2. step c = Some (Ok 0xA9, c1) \<and> step c1 = Some (Ok 0xA2, c2) \<and> cpu_a c2 = 0 \<and> cpu_x c2 = b \<and> cpu_pc c2 = 0x8004 \<and> cpu_memory c2 = cpu_memory c"
  using assms by (simp add: mul_simps)

lemma mul_body:
  assumes "multiplies a b (cpu_memory c)" and "cpu_pc c = 0x8004"
  shows "\<exists>c1 c2 c3 c4. step c = Some (Ok 0x18, c1) \<and> step c1 = Some (Ok 0x69, c2) \<and> step c2 = Some (Ok 0xCA, c3) \<and> step c3 = Some (Ok 0xD0, c4) \<and>
    cpu_a c4 = cpu_a c + a \<and> cpu_x c4 = cpu_x c - 1 \<and> cpu_pc c4 = (if cpu_x c = 1 then 0x800A else 0x8004) \<and> cpu_memory c4 = cpu_memory c"
  using assms by (simp add: mul_simps add_no_carry branch_def)

lemma push_product [simp]: "cpu_memory (push v c) 0x0200 = cpu_memory c 0x0200" "cpu_memory (push_u16 w c) 0x0200 = cpu_memory c 0x0200"
proof -
  have "unat (stack_addr s) \<noteq> 0x0200" for s using unat_u8_less [of s] by (simp add: unat_stack_addr)
  then have "stack_addr s \<noteq> 0x0200" for s by (auto simp: word_unat_eq_iff)
  then have "(0x0200 :: u16) \<notin> stack_page" unfolding stack_page_def by (metis rangeE)
  then show "cpu_memory (push v c) 0x0200 = cpu_memory c 0x0200" "cpu_memory (push_u16 w c) 0x0200 = cpu_memory c 0x0200"
    using push_memory push_u16_memory by blast+
qed

lemma mul_store:
  assumes "multiplies a b (cpu_memory c)" and "cpu_pc c = 0x800A"
  shows "\<exists>c1 c2. step c = Some (Ok 0x8D, c1) \<and> step c1 = Some (Ok 0, c2) \<and> cpu_a c2 = cpu_a c \<and> cpu_x c2 = cpu_x c \<and> cpu_read c2 0x0200 = cpu_a c"
  using assms by (simp add: mul_simps read_u16_def from_le_bytes_def cpu_write_def)


section \<open>The loop\<close>

lemma run_loop_step: "step c = Some (Ok op, c') \<Longrightarrow> op \<noteq> 0 \<Longrightarrow> run_loop (Suc k) n c = run_loop k (Suc n) c'"
  by simp

lemma mul_loop:
  assumes "multiplies a b (cpu_memory c)" and "cpu_pc c = 0x8004" and "cpu_x c = of_nat j" and "1 \<le> j" and "j \<le> 256"
  shows "\<exists>c'. run_loop (4 * j + k) n c = run_loop k (n + 4 * j) c' \<and> cpu_a c' = cpu_a c + of_nat j * a \<and> cpu_x c' = 0 \<and>
    cpu_pc c' = 0x800A \<and> cpu_memory c' = cpu_memory c"
  using assms
proof (induction j arbitrary: c n)
  case (Suc j)
  obtain c1 c2 c3 c4 where st: "step c = Some (Ok 0x18, c1)" "step c1 = Some (Ok 0x69, c2)" "step c2 = Some (Ok 0xCA, c3)" "step c3 = Some (Ok 0xD0, c4)"
    and c4: "cpu_a c4 = cpu_a c + a" "cpu_x c4 = cpu_x c - 1" "cpu_pc c4 = (if cpu_x c = 1 then 0x800A else 0x8004)" "cpu_memory c4 = cpu_memory c"
    using mul_body [OF Suc.prems(1,2)] by blast
  have run: "run_loop (4 * Suc j + k) n c = run_loop (4 * j + k) (n + 4) c4"
  proof -
    have four: "4 * Suc j + k = Suc (Suc (Suc (Suc (4 * j + k))))" "n + 4 = Suc (Suc (Suc (Suc n)))" by simp_all
    show ?thesis unfolding four using st by simp
  qed
  have x4: "cpu_x c4 = of_nat j" using c4(2) Suc.prems(3) by simp
  show ?case
  proof (cases "j = 0")
    case True
    then show ?thesis using run c4 Suc.prems(3) by (intro exI [of _ c4]) simp
  next
    case False
    have "unat (of_nat j :: u8) = j" using Suc.prems(5) by (simp add: unat_of_nat)
    then have "cpu_x c \<noteq> 1" using False x4 c4(2) by (metis diff_self unat_0)
    then obtain c' where "run_loop (4 * j + k) (n + 4) c4 = run_loop k (n + 4 + 4 * j) c'" "cpu_a c' = cpu_a c4 + of_nat j * a" "cpu_x c' = 0"
      "cpu_pc c' = 0x800A" "cpu_memory c' = cpu_memory c4"
      using Suc.IH [of c4 "n + 4"] Suc.prems(1,5) c4(3,4) x4 False by auto
    then show ?thesis using run c4(1,4) by (intro exI [of _ c']) (simp add: algebra_simps)
  qed
qed simp


definition loop_count :: "u8 \<Rightarrow> nat" where
  "loop_count b = (if b = 0 then 256 else unat b)"

lemma loop_count: "1 \<le> loop_count b" "loop_count b \<le> 256" "of_nat (loop_count b) = b"
proof -
  have "b \<noteq> 0 \<Longrightarrow> 0 < unat b" by (simp add: unat_gt_0)
  then show "1 \<le> loop_count b" "loop_count b \<le> 256" using unat_u8_less [of b] by (auto simp: loop_count_def)
  have "(256 :: u8) = 0" by simp
  then show "of_nat (loop_count b) = b" by (simp add: loop_count_def)
qed

lemma multiply_loaded:
  assumes "load 0x8000 (multiply_program a b) c = Some c1"
  shows "multiplies a b (cpu_memory (reset c1))" and "cpu_pc (reset c1) = 0x8000"
  using assms load_reset_pc [OF assms] by (auto simp: load_def reset_def multiplies_def multiply_program_def cpu_write_def RESET_VECTOR_def)

lemma multiply_runs:
  "\<exists>c. load_and_run 0x8000 (multiply_program a b) c0 = Some (Ok (4 + 4 * loop_count b), c) \<and>
     cpu_a c = a * b \<and> cpu_x c = 0 \<and> cpu_read c 0x0200 = a * b"
proof -
  obtain s0 where load: "load 0x8000 (multiply_program a b) c0 = Some s0" by (simp add: load_def multiply_program_def)
  note s0 = multiply_loaded [OF this]
  obtain s1 s2 where s2: "step (reset s0) = Some (Ok 0xA9, s1)" "step s1 = Some (Ok 0xA2, s2)" "cpu_a s2 = 0" "cpu_x s2 = b" "cpu_pc s2 = 0x8004"
    "cpu_memory s2 = cpu_memory (reset s0)" using mul_load [OF s0] by blast
  obtain k where k: "(1000000 :: nat) = Suc (Suc (4 * loop_count b + Suc (Suc k)))"
  proof
    show "(1000000 :: nat) = Suc (Suc (4 * loop_count b + Suc (Suc (999996 - 4 * loop_count b))))" using loop_count(2) [of b] by simp
  qed
  obtain s3 where s3: "run_loop (4 * loop_count b + Suc (Suc k)) (Suc (Suc 0)) s2 = run_loop (Suc (Suc k)) (Suc (Suc 0) + 4 * loop_count b) s3"
    "cpu_a s3 = b * a" "cpu_x s3 = 0" "cpu_pc s3 = 0x800A" "cpu_memory s3 = cpu_memory s2"
    using mul_loop [of a b s2 "loop_count b" "Suc (Suc k)" "Suc (Suc 0)"] s0(1) s2 loop_count [of b] by auto
  obtain s4 s5 where s5: "step s3 = Some (Ok 0x8D, s4)" "step s4 = Some (Ok 0, s5)" "cpu_a s5 = cpu_a s3" "cpu_x s5 = cpu_x s3" "cpu_read s5 0x0200 = cpu_a s3"
    using mul_store [of a b s3] s0(1) s2(6) s3(4,5) by auto
  have "run 1000000 (reset s0) = run_loop (4 * loop_count b + Suc (Suc k)) (Suc (Suc 0)) s2"
    unfolding run_def k using s2(1,2) by simp
  also have "\<dots> = Some (Ok (4 + 4 * loop_count b), s5)" unfolding s3(1) using s5(1,2) by simp
  finally show ?thesis using load s3(2,3) s5(3-5) by (simp add: load_and_run_def mult.commute)
qed

section \<open>Properties\<close>

text \<open>C12: The multiplication program of \<open>main.rs\<close> is correct for every pair of bytes and every initial machine: \<open>load_and_run\<close> returns after four instructions
  and four more for each round, with the product modulo 256 in the accumulator and at $0200. A second operand of zero takes 256 rounds, since the loop
  decrements before it tests.\<close>

theorem multiply_correct:
  "\<exists>c. load_and_run 0x8000 (multiply_program a b) c0 = Some (Ok (4 + 4 * (if b = 0 then 256 else unat b)), c) \<and>
     unat (cpu_a c) = unat a * unat b mod 256 \<and> cpu_read c 0x0200 = cpu_a c \<and> cpu_x c = 0"
  using multiply_runs [of a b c0] by (auto simp: loop_count_def unat_word_ariths)

text \<open>Property: The demonstration prints 32 instructions and the product 42, found both in the accumulator and in memory.\<close>

theorem demo_prints:
  "\<exists>c. load_and_run 0x8000 demo_program cpu_new = Some (Ok 32, c) \<and>
     cpu_main = Some (''ran 32 instructions'' @ [CHR 0x0A] @ ''6 * 7 = 42 (stored at $0200: 42)'' @ [CHR 0x0A] @ show_machine c @ [CHR 0x0A])"
proof -
  have d: "demo_program = multiply_program 6 7" by (simp add: demo_program_def multiply_program_def)
  obtain c where c: "load_and_run 0x8000 demo_program cpu_new = Some (Ok 32, c)" "cpu_a c = 42" "cpu_read c 0x0200 = 42"
    unfolding d using multiply_runs [of 6 7 cpu_new] by (auto simp: loop_count_def)
  then show ?thesis by (simp add: cpu_main_def show_nat.simps digit_def char_of_nat_eq)
qed

end
