(* ===== verification/Kv_Store.thy ===== *)
theory Kv_Store
  imports Rust_Prelude "HOL-Library.AList"
begin

text \<open>
  The in-memory store of \<open>2026-08-13-rust-microservice/src/store.rs\<close>.

  The \<open>HashMap\<close> is an association list with distinct keys: its order stands for the
  unspecified iteration order, and \<open>list\<close> is shown not to depend on it. The read-write lock
  makes each map access one atomic step, and recovering a poisoned lock hands out the same
  map, so the guards do not appear. \<open>id + 1\<close> in \<open>put\<close> is the only arithmetic that can
  overflow: it panics (\<open>None\<close>) in a build with overflow checks and wraps in one without, so
  the operations take the build's setting \<open>checks\<close>.

  The first part is the sequential behaviour, with the contract the router relies on as the
  locale \<open>kv_store\<close>. The second part interleaves the atomic steps of concurrent calls.
\<close>

section \<open>The store\<close>

datatype PutOutcome = Created | Replaced

record Store =
  items :: "(u64 \<times> string) list"
  next_id :: u64

definition store_new :: Store where
  "store_new = \<lparr>items = [], next_id = 1\<rparr>"

text \<open>The atomic steps: \<open>next_id.fetch_add(1)\<close>, \<open>next_id.fetch_max(n)\<close>, and
  \<open>insert\<close> and \<open>remove\<close> under the write lock.\<close>

definition fetch_add :: "Store \<Rightarrow> u64 \<times> Store" where
  "fetch_add s = (next_id s, s\<lparr>next_id := next_id s + 1\<rparr>)"

definition fetch_max :: "u64 \<Rightarrow> Store \<Rightarrow> Store" where
  "fetch_max n s = s\<lparr>next_id := max (next_id s) n\<rparr>"

definition map_insert :: "u64 \<Rightarrow> string \<Rightarrow> Store \<Rightarrow> string option \<times> Store" where
  "map_insert i v s = (map_of (items s) i, s\<lparr>items := AList.update i v (items s)\<rparr>)"

definition map_remove :: "u64 \<Rightarrow> Store \<Rightarrow> string option \<times> Store" where
  "map_remove i s = (map_of (items s) i, s\<lparr>items := AList.delete i (items s)\<rparr>)"

definition create :: "string \<Rightarrow> Store \<Rightarrow> u64 \<times> Store" where
  "create value s =
     (let (i, s1) = fetch_add s; (_, s2) = map_insert i value s1 in (i, s2))"

definition get :: "Store \<Rightarrow> u64 \<Rightarrow> string option" where
  "get s i = map_of (items s) i"

definition put :: "bool \<Rightarrow> u64 \<Rightarrow> string \<Rightarrow> Store \<Rightarrow> (PutOutcome \<times> Store) option" where
  "put checks i value s =
     (case add_checked checks i 1 of
        None \<Rightarrow> None
      | Some n \<Rightarrow>
          (let s1 = fetch_max n s; (old, s2) = map_insert i value s1
           in Some (case old of Some _ \<Rightarrow> Replaced | None \<Rightarrow> Created, s2)))"

definition delete :: "u64 \<Rightarrow> Store \<Rightarrow> bool \<times> Store" where
  "delete i s = (let (old, s') = map_remove i s in (old \<noteq> None, s'))"

definition list_store :: "Store \<Rightarrow> (u64 \<times> string) list" where
  "list_store s = sort_key fst (items s)"

section \<open>Invariant and sequential laws\<close>

text \<open>Keys are distinct, and all of them lie below the counter.\<close>

definition store_inv :: "Store \<Rightarrow> bool" where
  "store_inv s \<longleftrightarrow> distinct (map fst (items s)) \<and>
     (\<forall>k. get s k \<noteq> None \<longrightarrow> k < next_id s)"

text \<open>The counter can be incremented without wrapping.\<close>

definition room :: "Store \<Rightarrow> bool" where
  "room s \<longleftrightarrow> unat (next_id s) + 1 < 2 ^ 64"

lemma store_inv_new: "store_inv store_new"
  by (simp add: store_inv_def store_new_def get_def)

lemma get_new [simp]: "get store_new i = None"
  by (simp add: get_def store_new_def)

lemma create_eq:
  "create v s = (next_id s, \<lparr>items = AList.update (next_id s) v (items s), next_id = next_id s + 1\<rparr>)"
  by (simp add: create_def fetch_add_def map_insert_def)

lemma get_create: "create v s = (i, s') \<Longrightarrow> get s' = (get s)(i \<mapsto> v)"
  by (auto simp: create_eq get_def fun_eq_iff update_conv')

lemma get_put: "put checks i v s = Some (out, s') \<Longrightarrow> get s' = (get s)(i \<mapsto> v)"
  by (auto simp: put_def map_insert_def fetch_max_def get_def Let_def update_conv' split: option.splits)

lemma put_outcome: "put checks i v s = Some (out, s') \<Longrightarrow> out = Created \<longleftrightarrow> get s i = None"
  by (auto simp: put_def map_insert_def fetch_max_def get_def Let_def split: option.splits)

lemma get_delete: "delete i s = (b, s') \<Longrightarrow> get s' = (get s)(i := None)"
  by (auto simp: delete_def map_remove_def get_def delete_conv')

lemma delete_outcome: "delete i s = (b, s') \<Longrightarrow> b \<longleftrightarrow> get s i \<noteq> None"
  by (auto simp: delete_def map_remove_def get_def)

lemma create_inv:
  assumes "store_inv s" and "room s" and "create v s = (i, s')"
  shows "store_inv s'"
proof -
  have "k < next_id s + 1" if "k \<le> next_id s" for k
    using that assms(2) by (simp add: word_less_nat_alt word_le_nat_alt unat_plus_one room_def)
  then have "k < next_id s + 1" if "k < next_id s \<or> k = next_id s" for k
    using that by auto
  then show ?thesis
    using assms(1,3) get_create [OF assms(3)]
    by (auto simp: store_inv_def create_eq distinct_update)
qed

lemma create_fresh: "store_inv s \<Longrightarrow> create v s = (i, s') \<Longrightarrow> get s i = None"
  by (auto simp: store_inv_def create_eq)

lemma put_inv:
  assumes "store_inv s" and "unat i + 1 < 2 ^ 64" and "put checks i v s = Some (out, s')"
  shows "store_inv s' \<and> i < next_id s'"
proof -
  have "i < i + 1"
    using assms(2) by (simp add: word_less_nat_alt unat_plus_one)
  then have m: "i < max (next_id s) (i + 1)"
    by (simp add: less_max_iff_disj)
  have n: "next_id s' = max (next_id s) (i + 1)" and d: "items s' = AList.update i v (items s)"
    using assms(2,3) by (auto simp: put_def add_checked_one fetch_max_def map_insert_def Let_def)
  show ?thesis
    using assms(1) m get_put [OF assms(3)]
    by (auto simp: store_inv_def n d distinct_update less_max_iff_disj)
qed

lemma delete_inv: "store_inv s \<Longrightarrow> delete i s = (b, s') \<Longrightarrow> store_inv s'"
  using get_delete [of i s b s']
  by (auto simp: store_inv_def delete_def map_remove_def distinct_delete)

section \<open>The contract of a store\<close>

text \<open>What the router of the service uses of the store: reading back what was written, the
  reported outcomes, and that \<open>create\<close> never touches an existing item.\<close>

locale kv_store =
  fixes get :: "'s \<Rightarrow> 'k \<Rightarrow> 'v option"
    and create :: "'v \<Rightarrow> 's \<Rightarrow> 'k \<times> 's"
    and put :: "'k \<Rightarrow> 'v \<Rightarrow> 's \<Rightarrow> (PutOutcome \<times> 's) option"
    and delete :: "'k \<Rightarrow> 's \<Rightarrow> bool \<times> 's"
    and inv :: "'s \<Rightarrow> bool" and room :: "'s \<Rightarrow> bool" and small :: "'k \<Rightarrow> bool"
  assumes create_get: "create v s = (i, s') \<Longrightarrow> get s' = (get s)(i \<mapsto> v)"
    and create_new: "inv s \<Longrightarrow> create v s = (i, s') \<Longrightarrow> get s i = None"
    and put_get: "put i v s = Some (out, s') \<Longrightarrow> get s' = (get s)(i \<mapsto> v)"
    and put_out: "put i v s = Some (out, s') \<Longrightarrow> out = Created \<longleftrightarrow> get s i = None"
    and delete_get: "delete i s = (b, s') \<Longrightarrow> get s' = (get s)(i := None)"
    and delete_out: "delete i s = (b, s') \<Longrightarrow> b \<longleftrightarrow> get s i \<noteq> None"
    and inv_create: "inv s \<Longrightarrow> room s \<Longrightarrow> create v s = (i, s') \<Longrightarrow> inv s'"
    and inv_put: "inv s \<Longrightarrow> small i \<Longrightarrow> put i v s = Some (out, s') \<Longrightarrow> inv s'"
    and inv_delete: "inv s \<Longrightarrow> delete i s = (b, s') \<Longrightarrow> inv s'"
begin

lemma create_keeps:
  "inv s \<Longrightarrow> create v s = (i, s') \<Longrightarrow> get s j = Some w \<Longrightarrow> get s' j = Some w \<and> i \<noteq> j"
  using create_new [of s v i s'] create_get [of v s i s'] by auto

text \<open>The comment on \<open>put\<close>: an id chosen by a client is never handed out by a later \<open>create\<close>.\<close>

lemma put_reserves:
  assumes "inv s" and "small i" and "put i v s = Some (out, s1)" and "create w s1 = (j, s2)"
  shows "j \<noteq> i \<and> get s2 i = Some v \<and> get s2 j = Some w"
proof -
  have "inv s1" using assms(1-3) by (rule inv_put)
  moreover have "get s1 i = Some v" using put_get [OF assms(3)] by simp
  ultimately show ?thesis
    using create_keeps [of s1 w j s2 i v] create_get [OF assms(4)] assms(4) by auto
qed

text \<open>\<open>PUT\<close> is idempotent: the second one replaces and changes nothing a reader can see.\<close>

lemma put_twice:
  "put i v s = Some (out, s1) \<Longrightarrow> put i v s1 = Some (out', s2) \<Longrightarrow> out' = Replaced \<and> get s2 = get s1"
  using put_out [of i v s1 out' s2] put_get [of i v s out s1] put_get [of i v s1 out' s2]
  by (cases out') auto

lemma delete_twice:
  "delete i s = (b, s1) \<Longrightarrow> delete i s1 = (b', s2) \<Longrightarrow> \<not> b' \<and> get s2 = get s1 \<and> get s1 i = None"
  using delete_get [of i s b s1] delete_get [of i s1 b' s2] delete_out [of i s1 b' s2] by auto

end

interpretation store: kv_store get create "put checks" delete store_inv room
    "\<lambda>i. unat i + 1 < 2 ^ 64" for checks
proof unfold_locales
  show "store_inv s \<Longrightarrow> unat i + 1 < 2 ^ 64 \<Longrightarrow> put checks i v s = Some (out, s') \<Longrightarrow> store_inv s'"
    for s i v out s' using put_inv by blast
qed (auto dest: get_create create_fresh get_put put_outcome get_delete delete_outcome create_inv delete_inv)

section \<open>Listing\<close>

lemma list_store_sorted: "sorted (map fst (list_store s))"
  by (simp add: list_store_def)

lemma list_store_set: "set (list_store s) = set (items s)"
  by (simp add: list_store_def)

text \<open>Two sorted lists over the same pairs with distinct keys are equal, so the listing does not
  depend on the order in which the hash map yields its entries.\<close>

lemma sorted_key_unique:
  assumes "set xs = set ys" and "distinct (map fst xs)" and "distinct (map fst ys)"
  shows "sort_key fst xs = (sort_key fst ys :: ('a::linorder \<times> 'b) list)"
proof (rule map_sorted_distinct_set_unique [of fst])
  show "inj_on fst (set (sort_key fst xs) \<union> set (sort_key fst ys))"
    using assms by (simp add: distinct_map)
qed (use assms in \<open>simp_all add: distinct_map\<close>)

lemma items_get: "store_inv s \<Longrightarrow> (i, v) \<in> set (items s) \<longleftrightarrow> get s i = Some v"
  by (simp add: store_inv_def get_def map_of_eq_Some_iff)

section \<open>Concurrent calls\<close>

text \<open>
  Each thread that serves a request is between calls, or inside a \<open>create\<close> that has drawn
  its id but not yet inserted, or inside a \<open>put\<close> that has raised the counter but not yet
  inserted. A step is one atomic operation of one thread. \<open>issued\<close> records the ids that
  \<open>create\<close> drew and \<open>wrapped\<close> whether the 64-bit counter ever overflowed.
\<close>

datatype call = Idle | Creating u64 string | Putting u64 string

record sys =
  st :: Store
  th :: "nat \<Rightarrow> call"
  issued :: "u64 list"
  wrapped :: bool

definition sys_init :: sys where
  "sys_init = \<lparr>st = store_new, th = (\<lambda>_. Idle), issued = [], wrapped = False\<rparr>"

inductive sys_step :: "bool \<Rightarrow> sys \<Rightarrow> sys \<Rightarrow> bool" for checks where
  create_begin: "th s t = Idle \<Longrightarrow> fetch_add (st s) = (i, st') \<Longrightarrow>
     sys_step checks s (s\<lparr>st := st', th := (th s)(t := Creating i v), issued := i # issued s,
       wrapped := wrapped s \<or> \<not> room (st s)\<rparr>)"
| create_end: "th s t = Creating i v \<Longrightarrow> map_insert i v (st s) = (old, st') \<Longrightarrow>
     sys_step checks s (s\<lparr>st := st', th := (th s)(t := Idle)\<rparr>)"
| put_begin: "th s t = Idle \<Longrightarrow> add_checked checks i 1 = Some n \<Longrightarrow>
     sys_step checks s (s\<lparr>st := fetch_max n (st s), th := (th s)(t := Putting i v)\<rparr>)"
| put_end: "th s t = Putting i v \<Longrightarrow> map_insert i v (st s) = (old, st') \<Longrightarrow>
     sys_step checks s (s\<lparr>st := st', th := (th s)(t := Idle)\<rparr>)"
| delete: "th s t = Idle \<Longrightarrow> map_remove i (st s) = (old, st') \<Longrightarrow>
     sys_step checks s (s\<lparr>st := st'\<rparr>)"

inductive sys_reach :: "bool \<Rightarrow> sys \<Rightarrow> bool" for checks where
  start: "sys_reach checks sys_init"
| step: "sys_reach checks s \<Longrightarrow> sys_step checks s s' \<Longrightarrow> sys_reach checks s'"

definition ids_inv :: "sys \<Rightarrow> bool" where
  "ids_inv s \<longleftrightarrow> distinct (issued s) \<and> (\<forall>i \<in> set (issued s). i < next_id (st s))"

lemma next_id_inserts [simp]:
  "map_insert i v s = (old, s') \<Longrightarrow> next_id s' = next_id s"
  "map_remove i s = (old, s') \<Longrightarrow> next_id s' = next_id s"
  by (auto simp: map_insert_def map_remove_def)

lemma fetch_add_ids:
  assumes "ids_inv s" and "fetch_add (st s) = (i, st')" and "room (st s)"
  shows "i \<notin> set (issued s) \<and> i < next_id st' \<and> (\<forall>j \<in> set (issued s). j < next_id st')"
proof -
  have i: "i = next_id (st s)" and n: "next_id st' = next_id (st s) + 1"
    using assms(2) by (auto simp: fetch_add_def)
  have "j < next_id st'" if "j \<le> next_id (st s)" for j
    using that assms(3) by (simp add: n word_less_nat_alt word_le_nat_alt unat_plus_one room_def)
  then show ?thesis
    using assms(1) i by (auto simp: ids_inv_def less_imp_le)
qed

lemma sys_step_ids:
  assumes "sys_step checks s s'" and "\<not> wrapped s \<longrightarrow> ids_inv s"
  shows "\<not> wrapped s' \<longrightarrow> ids_inv s'"
  using assms
proof (induction rule: sys_step.induct)
  case (create_begin s t i st' v)
  then show ?case using fetch_add_ids [of s i st'] by (auto simp: ids_inv_def)
next
  case (put_begin s t i n v)
  then show ?case by (auto simp: ids_inv_def fetch_max_def less_max_iff_disj)
qed (auto simp: ids_inv_def)

lemma sys_reach_ids: "sys_reach checks s \<Longrightarrow> \<not> wrapped s \<longrightarrow> ids_inv s"
proof (induction rule: sys_reach.induct)
  case start
  show ?case by (simp add: ids_inv_def sys_init_def)
next
  case (step s s')
  show ?case using step.hyps(2) step.IH by (rule sys_step_ids)
qed

section \<open>Properties\<close>

text \<open>Property: An id that a client chose with \<open>put\<close> is reserved: a later \<open>create\<close> returns a different id,
  leaves the client's item readable and stores its own (for every id but the largest 64-bit
  number, whose successor does not exist).\<close>

theorem put_reserves_id:
  assumes "store_inv s" and "unat i + 1 < 2 ^ 64"
    and "put checks i v s = Some (out, s1)" and "create w s1 = (j, s2)"
  shows "j \<noteq> i \<and> get s2 i = Some v \<and> get s2 j = Some w \<and> (\<forall>k. k \<noteq> j \<longrightarrow> get s2 k = get s1 k)"
  using store.put_reserves [OF assms] get_create [OF assms(4)] by simp

theorem put_reserves_id_witness:
  "\<exists>s1 s2. put True 500 ''seed'' store_new = Some (Created, s1) \<and> create ''next'' s1 = (501, s2) \<and>
     get s2 500 = Some ''seed'' \<and> get s2 501 = Some ''next''"
proof -
  obtain s1 where p: "put True 500 ''seed'' store_new = Some (Created, s1)" and n: "next_id s1 = 501"
    by (auto simp: put_def add_checked_def fetch_max_def map_insert_def store_new_def)
  obtain s2 where c: "create ''next'' s1 = (501, s2)"
    using n by (simp add: create_eq)
  show ?thesis
    using put_reserves_id [OF store_inv_new _ p c] p c by auto
qed

text \<open>Property: \<open>list\<close> returns exactly the stored items, each once, in ascending order of id, and its result
  is the same for any iteration order of the hash map.\<close>

theorem list_store_spec:
  assumes "store_inv s"
  shows "sorted (map fst (list_store s)) \<and> distinct (map fst (list_store s)) \<and>
    (\<forall>i v. (i, v) \<in> set (list_store s) \<longleftrightarrow> get s i = Some v) \<and>
    (\<forall>s'. store_inv s' \<and> get s' = get s \<longrightarrow> list_store s' = list_store s)"
proof (intro conjI allI impI)
  show "distinct (map fst (list_store s))"
    using assms by (simp add: store_inv_def list_store_def distinct_map)
  fix s' assume "store_inv s' \<and> get s' = get s"
  then have "set (items s') = set (items s)"
    using assms items_get by (metis subrelI subset_antisym)
  then show "list_store s' = list_store s"
    using assms \<open>store_inv s' \<and> get s' = get s\<close>
    unfolding list_store_def by (intro sorted_key_unique) (auto simp: store_inv_def)
qed (use assms in \<open>simp_all add: list_store_sorted list_store_set items_get\<close>)

theorem list_store_spec_witness:
  "list_store \<lparr>items = [(7, ''b''), (2, ''a'')], next_id = 8\<rparr> = [(2, ''a''), (7, ''b'')] \<and>
   list_store \<lparr>items = [(2, ''a''), (7, ''b'')], next_id = 9\<rparr> =
     list_store \<lparr>items = [(7, ''b''), (2, ''a'')], next_id = 8\<rparr>"
proof -
  let ?s = "\<lparr>items = [(7, ''b''), (2, ''a'')], next_id = 8\<rparr>"
  let ?t = "\<lparr>items = [(2, ''a''), (7, ''b'')], next_id = 9\<rparr>"
  have i: "store_inv ?s" "store_inv ?t" and g: "get ?t = get ?s"
    by (auto simp: store_inv_def get_def fun_eq_iff split: if_splits)
  have "list_store ?s = [(2, ''a''), (7, ''b'')]"
    by (simp add: list_store_def)
  then show ?thesis
    using list_store_spec [OF i(1)] i(2) g by blast
qed

text \<open>Property: Concurrent \<open>create\<close> calls never draw the same id, in any interleaving with any number of
  threads that also \<open>put\<close> and \<open>delete\<close>, as long as the 64-bit counter has not overflowed.\<close>

theorem concurrent_ids_distinct:
  "sys_reach checks s \<Longrightarrow> \<not> wrapped s \<Longrightarrow> distinct (issued s)"
  using sys_reach_ids by (auto simp: ids_inv_def)

theorem concurrent_ids_distinct_witness:
  "\<exists>s. sys_reach True s \<and> issued s = [2, 1] \<and> th s 0 = Creating 1 ''a'' \<and> th s 1 = Creating 2 ''b''
     \<and> distinct (issued s)"
proof -
  define s1 where "s1 = sys_init\<lparr>st := store_new\<lparr>next_id := 2\<rparr>,
    th := (th sys_init)(0 := Creating 1 ''a''), issued := [1]\<rparr>"
  define s2 where "s2 = s1\<lparr>st := store_new\<lparr>next_id := 3\<rparr>,
    th := (th s1)(1 := Creating 2 ''b''), issued := [2, 1]\<rparr>"
  have 1: "sys_step True sys_init s1"
    using sys_step.create_begin [of sys_init 0 1 "store_new\<lparr>next_id := 2\<rparr>" True "''a''"]
    by (simp add: sys_init_def s1_def fetch_add_def store_new_def room_def)
  have 2: "sys_step True s1 s2"
    using sys_step.create_begin [of s1 1 2 "store_new\<lparr>next_id := 3\<rparr>" True "''b''"]
    by (simp add: sys_init_def s1_def s2_def fetch_add_def store_new_def room_def)
  have r: "sys_reach True s2"
    by (rule sys_reach.step [OF sys_reach.step [OF sys_reach.start 1] 2])
  have "\<not> wrapped s2" and i: "issued s2 = [2, 1]"
    by (simp_all add: s1_def s2_def sys_init_def)
  with concurrent_ids_distinct [OF r] r show ?thesis
    by (intro exI [of _ s2]) (simp add: s1_def s2_def)
qed

text \<open>Property: Under concurrency the reservation of an id does not protect a \<open>put\<close>: a \<open>create\<close> that has drawn
  id 1 but not yet inserted overwrites an item that another thread meanwhile stored under 1
  and reported as created.\<close>

theorem create_overwrites_put:
  "\<exists>s1 s2 s3 s4. sys_step checks sys_init s1 \<and> th s1 0 = Creating 1 ''a'' \<and>
     sys_step checks s1 s2 \<and> th s2 1 = Putting 1 ''b'' \<and>
     sys_step checks s2 s3 \<and> th s3 1 = Idle \<and> get (st s2) 1 = None \<and> get (st s3) 1 = Some ''b'' \<and>
     sys_step checks s3 s4 \<and> th s4 0 = Idle \<and> get (st s4) 1 = Some ''a''"
proof -
  define s1 where "s1 = sys_init\<lparr>st := store_new\<lparr>next_id := 2\<rparr>,
    th := (th sys_init)(0 := Creating 1 ''a''), issued := [1]\<rparr>"
  define s2 where "s2 = s1\<lparr>th := (th s1)(1 := Putting 1 ''b'')\<rparr>"
  define s3 where "s3 = s2\<lparr>st := \<lparr>items = [(1, ''b'')], next_id = 2\<rparr>, th := (th s2)(1 := Idle)\<rparr>"
  define s4 where "s4 = s3\<lparr>st := \<lparr>items = [(1, ''a'')], next_id = 2\<rparr>, th := (th s3)(0 := Idle)\<rparr>"
  note defs = s1_def s2_def s3_def s4_def sys_init_def store_new_def
  have 1: "sys_step checks sys_init s1"
    using sys_step.create_begin [of sys_init 0 1 "store_new\<lparr>next_id := 2\<rparr>" checks "''a''"]
    by (simp add: defs fetch_add_def room_def)
  have 2: "sys_step checks s1 s2"
    using sys_step.put_begin [of s1 1 checks 1 2 "''b''"]
    by (simp add: defs add_checked_def fetch_max_def)
  have 3: "sys_step checks s2 s3"
    using sys_step.put_end [of s2 1 1 "''b''" None "\<lparr>items = [(1, ''b'')], next_id = 2\<rparr>" checks]
    by (simp add: defs map_insert_def)
  have 4: "sys_step checks s3 s4"
    using sys_step.create_end [of s3 0 1 "''a''" "Some ''b''" "\<lparr>items = [(1, ''a'')], next_id = 2\<rparr>" checks]
    by (simp add: defs map_insert_def)
  have "th s1 0 = Creating 1 ''a'' \<and> th s2 1 = Putting 1 ''b'' \<and> th s3 1 = Idle \<and>
      get (st s2) 1 = None \<and> get (st s3) 1 = Some ''b'' \<and> th s4 0 = Idle \<and> get (st s4) 1 = Some ''a''"
    by (simp add: defs get_def)
  with 1 2 3 4 show ?thesis by blast
qed

text \<open>Property: The largest id. \<open>put\<close> at 18446744073709551615 panics in a build with overflow checks. In a
  build without them it stores the item but reserves nothing: after a \<open>put\<close> at the
  predecessor, the next \<open>create\<close> overwrites it.\<close>

theorem put_max_id:
  "put True 0xFFFFFFFFFFFFFFFF v s = None \<and>
   (\<exists>s1 s2 s3. put False 0xFFFFFFFFFFFFFFFF ''old'' store_new = Some (Created, s1) \<and>
      put False 0xFFFFFFFFFFFFFFFE ''x'' s1 = Some (Created, s2) \<and>
      get s2 0xFFFFFFFFFFFFFFFF = Some ''old'' \<and>
      create ''new'' s2 = (0xFFFFFFFFFFFFFFFF, s3) \<and> get s3 0xFFFFFFFFFFFFFFFF = Some ''new'')"
proof -
  have m: "add_checked c (0xFFFFFFFFFFFFFFFF :: u64) 1 = (if c then None else Some 0)" for c
    by (rule add_checked_one) simp
  have p: "add_checked c (0xFFFFFFFFFFFFFFFE :: u64) 1 = Some 0xFFFFFFFFFFFFFFFF" for c
    by (subst add_checked_one) simp_all
  define s1 where "s1 = \<lparr>items = [(0xFFFFFFFFFFFFFFFF, ''old'')], next_id = 1\<rparr>"
  define s2 where "s2 = \<lparr>items = [(0xFFFFFFFFFFFFFFFF, ''old''), (0xFFFFFFFFFFFFFFFE, ''x'')],
    next_id = 0xFFFFFFFFFFFFFFFF\<rparr>"
  have 1: "put False 0xFFFFFFFFFFFFFFFF ''old'' store_new = Some (Created, s1)"
    by (simp add: put_def m fetch_max_def map_insert_def store_new_def s1_def)
  have 2: "put False 0xFFFFFFFFFFFFFFFE ''x'' s1 = Some (Created, s2)"
    by (simp add: put_def p fetch_max_def map_insert_def s1_def s2_def max_def)
  have "\<exists>s3. create ''new'' s2 = (0xFFFFFFFFFFFFFFFF, s3) \<and> get s3 0xFFFFFFFFFFFFFFFF = Some ''new''"
    by (simp add: create_eq s2_def get_def)
  moreover have "get s2 0xFFFFFFFFFFFFFFFF = Some ''old''"
    by (simp add: s2_def get_def)
  moreover have "put True 0xFFFFFFFFFFFFFFFF v s = None"
    by (simp add: put_def m)
  ultimately show ?thesis using 1 2 by blast
qed

end
