(* ===== verification/Http_Lines.thy ===== *)
theory Http_Lines
  imports Rust_Prelude
begin

text \<open>
  Lines of HTTP messages, shared by the crates that read or write them: which strings can stand in
  a request line or a header field, and what a buffered reader and \<open>trim_end\<close> make of them.
\<close>

definition crlf :: string where
  "crlf = [CHR 0x0D, CHR 0x0A]"

definition header_line :: "string \<times> string \<Rightarrow> string" where
  "header_line h = fst h @ '': '' @ snd h @ crlf"

text \<open>Characters of a line of a message: printable ASCII. A field value has no blank at either end.\<close>

definition plain :: "string \<Rightarrow> bool" where
  "plain s \<longleftrightarrow> (\<forall>c \<in> set s. 0x20 \<le> code_of c \<and> code_of c < 0x7F)"

definition token :: "string \<Rightarrow> bool" where
  "token s \<longleftrightarrow> s \<noteq> [] \<and> plain s \<and> CHR '' '' \<notin> set s"

definition field_value :: "string \<Rightarrow> bool" where
  "field_value v \<longleftrightarrow> plain v \<and> (v = [] \<or> hd v \<noteq> CHR '' '' \<and> last v \<noteq> CHR '' '')"

definition field :: "string \<times> string \<Rightarrow> bool" where
  "field h \<longleftrightarrow> token (fst h) \<and> CHR '':'' \<notin> set (fst h) \<and> field_value (snd h)"

text \<open>What the parsers make of a field: its name in lower case.\<close>

definition norm_field :: "string \<times> string \<Rightarrow> string \<times> string" where
  "norm_field h = (to_ascii_lowercase (fst h), snd h)"

lemma code_space: "code_of c = 0x20 \<longleftrightarrow> c = CHR '' ''"
  using of_char_eq_iff [of c "CHR '' ''", where ?'a = nat] by simp

lemma plain_simps [simp]:
  "plain []" "plain (s @ t) \<longleftrightarrow> plain s \<and> plain t"
  by (auto simp: plain_def)

lemma plain_Cons [simp]: "plain (c # s) \<longleftrightarrow> 0x20 \<le> code_of c \<and> code_of c < 0x7F \<and> plain s"
  by (auto simp: plain_def)

lemma plain_newline: "plain s \<Longrightarrow> CHR 0x0A \<notin> set s"
  by (fastforce simp: plain_def)

lemma plain_visible: "plain s \<Longrightarrow> c \<in> set s \<Longrightarrow> c \<noteq> CHR '' '' \<Longrightarrow> 0x20 < code_of c \<and> code_of c < 0x80"
  using code_space [of c] by (fastforce simp: plain_def)

lemma plain_trim_end: "plain s \<Longrightarrow> s \<noteq> [] \<Longrightarrow> last s \<noteq> CHR '' '' \<Longrightarrow> trim_end s = s"
  using plain_visible [of s "last s"] last_in_set [of s] by (intro trim_end_ascii) simp

lemma field_value_trim: "field_value v \<Longrightarrow> trim v = v"
proof (cases "v = []")
  case False
  assume v: "field_value v"
  with False have "trim_start v = v"
    using plain_visible [of v "hd v"] hd_in_set [of v]
    by (intro trim_start_ascii) (simp add: field_value_def)
  with v False show ?thesis by (simp add: trim_def field_value_def plain_trim_end)
qed simp

lemma token_field_value: "token s \<Longrightarrow> field_value s"
  by (metis field_value_def hd_in_set last_in_set token_def)

lemmas token_trim = field_value_trim [OF token_field_value]

lemma show_nat_token: "token (show_nat n)"
proof -
  have "plain (show_nat n)"
    unfolding plain_def by (auto dest!: show_nat_digits)
  moreover have "show_nat n \<noteq> []" by (subst show_nat.simps) simp
  moreover have "CHR '' '' \<notin> set (show_nat n)" by (rule show_nat_char) simp
  ultimately show ?thesis by (simp add: token_def)
qed

lemma read_line_plain:
  assumes "plain l" and "rd_bytes r = l @ crlf @ rest"
  shows "read_line r = (Ok (l @ crlf), r\<lparr>rd_bytes := rest\<rparr>)"
proof -
  have "utf8_valid (l @ crlf)"
    using assms(1) by (intro utf8_valid_ascii) (auto simp: plain_def crlf_def)
  then show ?thesis
    using assms read_line_newline [of "l @ [CHR 0x0D]" r rest] plain_newline [of l]
    by (simp add: crlf_def)
qed

lemma trim_end_line [simp]: "trim_end (l @ crlf) = trim_end l"
  by (simp add: crlf_def)

lemma trim_end_field:
  assumes "field (n, v)"
  shows "trim_end (n @ '': '' @ v) = (if v = [] then n @ '':'' else n @ '': '' @ v)"
proof (cases "v = []")
  case True
  have "trim_end (n @ '':'') = n @ '':''"
    using assms by (intro plain_trim_end) (auto simp: field_def token_def)
  with True show ?thesis using trim_end_ws(1) [of "n @ '':''"] by simp
next
  case False
  then show ?thesis using assms
    by (simp, intro plain_trim_end) (auto simp: field_def token_def field_value_def)
qed

text \<open>A header field as either parser reads it: a line that splits at its colon.\<close>

lemma read_field_line:
  assumes "field h" and "rd_bytes r = header_line h @ rest"
  obtains line b where "read_line r = (Ok line, r\<lparr>rd_bytes := rest\<rparr>)" and "line \<noteq> []" and "trim_end line \<noteq> []"
    and "split_once (CHR '':'') (trim_end line) = Some (fst h, b)"
    and "(to_ascii_lowercase (trim (fst h)), trim b) = norm_field h"
proof -
  obtain n v where h: "h = (n, v)" by fastforce
  let ?line = "(n @ '': '' @ v) @ crlf"
  have p: "plain (n @ '': '' @ v)" and c: "CHR '':'' \<notin> set n" and n: "token n" and v: "field_value v"
    using assms(1) by (auto simp: h field_def token_def field_value_def)
  have l: "read_line r = (Ok ?line, r\<lparr>rd_bytes := rest\<rparr>)"
    using read_line_plain [OF p] assms(2) by (simp add: h header_line_def)
  have "trim_end ?line = (if v = [] then n @ '':'' else n @ '': '' @ v)"
    using trim_end_field [of n v] assms(1) h by (simp only: trim_end_line)
  then have t: "trim_end ?line \<noteq> []"
      "split_once (CHR '':'') (trim_end ?line) = Some (n, if v = [] then [] else '' '' @ v)"
    using c split_once_append [OF c, of "'' '' @ v"] split_once_append [OF c, of "[]"] by (simp_all only: if_split) auto
  show ?thesis
    using that [OF l _ t(1), of "if v = [] then [] else '' '' @ v"] t(2) n v
    by (auto simp: h norm_field_def token_trim field_value_trim)
qed

end
