(* ===== verification/Ms_Http.thy ===== *)
theory Ms_Http
  imports Http_Lines
begin

text \<open>
  HTTP messages of the microservice, \<open>2026-08-13-rust-microservice/src/http.rs\<close>: reading one
  request from a buffered stream and writing a response. A request parser returns \<open>None\<close>
  where the code panics: \<open>vec![0u8; n]\<close> with \<open>n\<close> beyond \<open>isize::MAX\<close>.
\<close>

section \<open>Requests\<close>

record Request =
  rq_method :: string
  rq_path :: string
  rq_headers :: "(string \<times> string) list"
  rq_body :: string

datatype ParseError = Io io_error | Malformed string

text \<open>The header loop. A line that is blank after \<open>trim_end\<close>, or the end of the stream, ends it.\<close>

function read_headers :: "reader \<Rightarrow> ((string \<times> string) list, ParseError) result \<times> reader" where
  "read_headers r =
     (case read_line r of
        (Err e, r') \<Rightarrow> (Err (Io e), r')
      | (Ok line0, r') \<Rightarrow>
          (let line = trim_end line0 in
           if line = [] then (Ok [], r')
           else (case split_once (CHR '':'') line of
                   None \<Rightarrow> (Err (Malformed ''header missing colon''), r')
                 | Some (name, v) \<Rightarrow>
                     (case read_headers r' of
                        (Err e, r'') \<Rightarrow> (Err e, r'')
                      | (Ok hs, r'') \<Rightarrow> (Ok ((to_ascii_lowercase (trim name), trim v) # hs), r'')))))"
  by pat_completeness auto
termination
  by (relation "measure (\<lambda>r. length (rd_bytes r))") (auto dest!: sym [of _ "read_line _"] intro!: read_line_decreases)

declare read_headers.simps [simp del]

text \<open>\<open>parts.next().filter(|s| !s.is_empty()).ok_or(Malformed(reason))\<close>.\<close>

definition part :: "string list \<Rightarrow> nat \<Rightarrow> string \<Rightarrow> (string, ParseError) result" where
  "part ps i reason =
     (if i < length ps \<and> ps ! i \<noteq> [] then Ok (ps ! i) else Err (Malformed reason))"

definition request_line :: "string \<Rightarrow> (string \<times> string, ParseError) result" where
  "request_line line =
     (let parts = splitn 3 (CHR '' '') (trim_end line)
      in case part parts 0 ''missing method'' of
           Err e \<Rightarrow> Err e
         | Ok m \<Rightarrow> (case part parts 1 ''missing path'' of
                      Err e \<Rightarrow> Err e
                    | Ok p \<Rightarrow> (case part parts 2 ''missing version'' of
                                 Err e \<Rightarrow> Err e
                               | Ok _ \<Rightarrow> Ok (m, p))))"

definition content_length :: "(string \<times> string) list \<Rightarrow> (nat, ParseError) result" where
  "content_length headers =
     (case find (\<lambda>(name, _). name = ''content-length'') headers of
        None \<Rightarrow> Ok 0
      | Some (_, v) \<Rightarrow>
          (case parse_uint usize_max v of
             None \<Rightarrow> Err (Malformed ''content-length is not a number'')
           | Some n \<Rightarrow> Ok n))"

definition parse :: "reader \<Rightarrow> ((Request option, ParseError) result \<times> reader) option" where
  "parse r =
     (case read_line r of
        (Err e, r1) \<Rightarrow> Some (Err (Io e), r1)
      | (Ok line, r1) \<Rightarrow>
          if line = [] then Some (Ok None, r1)
          else (case request_line line of
             Err e \<Rightarrow> Some (Err e, r1)
           | Ok (m, p) \<Rightarrow>
               (case read_headers r1 of
                  (Err e, r2) \<Rightarrow> Some (Err e, r2)
                | (Ok hs, r2) \<Rightarrow>
                    (case content_length hs of
                       Err e \<Rightarrow> Some (Err e, r2)
                     | Ok n \<Rightarrow>
                         if n > isize_max then None
                         else (case read_exact n r2 of
                                 (Err e, r3) \<Rightarrow> Some (Err (Io e), r3)
                               | (Ok body, r3) \<Rightarrow>
                                   Some (Ok (Some \<lparr>rq_method = m, rq_path = p, rq_headers = hs,
                                               rq_body = body\<rparr>), r3))))))"

section \<open>Responses\<close>

record Response =
  rs_status :: nat
  rs_reason :: string
  rs_headers :: "(string \<times> string) list"
  rs_body :: string

definition response_new :: "nat \<Rightarrow> string \<Rightarrow> Response" where
  "response_new status reason = \<lparr>rs_status = status, rs_reason = reason, rs_headers = [], rs_body = []\<rparr>"

definition with_body :: "string \<Rightarrow> Response \<Rightarrow> Response" where
  "with_body body r = r\<lparr>rs_body := body\<rparr>"

definition with_header :: "string \<Rightarrow> string \<Rightarrow> Response \<Rightarrow> Response" where
  "with_header name v r = r\<lparr>rs_headers := rs_headers r @ [(name, v)]\<rparr>"

text \<open>The bytes that \<open>Response::write\<close> writes.\<close>

definition write_response :: "Response \<Rightarrow> string" where
  "write_response r =
     ''HTTP/1.1 '' @ show_nat (rs_status r) @ '' '' @ rs_reason r @ crlf @
     concat (map header_line
       (filter (\<lambda>(name, _). \<not> eq_ignore_ascii_case name ''content-length'') (rs_headers r))) @
     ''content-length: '' @ show_nat (length (rs_body r)) @ crlf @
     ''connection: close'' @ crlf @ crlf @ rs_body r"

section \<open>Reading back what is printed\<close>

text \<open>A request as a client sends it.\<close>

definition print_request :: "string \<Rightarrow> string \<Rightarrow> (string \<times> string) list \<Rightarrow> string \<Rightarrow> string" where
  "print_request m p hs body =
     m @ '' '' @ p @ '' HTTP/1.1'' @ crlf @ concat (map header_line hs) @
     ''Content-Length: '' @ show_nat (length body) @ crlf @ crlf @ body"

lemma read_headers_end:
  "rd_bytes r = crlf @ rest \<Longrightarrow> read_headers r = (Ok [], r\<lparr>rd_bytes := rest\<rparr>)"
  using read_line_plain [of "[]" r rest] trim_end_line [of "[]"]
  by (subst read_headers.simps) simp

lemma read_headers_field:
  assumes "field h" and "rd_bytes r = header_line h @ rest"
    and "read_headers (r\<lparr>rd_bytes := rest\<rparr>) = (Ok hs, r')"
  shows "read_headers r = (Ok (norm_field h # hs), r')"
proof -
  obtain line b where "read_line r = (Ok line, r\<lparr>rd_bytes := rest\<rparr>)" and "trim_end line \<noteq> []"
    and "split_once (CHR '':'') (trim_end line) = Some (fst h, b)"
    and "(to_ascii_lowercase (trim (fst h)), trim b) = norm_field h"
    using assms(1,2) by (rule read_field_line)
  with assms(3) show ?thesis by (subst read_headers.simps) (simp add: Let_def)
qed

lemma read_headers_fields:
  assumes "\<And>h. h \<in> set hs \<Longrightarrow> field h" and "rd_bytes r = concat (map header_line hs) @ crlf @ rest"
  shows "read_headers r = (Ok (map norm_field hs), r\<lparr>rd_bytes := rest\<rparr>)"
  using assms
proof (induction hs arbitrary: r)
  case Nil
  then show ?case by (simp add: read_headers_end)
next
  case (Cons h hs)
  have "read_headers (r\<lparr>rd_bytes := concat (map header_line hs) @ crlf @ rest\<rparr>) =
      (Ok (map norm_field hs), r\<lparr>rd_bytes := rest\<rparr>)"
    using Cons.IH [of "r\<lparr>rd_bytes := concat (map header_line hs) @ crlf @ rest\<rparr>"] Cons.prems by simp
  with Cons.prems show ?case by (simp add: read_headers_field)
qed

lemma request_line_print:
  assumes "token m" and "token p"
  shows "request_line ((m @ '' '' @ p @ '' HTTP/1.1'') @ crlf) = Ok (m, p)"
proof -
  have "trim_end (m @ '' '' @ p @ '' HTTP/1.1'') = m @ CHR '' '' # p @ CHR '' '' # ''HTTP/1.1''"
    using assms by (subst plain_trim_end) (auto simp: token_def)
  then have "trim_end ((m @ '' '' @ p @ '' HTTP/1.1'') @ crlf) = m @ CHR '' '' # p @ CHR '' '' # ''HTTP/1.1''"
    by (simp only: trim_end_line)
  with assms show ?thesis
    unfolding request_line_def Let_def
    by (simp add: part_def token_def)
qed

lemma content_length_append:
  "\<forall>h \<in> set hs. fst h \<noteq> ''content-length'' \<Longrightarrow>
   content_length (hs @ hs') = content_length hs'"
  by (induction hs) (auto simp: content_length_def)

lemma content_length_field:
  "n \<le> usize_max \<Longrightarrow> content_length ((''content-length'', show_nat n) # hs) = Ok n"
  by (simp add: content_length_def)

lemma isize_usize: "n \<le> isize_max \<Longrightarrow> n \<le> usize_max"
  by (simp add: isize_max_def usize_max_def)

text \<open>No field of the list is called \<open>content-length\<close> in any case.\<close>

definition no_length :: "(string \<times> string) list \<Rightarrow> bool" where
  "no_length hs \<longleftrightarrow> (\<forall>h \<in> set hs. \<not> eq_ignore_ascii_case (fst h) ''content-length'')"

lemma lower_content_length [simp]:
  "to_ascii_lowercase ''content-length'' = ''content-length''"
  "to_ascii_lowercase ''Content-Length'' = ''content-length''"
  "to_ascii_lowercase ''connection'' = ''connection''"
  by (simp_all add: to_ascii_lowercase_def ascii_lower_def char_of_nat_eq)

lemma no_length_norm: "no_length hs \<Longrightarrow> \<forall>h \<in> set (map norm_field hs). fst h \<noteq> ''content-length''"
  by (auto simp: no_length_def norm_field_def eq_ignore_ascii_case_def)

lemma field_length: "field (''Content-Length'', show_nat n)" "field (''content-length'', show_nat n)"
  "field (''connection'', ''close'')"
  using show_nat_token [of n] token_field_value [of "show_nat n"]
  by (auto simp: field_def token_def field_value_def)

lemma parse_None:
  "parse r = None \<longleftrightarrow> (\<exists>line r1 mp hs r2 n. read_line r = (Ok line, r1) \<and> line \<noteq> [] \<and>
     request_line line = Ok mp \<and> read_headers r1 = (Ok hs, r2) \<and> content_length hs = Ok n \<and> isize_max < n)"
  by (auto simp: parse_def split: prod.splits result.splits)

section \<open>Properties\<close>

lemma parse_print:
  assumes "token m" and "token p" and "\<forall>h \<in> set hs. field h" and "no_length hs"
    and "length body \<le> isize_max" and "rd_bytes r = print_request m p hs body @ rest"
  shows "parse r = Some (Ok (Some \<lparr>rq_method = m, rq_path = p,
      rq_headers = map norm_field hs @ [(''content-length'', show_nat (length body))],
      rq_body = body\<rparr>), r\<lparr>rd_bytes := rest\<rparr>)"
proof -
  let ?l = "m @ '' '' @ p @ '' HTTP/1.1''"
  let ?hs = "hs @ [(''Content-Length'', show_nat (length body))]"
  let ?r1 = "r\<lparr>rd_bytes := concat (map header_line ?hs) @ crlf @ body @ rest\<rparr>"
  have "plain ?l" using assms(1,2) by (auto simp: token_def)
  moreover have "rd_bytes r = ?l @ crlf @ concat (map header_line ?hs) @ crlf @ body @ rest"
    using assms(6) by (simp add: print_request_def header_line_def)
  ultimately have l: "read_line r = (Ok (?l @ crlf), ?r1)" by (rule read_line_plain)
  have "read_headers ?r1 = (Ok (map norm_field ?hs), ?r1\<lparr>rd_bytes := body @ rest\<rparr>)"
    using assms(3) field_length by (intro read_headers_fields) auto
  then have h: "read_headers ?r1 = (Ok (map norm_field ?hs), r\<lparr>rd_bytes := body @ rest\<rparr>)"
    by simp
  have c: "content_length (map norm_field ?hs) = Ok (length body)"
    unfolding map_append content_length_append [OF no_length_norm [OF assms(4)]]
    using assms(5) by (simp add: content_length_field isize_usize norm_field_def)
  have e: "read_exact (length body) (r\<lparr>rd_bytes := body @ rest\<rparr>) = (Ok body, r\<lparr>rd_bytes := rest\<rparr>)"
    by (subst read_exact_Ok) simp_all
  have ne: "?l @ crlf \<noteq> []" by simp
  show ?thesis
    unfolding parse_def l prod.case result.case if_not_P [OF ne] request_line_print [OF assms(1,2)] h c e
    using assms(5) by (simp add: norm_field_def)
qed

text \<open>C8: Every request a client prints is read back: method, target, body bytes (any bytes, any length
  the machine can allocate) and the header fields, in order, with their names in lower case,
  and what follows the request on the connection stays unread.\<close>

theorem parse_print_request:
  assumes "token m" and "token p" and "\<forall>h \<in> set hs. field h" and "no_length hs"
    and "length body \<le> isize_max" and "rd_bytes r = print_request m p hs body @ rest"
  shows "parse r = Some (Ok (Some \<lparr>rq_method = m, rq_path = p,
      rq_headers = map norm_field hs @ [(''content-length'', show_nat (length body))],
      rq_body = body\<rparr>), r\<lparr>rd_bytes := rest\<rparr>)"
  using assms by (rule parse_print)

theorem parse_print_request_witness:
  "parse \<lparr>rd_bytes = print_request ''POST'' ''/items'' [(''X-Trace'', ''a b'')] ''hello'' @ ''GET'', rd_fault = None\<rparr> =
   Some (Ok (Some \<lparr>rq_method = ''POST'', rq_path = ''/items'',
      rq_headers = [(''x-trace'', ''a b''), (''content-length'', ''5'')], rq_body = ''hello''\<rparr>),
      \<lparr>rd_bytes = ''GET'', rd_fault = None\<rparr>)"
proof -
  have n: "norm_field (''X-Trace'', ''a b'') = (''x-trace'', ''a b'')" "show_nat (length ''hello'') = ''5''"
    by (simp_all add: norm_field_def to_ascii_lowercase_def ascii_lower_def show_nat.simps digit_def char_of_nat_eq)
  show ?thesis
    using parse_print_request [of "''POST''" "''/items''" "[(''X-Trace'', ''a b'')]" "''hello''"
      "\<lparr>rd_bytes = print_request ''POST'' ''/items'' [(''X-Trace'', ''a b'')] ''hello'' @ ''GET'', rd_fault = None\<rparr>" "''GET''"]
    unfolding n by (simp add: n token_def field_def field_value_def no_length_def eq_ignore_ascii_case_def
        to_ascii_lowercase_def ascii_lower_def isize_max_def char_of_nat_eq)
qed

lemma response_read:
  assumes "plain (rs_reason rs)" and "\<forall>h \<in> set (rs_headers rs). field h"
    and "rd_bytes r = write_response rs"
  shows "\<exists>r1 r2. read_line r = (Ok (''HTTP/1.1 '' @ show_nat (rs_status rs) @ '' '' @ rs_reason rs @ crlf), r1) \<and>
    read_headers r1 = (Ok (map norm_field
        (filter (\<lambda>(n, _). \<not> eq_ignore_ascii_case n ''content-length'') (rs_headers rs)) @
      [(''content-length'', show_nat (length (rs_body rs))), (''connection'', ''close'')]), r2) \<and>
    rd_bytes r2 = rs_body rs"
proof -
  let ?l = "''HTTP/1.1 '' @ show_nat (rs_status rs) @ '' '' @ rs_reason rs"
  let ?f = "filter (\<lambda>(n, _). \<not> eq_ignore_ascii_case n ''content-length'') (rs_headers rs)"
  let ?hs = "?f @ [(''content-length'', show_nat (length (rs_body rs))), (''connection'', ''close'')]"
  let ?r1 = "r\<lparr>rd_bytes := concat (map header_line ?hs) @ crlf @ rs_body rs\<rparr>"
  have "plain ?l" using assms(1) show_nat_token by (auto simp: token_def)
  moreover have "rd_bytes r = ?l @ crlf @ concat (map header_line ?hs) @ crlf @ rs_body rs"
    using assms(3) by (simp add: write_response_def header_line_def)
  ultimately have l: "read_line r = (Ok (?l @ crlf), ?r1)" by (rule read_line_plain)
  have h: "read_headers ?r1 = (Ok (map norm_field ?hs), ?r1\<lparr>rd_bytes := rs_body rs\<rparr>)"
    using assms(2) field_length by (intro read_headers_fields) auto
  have m: "map norm_field ?hs = map norm_field ?f @
      [(''content-length'', show_nat (length (rs_body rs))), (''connection'', ''close'')]"
    by (simp add: norm_field_def)
  show ?thesis
    using l h unfolding m by fastforce
qed

text \<open>Property: A written response is read back by any client that reads a status line and header fields the
  way the parser of requests does: the fields the handler set, less every \<open>content-length\<close>, then
  exactly one \<open>content-length\<close>, equal to the length of the body, then the body itself.\<close>

theorem write_response_read_back:
  assumes "plain (rs_reason rs)" and "\<forall>h \<in> set (rs_headers rs). field h"
    and "rd_bytes r = write_response rs"
  shows "\<exists>r1 r2. read_line r = (Ok (''HTTP/1.1 '' @ show_nat (rs_status rs) @ '' '' @ rs_reason rs @ crlf), r1) \<and>
    read_headers r1 = (Ok (map norm_field
        (filter (\<lambda>(n, _). \<not> eq_ignore_ascii_case n ''content-length'') (rs_headers rs)) @
      [(''content-length'', show_nat (length (rs_body rs))), (''connection'', ''close'')]), r2) \<and>
    rd_bytes r2 = rs_body rs"
  using assms by (rule response_read)

theorem write_response_read_back_witness:
  "\<exists>r1 r2. read_line \<lparr>rd_bytes = write_response (with_body ''hi''
        (with_header ''Content-Length'' ''999'' (response_new 200 ''OK''))), rd_fault = None\<rparr> =
      (Ok (''HTTP/1.1 200 OK'' @ crlf), r1) \<and>
    read_headers r1 = (Ok [(''content-length'', ''2''), (''connection'', ''close'')], r2) \<and>
    rd_bytes r2 = ''hi''"
  using write_response_read_back [of "with_body ''hi'' (with_header ''Content-Length'' ''999'' (response_new 200 ''OK''))"
    "\<lparr>rd_bytes = write_response (with_body ''hi''
        (with_header ''Content-Length'' ''999'' (response_new 200 ''OK''))), rd_fault = None\<rparr>"]
  by (simp add: with_body_def with_header_def response_new_def field_def token_def field_value_def
      eq_ignore_ascii_case_def to_ascii_lowercase_def ascii_lower_def show_nat.simps char_of_nat_eq numeral_2_eq_2 [symmetric])

text \<open>Property: A client that connects and hangs up is not an error, whatever the stream does afterwards:
  an empty stream gives \<open>Ok None\<close>. A read error before the first line is reported as such.\<close>

theorem parse_empty_stream:
  "parse \<lparr>rd_bytes = [], rd_fault = None\<rparr> = Some (Ok None, \<lparr>rd_bytes = [], rd_fault = None\<rparr>) \<and>
   parse \<lparr>rd_bytes = [], rd_fault = Some e\<rparr> = Some (Err (Io e), \<lparr>rd_bytes = [], rd_fault = Some e\<rparr>)"
  by (simp add: parse_def read_line_def)

text \<open>Property: The parser returns a request or an error on every stream, except that it panics when a
  well-formed head announces more than \<open>isize::MAX\<close> bytes; a single short request does so.\<close>

theorem parse_panics_iff:
  "(parse r = None \<longleftrightarrow> (\<exists>line r1 mp hs r2 n. read_line r = (Ok line, r1) \<and> line \<noteq> [] \<and>
     request_line line = Ok mp \<and> read_headers r1 = (Ok hs, r2) \<and> content_length hs = Ok n \<and> isize_max < n)) \<and>
   parse \<lparr>rd_bytes = ''GET / HTTP/1.1'' @ crlf @ ''Content-Length: 18446744073709551615'' @ crlf @ crlf,
     rd_fault = f\<rparr> = None"
proof -
  let ?n = "show_nat usize_max"
  let ?r = "\<lparr>rd_bytes = ''GET / HTTP/1.1'' @ crlf @ ''Content-Length: '' @ ?n @ crlf @ crlf, rd_fault = f\<rparr>"
  have l: "read_line ?r = (Ok (''GET / HTTP/1.1'' @ crlf), \<lparr>rd_bytes = header_line (''Content-Length'', ?n) @ crlf, rd_fault = f\<rparr>)"
    by (subst read_line_plain [of "''GET / HTTP/1.1''"]) (simp_all add: header_line_def)
  have h: "read_headers \<lparr>rd_bytes = header_line (''Content-Length'', ?n) @ crlf, rd_fault = f\<rparr> =
      (Ok [(''content-length'', ?n)], \<lparr>rd_bytes = [], rd_fault = f\<rparr>)"
    using read_headers_fields [of "[(''Content-Length'', ?n)]" "\<lparr>rd_bytes = header_line (''Content-Length'', ?n) @ crlf, rd_fault = f\<rparr>" "[]"]
    by (simp add: field_length norm_field_def)
  have "request_line (''GET / HTTP/1.1'' @ crlf) = Ok (''GET'', ''/'')"
    using request_line_print [of "''GET''" "''/''"] by (simp add: token_def)
  moreover have "content_length [(''content-length'', ?n)] = Ok usize_max"
    by (simp add: content_length_field)
  moreover have "isize_max < usize_max" by (simp add: isize_max_def usize_max_def)
  ultimately have "parse ?r = None"
    unfolding parse_None using l h by blast
  moreover have "show_nat usize_max = ''18446744073709551615''"
    by (simp add: usize_max_def show_nat.simps)
  ultimately show ?thesis by (simp add: parse_None)
qed

end
