(* ===== verification/Ms_Service.thy ===== *)
theory Ms_Service
  imports Kv_Store Ms_Http
begin

text \<open>
  The service of \<open>2026-08-13-rust-microservice/src/server.rs\<close>: routing a request to a store
  operation, the JSON encoder of the listing, and the handling of one connection. A handler
  returns its response and the new store, or \<open>None\<close> where \<open>Store::put\<close> panics.
\<close>

section \<open>JSON\<close>

definition json_byte :: "char \<Rightarrow> string" where
  "json_byte b =
     (if b = CHR 0x22 then [CHR 0x5C, CHR 0x22]
      else if b = CHR 0x5C then [CHR 0x5C, CHR 0x5C]
      else if b = CHR 0x0A then [CHR 0x5C, CHR ''n'']
      else if b = CHR 0x0D then [CHR 0x5C, CHR ''r'']
      else if b = CHR 0x09 then [CHR 0x5C, CHR ''t'']
      else if 0x20 \<le> code_of b \<and> code_of b \<le> 0x7E then [b]
      else ''?'')"

definition json_string :: "string \<Rightarrow> string" where
  "json_string raw = CHR 0x22 # concat (map json_byte raw) @ [CHR 0x22]"

definition json_item :: "u64 \<times> string \<Rightarrow> string" where
  "json_item it =
     ''{'' @ [CHR 0x22] @ ''id'' @ [CHR 0x22] @ '':'' @ show_nat (unat (fst it)) @
     '','' @ [CHR 0x22] @ ''value'' @ [CHR 0x22] @ '':'' @ json_string (snd it) @ ''}''"

definition json_array :: "(u64 \<times> string) list \<Rightarrow> string" where
  "json_array its = ''['' @ join_with '','' (map json_item its) @ '']''"

section \<open>Handlers\<close>

definition list_items :: "Store \<Rightarrow> Response" where
  "list_items s =
     with_body (json_array (list_store s))
       (with_header ''content-type'' ''application/json'' (response_new 200 ''OK''))"

definition item_location :: "u64 \<Rightarrow> string" where
  "item_location i = ''/items/'' @ show_nat (unat i)"

definition create_item :: "Request \<Rightarrow> Store \<Rightarrow> Response \<times> Store" where
  "create_item req s =
     (let (i, s') = create (rq_body req) s
      in (with_body (''{'' @ [CHR 0x22] @ ''id'' @ [CHR 0x22] @ '':'' @ show_nat (unat i) @ ''}'')
            (with_header ''content-type'' ''application/json''
              (with_header ''location'' (item_location i) (response_new 201 ''Created''))), s'))"

definition get_item :: "u64 \<Rightarrow> Store \<Rightarrow> Response" where
  "get_item i s =
     (case get s i of
        Some v \<Rightarrow> with_body v
          (with_header ''content-type'' ''application/octet-stream'' (response_new 200 ''OK''))
      | None \<Rightarrow> response_new 404 ''Not Found'')"

definition put_item :: "bool \<Rightarrow> u64 \<Rightarrow> Request \<Rightarrow> Store \<Rightarrow> (Response \<times> Store) option" where
  "put_item checks i req s =
     (case put checks i (rq_body req) s of
        None \<Rightarrow> None
      | Some (Created, s') \<Rightarrow>
          Some (with_header ''location'' (item_location i) (response_new 201 ''Created''), s')
      | Some (Replaced, s') \<Rightarrow> Some (response_new 200 ''OK'', s'))"

definition delete_item :: "u64 \<Rightarrow> Store \<Rightarrow> Response \<times> Store" where
  "delete_item i s =
     (let (found, s') = delete i s
      in (if found then response_new 204 ''No Content'' else response_new 404 ''Not Found'', s'))"

section \<open>Routing\<close>

definition with_id ::
  "string \<Rightarrow> (u64 \<Rightarrow> (Response \<times> Store) option) \<Rightarrow> Store \<Rightarrow> (Response \<times> Store) option" where
  "with_id raw handler s =
     (case parse_uint (2 ^ 64 - 1) raw of
        Some n \<Rightarrow> handler (of_nat n)
      | None \<Rightarrow> Some (with_body ''id must be a non-negative integer'' (response_new 400 ''Bad Request''), s))"

definition segments :: "string \<Rightarrow> string list" where
  "segments path = filter (\<lambda>p. p \<noteq> []) (split_on (CHR ''/'') (trim_start_matches (CHR ''/'') path))"

definition route :: "bool \<Rightarrow> Request \<Rightarrow> Store \<Rightarrow> (Response \<times> Store) option" where
  "route checks req s =
     (let m = rq_method req; segs = segments (rq_path req)
      in if m = ''GET'' \<and> segs = [''items''] then Some (list_items s, s)
         else if m = ''POST'' \<and> segs = [''items''] then Some (create_item req s)
         else (case segs of
                 [a, raw] \<Rightarrow>
                   if a = ''items'' \<and> m = ''GET'' then with_id raw (\<lambda>i. Some (get_item i s, s)) s
                   else if a = ''items'' \<and> m = ''PUT'' then with_id raw (\<lambda>i. put_item checks i req s) s
                   else if a = ''items'' \<and> m = ''DELETE'' then with_id raw (\<lambda>i. Some (delete_item i s)) s
                   else Some (response_new 404 ''Not Found'', s)
               | _ \<Rightarrow> Some (response_new 404 ''Not Found'', s)))"

text \<open>One connection: the bytes written back (a peer that has gone away receives fewer) and the
  new store. \<open>None\<close> is a panic of the connection's thread.\<close>

definition handle_connection :: "bool \<Rightarrow> reader \<Rightarrow> Store \<Rightarrow> (string \<times> Store) option" where
  "handle_connection checks r s =
     (case parse r of
        None \<Rightarrow> None
      | Some (Ok (Some req), _) \<Rightarrow>
          (case route checks req s of
             None \<Rightarrow> None
           | Some (rs, s') \<Rightarrow> Some (write_response rs, s'))
      | Some (Ok None, _) \<Rightarrow> Some ([], s)
      | Some (Err (Malformed reason), _) \<Rightarrow>
          Some (write_response (with_body reason (response_new 400 ''Bad Request'')), s)
      | Some (Err (Io e), _) \<Rightarrow> Some ([], s))"

section \<open>Reading the JSON back\<close>

text \<open>What the encoder keeps of a byte.\<close>

definition shown :: "char \<Rightarrow> char" where
  "shown b = (if b = CHR 0x0A \<or> b = CHR 0x0D \<or> b = CHR 0x09 \<or> 0x20 \<le> code_of b \<and> code_of b \<le> 0x7E
     then b else CHR ''?'')"

text \<open>A reader of JSON strings with the simple escapes of the JSON grammar, after the opening quote:
  the decoded string and what follows the closing quote. A raw control character is an error.\<close>

definition json_escape :: "char \<Rightarrow> char option" where
  "json_escape c = map_of [(CHR 0x22, CHR 0x22), (CHR 0x5C, CHR 0x5C), (CHR ''/'', CHR ''/''),
     (CHR ''b'', CHR 0x08), (CHR ''f'', CHR 0x0C), (CHR ''n'', CHR 0x0A), (CHR ''r'', CHR 0x0D),
     (CHR ''t'', CHR 0x09)] c"

fun json_read_string :: "string \<Rightarrow> (string \<times> string) option" where
  "json_read_string [] = None"
| "json_read_string (c # cs) =
     (if c = CHR 0x22 then Some ([], cs)
      else if c = CHR 0x5C then
        (case cs of
           [] \<Rightarrow> None
         | e # cs' \<Rightarrow>
             (case json_escape e of
                None \<Rightarrow> None
              | Some d \<Rightarrow> (case json_read_string cs' of None \<Rightarrow> None | Some (s, r) \<Rightarrow> Some (d # s, r))))
      else if code_of c < 0x20 then None
      else (case json_read_string cs of None \<Rightarrow> None | Some (s, r) \<Rightarrow> Some (c # s, r)))"

definition expect :: "string \<Rightarrow> string \<Rightarrow> string option" where
  "expect w s = (if starts_with w s then Some (drop (length w) s) else None)"

text \<open>A reader of the objects of the listing and of the listing itself.\<close>

definition json_read_item :: "string \<Rightarrow> ((nat \<times> string) \<times> string) option" where
  "json_read_item s0 =
     (case expect (''{'' @ [CHR 0x22] @ ''id'' @ [CHR 0x22] @ '':'') s0 of
        None \<Rightarrow> None
      | Some s1 \<Rightarrow>
          (case split_once (CHR '','') s1 of
             None \<Rightarrow> None
           | Some (ds, s2) \<Rightarrow>
               (case (parse_uint (2 ^ 64 - 1) ds, expect ([CHR 0x22] @ ''value'' @ [CHR 0x22] @ '':'' @ [CHR 0x22]) s2) of
                  (Some n, Some s3) \<Rightarrow>
                    (case json_read_string s3 of
                       None \<Rightarrow> None
                     | Some (v, s4) \<Rightarrow>
                         (case expect ''}'' s4 of None \<Rightarrow> None | Some s5 \<Rightarrow> Some ((n, v), s5)))
                | _ \<Rightarrow> None)))"

fun json_read_items :: "nat \<Rightarrow> string \<Rightarrow> (nat \<times> string) list option" where
  "json_read_items 0 s = None"
| "json_read_items (Suc k) s =
     (case json_read_item s of
        None \<Rightarrow> None
      | Some (it, CHR '','' # rest) \<Rightarrow>
          (case json_read_items k rest of None \<Rightarrow> None | Some its \<Rightarrow> Some (it # its))
      | Some (it, rest) \<Rightarrow> if rest = '']'' then Some [it] else None)"

definition json_read_listing :: "string \<Rightarrow> (nat \<times> string) list option" where
  "json_read_listing s =
     (case expect ''['' s of
        None \<Rightarrow> None
      | Some s' \<Rightarrow> if s' = '']'' then Some [] else json_read_items (length s) s')"

lemma json_read_byte [simp]:
  "json_read_string (json_byte b @ s) =
     (case json_read_string s of None \<Rightarrow> None | Some (t, r) \<Rightarrow> Some (shown b # t, r))"
  by (auto simp: json_byte_def json_escape_def shown_def split: option.splits)

lemma json_read_bytes [simp]:
  "json_read_string (concat (map json_byte raw) @ CHR 0x22 # rest) = Some (map shown raw, rest)"
  by (induction raw) simp_all

lemma expect_append [simp]: "expect w (w @ s) = Some s"
  by (simp add: expect_def starts_with_def)

lemma unat_u64_bound: "unat (i :: u64) \<le> 2 ^ 64 - 1"
  using unsigned_less [of i, where ?'a = nat] by simp

lemma json_read_item_item [simp]:
  "json_read_item (json_item it @ rest) = Some ((unat (fst it), map shown (snd it)), rest)"
proof -
  have c: "CHR '','' \<notin> set (show_nat (unat (fst it)))"
    by (rule show_nat_char) simp
  have p: "parse_uint (2 ^ 64 - 1) (show_nat (unat (fst it))) = Some (unat (fst it))"
    using unat_u64_bound by (rule parse_uint_show_nat)
  let ?v = "concat (map json_byte (snd it)) @ CHR 0x22 # ''}'' @ rest"
  have i: "json_item it @ rest = (''{'' @ [CHR 0x22] @ ''id'' @ [CHR 0x22] @ '':'') @ show_nat (unat (fst it)) @ CHR '','' #
      (([CHR 0x22] @ ''value'' @ [CHR 0x22] @ '':'' @ [CHR 0x22]) @ ?v)"
    by (simp add: json_item_def json_string_def)
  show ?thesis
    unfolding json_read_item_def i expect_append option.case split_once_append [OF c] prod.case p json_read_bytes by simp
qed

lemma json_read_items_join:
  "its \<noteq> [] \<Longrightarrow> length its \<le> k \<Longrightarrow>
   json_read_items k (join_with '','' (map json_item its) @ '']'') =
     Some (map (\<lambda>(i, v). (unat i, map shown v)) its)"
proof (induction its arbitrary: k rule: induct_list012)
  case (2 it)
  then show ?case by (cases k) (auto simp: split: prod.splits)
next
  case (3 it it' its)
  then show ?case by (cases k) (auto simp: split: prod.splits)
qed simp

lemma length_join: "\<forall>x \<in> set xs. x \<noteq> [] \<Longrightarrow> length xs \<le> length (join_with sep xs)"
proof (induction sep xs rule: join_with.induct)
  case (3 sep x y zs)
  then show ?case by (cases x) auto
qed (auto simp: Suc_le_eq)

lemma json_byte_printable: "c \<in> set (json_byte b) \<Longrightarrow> 0x20 \<le> code_of c \<and> code_of c \<le> 0x7E"
  by (auto simp: json_byte_def split: if_splits)

lemma json_string_printable: "c \<in> set (json_string raw) \<Longrightarrow> 0x20 \<le> code_of c \<and> code_of c \<le> 0x7E"
  by (auto simp: json_string_def dest: json_byte_printable)

section \<open>Routing, case by case\<close>

lemma segments_location [simp]: "segments (item_location i) = [''items'', show_nat (unat i)]"
proof -
  have "CHR ''/'' \<notin> set (show_nat (unat i))" by (rule show_nat_char) simp
  moreover have "show_nat (unat i) \<noteq> []" using show_nat_token by (simp add: token_def)
  ultimately show ?thesis
    by (simp add: segments_def item_location_def trim_start_matches_def)
qed

lemma segments_items [simp]: "segments ''/items'' = [''items'']"
  by (simp add: segments_def trim_start_matches_def)

text \<open>The id a request names.\<close>

definition item_id :: "Request \<Rightarrow> u64 option" where
  "item_id req =
     (case segments (rq_path req) of
        [a, raw] \<Rightarrow> if a = ''items'' then map_option of_nat (parse_uint (2 ^ 64 - 1) raw) else None
      | _ \<Rightarrow> None)"

lemma item_id_SomeD:
  "item_id req = Some i \<Longrightarrow> \<exists>raw n. segments (rq_path req) = [''items'', raw] \<and>
     parse_uint (2 ^ 64 - 1) raw = Some n \<and> i = of_nat n"
  by (auto simp: item_id_def split: list.splits if_splits)

lemma item_id_location: "rq_path req = item_location i \<Longrightarrow> item_id req = Some i"
  using parse_uint_show_nat [OF unat_u64_bound [of i]] by (simp add: item_id_def)

lemma route_item:
  assumes "item_id req = Some i"
  shows "rq_method req = ''GET'' \<Longrightarrow> route checks req s = Some (get_item i s, s)"
    and "rq_method req = ''PUT'' \<Longrightarrow> route checks req s = put_item checks i req s"
    and "rq_method req = ''DELETE'' \<Longrightarrow> route checks req s = Some (delete_item i s)"
  using item_id_SomeD [OF assms] by (auto simp: route_def with_id_def)

lemma route_create:
  "rq_method req = ''POST'' \<Longrightarrow> segments (rq_path req) = [''items''] \<Longrightarrow>
   route checks req s = Some (create_item req s)"
  by (simp add: route_def)

lemma put_itemE:
  assumes "put_item checks i req s = Some (rs, s')"
  obtains out where "put checks i (rq_body req) s = Some (out, s')"
    and "rs_status rs = (if out = Created then 201 else 200)"
  using assms by (auto simp: put_item_def response_new_def with_header_def split: option.splits PutOutcome.splits)

lemma delete_itemE:
  assumes "delete_item i s = (rs, s')"
  obtains b where "delete i s = (b, s')" and "rs_status rs = (if b then 204 else 404)"
  using assms by (auto simp: delete_item_def response_new_def split: prod.splits if_splits)

lemma get_item_simps:
  "get s i = Some v \<Longrightarrow> rs_status (get_item i s) = 200 \<and> rs_body (get_item i s) = v"
  "get s i = None \<Longrightarrow> get_item i s = response_new 404 ''Not Found''"
  by (simp_all add: get_item_def with_body_def with_header_def response_new_def)

section \<open>Properties\<close>

text \<open>Property: The listing is JSON that a client can read back: the objects of \<open>GET /items\<close> give the id of
  every item exactly and its value with each byte outside printable ASCII (and tab, newline,
  carriage return) shown as a question mark; the text itself is printable ASCII.\<close>

theorem json_array_read_back:
  "json_read_listing (json_array its) = Some (map (\<lambda>(i, v). (unat i, map shown v)) its) \<and>
   (\<forall>c. c \<in> set (json_string raw) \<longrightarrow> 0x20 \<le> code_of c \<and> code_of c \<le> 0x7E)"
proof (cases "its = []")
  case True
  then show ?thesis
    by (auto simp: json_read_listing_def json_array_def expect_def starts_with_def dest: json_string_printable)
next
  case False
  let ?j = "join_with '','' (map json_item its)"
  have "length (map json_item its) \<le> length ?j"
    by (rule length_join) (auto simp: json_item_def)
  then have l: "length its \<le> length (json_array its)"
    by (simp add: json_array_def)
  have "json_read_items (length (json_array its)) (?j @ '']'') = Some (map (\<lambda>(i, v). (unat i, map shown v)) its)"
    using False l by (rule json_read_items_join)
  moreover have "expect ''['' (json_array its) = Some (?j @ '']'')"
    using expect_append [of "''[''" "?j @ '']''"] by (simp add: json_array_def)
  moreover have "?j @ '']'' \<noteq> '']''"
    using False by (cases its; cases "tl its") (auto simp: json_item_def)
  ultimately show ?thesis
    by (auto simp: json_read_listing_def dest: json_string_printable)
qed

theorem json_array_read_back_witness:
  "json_read_listing (json_array [(7, [CHR 0x00, CHR 0x22])]) = Some [(7, [CHR ''?'', CHR 0x22])] \<and>
   CHR 0x5C \<in> set (json_string [CHR 0x22]) \<and> (0x20::nat) \<le> code_of (CHR 0x5C)"
  using json_array_read_back [of "[(7, [CHR 0x00, CHR 0x22])]" "[CHR 0x22]"]
  by (auto simp: shown_def json_string_def json_byte_def)

text \<open>Property: An item that was \<open>PUT\<close> is what the next \<open>GET\<close> of the same id returns, whatever spelling of
  the id either request used; the \<open>PUT\<close> answers 201 exactly when the id was free and 200 when it
  replaced an item, and no other item changes.\<close>

theorem put_then_get:
  assumes "item_id rq1 = Some i" and "rq_method rq1 = ''PUT''" and "route checks rq1 s = Some (rs1, s1)"
    and "item_id rq2 = Some i" and "rq_method rq2 = ''GET''"
  shows "\<exists>rs2. route checks rq2 s1 = Some (rs2, s1) \<and> rs_status rs2 = 200 \<and> rs_body rs2 = rq_body rq1 \<and>
    rs_status rs1 = (if get s i = None then 201 else 200) \<and> (\<forall>j. j \<noteq> i \<longrightarrow> get s1 j = get s j)"
proof -
  have "put_item checks i rq1 s = Some (rs1, s1)"
    using assms(3) route_item(2) [OF assms(1,2)] by simp
  then obtain out where p: "put checks i (rq_body rq1) s = Some (out, s1)"
    and o: "rs_status rs1 = (if out = Created then 201 else 200)" by (rule put_itemE)
  show ?thesis
    using store.put_get [OF p] store.put_out [OF p] o route_item(1) [OF assms(4,5)]
      get_item_simps(1) [of s1 i "rq_body rq1"] by simp
qed

theorem put_then_get_witness:
  "\<exists>rs1 s1 rs2. route True \<lparr>rq_method = ''PUT'', rq_path = ''/items/007'', rq_headers = [], rq_body = ''x''\<rparr> store_new =
       Some (rs1, s1) \<and>
     route True \<lparr>rq_method = ''GET'', rq_path = ''/items/+7'', rq_headers = [], rq_body = []\<rparr> s1 = Some (rs2, s1) \<and>
     rs_body rs2 = ''x'' \<and> rs_status rs1 = 201"
proof -
  let ?p = "\<lparr>rq_method = ''PUT'', rq_path = ''/items/007'', rq_headers = [], rq_body = ''x''\<rparr>"
  let ?g = "\<lparr>rq_method = ''GET'', rq_path = ''/items/+7'', rq_headers = [], rq_body = []\<rparr>"
  have i: "item_id ?p = Some 7" "item_id ?g = Some 7"
    by (simp_all add: item_id_def segments_def trim_start_matches_def parse_uint_def digit_val_def)
  obtain rs1 s1 where r: "route True ?p store_new = Some (rs1, s1)"
    using route_item(2) [OF i(1), of True store_new]
    by (auto simp: put_item_def put_def add_checked_def fetch_max_def map_insert_def store_new_def)
  show ?thesis
    using put_then_get [OF i(1) _ r i(2)] r by auto
qed

text \<open>Property: A \<open>POST\<close> to the collection answers 201 with a location whose \<open>GET\<close> returns the posted body, and
  every item that existed before is still returned unchanged.\<close>

theorem post_then_get:
  assumes "store_inv s" and "rq_method rq1 = ''POST''" and "segments (rq_path rq1) = [''items'']"
    and "rq_method rq2 = ''GET''" and "(''location'', rq_path rq2) \<in> set (rs_headers rs1)"
    and "route checks rq1 s = Some (rs1, s1)"
  shows "rs_status rs1 = 201 \<and> (\<exists>rs2. route checks rq2 s1 = Some (rs2, s1) \<and> rs_status rs2 = 200 \<and>
    rs_body rs2 = rq_body rq1) \<and> (\<forall>j v. get s j = Some v \<longrightarrow> get s1 j = Some v)"
proof -
  obtain i where c: "create (rq_body rq1) s = (i, s1)"
    and st: "rs_status rs1 = 201"
    and hd: "rs_headers rs1 = [(''location'', item_location i), (''content-type'', ''application/json'')]"
    using assms(6) route_create [OF assms(2,3)]
    by (auto simp: create_item_def with_body_def with_header_def response_new_def split: prod.splits)
  then have "rq_path rq2 = item_location i" using assms(5) by auto
  then have "route checks rq2 s1 = Some (get_item i s1, s1)"
    using assms(4) by (intro route_item item_id_location)
  then show ?thesis
    using st store.create_get [OF c] store.create_keeps [OF assms(1) c]
      get_item_simps(1) [of s1 i "rq_body rq1"] by simp
qed

theorem post_then_get_witness:
  "\<exists>rs1 s1 rs2. route True \<lparr>rq_method = ''POST'', rq_path = ''/items'', rq_headers = [], rq_body = ''x''\<rparr> store_new =
       Some (rs1, s1) \<and> (''location'', ''/items/1'') \<in> set (rs_headers rs1) \<and>
     route True \<lparr>rq_method = ''GET'', rq_path = ''/items/1'', rq_headers = [], rq_body = []\<rparr> s1 = Some (rs2, s1) \<and>
     rs_body rs2 = ''x''"
proof -
  let ?p = "\<lparr>rq_method = ''POST'', rq_path = ''/items'', rq_headers = [], rq_body = ''x''\<rparr>"
  let ?g = "\<lparr>rq_method = ''GET'', rq_path = ''/items/1'', rq_headers = [], rq_body = []\<rparr>"
  obtain rs1 s1 where r: "route True ?p store_new = Some (rs1, s1)"
    and l: "(''location'', ''/items/1'') \<in> set (rs_headers rs1)"
    by (auto simp: route_def create_item_def create_eq with_body_def with_header_def response_new_def
        store_new_def item_location_def show_nat.simps)
  show ?thesis
    using post_then_get [OF store_inv_new _ _ _ _ r, of ?g] r l by auto
qed

text \<open>Property: After a \<open>DELETE\<close> the item is gone: it answers 204 when the item existed and 404 when not, a
  \<open>GET\<close> and a second \<open>DELETE\<close> of the id answer 404, and no other item changes.\<close>

theorem delete_then_get:
  assumes "item_id rq1 = Some i" and "rq_method rq1 = ''DELETE''" and "item_id rq2 = Some i" and "rq_method rq2 = ''GET''"
  shows "\<exists>rs1 s1 rs2 rs3 s3. route checks rq1 s = Some (rs1, s1) \<and>
    rs_status rs1 = (if get s i = None then 404 else 204) \<and>
    route checks rq2 s1 = Some (rs2, s1) \<and> rs_status rs2 = 404 \<and>
    route checks rq1 s1 = Some (rs3, s3) \<and> rs_status rs3 = 404 \<and> get s3 = get s1 \<and> get s1 = (get s)(i := None)"
proof -
  obtain rs1 s1 where d: "delete_item i s = (rs1, s1)" by fastforce
  obtain rs3 s3 where e: "delete_item i s1 = (rs3, s3)" by fastforce
  obtain b where b: "delete i s = (b, s1)" and r1: "rs_status rs1 = (if b then 204 else 404)"
    using d by (rule delete_itemE)
  obtain c where c: "delete i s1 = (c, s3)" and r3: "rs_status rs3 = (if c then 204 else 404)"
    using e by (rule delete_itemE)
  have n: "get s1 i = None" using store.delete_get [OF b] by simp
  show ?thesis
    using route_item(3) [OF assms(1,2)] route_item(1) [OF assms(3,4)] d e r1 r3
      store.delete_out [OF b] store.delete_get [OF b] store.delete_twice [OF b c]
      get_item_simps(2) [OF n] by (simp add: response_new_def)
qed

theorem delete_then_get_witness:
  "\<exists>rs1 s1. route True \<lparr>rq_method = ''DELETE'', rq_path = ''/items/7'', rq_headers = [], rq_body = []\<rparr>
       \<lparr>items = [(7, ''x'')], next_id = 8\<rparr> = Some (rs1, s1) \<and> rs_status rs1 = 204 \<and> get s1 7 = None"
proof -
  let ?d = "\<lparr>rq_method = ''DELETE'', rq_path = ''/items/7'', rq_headers = [], rq_body = []\<rparr>"
  let ?g = "\<lparr>rq_method = ''GET'', rq_path = ''/items/7'', rq_headers = [], rq_body = []\<rparr>"
  have i: "item_id ?d = Some 7" "item_id ?g = Some 7"
    by (simp_all add: item_id_def segments_def trim_start_matches_def parse_uint_def digit_val_def)
  have "get \<lparr>items = [(7, ''x'')], next_id = 8\<rparr> 7 = Some ''x''" by (simp add: get_def)
  then show ?thesis
    using delete_then_get [OF i(1) _ i(2), of True "\<lparr>items = [(7, ''x'')], next_id = 8\<rparr>"] by auto
qed

text \<open>Property: A malformed id is told apart from a missing item: 400 is answered exactly for \<open>GET\<close>,
  \<open>PUT\<close> and \<open>DELETE\<close> of an item path whose id is not a 64-bit number, and no request that
  is answered 400 or 404 changes the store's contents.\<close>

theorem route_errors:
  assumes "route checks req s = Some (rs, s')"
  shows "(rs_status rs = 400 \<longleftrightarrow> (\<exists>raw. segments (rq_path req) = [''items'', raw] \<and>
      rq_method req \<in> {''GET'', ''PUT'', ''DELETE''} \<and> parse_uint (2 ^ 64 - 1) raw = None)) \<and>
    (rs_status rs \<in> {400, 404} \<longrightarrow> get s' = get s)"
proof (cases "item_id req")
  case (Some i)
  then obtain raw n where sg: "segments (rq_path req) = [''items'', raw]" and n: "parse_uint (2 ^ 64 - 1) raw = Some n"
    using item_id_SomeD by blast
  consider "rq_method req = ''GET''" | "rq_method req = ''PUT''" | "rq_method req = ''DELETE''"
    | "rq_method req \<notin> {''GET'', ''PUT'', ''DELETE''}" by blast
  then show ?thesis
  proof cases
    case 1
    then have "rs = get_item i s" "s' = s" using assms route_item(1) [OF Some] by auto
    then show ?thesis using sg n get_item_simps [of s i] by (cases "get s i") (auto simp: response_new_def)
  next
    case 2
    then have "put_item checks i req s = Some (rs, s')" using assms route_item(2) [OF Some] by simp
    then show ?thesis using sg n by (auto elim!: put_itemE split: if_splits)
  next
    case 3
    then have "delete_item i s = (rs, s')" using assms route_item(3) [OF Some] by simp
    then obtain b where b: "delete i s = (b, s')" and "rs_status rs = (if b then 204 else 404)"
      by (rule delete_itemE)
    then show ?thesis using sg n store.delete_get [OF b] store.delete_out [OF b] by (auto simp: fun_eq_iff)
  next
    case 4
    then show ?thesis using assms sg n by (auto simp: route_def response_new_def)
  qed
next
  case None
  then show ?thesis
    using assms
    by (auto simp: route_def Let_def with_id_def item_id_def create_item_def list_items_def with_body_def
        with_header_def response_new_def split: if_splits list.splits option.splits prod.splits)
qed

theorem route_errors_witness:
  "\<exists>rs. route True \<lparr>rq_method = ''GET'', rq_path = ''/items/abc'', rq_headers = [], rq_body = []\<rparr> store_new = Some (rs, store_new) \<and>
     rs_status rs = 400"
proof -
  let ?g = "\<lparr>rq_method = ''GET'', rq_path = ''/items/abc'', rq_headers = [], rq_body = []\<rparr>"
  have sg: "segments (rq_path ?g) = [''items'', ''abc'']" by (simp add: segments_def trim_start_matches_def)
  have pn: "parse_uint (2 ^ 64 - 1) ''abc'' = None" by (simp add: parse_uint_def digit_val_def)
  obtain rs where r: "route True ?g store_new = Some (rs, store_new)"
    using sg pn by (simp add: route_def with_id_def)
  show ?thesis using route_errors [OF r] r sg pn by auto
qed

end
