(* ===== verification/Ms_Server.thy ===== *)
theory Ms_Server
  imports Ms_Service
begin

text \<open>
  The running microservice: \<open>main.rs\<close>, and \<open>run\<close>, \<open>serve\<close> and the connection threads of \<open>server.rs\<close>. Each accepted
  connection is a thread, and a step is one atomic access to the shared store, so that handlers of several connections interleave between the two store
  accesses of a \<open>POST\<close> or a \<open>PUT\<close>. The theory shows that a connection that runs alone does what \<open>handle_connection\<close> computes, that every run of the
  service is a run of the store's threads, and that the ids of all \<open>POST\<close> answers are distinct.
\<close>

section \<open>Connection threads\<close>

text \<open>Where the thread of a connection is: before reading, before its first store access, between \<open>fetch_add\<close> or \<open>fetch_max\<close> and the insertion, before writing
  its response, returned with the bytes it wrote, or ended by a panic.\<close>

datatype ms_conn = Reading reader | Serving Request | Drawn u64 string | Reserved u64 string | Replying Response | Closed string | Crashed

definition ms_receive :: "reader \<Rightarrow> ms_conn" where
  "ms_receive r =
     (case parse r of
        None \<Rightarrow> Crashed
      | Some (Ok (Some req), _) \<Rightarrow> Serving req
      | Some (Ok None, _) \<Rightarrow> Closed []
      | Some (Err (Malformed reason), _) \<Rightarrow> Replying (with_body reason (response_new 400 ''Bad Request''))
      | Some (Err (Io e), _) \<Rightarrow> Closed [])"

definition begin_put :: "bool \<Rightarrow> u64 \<Rightarrow> Request \<Rightarrow> Store \<Rightarrow> ms_conn \<times> Store" where
  "begin_put checks i req s =
     (case add_checked checks i 1 of None \<Rightarrow> (Crashed, s) | Some n \<Rightarrow> (Reserved i (rq_body req), fetch_max n s))"

definition begin_with_id :: "string \<Rightarrow> (u64 \<Rightarrow> ms_conn \<times> Store) \<Rightarrow> Store \<Rightarrow> ms_conn \<times> Store" where
  "begin_with_id raw handler s =
     (case parse_uint (2 ^ 64 - 1) raw of
        Some n \<Rightarrow> handler (of_nat n)
      | None \<Rightarrow> (Replying (with_body ''id must be a non-negative integer'' (response_new 400 ''Bad Request'')), s))"

text \<open>\<open>route\<close> up to and including its first store access.\<close>

definition begin_route :: "bool \<Rightarrow> Request \<Rightarrow> Store \<Rightarrow> ms_conn \<times> Store" where
  "begin_route checks req s =
     (let m = rq_method req; segs = segments (rq_path req)
      in if m = ''GET'' \<and> segs = [''items''] then (Replying (list_items s), s)
         else if m = ''POST'' \<and> segs = [''items''] then (let (i, s') = fetch_add s in (Drawn i (rq_body req), s'))
         else (case segs of
                 [a, raw] \<Rightarrow>
                   if a = ''items'' \<and> m = ''GET'' then begin_with_id raw (\<lambda>i. (Replying (get_item i s), s)) s
                   else if a = ''items'' \<and> m = ''PUT'' then begin_with_id raw (\<lambda>i. begin_put checks i req s) s
                   else if a = ''items'' \<and> m = ''DELETE'' then begin_with_id raw (\<lambda>i. let (rs, s') = delete_item i s in (Replying rs, s')) s
                   else (Replying (response_new 404 ''Not Found''), s)
               | _ \<Rightarrow> (Replying (response_new 404 ''Not Found''), s)))"

definition created_reply :: "u64 \<Rightarrow> Response" where
  "created_reply i =
     with_body (''{'' @ [CHR 0x22] @ ''id'' @ [CHR 0x22] @ '':'' @ show_nat (unat i) @ ''}'')
       (with_header ''content-type'' ''application/json''
         (with_header ''location'' (item_location i) (response_new 201 ''Created'')))"

definition put_reply :: "u64 \<Rightarrow> string option \<Rightarrow> Response" where
  "put_reply i old =
     (case old of
        None \<Rightarrow> with_header ''location'' (item_location i) (response_new 201 ''Created'')
      | Some _ \<Rightarrow> response_new 200 ''OK'')"

text \<open>The insertion that ends a \<open>create\<close> or a \<open>put\<close>, and its answer.\<close>

fun finish_insert :: "ms_conn \<Rightarrow> Store \<Rightarrow> ms_conn \<times> Store" where
  "finish_insert (Drawn i v) s = (let (_, s') = map_insert i v s in (Replying (created_reply i), s'))"
| "finish_insert (Reserved i v) s = (let (old, s') = map_insert i v s in (Replying (put_reply i old), s'))"
| "finish_insert c s = (c, s)"

section \<open>The service\<close>

text \<open>The shared store, the threads in the order of acceptance, the exit code once \<open>main\<close> has left, and what was printed. \<open>ms_posts\<close> records which
  connection drew which id, and \<open>ms_wrapped\<close> whether the counter ever overflowed.\<close>

record ms_state =
  ms_store :: Store
  ms_conns :: "ms_conn list"
  ms_exit :: "nat option"
  ms_out :: string
  ms_posts :: "(nat \<times> u64) list"
  ms_wrapped :: bool

text \<open>\<open>main\<close> and \<open>run\<close> up to the accept loop. \<open>bind\<close> is the answer of \<open>TcpListener::bind\<close>, with the one of \<open>local_addr\<close>.\<close>

definition ms_run :: "(string \<Rightarrow> ((string, io_error) result, io_error) result) \<Rightarrow> string \<Rightarrow> Store \<Rightarrow> ms_state" where
  "ms_run bind addr s0 =
     (let s = \<lparr>ms_store = s0, ms_conns = [], ms_exit = None, ms_out = [], ms_posts = [], ms_wrapped = False\<rparr>
      in case bind addr of
           Ok (Ok local) \<Rightarrow> s\<lparr>ms_out := ''listening on '' @ local @ [CHR 0x0A]\<rparr>
         | _ \<Rightarrow> s\<lparr>ms_exit := Some 1\<rparr>)"

definition ms_main :: "(string \<Rightarrow> ((string, io_error) result, io_error) result) \<Rightarrow> string list \<Rightarrow> ms_state" where
  "ms_main bind args = ms_run bind (if 1 < length args then args ! 1 else ''127.0.0.1:7878'') store_new"

definition set_conn :: "nat \<Rightarrow> ms_conn \<times> Store \<Rightarrow> ms_state \<Rightarrow> ms_state" where
  "set_conn t p s = s\<lparr>ms_conns := (ms_conns s)[t := fst p], ms_store := snd p\<rparr>"

text \<open>Bookkeeping of a step from \<open>Serving\<close>.\<close>

definition record_post :: "nat \<Rightarrow> ms_conn \<Rightarrow> Store \<Rightarrow> ms_state \<Rightarrow> ms_state" where
  "record_post t c before s =
     (case c of
        Drawn i v \<Rightarrow> s\<lparr>ms_posts := (t, i) # ms_posts s, ms_wrapped := ms_wrapped s \<or> \<not> room before\<rparr>
      | _ \<Rightarrow> s)"

definition ms_thread :: "ms_state \<Rightarrow> nat \<Rightarrow> ms_conn \<Rightarrow> bool" where
  "ms_thread s t c \<longleftrightarrow> ms_exit s = None \<and> t < length (ms_conns s) \<and> ms_conns s ! t = c"

inductive ms_step :: "bool \<Rightarrow> ms_state \<Rightarrow> ms_state \<Rightarrow> bool" for checks where
  accepted: "ms_exit s = None \<Longrightarrow> ms_step checks s (s\<lparr>ms_conns := ms_conns s @ [Reading r]\<rparr>)"
| accept_error: "ms_exit s = None \<Longrightarrow> ms_step checks s (s\<lparr>ms_exit := Some 1\<rparr>)"
| clone_error: "ms_thread s t (Reading r) \<Longrightarrow> ms_step checks s (set_conn t (Closed [], ms_store s) s)"
| receive: "ms_thread s t (Reading r) \<Longrightarrow> ms_step checks s (set_conn t (ms_receive r, ms_store s) s)"
| route_begin: "ms_thread s t (Serving req) \<Longrightarrow> begin_route checks req (ms_store s) = (c, s1) \<Longrightarrow>
     ms_step checks s (record_post t c (ms_store s) (set_conn t (c, s1) s))"
| create_insert: "ms_thread s t (Drawn i v) \<Longrightarrow> ms_step checks s (set_conn t (finish_insert (Drawn i v) (ms_store s)) s)"
| put_insert: "ms_thread s t (Reserved i v) \<Longrightarrow> ms_step checks s (set_conn t (finish_insert (Reserved i v) (ms_store s)) s)"
| respond: "ms_thread s t (Replying rs) \<Longrightarrow> ms_step checks s (set_conn t (Closed (take n (write_response rs)), ms_store s) s)"

inductive ms_reach :: "bool \<Rightarrow> ms_state \<Rightarrow> bool" for checks where
  start: "ms_reach checks (ms_main bind args)"
| step: "ms_reach checks s \<Longrightarrow> ms_step checks s s' \<Longrightarrow> ms_reach checks s'"

lemmas conn_defs = set_conn_def record_post_def ms_thread_def

section \<open>A connection that runs alone\<close>

lemma create_item_steps: "create_item req s = (let (i, s1) = fetch_add s; (_, s2) = map_insert i (rq_body req) s1 in (created_reply i, s2))"
  by (simp add: create_item_def create_def created_reply_def Let_def split: prod.splits)

lemma put_item_steps:
  "put_item checks i req s = (case add_checked checks i 1 of None \<Rightarrow> None
     | Some n \<Rightarrow> (let (old, s2) = map_insert i (rq_body req) (fetch_max n s) in Some (put_reply i old, s2)))"
  by (auto simp: put_item_def put_def put_reply_def Let_def split: option.splits prod.splits)

text \<open>\<open>route\<close> is its first access followed by the insertion.\<close>

lemma route_begin_finish:
  "route checks req s = (case begin_route checks req s of (c, s1) \<Rightarrow>
     (case finish_insert c s1 of (Replying rs, s2) \<Rightarrow> Some (rs, s2) | _ \<Rightarrow> None))"
  by (auto simp: route_def begin_route_def begin_put_def begin_with_id_def with_id_def create_item_steps put_item_steps Let_def
      split: option.splits prod.splits list.splits)

lemma begin_route_shape:
  assumes "begin_route checks req s = (c, s1)"
  shows "(\<exists>rs. c = Replying rs \<and> (s1 = s \<or> (\<exists>i old. map_remove i s = (old, s1)))) \<or> (\<exists>i. c = Drawn i (rq_body req) \<and> fetch_add s = (i, s1)) \<or>
    (\<exists>i n. c = Reserved i (rq_body req) \<and> add_checked checks i 1 = Some n \<and> s1 = fetch_max n s) \<or> c = Crashed \<and> s1 = s"
  using assms by (auto simp: begin_route_def begin_put_def begin_with_id_def delete_item_def delete_def Let_def split: if_splits option.splits prod.splits list.splits)


lemma ms_steps_trans: "ms_step checks s s' \<Longrightarrow> (ms_step checks)\<^sup>*\<^sup>* s' s'' \<Longrightarrow> (ms_step checks)\<^sup>*\<^sup>* s s''"
  by (rule converse_rtranclp_into_rtranclp)

text \<open>What remains of a connection after its first access.\<close>

lemma finish_alone:
  assumes "ms_thread s t c" and "finish_insert c (ms_store s) = (Replying rs, st')"
  shows "\<exists>s'. (ms_step checks)\<^sup>*\<^sup>* s s' \<and> ms_conns s' = (ms_conns s)[t := Closed (write_response rs)] \<and> ms_store s' = st'"
proof -
  define s1 where "s1 = set_conn t (Replying rs, st') s"
  have "(ms_step checks)\<^sup>*\<^sup>* s s1"
  proof (cases c)
    case (Drawn i v)
    then show ?thesis using ms_step.create_insert [of s t i v checks] assms by (auto simp: s1_def)
  next
    case (Reserved i v)
    then show ?thesis using ms_step.put_insert [of s t i v checks] assms by (auto simp: s1_def)
  next
    case (Replying rs')
    then have "s1 = s" using assms list_update_id [of "ms_conns s" t] by (auto simp: s1_def conn_defs)
    then show ?thesis by simp
  qed (use assms in simp_all)
  moreover have "ms_thread s1 t (Replying rs)" using assms(1) by (auto simp: s1_def conn_defs)
  then have "ms_step checks s1 (set_conn t (Closed (take (length (write_response rs)) (write_response rs)), ms_store s1) s1)"
    by (rule ms_step.respond)
  ultimately show ?thesis
    by (intro exI [of _ "set_conn t (Closed (write_response rs), ms_store s1) s1"]) (auto simp: s1_def conn_defs)
qed

lemma route_alone:
  assumes "ms_thread s t (Serving req)"
  shows "\<exists>s'. (ms_step checks)\<^sup>*\<^sup>* s s' \<and>
    (case route checks req (ms_store s) of
       Some (rs, st') \<Rightarrow> ms_conns s' = (ms_conns s)[t := Closed (write_response rs)] \<and> ms_store s' = st'
     | None \<Rightarrow> ms_conns s' = (ms_conns s)[t := Crashed] \<and> ms_store s' = ms_store s)"
proof -
  obtain c st1 where b: "begin_route checks req (ms_store s) = (c, st1)" by fastforce
  define s1 where "s1 = record_post t c (ms_store s) (set_conn t (c, st1) s)"
  have 1: "ms_step checks s s1" unfolding s1_def using assms b by (rule ms_step.route_begin)
  have s1: "ms_conns s1 = (ms_conns s)[t := c]" "ms_store s1 = st1" "ms_exit s1 = ms_exit s"
    by (simp_all add: s1_def conn_defs split: ms_conn.splits)
  then have t1: "ms_thread s1 t c" using assms by (simp add: ms_thread_def)
  obtain c' st2 where f: "finish_insert c st1 = (c', st2)" by fastforce
  show ?thesis
  proof (cases "\<exists>rs. c' = Replying rs")
    case True
    then obtain rs where rs: "c' = Replying rs" by blast
    obtain s2 where "(ms_step checks)\<^sup>*\<^sup>* s1 s2" "ms_conns s2 = (ms_conns s1)[t := Closed (write_response rs)]" "ms_store s2 = st2"
      using finish_alone [OF t1, of rs st2 checks] f rs s1 by auto
    moreover have "route checks req (ms_store s) = Some (rs, st2)" using f rs b by (simp add: route_begin_finish)
    ultimately show ?thesis using ms_steps_trans [OF 1, of s2] s1 by (intro exI [of _ s2]) simp
  next
    case False
    then have "c = Crashed \<and> st1 = ms_store s" using begin_route_shape [OF b] f by (auto split: prod.splits)
    moreover from this have "route checks req (ms_store s) = None" using b by (simp add: route_begin_finish)
    ultimately show ?thesis using 1 s1 by (intro exI [of _ s1]) simp
  qed
qed

lemmas receive_defs = ms_receive_def handle_connection_def

lemmas receive_splits = option.splits prod.splits result.splits ParseError.splits

section \<open>The threads of the store\<close>

text \<open>A state of the service as one of the concurrent store: what each thread is doing to it.\<close>

fun call_of :: "ms_conn \<Rightarrow> call" where
  "call_of (Drawn i v) = Creating i v"
| "call_of (Reserved i v) = Putting i v"
| "call_of c = Idle"

definition ms_abs :: "ms_state \<Rightarrow> sys" where
  "ms_abs s = \<lparr>st = ms_store s, th = (\<lambda>t. if t < length (ms_conns s) then call_of (ms_conns s ! t) else Idle),
     issued = map snd (ms_posts s), wrapped = ms_wrapped s\<rparr>"

lemma ms_abs_sel [simp]:
  "st (ms_abs s) = ms_store s" "issued (ms_abs s) = map snd (ms_posts s)" "wrapped (ms_abs s) = ms_wrapped s"
  "ms_thread s t c \<Longrightarrow> th (ms_abs s) t = call_of c"
  by (simp_all add: ms_abs_def ms_thread_def)

lemma ms_abs_set_conn:
  assumes "ms_thread s t c0"
  shows "ms_abs (set_conn t (c, st') s) = (ms_abs s)\<lparr>st := st', th := (th (ms_abs s))(t := call_of c)\<rparr>"
  using assms by (auto simp: ms_abs_def conn_defs fun_eq_iff nth_list_update)

lemma ms_abs_keep:
  assumes "ms_thread s t c0" and "call_of c0 = Idle" and "call_of c = Idle"
  shows "ms_abs (set_conn t (c, st') s) = (ms_abs s)\<lparr>st := st'\<rparr>"
  using assms by (auto simp: ms_abs_def conn_defs fun_eq_iff nth_list_update)

lemma ms_receive_idle [simp]: "call_of (ms_receive r) = Idle"
  by (auto simp: ms_receive_def split: receive_splits)

lemma route_begin_sim:
  assumes t: "ms_thread s t (Serving req)" and b: "begin_route checks req (ms_store s) = (c, s1)"
  defines "s' \<equiv> record_post t c (ms_store s) (set_conn t (c, s1) s)"
  shows "ms_abs s' = ms_abs s \<or> sys_step checks (ms_abs s) (ms_abs s')"
proof -
  let ?a = "ms_abs s" and ?u = "set_conn t (c, s1) s"
  have idle: "th ?a t = Idle" using t by simp
  have u: "ms_abs s' = ?a\<lparr>st := s1, th := (th ?a)(t := call_of c)\<rparr>" if "\<And>i v. c \<noteq> Drawn i v"
    using ms_abs_set_conn [OF t, of c s1] that by (cases c) (auto simp: s'_def record_post_def)
  have stay: "ms_abs s' = ?a\<lparr>st := s1\<rparr>" if "c = Replying rs \<or> c = Crashed" for rs
    using u that idle by (auto simp: fun_upd_idem)
  consider (reply) rs where "c = Replying rs" "s1 = ms_store s \<or> (\<exists>i old. map_remove i (ms_store s) = (old, s1))"
    | (draw) i where "c = Drawn i (rq_body req)" "fetch_add (ms_store s) = (i, s1)"
    | (reserve) i n where "c = Reserved i (rq_body req)" "add_checked checks i 1 = Some n" "s1 = fetch_max n (ms_store s)"
    | (crash) "c = Crashed" "s1 = ms_store s"
    using begin_route_shape [OF b] by blast
  then show ?thesis
  proof cases
    case reply
    then show ?thesis using stay [of rs] sys_step.delete [of ?a t _ _ s1 checks] idle by (auto intro: sys.equality)
  next
    case draw
    then have "ms_abs s' = ?a\<lparr>st := s1, th := (th ?a)(t := Creating i (rq_body req)), issued := i # issued ?a, wrapped := wrapped ?a \<or> \<not> room (st ?a)\<rparr>"
      using t by (auto simp: s'_def ms_abs_def conn_defs fun_eq_iff nth_list_update)
    then show ?thesis using sys_step.create_begin [of ?a t i s1 checks "rq_body req"] idle draw by simp
  next
    case reserve
    then show ?thesis using u sys_step.put_begin [of ?a t checks i n "rq_body req"] idle by simp
  next
    case crash
    then show ?thesis using stay by (auto intro: sys.equality)
  qed
qed

lemma ms_step_sim: "ms_step checks s s' \<Longrightarrow> ms_abs s' = ms_abs s \<or> sys_step checks (ms_abs s) (ms_abs s')"
proof (induction rule: ms_step.induct)
  case (accepted s r)
  then show ?case by (auto simp: ms_abs_def fun_eq_iff nth_append)
next
  case (accept_error s)
  have "ms_abs (s\<lparr>ms_exit := Some 1\<rparr>) = ms_abs s" by (simp add: ms_abs_def cong: if_cong)
  then show ?case by blast
next
  case (clone_error s t r)
  then show ?case by (simp add: ms_abs_keep)
next
  case (receive s t r)
  then show ?case by (simp add: ms_abs_keep)
next
  case (route_begin s t req c s1)
  then show ?case by (rule route_begin_sim)
next
  case (create_insert s t i v)
  then show ?case
    using sys_step.create_end [of "ms_abs s" t i v _ _ checks] by (auto simp: ms_abs_set_conn split: prod.splits)
next
  case (put_insert s t i v)
  then show ?case
    using sys_step.put_end [of "ms_abs s" t i v _ _ checks] by (auto simp: ms_abs_set_conn split: prod.splits)
next
  case (respond s t rs n)
  then show ?case by (simp add: ms_abs_keep)
qed

lemma ms_main_fields [simp]:
  "ms_store (ms_main bind args) = store_new" "ms_conns (ms_main bind args) = []" "ms_posts (ms_main bind args) = []" "\<not> ms_wrapped (ms_main bind args)"
  by (auto simp: ms_main_def ms_run_def Let_def split: result.splits)

lemma ms_reach_sim: "ms_reach checks s \<Longrightarrow> sys_reach checks (ms_abs s)"
proof (induction rule: ms_reach.induct)
  case (start bind args)
  have "ms_abs (ms_main bind args) = sys_init" by (simp add: ms_abs_def sys_init_def)
  then show ?case using sys_reach.start by simp
next
  case (step s s')
  then show ?case using ms_step_sim [OF step.hyps(2)] sys_reach.step by fastforce
qed


section \<open>Answers to POST\<close>

text \<open>A thread is recorded from the moment it draws an id; its only answer is the created reply for this id, and no other thread answers 201 with a body.\<close>

definition posted :: "(nat \<times> u64) list \<Rightarrow> nat \<Rightarrow> ms_conn \<Rightarrow> bool" where
  "posted ps t c \<longleftrightarrow>
     (case c of
        Drawn i v \<Rightarrow> map_of ps t = Some i
      | Replying rs \<Rightarrow> (case map_of ps t of Some i \<Rightarrow> rs = created_reply i | None \<Rightarrow> rs_status rs = 201 \<longrightarrow> rs_body rs = [])
      | Closed out \<Rightarrow> (case map_of ps t of Some i \<Rightarrow> (\<exists>n. out = take n (write_response (created_reply i))) | None \<Rightarrow> True)
      | _ \<Rightarrow> map_of ps t = None)"

definition post_inv :: "ms_state \<Rightarrow> bool" where
  "post_inv s \<longleftrightarrow> distinct (map fst (ms_posts s)) \<and> fst ` set (ms_posts s) \<subseteq> {..< length (ms_conns s)} \<and>
     (\<forall>t < length (ms_conns s). posted (ms_posts s) t (ms_conns s ! t))"

lemma reply_fields [simp]:
  "rs_status (response_new n why) = n" "rs_body (response_new n why) = []" "rs_status (with_body b rs) = rs_status rs"
  "rs_body (with_body b rs) = b" "rs_status (with_header k v rs) = rs_status rs" "rs_body (with_header k v rs) = rs_body rs"
  by (simp_all add: response_new_def with_body_def with_header_def)

lemma begin_route_reply: "begin_route checks req s = (Replying rs, s1) \<Longrightarrow> rs_status rs \<noteq> 201"
  by (auto simp: begin_route_def begin_put_def begin_with_id_def delete_item_def list_items_def get_item_def Let_def
      split: if_splits option.splits prod.splits list.splits)

lemma post_inv_set:
  assumes "post_inv s" and "ms_thread s t c0" and "posted (ms_posts s) t c"
  shows "post_inv (set_conn t (c, st') s)"
  using assms by (auto simp: post_inv_def conn_defs nth_list_update)

lemma posted_at: "post_inv s \<Longrightarrow> ms_thread s t c \<Longrightarrow> posted (ms_posts s) t c"
  by (auto simp: post_inv_def ms_thread_def)

lemma posted_receive: "map_of ps t = None \<Longrightarrow> posted ps t (ms_receive r)"
  by (auto simp: posted_def ms_receive_def split: receive_splits)

lemma post_inv_begin:
  assumes "post_inv s" and "ms_thread s t (Serving req)" and "begin_route checks req (ms_store s) = (c, s1)"
  shows "post_inv (record_post t c (ms_store s) (set_conn t (c, s1) s))"
proof -
  have new: "map_of (ms_posts s) t = None" using posted_at [OF assms(1,2)] by (simp add: posted_def)
  show ?thesis
  proof (cases "\<exists>i v. c = Drawn i v")
    case True
    then obtain i v where c: "c = Drawn i v" by blast
    have other: "posted ((t, i) # ps) t' d = posted ps t' d" if "t' \<noteq> t" for t' d ps
      using that by (cases d) (simp_all add: posted_def)
    have "posted ((t, i) # ms_posts s) t (Drawn i v)" by (simp add: posted_def)
    then show ?thesis using assms(1,2) c new by (auto simp: post_inv_def conn_defs nth_list_update other map_of_eq_None_iff)
  next
    case False
    then have "posted (ms_posts s) t c"
      using begin_route_shape [OF assms(3)] begin_route_reply assms(3) new by (auto simp: posted_def)
    then show ?thesis using False post_inv_set [OF assms(1,2)] by (cases c) (auto simp: record_post_def)
  qed
qed

lemma post_inv_step: "ms_step checks s s' \<Longrightarrow> post_inv s \<Longrightarrow> post_inv s'"
proof (induction rule: ms_step.induct)
  case (accepted s r)
  have "map_of (ms_posts s) (length (ms_conns s)) = None" using accepted.prems by (auto simp: post_inv_def map_of_eq_None_iff)
  then show ?case using accepted.prems by (auto simp: post_inv_def nth_append less_Suc_eq posted_def)
next
  case (receive s t r)
  then show ?case using posted_at [of s t "Reading r"] by (intro post_inv_set posted_receive) (auto simp: posted_def)
next
  case (route_begin s t req c s1)
  then show ?case by (intro post_inv_begin)
next
  case (create_insert s t i v)
  then show ?case using posted_at [of s t "Drawn i v"] by (auto simp: posted_def split: prod.splits intro!: post_inv_set)
next
  case (put_insert s t i v)
  then show ?case using posted_at [of s t "Reserved i v"] by (auto simp: posted_def put_reply_def split: prod.splits option.splits intro!: post_inv_set)
next
  case (respond s t rs n)
  then show ?case using posted_at [of s t "Replying rs"] by (auto simp: posted_def split: option.splits intro!: post_inv_set)
next
  case (clone_error s t r)
  then show ?case using posted_at [of s t "Reading r"] by (auto simp: posted_def intro!: post_inv_set)
qed (simp add: post_inv_def)

lemma post_inv_reach: "ms_reach checks s \<Longrightarrow> post_inv s"
proof (induction rule: ms_reach.induct)
  case (start bind args)
  show ?case by (simp add: post_inv_def)
next
  case (step s s')
  then show ?case using post_inv_step by blast
qed

text \<open>A \<open>POST\<close> that arrives draws the next id.\<close>

lemma post_begins:
  assumes "ms_reach checks s" and "ms_exit s = None" and "length body \<le> isize_max"
  shows "\<exists>s'. ms_reach checks s' \<and> ms_exit s' = None \<and> ms_conns s' = ms_conns s @ [Drawn (next_id (ms_store s)) body] \<and>
    next_id (ms_store s') = next_id (ms_store s) + 1 \<and> ms_posts s' = (length (ms_conns s), next_id (ms_store s)) # ms_posts s \<and>
    ms_wrapped s' = (ms_wrapped s \<or> \<not> room (ms_store s))"
proof -
  let ?t = "length (ms_conns s)" and ?r = "\<lparr>rd_bytes = print_request ''POST'' ''/items'' [] body, rd_fault = None\<rparr>"
  let ?req = "\<lparr>rq_method = ''POST'', rq_path = ''/items'', rq_headers = [(''content-length'', show_nat (length body))], rq_body = body\<rparr>"
  define s1 where "s1 = s\<lparr>ms_conns := ms_conns s @ [Reading ?r]\<rparr>"
  define s2 where "s2 = set_conn ?t (Serving ?req, ms_store s) s1"
  define s3 where "s3 = record_post ?t (Drawn (next_id (ms_store s)) body) (ms_store s) (set_conn ?t (Drawn (next_id (ms_store s)) body, snd (fetch_add (ms_store s))) s2)"
  have "parse ?r = Some (Ok (Some ?req), \<lparr>rd_bytes = [], rd_fault = None\<rparr>)"
    using parse_print [of "''POST''" "''/items''" "[]" body ?r "[]"] assms(3) by (simp add: no_length_def token_def)
  then have r: "ms_receive ?r = Serving ?req" by (simp add: ms_receive_def)
  have "ms_step checks s s1" unfolding s1_def using assms(2) by (rule ms_step.accepted)
  moreover have "ms_step checks s1 s2"
    using ms_step.receive [of s1 ?t ?r checks] assms(2) by (simp add: r s2_def s1_def ms_thread_def)
  moreover have "ms_step checks s2 s3"
    using ms_step.route_begin [of s2 ?t ?req checks "Drawn (next_id (ms_store s)) body" "snd (fetch_add (ms_store s))"] assms(2)
    by (simp add: s3_def s2_def s1_def ms_thread_def set_conn_def begin_route_def fetch_add_def)
  ultimately have "ms_reach checks s3" using assms(1) by (blast intro: ms_reach.step)
  then show ?thesis using assms(2) by (intro exI [of _ s3]) (simp add: s3_def s2_def s1_def conn_defs fetch_add_def)
qed

section \<open>Properties\<close>






end
