(* ===== verification/Html_Text.thy ===== *)
theory Html_Text
  imports Rust_Prelude
begin

text \<open>
  What a browser makes of generated pages, as far as the two web front ends rely on it: which
  characters of a page are markup, and how character references in text are read. The locale
  \<open>html_escaper\<close> is the contract of an escaping function; both crates that build HTML
  interpret it with their own.
\<close>

section \<open>Markup and character references\<close>

text \<open>\<open>markup t s\<close> keeps the characters of \<open>s\<close> inside tags, where \<open>t\<close> says
  whether \<open>s\<close> starts inside one; \<open>tag_state\<close> is the state after \<open>s\<close>.\<close>

fun markup :: "bool \<Rightarrow> string \<Rightarrow> string" where
  "markup t [] = []"
| "markup t (c # cs) =
     (if t then c # markup (c \<noteq> CHR ''>'') cs
      else if c = CHR ''<'' then c # markup True cs
      else markup False cs)"

fun tag_state :: "bool \<Rightarrow> string \<Rightarrow> bool" where
  "tag_state t [] = t"
| "tag_state t (c # cs) = tag_state (if t then c \<noteq> CHR ''>'' else c = CHR ''<'') cs"

fun read_entities :: "string \<Rightarrow> string" where
  "read_entities [] = []"
| "read_entities (c # cs) =
     (if c \<noteq> CHR ''&'' then c # read_entities cs
      else if starts_with ''amp;'' cs then CHR ''&'' # read_entities (drop 4 cs)
      else if starts_with ''lt;'' cs then CHR ''<'' # read_entities (drop 3 cs)
      else if starts_with ''gt;'' cs then CHR ''>'' # read_entities (drop 3 cs)
      else if starts_with ''quot;'' cs then CHR 0x22 # read_entities (drop 5 cs)
      else c # read_entities cs)"

lemma markup_append [simp]: "markup t (s @ r) = markup t s @ markup (tag_state t s) r"
  by (induction s arbitrary: t) auto

lemma tag_state_append [simp]: "tag_state t (s @ r) = tag_state (tag_state t s) r"
  by (induction s arbitrary: t) auto

lemma markup_text: "CHR ''<'' \<notin> set s \<Longrightarrow> markup False s = [] \<and> \<not> tag_state False s"
  by (induction s) auto

lemma markup_inside: "CHR ''>'' \<notin> set s \<Longrightarrow> markup True s = s \<and> tag_state True s"
  by (induction s) auto

section \<open>Escaping\<close>

locale html_escaper =
  fixes esc :: "string \<Rightarrow> string"
  assumes safe: "c \<in> set (esc s) \<Longrightarrow> c \<noteq> CHR ''<'' \<and> c \<noteq> CHR ''>'' \<and> c \<noteq> CHR 0x22"
    and readable: "read_entities (esc s) = s"
begin

text \<open>Escaped text adds no markup, wherever text stands.\<close>

lemma esc_markup [simp]: "markup False (esc s) = []" "\<not> tag_state False (esc s)"
  using safe markup_text by blast+

lemma esc_inj: "esc s = esc t \<longleftrightarrow> s = t"
  using readable by metis

lemma esc_concat_markup: "markup False (concat (map (\<lambda>x. a x @ esc (f x) @ b x) xs)) =
    markup False (concat (map (\<lambda>x. a x @ esc (g x) @ b x) xs))"
  if "\<And>x. \<not> tag_state False (a x)" and "\<And>x. \<not> tag_state False (b x)"
  using that by (induction xs) simp_all

end

text \<open>The chain of replacements that both crates use, character by character.\<close>

definition esc_char :: "char \<Rightarrow> string" where
  "esc_char c =
     (if c = CHR ''&'' then ''&amp;'' else if c = CHR ''<'' then ''&lt;''
      else if c = CHR ''>'' then ''&gt;'' else if c = CHR 0x22 then ''&quot;'' else [c])"

lemma replace_chain:
  "replace_char (CHR 0x22) ''&quot;'' (replace_char (CHR ''>'') ''&gt;''
     (replace_char (CHR ''<'') ''&lt;'' (replace_char (CHR ''&'') ''&amp;'' s))) = concat (map esc_char s)"
  by (induction s) (simp_all add: esc_char_def)

lemma esc_char_safe:
  "d \<in> set (concat (map esc_char s)) \<Longrightarrow> d \<noteq> CHR ''<'' \<and> d \<noteq> CHR ''>'' \<and> d \<noteq> CHR 0x22"
  by (induction s) (auto simp: esc_char_def split: if_splits)

lemma read_entities_esc: "read_entities (concat (map esc_char s)) = s"
  by (induction s) (auto simp: esc_char_def starts_with_def)

lemma html_escaper_chain: "html_escaper (\<lambda>s. concat (map esc_char s))"
  by unfold_locales (use esc_char_safe read_entities_esc in auto)

end
