(* ===== verification/Todo_State.thy ===== *)
theory Todo_State
  imports Html_Text
begin

text \<open>
  The to-do list of \<open>2026-09-21-rust-wasm-todo\<close>: the application state of
  \<open>src/state.rs\<close> with its storage format and its renderer, and the event handlers of
  \<open>src/dom.rs\<close> over a page, a location hash and a local storage. Additions on ids panic
  (\<open>None\<close>) or wrap according to the build's setting \<open>checks\<close>.
\<close>

section \<open>The application state\<close>

datatype Filter = All | Active | Completed

definition from_hash :: "string \<Rightarrow> Filter" where
  "from_hash hash =
     (let h = trim_start_matches (CHR ''#'') hash
      in if h = ''/active'' then Active else if h = ''/completed'' then Completed else All)"

fun as_hash :: "Filter \<Rightarrow> string" where
  "as_hash All = ''#/''"
| "as_hash Active = ''#/active''"
| "as_hash Completed = ''#/completed''"

fun filter_matches :: "Filter \<Rightarrow> bool \<Rightarrow> bool" where
  "filter_matches All don = True"
| "filter_matches Active don = (\<not> don)"
| "filter_matches Completed don = don"

record Todo =
  todo_id :: u32
  todo_text :: string
  todo_done :: bool

record AppState =
  todos :: "Todo list"
  app_filter :: Filter
  app_next_id :: u32

definition app_new :: AppState where
  "app_new = \<lparr>todos = [], app_filter = All, app_next_id = 1\<rparr>"

definition todo_add :: "bool \<Rightarrow> string \<Rightarrow> AppState \<Rightarrow> (bool \<times> AppState) option" where
  "todo_add checks text s =
     (let trimmed = trim text
      in if trimmed = [] then Some (False, s)
         else (case add_checked checks (app_next_id s) 1 of
                 None \<Rightarrow> None
               | Some n \<Rightarrow>
                   Some (True, s\<lparr>app_next_id := n,
                     todos := todos s @ [\<lparr>todo_id = app_next_id s, todo_text = trimmed, todo_done = False\<rparr>]\<rparr>)))"

text \<open>\<open>iter_mut().find\<close> and the assignment: the first element with the id is changed.\<close>

fun toggle_first :: "u32 \<Rightarrow> Todo list \<Rightarrow> Todo list" where
  "toggle_first i [] = []"
| "toggle_first i (t # ts) =
     (if todo_id t = i then t\<lparr>todo_done := \<not> todo_done t\<rparr> # ts else t # toggle_first i ts)"

definition toggle :: "u32 \<Rightarrow> AppState \<Rightarrow> AppState" where
  "toggle i s = s\<lparr>todos := toggle_first i (todos s)\<rparr>"

definition todo_remove :: "u32 \<Rightarrow> AppState \<Rightarrow> AppState" where
  "todo_remove i s = s\<lparr>todos := filter (\<lambda>t. todo_id t \<noteq> i) (todos s)\<rparr>"

definition clear_completed :: "AppState \<Rightarrow> AppState" where
  "clear_completed s = s\<lparr>todos := filter (\<lambda>t. \<not> todo_done t) (todos s)\<rparr>"

definition set_filter :: "Filter \<Rightarrow> AppState \<Rightarrow> AppState" where
  "set_filter f s = s\<lparr>app_filter := f\<rparr>"

definition visible :: "AppState \<Rightarrow> Todo list" where
  "visible s = filter (\<lambda>t. filter_matches (app_filter s) (todo_done t)) (todos s)"

definition remaining_count :: "AppState \<Rightarrow> nat" where
  "remaining_count s = length (filter (\<lambda>t. \<not> todo_done t) (todos s))"

section \<open>The storage format\<close>

definition todo_escape :: "string \<Rightarrow> string" where
  "todo_escape s =
     replace_char (CHR 0x0A) [CHR 0x5C, CHR ''n'']
       (replace_char (CHR 0x09) [CHR 0x5C, CHR ''t'']
         (replace_char (CHR 0x5C) [CHR 0x5C, CHR 0x5C] s))"

fun todo_unescape :: "string \<Rightarrow> string" where
  "todo_unescape [] = []"
| "todo_unescape (c # cs) =
     (if c = CHR 0x5C then
        (case cs of
           [] \<Rightarrow> [CHR 0x5C]
         | d # ds \<Rightarrow>
             (if d = CHR ''t'' then [CHR 0x09] else if d = CHR ''n'' then [CHR 0x0A]
              else if d = CHR 0x5C then [CHR 0x5C] else [CHR 0x5C, d]) @ todo_unescape ds)
      else c # todo_unescape cs)"

definition show_bool :: "bool \<Rightarrow> string" where
  "show_bool b = (if b then ''true'' else ''false'')"

definition parse_bool :: "string \<Rightarrow> bool option" where
  "parse_bool s = (if s = ''true'' then Some True else if s = ''false'' then Some False else None)"

definition todo_line :: "Todo \<Rightarrow> string" where
  "todo_line t =
     show_nat (unat (todo_id t)) @ CHR 0x09 # show_bool (todo_done t) @ CHR 0x09 # todo_escape (todo_text t)"

definition serialize :: "AppState \<Rightarrow> string" where
  "serialize s = join_with [CHR 0x0A] (map todo_line (todos s))"

text \<open>The body of the loop of \<open>deserialize\<close>.\<close>

definition load_line :: "bool \<Rightarrow> string \<Rightarrow> AppState \<Rightarrow> AppState option" where
  "load_line checks line s =
     (case splitn 3 (CHR 0x09) line of
        [i, d, txt] \<Rightarrow>
          (case (parse_uint (2 ^ 32 - 1) i, parse_bool d) of
             (Some n, Some don) \<Rightarrow>
               (case add_checked checks (of_nat n) 1 of
                  None \<Rightarrow> None
                | Some m \<Rightarrow>
                    Some (s\<lparr>todos := todos s @ [\<lparr>todo_id = of_nat n, todo_text = todo_unescape txt, todo_done = don\<rparr>],
                      app_next_id := max (app_next_id s) m\<rparr>))
           | _ \<Rightarrow> Some s)
      | _ \<Rightarrow> Some s)"

fun load_lines :: "bool \<Rightarrow> string list \<Rightarrow> AppState \<Rightarrow> AppState option" where
  "load_lines checks [] s = Some s"
| "load_lines checks (l # ls) s =
     (case load_line checks l s of None \<Rightarrow> None | Some s' \<Rightarrow> load_lines checks ls s')"

definition deserialize :: "bool \<Rightarrow> string \<Rightarrow> AppState option" where
  "deserialize checks data = load_lines checks (lines data) app_new"

section \<open>Rendering\<close>

definition escape_html :: "string \<Rightarrow> string" where
  "escape_html s =
     replace_char (CHR 0x22) ''&quot;''
       (replace_char (CHR ''>'') ''&gt;''
         (replace_char (CHR ''<'') ''&lt;'' (replace_char (CHR ''&'') ''&amp;'' s)))"

definition quoted :: "string \<Rightarrow> string" where
  "quoted s = [CHR 0x22] @ s @ [CHR 0x22]"

definition li_open :: "Todo \<Rightarrow> string" where
  "li_open t =
     (let i = show_nat (unat (todo_id t))
      in ''<li class='' @ quoted (if todo_done t then ''done'' else []) @ '' data-id='' @ quoted i @ ''>'' @
         ''<input type='' @ quoted ''checkbox'' @ '' class='' @ quoted ''toggle'' @ '' data-id='' @ quoted i @
         (if todo_done t then '' checked'' else []) @ ''>'' @
         ''<span class='' @ quoted ''text'' @ ''>'')"

definition li_close :: "Todo \<Rightarrow> string" where
  "li_close t =
     ''</span>'' @ ''<button class='' @ quoted ''remove'' @ '' data-id='' @ quoted (show_nat (unat (todo_id t))) @ ''>'' @
     [CHR 0xC3, CHR 0x97] @ ''</button>'' @ ''</li>''"

definition render_item :: "Todo \<Rightarrow> string" where
  "render_item t = li_open t @ escape_html (todo_text t) @ li_close t"

definition selected :: "bool \<Rightarrow> string" where
  "selected b = quoted (if b then ''selected'' else [])"

definition render_header :: string where
  "render_header =
     ''<header>'' @ ''<h1>todos</h1>'' @
     ''<input id='' @ quoted ''new-todo'' @ '' autofocus placeholder='' @ quoted ''What needs doing?'' @ ''>'' @
     ''</header>''"

definition render_footer :: "nat \<Rightarrow> Filter \<Rightarrow> string" where
  "render_footer remaining f =
     ''<footer>'' @
     ''<span id='' @ quoted ''count'' @ ''>'' @ show_nat remaining @ '' item'' @
       (if remaining = 1 then [] else ''s'') @ '' left</span>'' @
     ''<span class='' @ quoted ''filters'' @ ''>'' @
     ''<a href='' @ quoted ''#/'' @ '' class='' @ selected (f = All) @ ''>All</a>'' @
     ''<a href='' @ quoted ''#/active'' @ '' class='' @ selected (f = Active) @ ''>Active</a>'' @
     ''<a href='' @ quoted ''#/completed'' @ '' class='' @ selected (f = Completed) @ ''>Completed</a>'' @
     ''</span>'' @
     ''<button id='' @ quoted ''clear-completed'' @ ''>Clear completed</button>'' @
     ''</footer>''"

definition render :: "AppState \<Rightarrow> string" where
  "render s =
     render_header @ ''<ul id='' @ quoted ''list'' @ ''>'' @ concat (map render_item (visible s)) @ ''</ul>'' @
     render_footer (remaining_count s) (app_filter s)"

section \<open>Events\<close>

text \<open>
  The browser, as far as \<open>dom.rs\<close> uses it: the shared state, the inner HTML of the
  application's element, the location hash, and the local storage, which may be unavailable
  (\<open>local_storage\<close> fails) or refuse a value (\<open>setItem\<close> fails and keeps the old value);
  \<open>accepts\<close> is that choice of the browser's.
\<close>

record World =
  app :: AppState
  page :: string
  hash :: string
  storage :: "(string option) option"

record Element =
  el_classes :: "string list"
  el_id :: string
  el_data_id :: "string option"

definition persist :: "(string \<Rightarrow> bool) \<Rightarrow> World \<Rightarrow> World" where
  "persist accepts w =
     (case storage w of
        None \<Rightarrow> w
      | Some _ \<Rightarrow>
          if accepts (serialize (app w)) then w\<lparr>storage := Some (Some (serialize (app w)))\<rparr> else w)"

definition show_page :: "World \<Rightarrow> World" where
  "show_page w = w\<lparr>page := render (app w)\<rparr>"

definition load_app :: "bool \<Rightarrow> World \<Rightarrow> AppState option option" where
  "load_app checks w =
     (case storage w of
        Some (Some raw) \<Rightarrow> (case deserialize checks raw of None \<Rightarrow> None | Some s \<Rightarrow> Some (Some s))
      | _ \<Rightarrow> Some None)"

definition start :: "bool \<Rightarrow> World \<Rightarrow> World option" where
  "start checks w =
     (case load_app checks w of
        None \<Rightarrow> None
      | Some loaded \<Rightarrow>
          (let initial = (case loaded of Some s \<Rightarrow> s | None \<Rightarrow> app_new)
           in Some (show_page (w\<lparr>app := set_filter (from_hash (hash w)) initial\<rparr>))))"

definition on_click :: "(string \<Rightarrow> bool) \<Rightarrow> Element \<Rightarrow> World \<Rightarrow> World" where
  "on_click accepts target w =
     (let i = (case el_data_id target of
                 None \<Rightarrow> None
               | Some raw \<Rightarrow> map_option of_nat (parse_uint (2 ^ 32 - 1) raw));
          (changed, s) =
            (if ''toggle'' \<in> set (el_classes target) then
               (case i of None \<Rightarrow> (False, app w) | Some n \<Rightarrow> (True, toggle n (app w)))
             else if ''remove'' \<in> set (el_classes target) then
               (case i of None \<Rightarrow> (False, app w) | Some n \<Rightarrow> (True, todo_remove n (app w)))
             else if el_id target = ''clear-completed'' then (True, clear_completed (app w))
             else (False, app w));
          w' = w\<lparr>app := s\<rparr>
      in if changed then show_page (persist accepts w') else w')"

definition on_keydown ::
  "bool \<Rightarrow> (string \<Rightarrow> bool) \<Rightarrow> string \<Rightarrow> string \<Rightarrow> string \<Rightarrow> World \<Rightarrow> World option" where
  "on_keydown checks accepts input_id key value w =
     (if input_id \<noteq> ''new-todo'' \<or> key \<noteq> ''Enter'' then Some w
      else (case todo_add checks value (app w) of
              None \<Rightarrow> None
            | Some (added, s) \<Rightarrow>
                (let w' = w\<lparr>app := s\<rparr>
                 in Some (if added then show_page (persist accepts w') else w'))))"

definition on_hashchange :: "string \<Rightarrow> World \<Rightarrow> World" where
  "on_hashchange new_hash w =
     (let w' = w\<lparr>hash := new_hash\<rparr>
      in show_page (w'\<lparr>app := set_filter (from_hash (hash w')) (app w')\<rparr>))"

section \<open>The storage format round-trips\<close>

definition escape_byte :: "char \<Rightarrow> string" where
  "escape_byte c =
     (if c = CHR 0x5C then [CHR 0x5C, CHR 0x5C] else if c = CHR 0x09 then [CHR 0x5C, CHR ''t'']
      else if c = CHR 0x0A then [CHR 0x5C, CHR ''n''] else [c])"

lemma todo_escape_bytes: "todo_escape s = concat (map escape_byte s)"
  unfolding todo_escape_def by (induction s) (simp_all add: escape_byte_def)

lemma todo_unescape_escape [simp]: "todo_unescape (todo_escape s) = s"
  unfolding todo_escape_bytes by (induction s) (simp_all add: escape_byte_def)

interpretation todo_text: codec todo_escape todo_unescape "\<lambda>_. True"
  by unfold_locales simp

lemma from_hash_as_hash: "from_hash (as_hash f) = f"
  by (cases f) (simp_all add: from_hash_def trim_start_matches_def)

interpretation todo_hash: codec as_hash from_hash "\<lambda>_. True"
  by unfold_locales (rule from_hash_as_hash)

lemma todo_escape_chars: "c \<in> {CHR 0x09, CHR 0x0A} \<Longrightarrow> c \<notin> set (todo_escape s)"
  unfolding todo_escape_bytes by (induction s) (auto simp: escape_byte_def)

lemma todo_escape_last:
  "s \<noteq> [] \<Longrightarrow> last s \<noteq> CHR 0x0D \<Longrightarrow> todo_escape s \<noteq> [] \<and> last (todo_escape s) \<noteq> CHR 0x0D"
  unfolding todo_escape_bytes
  by (induction s rule: rev_induct) (auto simp: escape_byte_def)

interpretation todo_bool: codec show_bool "\<lambda>s. the (parse_bool s)" "\<lambda>_. True"
  by unfold_locales (simp add: show_bool_def parse_bool_def)

lemma parse_show_bool [simp]: "parse_bool (show_bool b) = Some b"
  by (simp add: show_bool_def parse_bool_def)

lemma show_bool_chars: "c \<in> {CHR 0x09, CHR 0x0A} \<Longrightarrow> c \<notin> set (show_bool b)"
  by (auto simp: show_bool_def)

lemma show_nat_blank: "c \<in> {CHR 0x09, CHR 0x0A} \<Longrightarrow> c \<notin> set (show_nat n)"
  by (rule show_nat_char) auto

lemma unat_u32_bound: "unat (i :: u32) \<le> 2 ^ 32 - 1"
  using unsigned_less [of i, where ?'a = nat] by simp

lemma load_todo_line:
  assumes "unat (todo_id t) + 1 < 2 ^ 32"
  shows "load_line checks (todo_line t) s =
    Some (s\<lparr>todos := todos s @ [t], app_next_id := max (app_next_id s) (todo_id t + 1)\<rparr>)"
proof -
  have "splitn 3 (CHR 0x09) (todo_line t) =
      [show_nat (unat (todo_id t)), show_bool (todo_done t), todo_escape (todo_text t)]"
    unfolding todo_line_def by (rule splitn_3) (simp_all add: show_nat_blank show_bool_chars)
  moreover have "parse_uint (2 ^ 32 - 1) (show_nat (unat (todo_id t))) = Some (unat (todo_id t))"
    using unat_u32_bound by (rule parse_uint_show_nat)
  ultimately show ?thesis
    using assms by (simp add: load_line_def add_checked_one)
qed

text \<open>Ids are distinct and below the counter, and texts are what \<open>add\<close> stores.\<close>

definition todo_inv :: "AppState \<Rightarrow> bool" where
  "todo_inv s \<longleftrightarrow> 1 \<le> app_next_id s \<and> distinct (map todo_id (todos s)) \<and>
     (\<forall>t \<in> set (todos s). todo_id t < app_next_id s \<and> todo_text t \<noteq> [] \<and> trim (todo_text t) = todo_text t)"

definition id_room :: "AppState \<Rightarrow> bool" where
  "id_room s \<longleftrightarrow> unat (app_next_id s) + 1 < 2 ^ 32"

lemma todo_inv_new: "todo_inv app_new"
  by (simp add: todo_inv_def app_new_def)

lemma plus_one_le: "(i :: u32) < n \<Longrightarrow> unat i + 1 < 2 ^ 32 \<and> i + 1 \<le> n"
proof -
  assume "i < n"
  then have l: "unat i < unat n" by (simp add: word_less_nat_alt)
  moreover have "unat n < 2 ^ 32" using unat_u32_bound [of n] by simp
  ultimately show ?thesis
    using unat_plus_one [of i] by (simp add: word_le_nat_alt)
qed

lemma load_todo_lines:
  assumes "\<forall>t \<in> set ts. todo_id t < n" and "app_next_id s \<le> n"
  shows "\<exists>m. load_lines checks (map todo_line ts) s = Some (s\<lparr>todos := todos s @ ts, app_next_id := m\<rparr>) \<and>
    app_next_id s \<le> m \<and> m \<le> n \<and> (\<forall>t \<in> set ts. todo_id t < m)"
  using assms
proof (induction ts arbitrary: s)
  case (Cons t ts)
  let ?s = "s\<lparr>todos := todos s @ [t], app_next_id := max (app_next_id s) (todo_id t + 1)\<rparr>"
  have p: "unat (todo_id t) + 1 < 2 ^ 32" "todo_id t + 1 \<le> n"
    using Cons.prems(1) plus_one_le by auto
  have lt: "todo_id t < todo_id t + 1"
    using p(1) unat_plus_one [of "todo_id t"] by (simp add: word_less_nat_alt)
  obtain m where m: "load_lines checks (map todo_line ts) ?s = Some (?s\<lparr>todos := todos ?s @ ts, app_next_id := m\<rparr>)"
    "app_next_id ?s \<le> m" "m \<le> n" "\<forall>t \<in> set ts. todo_id t < m"
    using Cons.IH [of ?s] Cons.prems p(2) by auto
  then show ?case
    using p(1) lt load_todo_line [of t checks s] by (intro exI [of _ m]) auto
next
  case Nil
  then show ?case by (intro exI [of _ "app_next_id s"]) simp
qed

lemma lines_serialize:
  assumes "\<forall>t \<in> set (todos s). todo_text t \<noteq> [] \<and> trim (todo_text t) = todo_text t"
  shows "lines (serialize s) = map todo_line (todos s)"
  unfolding lines_def serialize_def
proof (rule lines_gen_join)
  fix l assume "l \<in> set (map todo_line (todos s))"
  then obtain t where l: "l = todo_line t" and t: "t \<in> set (todos s)" by auto
  show "CHR 0x0A \<notin> set l"
    by (simp add: l todo_line_def show_nat_blank show_bool_chars todo_escape_chars)
  have "last (todo_text t) \<noteq> CHR 0x0D"
    using assms t by (intro trim_end_last [OF _ _ ws_seqs_cr]) (auto simp: trimmed_trim_end)
  then show "l \<noteq> [] \<and> last l \<noteq> CHR 0x0D"
    using assms t todo_escape_last [of "todo_text t"] by (simp add: l todo_line_def)
qed

lemma deserialize_serialize:
  assumes "todo_inv s"
  shows "\<exists>m. deserialize checks (serialize s) = Some \<lparr>todos = todos s, app_filter = All, app_next_id = m\<rparr> \<and>
    1 \<le> m \<and> m \<le> app_next_id s \<and> (\<forall>t \<in> set (todos s). todo_id t < m)"
  using assms load_todo_lines [of "todos s" "app_next_id s" app_new checks]
  by (auto simp: todo_inv_def deserialize_def lines_serialize) (auto simp: app_new_def)

section \<open>Operations keep the invariant\<close>

lemma todo_add_inv:
  assumes "todo_inv s" and "id_room s" and "todo_add checks text s = Some (b, s')"
  shows "todo_inv s'"
proof (cases "trim text = []")
  case True
  then show ?thesis using assms by (simp add: todo_add_def)
next
  case False
  have n: "unat (app_next_id s + 1) = unat (app_next_id s) + 1"
    using assms(2) unat_plus_one [of "app_next_id s"] by (simp add: id_room_def)
  then have l: "app_next_id s < app_next_id s + 1" "1 \<le> app_next_id s + 1"
    by (auto simp: word_less_nat_alt word_le_nat_alt)
  have "app_next_id s \<notin> todo_id ` set (todos s)"
    using assms(1) by (force simp: todo_inv_def)
  then show ?thesis
    using assms False l less_trans [of _ "app_next_id s" "app_next_id s + 1"]
    by (auto simp: todo_inv_def todo_add_def id_room_def add_checked_one Let_def)
qed

lemma toggle_first_ids: "map todo_id (toggle_first i ts) = map todo_id ts"
  and toggle_first_texts: "map todo_text (toggle_first i ts) = map todo_text ts"
  and toggle_first_twice: "toggle_first i (toggle_first i ts) = ts"
  by (induction ts) auto

lemma toggle_first_mem:
  "t \<in> set (toggle_first i ts) \<Longrightarrow> \<exists>u \<in> set ts. todo_id t = todo_id u \<and> todo_text t = todo_text u"
  by (induction ts) (auto split: if_splits)

lemma toggle_inv: "todo_inv s \<Longrightarrow> todo_inv (toggle i s)"
  by (fastforce simp: todo_inv_def toggle_def toggle_first_ids dest: toggle_first_mem)

lemma todo_filter_inv: "todo_inv s \<Longrightarrow> todo_inv (s\<lparr>todos := filter P (todos s)\<rparr>)"
  by (auto simp: todo_inv_def distinct_map_filter)

lemmas todo_remove_inv = todo_filter_inv [of _ "\<lambda>t. todo_id t \<noteq> _", folded todo_remove_def]
  and clear_completed_inv = todo_filter_inv [of _ "\<lambda>t. \<not> todo_done t", folded clear_completed_def]

lemma set_filter_inv: "todo_inv s \<Longrightarrow> todo_inv (set_filter f s)"
  by (simp add: todo_inv_def set_filter_def)

section \<open>Rendering\<close>

interpretation todo_html: html_escaper escape_html
  unfolding escape_html_def replace_chain by (rule html_escaper_chain)

lemma tag_state_attr [simp]:
  "tag_state True (quoted s) \<longleftrightarrow> tag_state True s \<and> tag_state True [CHR 0x22]" if "CHR ''>'' \<notin> set s"
  using that markup_inside [of "quoted s"] markup_inside [of s] by (simp add: quoted_def)

lemma show_nat_gt: "CHR ''>'' \<notin> set (show_nat n)" "CHR ''<'' \<notin> set (show_nat n)"
  by (rule show_nat_char; simp)+

lemma tag_state_show_nat [simp]: "tag_state True (show_nat n)" "\<not> tag_state False (show_nat n)"
  using markup_inside [OF show_nat_gt(1)] markup_text [OF show_nat_gt(2)] by auto

lemma li_balanced: "\<not> tag_state False (li_open t)" "\<not> tag_state False (li_close t)"
  by (simp_all add: li_open_def li_close_def Let_def show_nat_gt)

definition with_texts :: "(Todo \<Rightarrow> string) \<Rightarrow> AppState \<Rightarrow> AppState" where
  "with_texts f s = s\<lparr>todos := map (\<lambda>t. t\<lparr>todo_text := f t\<rparr>) (todos s)\<rparr>"

lemma visible_with_texts: "visible (with_texts f s) = map (\<lambda>t. t\<lparr>todo_text := f t\<rparr>) (visible s)"
  by (simp add: visible_def with_texts_def filter_map comp_def)

lemma remaining_with_texts: "remaining_count (with_texts f s) = remaining_count s"
  by (simp add: remaining_count_def with_texts_def filter_map comp_def)

lemma items_markup:
  "markup False (concat (map render_item (map (\<lambda>t. t\<lparr>todo_text := f t\<rparr>) ts))) = markup False (concat (map render_item ts))"
  "tag_state False (concat (map render_item ts)) = False"
  by (induction ts) (simp_all add: render_item_def li_balanced, simp add: li_open_def li_close_def)

section \<open>Runs of the page\<close>

text \<open>A run starts in a browser whose storage works and holds nothing yet, and takes the events of the
  page; the last rule reloads the page. Fewer than \<open>2 ^ 32 - 1\<close> entries are ever added.\<close>

definition fresh_world :: "string \<Rightarrow> World" where
  "fresh_world h = \<lparr>app = app_new, page = [], hash = h, storage = Some None\<rparr>"

inductive page_reach :: "bool \<Rightarrow> World \<Rightarrow> bool" for checks where
  open_page: "start checks (fresh_world h) = Some w \<Longrightarrow> page_reach checks w"
| click: "page_reach checks w \<Longrightarrow> page_reach checks (on_click (\<lambda>_. True) target w)"
| keydown: "page_reach checks w \<Longrightarrow> id_room (app w) \<Longrightarrow>
    on_keydown checks (\<lambda>_. True) input key value w = Some w' \<Longrightarrow> page_reach checks w'"
| hashchange: "page_reach checks w \<Longrightarrow> page_reach checks (on_hashchange h w)"
| reload: "page_reach checks w \<Longrightarrow> start checks w = Some w' \<Longrightarrow> page_reach checks w'"

text \<open>The page shows the state, the filter is the one of the location, and the storage holds the
  list, or nothing yet while the list is empty.\<close>

definition world_inv :: "World \<Rightarrow> bool" where
  "world_inv w \<longleftrightarrow> todo_inv (app w) \<and> page w = render (app w) \<and> app_filter (app w) = from_hash (hash w) \<and>
     (storage w = Some (Some (serialize (app w))) \<or> storage w = Some None \<and> todos (app w) = [])"

lemma world_inv_changed:
  assumes "world_inv w" and "todo_inv s" and "app_filter s = app_filter (app w)"
  shows "world_inv (show_page (persist (\<lambda>_. True) (w\<lparr>app := s\<rparr>)))"
  using assms by (auto simp: world_inv_def show_page_def persist_def)

lemma on_click_inv:
  assumes "world_inv w"
  shows "world_inv (on_click (\<lambda>_. True) target w)"
proof -
  have i: "todo_inv (app w)" using assms by (simp add: world_inv_def)
  note ch = world_inv_changed [OF assms]
  have "w\<lparr>app := app w\<rparr> = w" by simp
  then show ?thesis
    using assms ch [OF toggle_inv [OF i]] ch [OF todo_remove_inv [OF i]] ch [OF clear_completed_inv [OF i]]
    by (auto simp: on_click_def Let_def toggle_def todo_remove_def clear_completed_def split: option.splits)
qed

lemma on_keydown_inv:
  assumes "world_inv w" and "id_room (app w)" and "on_keydown checks (\<lambda>_. True) input key value w = Some w'"
  shows "world_inv w'"
proof (cases "input \<noteq> ''new-todo'' \<or> key \<noteq> ''Enter''")
  case True
  then show ?thesis using assms by (auto simp: on_keydown_def)
next
  case False
  then obtain added s where a: "todo_add checks value (app w) = Some (added, s)"
    and w': "w' = (if added then show_page (persist (\<lambda>_. True) (w\<lparr>app := s\<rparr>)) else w\<lparr>app := s\<rparr>)"
    using assms(3) by (auto simp: on_keydown_def Let_def split: option.splits)
  have "todo_inv s" using assms(1,2) a by (auto simp: world_inv_def intro: todo_add_inv)
  moreover have "app_filter s = app_filter (app w)" and "\<not> added \<Longrightarrow> s = app w"
    using a by (auto simp: todo_add_def Let_def split: if_splits option.splits)
  ultimately show ?thesis
    using assms(1) world_inv_changed [OF assms(1)] by (auto simp: w')
qed

lemma on_hashchange_inv: "world_inv w \<Longrightarrow> world_inv (on_hashchange h w)"
  using set_filter_inv [of "app w"]
  by (auto simp: world_inv_def on_hashchange_def show_page_def set_filter_def serialize_def)

text \<open>Starting over from the storage of an invariant state: same list, same page.\<close>

lemma render_cong:
  "todos s = todos t \<Longrightarrow> app_filter s = app_filter t \<Longrightarrow> render s = render t"
  by (simp add: render_def visible_def remaining_count_def)

lemma start_again_loaded:
  assumes "world_inv w" and "load_app checks w = Some loaded"
    and "(case loaded of Some s \<Rightarrow> s | None \<Rightarrow> app_new) = s" and "todos s = todos (app w)" and "todo_inv s"
  shows "\<exists>w'. start checks w = Some w' \<and> world_inv w' \<and> todos (app w') = todos (app w) \<and> page w' = page w"
proof -
  let ?s = "set_filter (from_hash (hash w)) s"
  have "render ?s = page w"
    using assms(1,4) render_cong [of ?s "app w"] by (simp add: world_inv_def set_filter_def)
  moreover have "serialize ?s = serialize (app w)"
    using assms(4) by (simp add: serialize_def set_filter_def)
  ultimately show ?thesis
    using assms set_filter_inv [OF assms(5)]
    by (auto simp: start_def Let_def show_page_def world_inv_def set_filter_def)
qed

lemma start_again:
  assumes "world_inv w"
  shows "\<exists>w'. start checks w = Some w' \<and> world_inv w' \<and> todos (app w') = todos (app w) \<and> page w' = page w"
proof -
  consider (stored) "storage w = Some (Some (serialize (app w)))"
    | (empty) "storage w = Some None" "todos (app w) = []"
    using assms by (auto simp: world_inv_def)
  then show ?thesis
  proof cases
    case stored
    have "todo_inv (app w)" using assms by (simp add: world_inv_def)
    then obtain m where "deserialize checks (serialize (app w)) = Some \<lparr>todos = todos (app w), app_filter = All, app_next_id = m\<rparr>"
      and "todo_inv \<lparr>todos = todos (app w), app_filter = All, app_next_id = m\<rparr>"
      using deserialize_serialize [of "app w" checks] by (auto simp: todo_inv_def)
    with stored show ?thesis
      by (intro start_again_loaded [OF assms, of _ "Some \<lparr>todos = todos (app w), app_filter = All, app_next_id = m\<rparr>"])
        (simp_all add: load_app_def)
  next
    case empty
    then show ?thesis
      by (intro start_again_loaded [OF assms, of _ None app_new])
        (simp_all add: load_app_def todo_inv_new, simp add: app_new_def)
  qed
qed

lemma page_reach_inv: "page_reach checks w \<Longrightarrow> world_inv w"
proof (induction rule: page_reach.induct)
  case (open_page h w)
  then show ?case
    using todo_inv_new
    by (auto simp: start_def load_app_def fresh_world_def show_page_def set_filter_def world_inv_def todo_inv_def app_new_def)
next
  case (reload w w')
  then show ?case using start_again [of w checks] by auto
qed (auto intro: on_click_inv on_keydown_inv on_hashchange_inv)

section \<open>Properties\<close>

text \<open>Property: The storage format round-trips: a list kept by the application is read back from what
  \<open>serialize\<close> wrote, with every id, flag and text (tabs, newlines and backslashes included) the same,
  no panic in either kind of build, and a counter above every id of the list.\<close>

theorem storage_round_trip:
  assumes "todo_inv s"
  shows "\<exists>s'. deserialize checks (serialize s) = Some s' \<and> todos s' = todos s \<and> todo_inv s' \<and>
    app_next_id s' \<le> app_next_id s"
  using deserialize_serialize [OF assms, of checks] assms by (auto simp: todo_inv_def)

theorem storage_round_trip_witness:
  "\<exists>s'. deserialize True (serialize \<lparr>todos = [\<lparr>todo_id = 3, todo_text = [CHR ''a'', CHR 0x09, CHR 0x0A, CHR 0x5C], todo_done = True\<rparr>],
       app_filter = Active, app_next_id = 9\<rparr>) = Some s' \<and>
     todos s' = [\<lparr>todo_id = 3, todo_text = [CHR ''a'', CHR 0x09, CHR 0x0A, CHR 0x5C], todo_done = True\<rparr>]"
proof -
  let ?s = "\<lparr>todos = [\<lparr>todo_id = 3, todo_text = [CHR ''a'', CHR 0x09, CHR 0x0A, CHR 0x5C], todo_done = True\<rparr>],
       app_filter = Active, app_next_id = 9\<rparr>"
  have "trim [CHR ''a'', CHR 0x09, CHR 0x0A, CHR 0x5C] = [CHR ''a'', CHR 0x09, CHR 0x0A, CHR 0x5C]"
    by (simp add: trim_def trim_start_ascii trim_end_ascii)
  then have "todo_inv ?s" by (simp add: todo_inv_def)
  then show ?thesis using storage_round_trip [of ?s True] by auto
qed

text \<open>C5: A reload changes nothing the user sees: in any run of the page (clicks, key presses, location
  changes and earlier reloads, on a working storage) starting the application again from the
  storage succeeds and shows the same list and the same page.\<close>

theorem reload_same_page:
  assumes "page_reach checks w"
  shows "\<exists>w'. start checks w = Some w' \<and> todos (app w') = todos (app w) \<and> page w' = page w \<and> page w = render (app w)"
  using start_again [OF page_reach_inv [OF assms], of checks] page_reach_inv [OF assms]
  by (auto simp: world_inv_def)

theorem reload_same_page_witness:
  "\<exists>w w'. page_reach True w \<and> map todo_text (todos (app w)) = [''milk''] \<and> start True w = Some w' \<and>
     todos (app w') = todos (app w) \<and> page w' = page w"
proof -
  obtain w0 where w0: "start True (fresh_world ''#/active'') = Some w0" and n: "app_next_id (app w0) = 1" "todos (app w0) = []"
    by (simp add: start_def load_app_def fresh_world_def show_page_def set_filter_def app_new_def)
  have m: "trim ''milk'' = ''milk''" by (simp add: trim_def trim_start_ascii trim_end_ascii)
  obtain w1 where w1: "on_keydown True (\<lambda>_. True) ''new-todo'' ''Enter'' ''milk'' w0 = Some w1"
    and t: "map todo_text (todos (app w1)) = [''milk'']"
    using n m by (auto simp: on_keydown_def todo_add_def Let_def add_checked_def show_page_def persist_def split: option.splits)
  have "id_room (app w0)" by (simp add: id_room_def n)
  then have r: "page_reach True w1"
    using page_reach.keydown [OF page_reach.open_page [OF w0] _ w1] by simp
  obtain w' where "start True w1 = Some w'" "todos (app w') = todos (app w1)" "page w' = page w1"
    using reload_same_page [OF r] by auto
  with r t show ?thesis by (intro exI [of _ w1] exI [of _ w']) simp
qed

text \<open>Property: What a user types cannot become markup: whatever the texts of the list are, the characters
  of the page inside tags are the same, and the escaped text contains no angle bracket or
  quote and is displayed by a browser as the text itself.\<close>

theorem render_text_safe:
  "markup False (render (with_texts f s)) = markup False (render s) \<and>
   read_entities (escape_html txt) = txt \<and>
   set (escape_html txt) \<inter> {CHR ''<'', CHR ''>'', CHR 0x22} = {}"
proof -
  have "app_filter (with_texts f s) = app_filter s" by (simp add: with_texts_def)
  then have "markup False (render (with_texts f s)) = markup False (render s)"
    using items_markup(1) [of f "visible s"] items_markup(2) [of "map (\<lambda>t. t\<lparr>todo_text := f t\<rparr>) (visible s)"]
      items_markup(2) [of "visible s"]
    unfolding render_def visible_with_texts remaining_with_texts
    by (simp add: render_header_def quoted_def)
  then show ?thesis using todo_html.readable todo_html.safe by blast
qed

text \<open>Property: The identifier discipline: in any run the ids of the list are distinct, below the counter, and
  every text is trimmed and not blank; a toggle done twice is undone, and
  changes nothing but the flag of the entry with that id.\<close>

theorem todo_ids:
  assumes "page_reach checks w"
  shows "distinct (map todo_id (todos (app w))) \<and>
    (\<forall>t. t \<in> set (todos (app w)) \<longrightarrow> todo_id t < app_next_id (app w) \<and> todo_text t \<noteq> [] \<and> trim (todo_text t) = todo_text t) \<and>
    toggle i (toggle i (app w)) = app w \<and>
    todos (toggle i (app w)) = map (\<lambda>t. if todo_id t = i then t\<lparr>todo_done := \<not> todo_done t\<rparr> else t) (todos (app w))"
proof -
  have i: "todo_inv (app w)" using page_reach_inv [OF assms] by (simp add: world_inv_def)
  have "toggle_first i ts = map (\<lambda>t. if todo_id t = i then t\<lparr>todo_done := \<not> todo_done t\<rparr> else t) ts"
    if "distinct (map todo_id ts)" for ts
    using that
  proof (induction ts)
    case (Cons t ts)
    have "todo_id x \<noteq> i" if "todo_id t = i" "x \<in> set ts" for x
      using Cons.prems that by (metis distinct.simps(2) image_eqI list.map(2) list.set_map)
    then have "map (\<lambda>t. if todo_id t = i then t\<lparr>todo_done := \<not> todo_done t\<rparr> else t) ts = ts" if "todo_id t = i"
      using that by (intro map_idI) simp
    with Cons show ?case by simp
  qed simp
  moreover have "toggle i (toggle i (app w)) = app w"
    by (simp add: toggle_def toggle_first_twice)
  moreover have "distinct (map todo_id (todos (app w)))" using i by (simp add: todo_inv_def)
  ultimately have "toggle i (toggle i (app w)) = app w \<and> todos (toggle i (app w)) =
      map (\<lambda>t. if todo_id t = i then t\<lparr>todo_done := \<not> todo_done t\<rparr> else t) (todos (app w))"
    by (simp add: toggle_def)
  with i show ?thesis by (simp add: todo_inv_def)
qed

theorem todo_ids_witness:
  "\<exists>w. start True (fresh_world []) = Some w \<and> distinct (map todo_id (todos (app w))) \<and> toggle 7 (toggle 7 (app w)) = app w"
proof -
  obtain w where w: "start True (fresh_world []) = Some w"
    by (simp add: start_def load_app_def fresh_world_def)
  show ?thesis using todo_ids [OF page_reach.open_page [OF w]] w by blast
qed

text \<open>Property: Loading is not total on foreign data: a line with the largest 32-bit id, well-formed and
  accepted by both field parsers, panics a build with overflow checks; a build without them
  loads it and leaves the counter below it.\<close>

theorem deserialize_max_id:
  "deserialize True (''4294967295'' @ [CHR 0x09] @ ''true'' @ [CHR 0x09] @ ''x'') = None \<and>
   deserialize False (''4294967295'' @ [CHR 0x09] @ ''true'' @ [CHR 0x09] @ ''x'') =
     Some \<lparr>todos = [\<lparr>todo_id = 4294967295, todo_text = ''x'', todo_done = True\<rparr>], app_filter = All, app_next_id = 1\<rparr>"
proof -
  let ?l = "''4294967295'' @ [CHR 0x09] @ ''true'' @ [CHR 0x09] @ ''x''"
  have l: "lines ?l = [?l]" unfolding lines_def by (rule lines_gen_last) simp_all
  have sp: "splitn 3 (CHR 0x09) ?l = [''4294967295'', ''true'', ''x'']"
    using splitn_3 [of "CHR 0x09" "''4294967295''" "''true''" "''x''"] by simp
  have p: "parse_uint 4294967295 ''4294967295'' = Some 4294967295"
    by (simp add: parse_uint_def digit_val_def)
  have a: "add_checked c (4294967295 :: u32) 1 = (if c then None else Some 0)" for c
    by (rule add_checked_one) simp
  show ?thesis
    unfolding deserialize_def l load_lines.simps load_line_def sp
    by (simp add: p a parse_bool_def app_new_def)
qed

end
