(* ===== verification/Todo_Page.thy ===== *)
theory Todo_Page
  imports Todo_State "HOL-Library.Monad_Syntax"
begin

text \<open>
  The to-do page in its browser: \<open>start\<close> of \<open>dom.rs\<close> with the element it looks up and the listeners it attaches, and the delivery of events to the attached
  listeners. The theory shows when starting panics, that a started page runs the right handler once for each event, and that its runs are the ones of
  \<open>Todo_State\<close>, so that reloading after any events shows the same page.
\<close>

section \<open>The code\<close>

text \<open>The browser: whether there are a document and the element \<open>#app\<close>, for which events \<open>addEventListener\<close> succeeds, and the listeners attached so far. Rendering
  replaces what is inside the element, never the element, so they stay attached.\<close>

record Browser =
  br_world :: World
  br_document :: bool
  br_has_app :: bool
  br_attaches :: "string \<Rightarrow> bool"
  br_listeners :: "string list"

definition wire :: "string \<Rightarrow> Browser \<Rightarrow> Browser option" where
  "wire ev b = (if br_attaches b ev then Some (b\<lparr>br_listeners := br_listeners b @ [ev]\<rparr>) else None)"

definition wire_clicks :: "Browser \<Rightarrow> Browser option" where
  "wire_clicks = wire ''click''"

definition wire_new_todo :: "Browser \<Rightarrow> Browser option" where
  "wire_new_todo = wire ''keydown''"

definition wire_hash_routing :: "Browser \<Rightarrow> Browser option" where
  "wire_hash_routing = wire ''hashchange''"

text \<open>\<open>None\<close> is a panic: one of the four \<open>expect\<close> calls, or \<open>deserialize\<close> on the stored text.\<close>

definition start_page :: "bool \<Rightarrow> Browser \<Rightarrow> Browser option" where
  "start_page checks b =
     (if \<not> br_document b \<or> \<not> br_has_app b then None
      else do {
        w \<leftarrow> start checks (br_world b);
        b1 \<leftarrow> wire_clicks (b\<lparr>br_world := w\<rparr>);
        b2 \<leftarrow> wire_new_todo b1;
        wire_hash_routing b2
      })"

text \<open>An event with what the handlers inspect: the target of a click if it is an element; the id and value of the target of a key press if it is an input field, and its key
  if it is a keyboard event; the new location hash.\<close>

datatype Event = Click "Element option" | Key_Down "(string \<times> string) option" "string option" | Hash_Change string

fun event_type :: "Event \<Rightarrow> string" where
  "event_type (Click target) = ''click''"
| "event_type (Key_Down input key) = ''keydown''"
| "event_type (Hash_Change h) = ''hashchange''"

fun run_listener :: "bool \<Rightarrow> (string \<Rightarrow> bool) \<Rightarrow> Event \<Rightarrow> World \<Rightarrow> World option" where
  "run_listener checks accepts (Click (Some target)) w = Some (on_click accepts target w)"
| "run_listener checks accepts (Key_Down (Some (i, v)) (Some key)) w = on_keydown checks accepts i key v w"
| "run_listener checks accepts (Hash_Change h) w = Some (on_hashchange h w)"
| "run_listener checks accepts ev w = Some w"

text \<open>An event runs every attached listener of its type; a change of the hash happens before, whether or not there is one.\<close>

definition browser_changes :: "Event \<Rightarrow> World \<Rightarrow> World" where
  "browser_changes ev w = (case ev of Hash_Change h \<Rightarrow> w\<lparr>hash := h\<rparr> | _ \<Rightarrow> w)"

fun run_listeners :: "bool \<Rightarrow> (string \<Rightarrow> bool) \<Rightarrow> Event \<Rightarrow> string list \<Rightarrow> World \<Rightarrow> World option" where
  "run_listeners checks accepts ev [] w = Some w"
| "run_listeners checks accepts ev (l # ls) w =
     do { w' \<leftarrow> (if l = event_type ev then run_listener checks accepts ev w else Some w); run_listeners checks accepts ev ls w' }"

definition dispatch :: "bool \<Rightarrow> (string \<Rightarrow> bool) \<Rightarrow> Event \<Rightarrow> Browser \<Rightarrow> Browser option" where
  "dispatch checks accepts ev b =
     do { w \<leftarrow> run_listeners checks accepts ev (br_listeners b) (browser_changes ev (br_world b)); Some (b\<lparr>br_world := w\<rparr>) }"

text \<open>Runs in a browser with a working storage that is empty at first. A reload starts the module anew, without listeners.\<close>

inductive browser_reach :: "bool \<Rightarrow> Browser \<Rightarrow> bool" for checks where
  opened: "br_world b = fresh_world h \<Longrightarrow> br_listeners b = [] \<Longrightarrow> start_page checks b = Some b' \<Longrightarrow> browser_reach checks b'"
| event: "browser_reach checks b \<Longrightarrow> id_room (app (br_world b)) \<Longrightarrow> dispatch checks (\<lambda>_. True) ev b = Some b' \<Longrightarrow> browser_reach checks b'"
| reloaded: "browser_reach checks b \<Longrightarrow> start_page checks (b\<lparr>br_listeners := []\<rparr>) = Some b' \<Longrightarrow> browser_reach checks b'"

section \<open>Started pages\<close>

abbreviation page_listeners :: "string list" where
  "page_listeners \<equiv> [''click'', ''keydown'', ''hashchange'']"

lemma start_page_cases:
  assumes "br_listeners b = []"
  shows "start_page checks b =
    (if br_document b \<and> br_has_app b \<and> (\<forall>ev \<in> set page_listeners. br_attaches b ev)
     then map_option (\<lambda>w. b\<lparr>br_world := w, br_listeners := page_listeners\<rparr>) (start checks (br_world b)) else None)"
  using assms by (auto simp: start_page_def wire_clicks_def wire_new_todo_def wire_hash_routing_def wire_def split: bind_splits option.splits)

lemma changed_hash: "run_listener checks accepts ev (browser_changes ev w) = run_listener checks accepts ev w"
  by (auto simp: browser_changes_def on_hashchange_def split: Event.splits)

lemma dispatch_once:
  assumes "br_listeners b = page_listeners"
  shows "dispatch checks accepts ev b = map_option (\<lambda>w. b\<lparr>br_world := w\<rparr>) (run_listener checks accepts ev (br_world b))"
  using changed_hash [of checks accepts ev "br_world b"]
  by (cases ev) (auto simp: dispatch_def assms browser_changes_def split: bind_splits)

lemma listener_reach:
  assumes "page_reach checks w" and "id_room (app w)" and "run_listener checks (\<lambda>_. True) ev w = Some w'"
  shows "page_reach checks w'"
  using assms(3,1,2)
proof (induction checks "\<lambda>_ :: string. True" ev w rule: run_listener.induct)
  case (1 checks target w)
  then show ?case by (auto intro: page_reach.click)
next
  case (2 checks i v key w)
  then show ?case by (auto intro: page_reach.keydown)
next
  case (3 checks h w)
  then show ?case by (auto intro: page_reach.hashchange)
qed simp_all

lemma browser_page: "browser_reach checks b \<Longrightarrow> br_listeners b = page_listeners \<and> page_reach checks (br_world b)"
proof (induction rule: browser_reach.induct)
  case (opened b h b')
  then show ?case by (auto simp: start_page_cases split: if_splits intro: page_reach.open_page)
next
  case (event b ev b')
  then show ?case by (auto simp: dispatch_once intro: listener_reach)
next
  case (reloaded b b')
  then show ?case by (auto simp: start_page_cases split: if_splits intro: page_reach.reload)
qed

section \<open>Properties\<close>

text \<open>Property: Starting the page panics exactly when the document or its element is missing, a listener cannot be attached, or the stored text makes loading panic; and
  in every run of a page that started, each event runs its handler exactly once, and the page is one that the handlers of \<open>Todo_State\<close> reach.\<close>

theorem page_events:
  "(br_listeners b = [] \<longrightarrow> (start_page checks b = None \<longleftrightarrow>
      \<not> br_document b \<or> \<not> br_has_app b \<or> (\<exists>ev \<in> set page_listeners. \<not> br_attaches b ev) \<or> start checks (br_world b) = None)) \<and>
   (browser_reach checks b' \<longrightarrow> page_reach checks (br_world b') \<and>
      dispatch checks accepts ev b' = map_option (\<lambda>w. b'\<lparr>br_world := w\<rparr>) (run_listener checks accepts ev (br_world b')))"
  using browser_page [of checks b'] dispatch_once [of b' checks accepts ev] by (auto simp: start_page_cases)

theorem page_events_witness:
  "\<exists>b b'. br_listeners b = [] \<and> start_page True b = Some b' \<and> page_reach True (br_world b')"
proof -
  let ?b = "\<lparr>br_world = fresh_world ''#/active'', br_document = True, br_has_app = True, br_attaches = (\<lambda>_. True), br_listeners = []\<rparr>"
  have "start True (fresh_world ''#/active'') \<noteq> None" by (simp add: start_def load_app_def fresh_world_def)
  then obtain b' where b': "start_page True ?b = Some b'"
    using page_events [of ?b True ?b "\<lambda>_. True" "Hash_Change []"] by auto
  then have "browser_reach True b'" using browser_reach.opened [of ?b] by simp
  then have "page_reach True (br_world b')" using page_events [of ?b True b' "\<lambda>_. True" "Hash_Change []"] by blast
  then show ?thesis using b' by (intro exI [of _ ?b] exI [of _ b']) simp
qed

end
