(* ===== verification/Notes_Web.thy ===== *)
theory Notes_Web
  imports Html_Text Http_Lines
begin

text \<open>
  The notes board of \<open>2026-10-29-rust-simple-web-app\<close>: request parsing and response printing of
  \<open>src/http.rs\<close>, the router of \<open>src/app.rs\<close> and \<open>serve_connection\<close> of
  \<open>src/lib.rs\<close>. A \<open>HashMap\<close> is a map; collecting pairs into one keeps the last value of a key.
\<close>

section \<open>Requests\<close>

record WebRequest =
  wq_method :: string
  wq_path :: string
  wq_query :: "string \<rightharpoonup> string"
  wq_headers :: "string \<rightharpoonup> string"
  wq_body :: string

datatype WebError = Empty | BadRequestLine | BadHeader | BodyTooLarge | WebIo io_error

definition MAX_BODY :: nat where
  "MAX_BODY = 64 * 1024"

definition hex :: "char \<Rightarrow> nat option" where
  "hex c =
     (let n = code_of c
      in if 48 \<le> n \<and> n \<le> 57 then Some (n - 48)
         else if 65 \<le> n \<and> n \<le> 70 then Some (n - 55)
         else if 97 \<le> n \<and> n \<le> 102 then Some (n - 87)
         else None)"

text \<open>The loop over the bytes; a percent sign is only special when two bytes follow it.\<close>

fun percent_bytes :: "string \<Rightarrow> string" where
  "percent_bytes [] = []"
| "percent_bytes (c # cs) =
     (if c = CHR ''+'' then CHR '' '' # percent_bytes cs
      else if c = CHR ''%'' then
        (case cs of
           h # l # rest \<Rightarrow>
             (case (hex h, hex l) of
                (Some a, Some b) \<Rightarrow> char_of (a * 16 + b) # percent_bytes rest
              | _ \<Rightarrow> CHR ''%'' # percent_bytes cs)
         | _ \<Rightarrow> CHR ''%'' # percent_bytes cs)
      else c # percent_bytes cs)"

definition percent_decode :: "string \<Rightarrow> string" where
  "percent_decode s = from_utf8_lossy (percent_bytes s)"

definition form_pair :: "string \<Rightarrow> string \<times> string" where
  "form_pair p =
     (case split_once (CHR ''='') p of
        Some (k, v) \<Rightarrow> (percent_decode k, percent_decode v)
      | None \<Rightarrow> (percent_decode p, []))"

definition parse_form :: "string \<Rightarrow> (string \<rightharpoonup> string)" where
  "parse_form s = map_of (rev (map form_pair (filter (\<lambda>p. p \<noteq> []) (split_on (CHR ''&'') s))))"

definition web_request_line :: "string \<Rightarrow> (string \<times> string) option" where
  "web_request_line line =
     (case split_on (CHR '' '') (trim_end line) of
        m # t # v # _ \<Rightarrow> if starts_with ''HTTP/'' v \<and> m \<noteq> [] then Some (m, t) else None
      | _ \<Rightarrow> None)"

definition split_target :: "string \<Rightarrow> string \<times> (string \<rightharpoonup> string)" where
  "split_target target =
     (case split_once (CHR ''?'') target of
        Some (p, q) \<Rightarrow> (p, parse_form q)
      | None \<Rightarrow> (target, Map.empty))"

function web_headers ::
  "reader \<Rightarrow> (string \<rightharpoonup> string) \<Rightarrow> (string \<rightharpoonup> string, WebError) result \<times> reader" where
  "web_headers r hs =
     (case read_line r of
        (Err e, r') \<Rightarrow> (Err (WebIo e), r')
      | (Ok h0, r') \<Rightarrow>
          (let h = trim_end h0 in
           if h0 = [] \<or> h = [] then (Ok hs, r')
           else (case split_once (CHR '':'') h of
                   None \<Rightarrow> (Err BadHeader, r')
                 | Some (k, v) \<Rightarrow> web_headers r' (hs(to_ascii_lowercase (trim k) \<mapsto> trim v)))))"
  by pat_completeness auto
termination
  by (relation "measure (\<lambda>(r, hs). length (rd_bytes r))")
    (auto dest!: sym [of _ "read_line _"] intro!: read_line_decreases)

declare web_headers.simps [simp del]

definition body_length :: "(string \<rightharpoonup> string) \<Rightarrow> nat" where
  "body_length hs =
     (case hs ''content-length'' of
        None \<Rightarrow> 0
      | Some v \<Rightarrow> (case parse_uint usize_max v of None \<Rightarrow> 0 | Some n \<Rightarrow> n))"

definition parse_request :: "reader \<Rightarrow> (WebRequest, WebError) result \<times> reader" where
  "parse_request r =
     (case read_line r of
        (Err e, r1) \<Rightarrow> (Err (WebIo e), r1)
      | (Ok line, r1) \<Rightarrow>
          if line = [] then (Err Empty, r1)
          else (case web_request_line line of
             None \<Rightarrow> (Err BadRequestLine, r1)
           | Some (m, target) \<Rightarrow>
               (let (path, query) = split_target target in
                case web_headers r1 Map.empty of
                  (Err e, r2) \<Rightarrow> (Err e, r2)
                | (Ok hs, r2) \<Rightarrow>
                    (let len = body_length hs in
                     if len > MAX_BODY then (Err BodyTooLarge, r2)
                     else (case read_exact len r2 of
                             (Err e, r3) \<Rightarrow> (Err (WebIo e), r3)
                           | (Ok body, r3) \<Rightarrow>
                               (Ok \<lparr>wq_method = m, wq_path = path, wq_query = query,
                                  wq_headers = hs, wq_body = body\<rparr>, r3))))))"

section \<open>Responses\<close>

record WebResponse =
  ws_status :: nat
  ws_content_type :: string
  ws_location :: "string option"
  ws_body :: string

definition html_response :: "nat \<Rightarrow> string \<Rightarrow> WebResponse" where
  "html_response status body =
     \<lparr>ws_status = status, ws_content_type = ''text/html; charset=utf-8'', ws_location = None, ws_body = body\<rparr>"

definition text_response :: "nat \<Rightarrow> string \<Rightarrow> WebResponse" where
  "text_response status body =
     \<lparr>ws_status = status, ws_content_type = ''text/plain; charset=utf-8'', ws_location = None, ws_body = body\<rparr>"

definition redirect :: "string \<Rightarrow> WebResponse" where
  "redirect to_path =
     \<lparr>ws_status = 303, ws_content_type = ''text/plain; charset=utf-8'', ws_location = Some to_path, ws_body = []\<rparr>"

definition reason :: "nat \<Rightarrow> string" where
  "reason status =
     (if status = 200 then ''OK'' else if status = 303 then ''See Other''
      else if status = 400 then ''Bad Request'' else if status = 404 then ''Not Found''
      else if status = 405 then ''Method Not Allowed'' else if status = 413 then ''Payload Too Large''
      else ''Unknown'')"

definition to_bytes :: "WebResponse \<Rightarrow> string" where
  "to_bytes r =
     ''HTTP/1.1 '' @ show_nat (ws_status r) @ '' '' @ reason (ws_status r) @ crlf @
     ''Content-Type: '' @ ws_content_type r @ crlf @
     ''Content-Length: '' @ show_nat (length (ws_body r)) @ crlf @
     ''Connection: close'' @ crlf @
     (case ws_location r of Some l \<Rightarrow> ''Location: '' @ l @ crlf | None \<Rightarrow> []) @
     crlf @ ws_body r"

definition html_escape :: "string \<Rightarrow> string" where
  "html_escape s =
     replace_char (CHR 0x22) ''&quot;''
       (replace_char (CHR ''>'') ''&gt;''
         (replace_char (CHR ''<'') ''&lt;'' (replace_char (CHR ''&'') ''&amp;'' s)))"

section \<open>The application\<close>

record App =
  app_notes :: "string list"

definition notes_new :: App where
  "notes_new = \<lparr>app_notes = []\<rparr>"

abbreviation dq :: "string \<Rightarrow> string" where
  "dq s \<equiv> [CHR 0x22] @ s @ [CHR 0x22]"

definition note_tail :: "nat \<Rightarrow> string" where
  "note_tail i =
     '' <form method='' @ dq ''post'' @ '' action='' @ dq ''/notes/delete'' @ '' style='' @ dq ''display:inline'' @ ''>'' @
     ''<input type='' @ dq ''hidden'' @ '' name='' @ dq ''id'' @ '' value='' @ dq (show_nat i) @
     ''><button>delete</button></form></li>'' @ [CHR 0x0A]"

definition note_item :: "nat \<times> string \<Rightarrow> string" where
  "note_item it = ''<li>'' @ html_escape (snd it) @ note_tail (fst it)"

definition page_head :: "nat \<Rightarrow> string" where
  "page_head n =
     ''<!doctype html><html><head><meta charset='' @ dq ''utf-8'' @ ''><title>Notes</title></head><body>'' @ [CHR 0x0A] @
     ''<h1>Notes ('' @ show_nat n @ '')</h1>'' @ [CHR 0x0A] @
     ''<form method='' @ dq ''post'' @ '' action='' @ dq ''/notes'' @ ''>'' @
     ''<input name='' @ dq ''text'' @ '' maxlength='' @ dq ''280'' @ '' autofocus><button>add</button></form>'' @ [CHR 0x0A] @
     ''<ul>'' @ [CHR 0x0A]"

definition render_index :: "App \<Rightarrow> string" where
  "render_index a =
     page_head (length (app_notes a)) @ concat (map note_item (List.enumerate 0 (app_notes a))) @
     ''</ul>'' @ [CHR 0x0A] @ ''</body></html>''"

definition post_note :: "WebRequest \<Rightarrow> App \<Rightarrow> WebResponse \<times> App" where
  "post_note req a =
     (let form = parse_form (from_utf8_lossy (wq_body req))
      in case map_option trim (form ''text'') of
           Some t \<Rightarrow>
             if t \<noteq> [] then (redirect ''/'', a\<lparr>app_notes := app_notes a @ [take_chars 280 t]\<rparr>)
             else (text_response 400 ''note text is required'', a)
         | None \<Rightarrow> (text_response 400 ''note text is required'', a))"

definition delete_note :: "WebRequest \<Rightarrow> App \<Rightarrow> WebResponse \<times> App" where
  "delete_note req a =
     (let form = parse_form (from_utf8_lossy (wq_body req))
      in case Option.bind (form ''id'') (parse_uint usize_max) of
           Some i \<Rightarrow>
             if i < length (app_notes a)
             then (redirect ''/'', a\<lparr>app_notes := take i (app_notes a) @ drop (Suc i) (app_notes a)\<rparr>)
             else (text_response 400 ''unknown note id'', a)
         | None \<Rightarrow> (text_response 400 ''unknown note id'', a))"

definition handle :: "WebRequest \<Rightarrow> App \<Rightarrow> WebResponse \<times> App" where
  "handle req a =
     (let m = wq_method req; p = wq_path req
      in if m = ''GET'' \<and> p = ''/'' then (html_response 200 (render_index a), a)
         else if m = ''POST'' \<and> p = ''/notes'' then post_note req a
         else if m = ''POST'' \<and> p = ''/notes/delete'' then delete_note req a
         else if m = ''GET'' \<and> p = ''/health'' then (text_response 200 ''ok'', a)
         else if p \<in> {''/'', ''/notes'', ''/notes/delete'', ''/health''}
              then (text_response 405 ''method not allowed'', a)
         else (text_response 404 ''not found'', a))"

text \<open>One connection: the bytes sent back and the new state. The mutex serialises the calls of
  \<open>handle\<close>, which never panics, so it is never poisoned.\<close>

definition serve_connection :: "reader \<Rightarrow> App \<Rightarrow> string \<times> App" where
  "serve_connection r a =
     (case fst (parse_request r) of
        Ok req \<Rightarrow> (let (resp, a') = handle req a in (to_bytes resp, a'))
      | Err Empty \<Rightarrow> ([], a)
      | Err BodyTooLarge \<Rightarrow> (to_bytes (text_response 413 ''payload too large''), a)
      | Err _ \<Rightarrow> (to_bytes (text_response 400 ''bad request''), a))"

section \<open>Form data\<close>

text \<open>The encoder of a browser: \<open>application/x-www-form-urlencoded\<close>.\<close>

definition hex_char :: "nat \<Rightarrow> char" where
  "hex_char d = (if d < 10 then char_of (48 + d) else char_of (55 + d))"

definition form_safe :: "char \<Rightarrow> bool" where
  "form_safe c \<longleftrightarrow> (let n = code_of c in 48 \<le> n \<and> n \<le> 57 \<or> 65 \<le> n \<and> n \<le> 90 \<or> 97 \<le> n \<and> n \<le> 122 \<or>
     n \<in> {42, 45, 46, 95})"

definition encode_byte :: "char \<Rightarrow> string" where
  "encode_byte c =
     (if form_safe c then [c] else if c = CHR '' '' then ''+''
      else [CHR ''%'', hex_char (code_of c div 16), hex_char (code_of c mod 16)])"

definition percent_encode :: "string \<Rightarrow> string" where
  "percent_encode s = concat (map encode_byte s)"

definition encode_form :: "(string \<times> string) list \<Rightarrow> string" where
  "encode_form kvs = join_with ''&'' (map (\<lambda>(k, v). percent_encode k @ ''='' @ percent_encode v) kvs)"

lemma hex_hex_char: "d < 16 \<Longrightarrow> hex (hex_char d) = Some d"
  by (auto simp: hex_def hex_char_def Let_def)

lemma hex_char_safe: "d < 16 \<Longrightarrow> form_safe (hex_char d)"
  by (auto simp: form_safe_def hex_char_def Let_def)

lemma code_less: "code_of c < (256 :: nat)"
  using of_char_of [of "code_of c"] by (metis char_of_char mod_less_divisor zero_less_numeral)

lemma nibbles: "code_of c div 16 < (16 :: nat)" "code_of c mod 16 < (16 :: nat)"
proof -
  have "code_of c < (16 * 16 :: nat)" using code_less [of c] by (simp only: mult_numeral_left)
  then show "code_of c div 16 < (16 :: nat)" by (rule less_mult_imp_div_less)
qed simp

lemma form_safe_special: "form_safe c \<Longrightarrow> c \<noteq> CHR ''+'' \<and> c \<noteq> CHR ''%'' \<and> c \<noteq> CHR ''&'' \<and> c \<noteq> CHR ''=''"
  by (auto simp: form_safe_def Let_def)

lemma percent_bytes_encode_byte: "percent_bytes (encode_byte c @ s) = c # percent_bytes s"
proof -
  have "char_of (code_of c div 16 * 16 + code_of c mod 16 :: nat) = c"
    by (simp add: char_of_char)
  then show ?thesis
    using form_safe_special [of c] nibbles [of c, THEN hex_hex_char]
    by (auto simp: encode_byte_def)
qed

lemma percent_bytes_encode: "percent_bytes (percent_encode s) = s"
  unfolding percent_encode_def by (induction s) (simp_all add: percent_bytes_encode_byte)

lemma percent_decode_encode: "utf8_valid s \<Longrightarrow> percent_decode (percent_encode s) = s"
  by (simp add: percent_decode_def percent_bytes_encode from_utf8_lossy_valid)

interpretation form_field: codec percent_encode percent_decode utf8_valid
  by unfold_locales (rule percent_decode_encode)

lemma encode_byte_chars:
  assumes "d \<in> set (encode_byte c)"
  shows "form_safe d \<or> d = CHR ''+'' \<or> d = CHR ''%''"
  using assms nibbles [of c, THEN hex_char_safe]
  by (auto simp: encode_byte_def split: if_splits)

lemma percent_encode_chars:
  "d \<in> set (percent_encode s) \<Longrightarrow> form_safe d \<or> d = CHR ''+'' \<or> d = CHR ''%''"
  unfolding percent_encode_def using encode_byte_chars by auto

lemma percent_encode_special: "CHR ''&'' \<notin> set (percent_encode s)" "CHR ''='' \<notin> set (percent_encode s)"
  using percent_encode_chars form_safe_special by fastforce+

lemma form_pair_encode:
  "utf8_valid k \<Longrightarrow> utf8_valid v \<Longrightarrow> form_pair (percent_encode k @ ''='' @ percent_encode v) = (k, v)"
  by (simp add: form_pair_def percent_encode_special form_field.dec_enc)

lemma split_on_encode_form:
  "filter (\<lambda>p. p \<noteq> []) (split_on (CHR ''&'') (encode_form kvs)) =
   map (\<lambda>(k, v). percent_encode k @ ''='' @ percent_encode v) kvs"
proof (cases "kvs = []")
  case False
  have "split_on (CHR ''&'') (encode_form kvs) = map (\<lambda>(k, v). percent_encode k @ ''='' @ percent_encode v) kvs"
    unfolding encode_form_def using False
    by (intro split_on_join) (auto simp: percent_encode_special)
  then show ?thesis by (auto simp: filter_id_conv)
qed (simp add: encode_form_def)

lemma parse_encode_form:
  assumes "\<forall>kv \<in> set kvs. utf8_valid (fst kv) \<and> utf8_valid (snd kv)"
  shows "parse_form (encode_form kvs) = map_of (rev kvs)"
proof -
  have "map form_pair (map (\<lambda>(k, v). percent_encode k @ ''='' @ percent_encode v) kvs) = kvs"
    using assms form_pair_encode by (induction kvs) auto
  then show ?thesis
    unfolding parse_form_def split_on_encode_form by simp
qed

lemma encode_form_ascii: "c \<in> set (encode_form kvs) \<Longrightarrow> code_of c < 0x80"
proof -
  have safe: "form_safe c \<Longrightarrow> code_of c < 0x80" for c
    by (auto simp: form_safe_def Let_def)
  have enc: "c \<in> set (percent_encode s) \<Longrightarrow> code_of c < 0x80" for s
    using percent_encode_chars [of c s] safe by auto
  have "c \<in> set (join_with sep xs) \<Longrightarrow> c \<in> set sep \<or> (\<exists>x \<in> set xs. c \<in> set x)" for sep xs
    by (induction sep xs rule: join_with.induct) auto
  then show "c \<in> set (encode_form kvs) \<Longrightarrow> code_of c < 0x80"
    unfolding encode_form_def using enc by fastforce
qed

lemma lossy_encode_form [simp]: "from_utf8_lossy (encode_form kvs) = encode_form kvs"
  using encode_form_ascii by (intro from_utf8_lossy_valid utf8_valid_ascii)

section \<open>Notes\<close>

definition notes_inv :: "App \<Rightarrow> bool" where
  "notes_inv a \<longleftrightarrow> (\<forall>n \<in> set (app_notes a). n \<noteq> [] \<and> utf8_valid n \<and> char_count n \<le> 280)"

lemma parse_form_valid: "parse_form s k = Some v \<Longrightarrow> utf8_valid v"
proof -
  assume "parse_form s k = Some v"
  then obtain p where "form_pair p = (k, v)"
    unfolding parse_form_def by (fastforce dest!: map_of_SomeD)
  then show ?thesis
    by (auto simp: form_pair_def percent_decode_def utf8_valid_lossy split: option.splits)
qed

lemma post_note_inv:
  assumes "notes_inv a" and "post_note req a = (resp, a')"
  shows "notes_inv a'"
proof (cases "a' = a")
  case False
  then obtain t where t: "parse_form (from_utf8_lossy (wq_body req)) ''text'' = Some t" "trim t \<noteq> []"
    and a': "a' = a\<lparr>app_notes := app_notes a @ [take_chars 280 (trim t)]\<rparr>"
    using assms(2) by (auto simp: post_note_def Let_def split: option.splits if_splits)
  have "utf8_valid (trim t)" using parse_form_valid [OF t(1)] by (rule trim_valid)
  then show ?thesis
    using assms(1) t(2) utf8_valid_take_chars [of "trim t" 280] by (simp add: a' notes_inv_def)
qed (use assms in simp)

lemma delete_note_inv: "notes_inv a \<Longrightarrow> delete_note req a = (resp, a') \<Longrightarrow> notes_inv a'"
  using set_take_subset [of _ "app_notes a"] set_drop_subset [of _ "app_notes a"]
  by (fastforce simp: delete_note_def notes_inv_def Let_def split: option.splits if_splits)

lemma handle_inv: "notes_inv a \<Longrightarrow> handle req a = (resp, a') \<Longrightarrow> notes_inv a'"
  by (auto simp: handle_def Let_def split: if_splits intro: post_note_inv delete_note_inv)

lemma serve_inv: "notes_inv a \<Longrightarrow> serve_connection r a = (out, a') \<Longrightarrow> notes_inv a'"
  using handle_inv
  by (auto simp: serve_connection_def Let_def split: result.splits WebError.splits prod.splits)

text \<open>The connections, in the order in which they obtain the mutex.\<close>

fun serve_all :: "reader list \<Rightarrow> App \<Rightarrow> string list \<times> App" where
  "serve_all [] a = ([], a)"
| "serve_all (r # rs) a =
     (let (out, a1) = serve_connection r a; (outs, a2) = serve_all rs a1 in (out # outs, a2))"

lemma serve_all_inv: "notes_inv a \<Longrightarrow> serve_all rs a = (outs, a') \<Longrightarrow> notes_inv a'"
  by (induction rs arbitrary: a outs) (auto simp: Let_def split: prod.splits dest: serve_inv)

lemma handle_unchanged: "handle req a = (resp, a') \<Longrightarrow> ws_status resp \<noteq> 303 \<Longrightarrow> a' = a"
  by (auto simp: handle_def post_note_def delete_note_def redirect_def Let_def
      split: if_splits option.splits)

lemma delete_note_found:
  assumes "delete_note req a = (resp, a')" and "ws_status resp = 303"
  shows "\<exists>i raw. parse_form (from_utf8_lossy (wq_body req)) ''id'' = Some raw \<and> parse_uint usize_max raw = Some i \<and>
    i < length (app_notes a) \<and> app_notes a' = take i (app_notes a) @ drop (Suc i) (app_notes a)"
proof (cases "Option.bind (parse_form (from_utf8_lossy (wq_body req)) ''id'') (parse_uint usize_max)")
  case None
  then show ?thesis using assms by (auto simp: delete_note_def text_response_def)
next
  case (Some i)
  then show ?thesis
    using assms by (auto simp: delete_note_def text_response_def bind_eq_Some_conv split: if_splits)
qed

section \<open>Pages\<close>

interpretation notes_html: html_escaper html_escape
  unfolding html_escape_def replace_chain by (rule html_escaper_chain)

lemma show_nat_angle: "CHR ''>'' \<notin> set (show_nat n)" "CHR ''<'' \<notin> set (show_nat n)"
  by (rule show_nat_char; simp)+

lemma show_nat_states [simp]: "tag_state True (show_nat n)" "\<not> tag_state False (show_nat n)" "markup False (show_nat n) = []"
  using markup_inside [OF show_nat_angle(1)] markup_text [OF show_nat_angle(2)] by auto

lemma note_tail_balanced [simp]: "\<not> tag_state False (note_tail i)"
  by (simp add: note_tail_def)

lemma page_head_balanced [simp]: "\<not> tag_state False (page_head n)"
  by (simp add: page_head_def)

lemma notes_markup:
  "markup False (concat (map note_item (List.enumerate k ns))) = concat (map (\<lambda>i. ''<li>'' @ markup False (note_tail i)) [k..<k + length ns])"
  "\<not> tag_state False (concat (map note_item (List.enumerate k ns)))"
  by (induction ns arbitrary: k) (simp_all add: note_item_def upt_conv_Cons del: upt_Suc)

section \<open>Messages\<close>

lemma web_headers_end: "rd_bytes r = crlf @ rest \<Longrightarrow> web_headers r hs = (Ok hs, r\<lparr>rd_bytes := rest\<rparr>)"
  using read_line_plain [of "[]" r rest] trim_end_line [of "[]"]
  by (subst web_headers.simps) simp

lemma web_headers_field:
  assumes "field h" and "rd_bytes r = header_line h @ rest"
  shows "web_headers r hs = web_headers (r\<lparr>rd_bytes := rest\<rparr>) (hs(fst (norm_field h) \<mapsto> snd (norm_field h)))"
proof -
  obtain line b where "read_line r = (Ok line, r\<lparr>rd_bytes := rest\<rparr>)" and "line \<noteq> []" and "trim_end line \<noteq> []"
    and "split_once (CHR '':'') (trim_end line) = Some (fst h, b)"
    and n: "(to_ascii_lowercase (trim (fst h)), trim b) = norm_field h"
    using assms by (rule read_field_line)
  then show ?thesis
    by (subst web_headers.simps) (simp add: Let_def n [symmetric])
qed

lemma web_headers_fields:
  assumes "\<forall>h \<in> set fs. field h" and "rd_bytes r = concat (map header_line fs) @ crlf @ rest"
  shows "web_headers r hs = (Ok (hs ++ map_of (rev (map norm_field fs))), r\<lparr>rd_bytes := rest\<rparr>)"
  using assms
proof (induction fs arbitrary: r hs)
  case Nil
  then show ?case by (simp add: web_headers_end)
next
  case (Cons h fs)
  let ?r = "r\<lparr>rd_bytes := concat (map header_line fs) @ crlf @ rest\<rparr>"
  obtain k v where kv: "norm_field h = (k, v)" by fastforce
  have "web_headers r hs = web_headers ?r (hs(k \<mapsto> v))"
    using Cons.prems web_headers_field [of h r "concat (map header_line fs) @ crlf @ rest" hs] kv by simp
  also have "\<dots> = (Ok (hs(k \<mapsto> v) ++ map_of (rev (map norm_field fs))), r\<lparr>rd_bytes := rest\<rparr>)"
    using Cons.IH [of ?r] Cons.prems by simp
  also have "hs(k \<mapsto> v) ++ map_of (rev (map norm_field fs)) = hs ++ map_of (rev (map norm_field (h # fs)))"
    by (simp add: kv map_add_def fun_eq_iff split: option.splits)
  finally show ?case .
qed

text \<open>A request as a browser sends it.\<close>

definition print_web_request :: "string \<Rightarrow> string \<Rightarrow> (string \<times> string) list \<Rightarrow> string \<Rightarrow> string" where
  "print_web_request m target hs body =
     m @ '' '' @ target @ '' HTTP/1.1'' @ crlf @
     concat (map header_line (hs @ [(''Content-Length'', show_nat (length body))])) @ crlf @ body"

lemma web_request_line_print:
  assumes "token m" and "token t"
  shows "web_request_line ((m @ '' '' @ t @ '' HTTP/1.1'') @ crlf) = Some (m, t)"
proof -
  have "trim_end (m @ '' '' @ t @ '' HTTP/1.1'') = m @ CHR '' '' # t @ CHR '' '' # ''HTTP/1.1''"
    using assms by (subst plain_trim_end) (auto simp: token_def)
  then have "trim_end ((m @ '' '' @ t @ '' HTTP/1.1'') @ crlf) = m @ CHR '' '' # t @ CHR '' '' # ''HTTP/1.1''"
    by (simp only: trim_end_line)
  then show ?thesis
    using assms by (simp add: web_request_line_def token_def starts_with_def)
qed

lemma parse_request_print:
  assumes "token m" and "token t" and "\<forall>h \<in> set hs. field h"
    and "length body \<le> MAX_BODY" and "rd_bytes r = print_web_request m t hs body @ rest"
  shows "\<exists>q. parse_request r = (Ok q, r\<lparr>rd_bytes := rest\<rparr>) \<and> wq_method q = m \<and>
    (wq_path q, wq_query q) = split_target t \<and> wq_body q = body"
proof -
  let ?l = "m @ '' '' @ t @ '' HTTP/1.1''"
  let ?fs = "hs @ [(''Content-Length'', show_nat (length body))]"
  let ?r1 = "r\<lparr>rd_bytes := concat (map header_line ?fs) @ crlf @ body @ rest\<rparr>"
  let ?m = "map_of (rev (map norm_field ?fs))"
  have "plain ?l" using assms(1,2) by (auto simp: token_def)
  moreover have "rd_bytes r = ?l @ crlf @ concat (map header_line ?fs) @ crlf @ body @ rest"
    using assms(5) by (simp add: print_web_request_def)
  ultimately have l: "read_line r = (Ok (?l @ crlf), ?r1)" by (rule read_line_plain)
  have "field (''Content-Length'', show_nat (length body))"
    using show_nat_token token_field_value by (auto simp: field_def token_def)
  then have h: "web_headers ?r1 Map.empty = (Ok ?m, r\<lparr>rd_bytes := body @ rest\<rparr>)"
    using assms(3) web_headers_fields [of ?fs ?r1 "body @ rest" Map.empty] by simp
  have "length body \<le> usize_max" using assms(4) by (simp add: MAX_BODY_def usize_max_def)
  moreover have "to_ascii_lowercase ''Content-Length'' = ''content-length''"
    by (simp add: to_ascii_lowercase_def ascii_lower_def char_of_nat_eq)
  ultimately have c: "body_length ?m = length body"
    by (simp add: body_length_def norm_field_def)
  have e: "read_exact (length body) (r\<lparr>rd_bytes := body @ rest\<rparr>) = (Ok body, r\<lparr>rd_bytes := rest\<rparr>)"
    by (subst read_exact_Ok) simp_all
  have ne: "?l @ crlf \<noteq> []" by simp
  have n: "\<not> MAX_BODY < length body" using assms(4) by simp
  obtain p q where pq: "split_target t = (p, q)" by fastforce
  show ?thesis
    unfolding parse_request_def l prod.case result.case if_not_P [OF ne] web_request_line_print [OF assms(1,2)]
      option.case h pq Let_def c e if_not_P [OF n]
    by simp
qed

section \<open>Properties\<close>

text \<open>C27: A note submitted through the form of the page arrives: for any fields a browser encodes (spaces,
  \<open>&\<close>, \<open>=\<close>, \<open>%\<close>, \<open>+\<close>, non-ASCII characters included) the last \<open>text\<close> field, trimmed and
  cut to 280 characters, is appended to the notes and the browser is redirected, and a blank
  or missing text is refused and changes nothing.\<close>

theorem submit_note:
  assumes "\<forall>kv \<in> set kvs. utf8_valid (fst kv) \<and> utf8_valid (snd kv)" and "\<forall>h \<in> set hs. field h"
    and "length (encode_form kvs) \<le> MAX_BODY"
    and "rd_bytes r = print_web_request ''POST'' ''/notes'' hs (encode_form kvs)"
  shows "serve_connection r a =
    (case map_of (rev kvs) ''text'' of
       None \<Rightarrow> (to_bytes (text_response 400 ''note text is required''), a)
     | Some t \<Rightarrow>
         if trim t = [] then (to_bytes (text_response 400 ''note text is required''), a)
         else (to_bytes (redirect ''/''), a\<lparr>app_notes := app_notes a @ [take_chars 280 (trim t)]\<rparr>))"
proof -
  have "split_target ''/notes'' = (''/notes'', Map.empty)" by (simp add: split_target_def)
  then obtain q where q: "fst (parse_request r) = Ok q" and m: "wq_method q = ''POST''" "wq_path q = ''/notes''"
    and b: "wq_body q = encode_form kvs"
    using parse_request_print [of "''POST''" "''/notes''" hs "encode_form kvs" r "[]"] assms
    by (auto simp: token_def)
  have "handle q a = post_note q a" using m by (simp add: handle_def)
  then show ?thesis
    using parse_encode_form [OF assms(1)]
    by (simp add: serve_connection_def q post_note_def b split: option.splits)
qed

theorem submit_note_witness:
  "serve_connection \<lparr>rd_bytes = print_web_request ''POST'' ''/notes'' [] (encode_form [(''text'', ''a&b'')]), rd_fault = None\<rparr> notes_new =
     (to_bytes (redirect ''/''), \<lparr>app_notes = [''a&b'']\<rparr>)"
proof -
  have v: "utf8_valid ''text''" "utf8_valid ''a&b''" by simp_all
  have t: "trim ''a&b'' = ''a&b''" "take_chars 280 ''a&b'' = ''a&b''"
    by (simp_all add: trim_def trim_start_ascii trim_end_ascii take_chars_all)
  show ?thesis
    using submit_note [of "[(''text'', ''a&b'')]" "[]"
      "\<lparr>rd_bytes = print_web_request ''POST'' ''/notes'' [] (encode_form [(''text'', ''a&b'')]), rd_fault = None\<rparr>" notes_new] v t
    by (simp add: notes_new_def encode_form_def percent_encode_def encode_byte_def form_safe_def MAX_BODY_def)
qed

text \<open>Property: Whatever requests arrive, well-formed or not, in whatever order the connections obtain the
  state, every note is non-empty, well-formed UTF-8 and at most 280 characters long.\<close>

theorem notes_bounded:
  assumes "serve_all rs notes_new = (outs, a)"
  shows "\<forall>n. n \<in> set (app_notes a) \<longrightarrow> n \<noteq> [] \<and> utf8_valid n \<and> char_count n \<le> 280"
  using serve_all_inv [OF _ assms] by (simp add: notes_inv_def notes_new_def)

theorem notes_bounded_witness:
  "\<exists>a. serve_all [\<lparr>rd_bytes = [], rd_fault = None\<rparr>] notes_new = ([[]], a) \<and>
     (\<forall>n. n \<in> set (app_notes a) \<longrightarrow> char_count n \<le> 280)"
proof -
  have "serve_all [\<lparr>rd_bytes = [], rd_fault = None\<rparr>] notes_new = ([[]], notes_new)"
    by (simp add: serve_connection_def parse_request_def read_line_def)
  with notes_bounded [OF this] show ?thesis by blast
qed

text \<open>Property: No note can add markup to the page: the characters of the page inside tags depend on the
  number of notes only, and a browser displays each note as it was submitted.\<close>

theorem index_text_safe:
  "(length (app_notes a) = length (app_notes b) \<longrightarrow> markup False (render_index a) = markup False (render_index b)) \<and>
   read_entities (html_escape n) = n \<and> set (html_escape n) \<inter> {CHR ''<'', CHR ''>'', CHR 0x22} = {}"
proof -
  have "markup False (render_index a) = markup False (page_head (length (app_notes a))) @
      concat (map (\<lambda>i. ''<li>'' @ markup False (note_tail i)) [0..<length (app_notes a)]) @ ''</ul></body></html>''" for a
    by (simp add: render_index_def notes_markup)
  then show ?thesis using notes_html.readable notes_html.safe by auto
qed

theorem index_text_safe_witness:
  "markup False (render_index \<lparr>app_notes = [''<script>'']\<rparr>) = markup False (render_index \<lparr>app_notes = [''x'']\<rparr>)"
  using index_text_safe [of "\<lparr>app_notes = [''<script>'']\<rparr>" "\<lparr>app_notes = [''x'']\<rparr>"] by simp

text \<open>Property: Only a redirect changes the notes: a delete removes exactly the note with the given index and
  every other answer (200, 400, 404, 405) leaves the notes as they were.\<close>

theorem handle_effect:
  assumes "handle req a = (resp, a')"
  shows "(ws_status resp \<noteq> 303 \<longrightarrow> a' = a) \<and> ws_status resp \<in> {200, 303, 400, 404, 405} \<and>
    (wq_method req = ''POST'' \<and> wq_path req = ''/notes/delete'' \<and> ws_status resp = 303 \<longrightarrow>
       (\<exists>i raw. parse_form (from_utf8_lossy (wq_body req)) ''id'' = Some raw \<and> parse_uint usize_max raw = Some i \<and>
          i < length (app_notes a) \<and> length (app_notes a') = length (app_notes a) - 1 \<and>
          (\<forall>j. j < length (app_notes a') \<longrightarrow> app_notes a' ! j = app_notes a ! (if j < i then j else Suc j))))"
proof (intro conjI impI)
  show "ws_status resp \<noteq> 303 \<Longrightarrow> a' = a" using handle_unchanged [OF assms] .
  show "ws_status resp \<in> {200, 303, 400, 404, 405}"
    using assms by (auto simp: handle_def post_note_def delete_note_def redirect_def text_response_def
        html_response_def Let_def split: if_splits option.splits)
  assume d: "wq_method req = ''POST'' \<and> wq_path req = ''/notes/delete'' \<and> ws_status resp = 303"
  then have "delete_note req a = (resp, a')" using assms by (simp add: handle_def)
  then obtain i raw where i: "parse_form (from_utf8_lossy (wq_body req)) ''id'' = Some raw" "parse_uint usize_max raw = Some i"
    "i < length (app_notes a)" "app_notes a' = take i (app_notes a) @ drop (Suc i) (app_notes a)"
    using d delete_note_found [of req a resp a'] by auto
  have "app_notes a' ! j = app_notes a ! (if j < i then j else Suc j)" if "j < length (app_notes a')" for j
    using that i(3) by (simp add: i(4) nth_append min_def)
  then show "\<exists>i raw. parse_form (from_utf8_lossy (wq_body req)) ''id'' = Some raw \<and> parse_uint usize_max raw = Some i \<and>
          i < length (app_notes a) \<and> length (app_notes a') = length (app_notes a) - 1 \<and>
          (\<forall>j. j < length (app_notes a') \<longrightarrow> app_notes a' ! j = app_notes a ! (if j < i then j else Suc j))"
    using i by (intro exI [of _ i] exI [of _ raw]) simp
qed

theorem handle_effect_witness:
  "\<exists>resp a'. handle \<lparr>wq_method = ''POST'', wq_path = ''/notes/delete'', wq_query = Map.empty, wq_headers = Map.empty, wq_body = ''id=1''\<rparr>
      \<lparr>app_notes = [''a'', ''b'', ''c'']\<rparr> = (resp, a') \<and> app_notes a' = [''a'', ''c''] \<and> ws_status resp = 303 \<and>
      ws_status resp \<in> {200, 303, 400, 404, 405}"
proof -
  let ?q = "\<lparr>wq_method = ''POST'', wq_path = ''/notes/delete'', wq_query = Map.empty, wq_headers = Map.empty, wq_body = ''id=1''\<rparr>"
  have "handle ?q \<lparr>app_notes = [''a'', ''b'', ''c'']\<rparr> = (redirect ''/'', \<lparr>app_notes = [''a'', ''c'']\<rparr>)"
    by (simp add: handle_def delete_note_def parse_form_def form_pair_def percent_decode_def parse_uint_def
        digit_val_def usize_max_def split_once_def)
  with handle_effect [OF this] show ?thesis by (simp add: redirect_def)
qed

text \<open>Property: The size limit holds: a parsed request never has more than 65536 bytes of body, its body is as
  long as the last \<open>content-length\<close> field says (0 when there is none or it is not a number), and a
  head that announces more is answered 413 without reading on and without any effect.\<close>

theorem body_limit:
  "(parse_request r = (Ok q, r') \<longrightarrow> length (wq_body q) \<le> 65536 \<and> length (wq_body q) = body_length (wq_headers q)) \<and>
   (parse_request r = (Err BodyTooLarge, r') \<longrightarrow>
      serve_connection r a = (to_bytes (text_response 413 ''payload too large''), a))"
  by (auto simp: parse_request_def serve_connection_def Let_def MAX_BODY_def read_exact_def
      split: prod.splits result.splits option.splits if_splits)

theorem body_limit_witness:
  "let r = \<lparr>rd_bytes = print_web_request ''GET'' ''/'' [] ''abc'', rd_fault = None\<rparr>
   in \<exists>q r'. parse_request r = (Ok q, r') \<and> length (wq_body q) = body_length (wq_headers q)"
proof -
  let ?r = "\<lparr>rd_bytes = print_web_request ''GET'' ''/'' [] ''abc'', rd_fault = None\<rparr>"
  obtain q r' where "parse_request ?r = (Ok q, r')"
    using parse_request_print [of "''GET''" "''/''" "[]" "''abc''" ?r "[]"] by (auto simp: token_def MAX_BODY_def)
  with body_limit [of ?r q r'] show ?thesis by auto
qed

end
