(* ===== verification/Notes_Server.thy ===== *)
theory Notes_Server
  imports Notes_Web
begin

text \<open>
  The running notes board: \<open>main.rs\<close>, and \<open>serve_connection\<close> of \<open>lib.rs\<close> as a thread that reads its request, waits for the mutex
  around \<open>App\<close>, handles the request under it, and writes. The theory shows that every interleaving of the threads is one of the sequential runs of
  \<open>serve_all\<close>, in an order that extends as the threads are served.
\<close>

section \<open>Connection threads\<close>

datatype web_conn = Web_Reading reader | Web_Waiting WebRequest | Web_Sending string | Web_Done string

definition web_receive :: "reader \<Rightarrow> web_conn" where
  "web_receive r =
     (case fst (parse_request r) of
        Ok req \<Rightarrow> Web_Waiting req
      | Err Empty \<Rightarrow> Web_Done []
      | Err BodyTooLarge \<Rightarrow> Web_Sending (to_bytes (text_response 413 ''payload too large''))
      | Err _ \<Rightarrow> Web_Sending (to_bytes (text_response 400 ''bad request'')))"

fun web_answered :: "web_conn \<Rightarrow> bool" where
  "web_answered (Web_Sending out) = True"
| "web_answered (Web_Done out) = True"
| "web_answered c = False"

section \<open>The server\<close>

text \<open>The application behind the mutex, the threads in the order of acceptance, the exit code once \<open>main\<close> has left, and what it printed.
  \<open>web_streams\<close> keeps what each connection sends, and \<open>web_order\<close> the order in which the connections were answered.\<close>

record web_state =
  web_app :: App
  web_conns :: "web_conn list"
  web_exit :: "nat option"
  web_out :: string
  web_streams :: "reader list"
  web_order :: "nat list"

text \<open>\<open>main\<close> up to the accept loop, with the answer of \<open>TcpListener::bind\<close>.\<close>

definition web_main :: "(string \<Rightarrow> (unit, io_error) result) \<Rightarrow> string list \<Rightarrow> web_state" where
  "web_main bind args =
     (let addr = (if 1 < length args then args ! 1 else ''127.0.0.1:8080'');
          s = \<lparr>web_app = notes_new, web_conns = [], web_exit = None, web_out = [], web_streams = [], web_order = []\<rparr>
      in case bind addr of
           Ok _ \<Rightarrow> s\<lparr>web_out := ''listening on http://'' @ addr @ [CHR 0x0A]\<rparr>
         | Err _ \<Rightarrow> s\<lparr>web_exit := Some 1\<rparr>)"

definition web_thread :: "web_state \<Rightarrow> nat \<Rightarrow> web_conn \<Rightarrow> bool" where
  "web_thread s t c \<longleftrightarrow> web_exit s = None \<and> t < length (web_conns s) \<and> web_conns s ! t = c"

definition web_set :: "nat \<Rightarrow> web_conn \<Rightarrow> App \<Rightarrow> web_state \<Rightarrow> web_state" where
  "web_set t c a s = s\<lparr>web_conns := (web_conns s)[t := c], web_app := a,
     web_order := web_order s @ (if web_answered c \<and> \<not> web_answered (web_conns s ! t) then [t] else [])\<rparr>"

inductive web_step :: "web_state \<Rightarrow> web_state \<Rightarrow> bool" where
  accepted: "web_exit s = None \<Longrightarrow> web_step s (s\<lparr>web_conns := web_conns s @ [Web_Reading r], web_streams := web_streams s @ [r]\<rparr>)"
| accept_error: "web_exit s = None \<Longrightarrow> web_step s s"
| received: "web_thread s t (Web_Reading r) \<Longrightarrow> web_step s (web_set t (web_receive r) (web_app s) s)"
| handled: "web_thread s t (Web_Waiting req) \<Longrightarrow> handle req (web_app s) = (resp, a) \<Longrightarrow> web_step s (web_set t (Web_Sending (to_bytes resp)) a s)"
| sent: "web_thread s t (Web_Sending out) \<Longrightarrow> web_step s (web_set t (Web_Done (take n out)) (web_app s) s)"

inductive web_reach :: "web_state \<Rightarrow> bool" where
  start: "web_reach (web_main bind args)"
| step: "web_reach s \<Longrightarrow> web_step s s' \<Longrightarrow> web_reach s'"

section \<open>The order of service\<close>

lemma serve_all_append:
  "serve_all (rs @ [r]) a = (let (outs, a1) = serve_all rs a; (out, a2) = serve_connection r a1 in (outs @ [out], a2))"
  by (induction rs arbitrary: a) (simp_all add: Let_def split: prod.splits)

text \<open>A connection that was answered \<open>out\<close>: the bytes wait to be written, or the client received a part of them.\<close>

definition web_sent :: "web_conn \<Rightarrow> string \<Rightarrow> bool" where
  "web_sent c out \<longleftrightarrow> c = Web_Sending out \<or> (\<exists>n. c = Web_Done (take n out))"

definition serialised :: "web_state \<Rightarrow> bool" where
  "serialised s \<longleftrightarrow> (\<exists>outs. serve_all (map ((!) (web_streams s)) (web_order s)) notes_new = (outs, web_app s) \<and>
     list_all2 (\<lambda>t out. web_sent (web_conns s ! t) out) (web_order s) outs)"

fun web_at :: "reader \<Rightarrow> web_conn \<Rightarrow> bool" where
  "web_at r (Web_Reading r') \<longleftrightarrow> r' = r"
| "web_at r (Web_Waiting req) \<longleftrightarrow> fst (parse_request r) = Ok req"
| "web_at r c \<longleftrightarrow> True"

definition web_inv :: "web_state \<Rightarrow> bool" where
  "web_inv s \<longleftrightarrow> list_all2 web_at (web_streams s) (web_conns s) \<and> distinct (web_order s) \<and>
     set (web_order s) = {t. t < length (web_conns s) \<and> web_answered (web_conns s ! t)} \<and> serialised s"

lemma web_receive_cases:
  "(\<exists>req. web_receive r = Web_Waiting req \<and> fst (parse_request r) = Ok req) \<or>
   (\<exists>out. web_sent (web_receive r) out \<and> (\<forall>a. serve_connection r a = (out, a)))"
  by (auto simp: web_receive_def web_sent_def serve_connection_def split: result.splits WebError.splits)

lemma web_sent_answered: "web_sent c out \<Longrightarrow> web_answered c"
  by (auto simp: web_sent_def)

lemma web_at_thread: "web_inv s \<Longrightarrow> web_thread s t c \<Longrightarrow> web_at (web_streams s ! t) c \<and> t < length (web_streams s)"
  by (auto simp: web_inv_def web_thread_def list_all2_conv_all_nth)

text \<open>A thread that is not yet answered becomes so by what the sequential server does for its connection.\<close>

lemma web_inv_answer:
  assumes "web_inv s" and "web_thread s t c0" and "\<not> web_answered c0"
    and "serve_connection (web_streams s ! t) (web_app s) = (out, a)" and "web_sent c out"
  shows "web_inv (web_set t c a s)"
proof -
  have t: "t \<notin> set (web_order s)" "t < length (web_conns s)" "web_conns s ! t = c0"
    using assms(1-3) by (auto simp: web_inv_def web_thread_def)
  have ans: "web_answered c" using assms(5) by (rule web_sent_answered)
  have at: "web_at r c" for r using ans by (cases c) auto
  obtain outs where outs: "serve_all (map ((!) (web_streams s)) (web_order s)) notes_new = (outs, web_app s)"
    "list_all2 (\<lambda>t out. web_sent (web_conns s ! t) out) (web_order s) outs" using assms(1) by (auto simp: web_inv_def serialised_def)
  have "list_all2 (\<lambda>u out. web_sent ((web_conns s)[t := c] ! u) out) (web_order s) outs"
    using outs(2) t(1) by (auto simp: list_all2_conv_all_nth nth_list_update in_set_conv_nth)
  then have "serialised (web_set t c a s)"
    using outs(1) assms(3-5) t ans by (auto simp: serialised_def web_set_def serve_all_append list_all2_appendI)
  then show ?thesis
    using assms(1,3) t ans at by (auto simp: web_inv_def web_set_def list_all2_conv_all_nth nth_list_update)
qed

lemma web_inv_keep:
  assumes "web_inv s" and "web_thread s t c0" and "web_answered c \<longleftrightarrow> web_answered c0"
    and "web_at (web_streams s ! t) c" and "\<And>out. web_sent c0 out \<Longrightarrow> web_sent c out"
  shows "web_inv (web_set t c (web_app s) s)"
proof -
  have t: "t < length (web_conns s)" "web_conns s ! t = c0" using assms(2) by (auto simp: web_thread_def)
  have "serialised (web_set t c (web_app s) s)"
    using assms(1,3,5) t unfolding web_inv_def serialised_def
    by (auto simp: web_set_def list_all2_conv_all_nth nth_list_update)
  then show ?thesis
    using assms(1,3,4) t by (auto simp: web_inv_def web_set_def list_all2_conv_all_nth nth_list_update)
qed

lemma web_inv_accepted:
  assumes "web_inv s"
  shows "web_inv (s\<lparr>web_conns := web_conns s @ [Web_Reading r], web_streams := web_streams s @ [r]\<rparr>)" (is "web_inv ?s")
proof -
  have len: "length (web_streams s) = length (web_conns s)" and ord: "\<forall>t \<in> set (web_order s). t < length (web_conns s)"
    using assms list_all2_lengthD unfolding web_inv_def by blast+
  have m: "map ((!) (web_streams s @ [r])) (web_order s) = map ((!) (web_streams s)) (web_order s)"
    using ord len by (simp add: nth_append)
  obtain outs where outs: "serve_all (map ((!) (web_streams s)) (web_order s)) notes_new = (outs, web_app s)"
    "list_all2 (\<lambda>t out. web_sent (web_conns s ! t) out) (web_order s) outs" using assms by (auto simp: web_inv_def serialised_def)
  have "list_all2 (\<lambda>t out. web_sent ((web_conns s @ [Web_Reading r]) ! t) out) (web_order s) outs"
    using outs(2) ord by (simp add: list_all2_conv_all_nth nth_append)
  then have "serialised ?s" using outs(1) by (simp add: serialised_def m)
  moreover have "{t. t < length (web_conns ?s) \<and> web_answered (web_conns ?s ! t)} = {t. t < length (web_conns s) \<and> web_answered (web_conns s ! t)}"
    by (auto simp: nth_append less_Suc_eq)
  ultimately show ?thesis using assms unfolding web_inv_def by (simp add: list_all2_appendI)
qed

lemma web_inv_step: "web_step s s' \<Longrightarrow> web_inv s \<Longrightarrow> web_inv s'"
proof (induction rule: web_step.induct)
  case (accepted s r)
  then show ?case by (intro web_inv_accepted)
next
  case (received s t r)
  have r: "web_streams s ! t = r" using web_at_thread [OF received.prems received.hyps] by simp
  consider (wait) req where "web_receive r = Web_Waiting req" "fst (parse_request r) = Ok req"
    | (answer) out where "web_sent (web_receive r) out" "\<And>a. serve_connection r a = (out, a)" using web_receive_cases [of r] by blast
  then show ?case
  proof cases
    case wait
    then show ?thesis using received r by (intro web_inv_keep) (auto simp: web_sent_def)
  next
    case answer
    then show ?thesis using received r by (intro web_inv_answer) auto
  qed
next
  case (handled s t req resp a)
  have "fst (parse_request (web_streams s ! t)) = Ok req" using web_at_thread [OF handled.prems handled.hyps(1)] by simp
  then have "serve_connection (web_streams s ! t) (web_app s) = (to_bytes resp, a)" using handled.hyps(2) by (simp add: serve_connection_def)
  then show ?case using handled by (intro web_inv_answer) (auto simp: web_sent_def)
next
  case (sent s t out n)
  then show ?case by (intro web_inv_keep) (auto simp: web_sent_def)
qed

lemma web_inv_main: "web_inv (web_main bind args)"
  by (auto simp: web_main_def web_inv_def serialised_def Let_def split: result.splits)

lemma web_inv_reach: "web_reach s \<Longrightarrow> web_inv s"
  by (induction rule: web_reach.induct) (auto intro: web_inv_main web_inv_step)

lemma web_order_step: "web_step s s' \<Longrightarrow> \<exists>later. web_order s' = web_order s @ later"
  by (induction rule: web_step.induct) (auto simp: web_set_def)

lemma web_order_steps: "web_step\<^sup>*\<^sup>* s s' \<Longrightarrow> \<exists>later. web_order s' = web_order s @ later"
proof (induction rule: rtranclp_induct)
  case (step s' s'')
  then show ?case using web_order_step [of s' s''] by fastforce
qed simp

section \<open>Properties\<close>

text \<open>C21: The connections are linearisable: however their threads interleave, the notes and every answer are those of the sequential server on the same
  connections, one after the other, in an order without repetitions that contains exactly the answered connections; and the order only grows at its end, so
  that a connection answered before another was even accepted also comes before it. A client that has gone receives only a part of its answer.\<close>

theorem board_linearisable:
  assumes "web_reach s" and "web_step\<^sup>*\<^sup>* s s'"
  shows "\<exists>later outs. web_order s' = web_order s @ later \<and> distinct (web_order s') \<and>
    set (web_order s') = {t. t < length (web_conns s') \<and> web_answered (web_conns s' ! t)} \<and>
    serve_all (map ((!) (web_streams s')) (web_order s')) notes_new = (outs, web_app s') \<and>
    list_all2 (\<lambda>t out. web_sent (web_conns s' ! t) out) (web_order s') outs"
proof -
  have "web_reach s'" using assms(2,1) by (induction rule: rtranclp_induct) (auto intro: web_reach.step)
  then have "web_inv s'" by (rule web_inv_reach)
  then show ?thesis using web_order_steps [OF assms(2)] by (auto simp: web_inv_def serialised_def)
qed

theorem board_linearisable_witness:
  "\<exists>s s' out. web_reach s \<and> web_step\<^sup>*\<^sup>* s s' \<and> web_order s = [] \<and> web_order s' = [1] \<and> web_conns s' ! 1 = Web_Sending (to_bytes (text_response 200 ''ok'')) \<and>
     serve_all (map ((!) (web_streams s')) (web_order s')) notes_new = ([out], web_app s') \<and> web_sent (web_conns s' ! 1) out"
proof -
  let ?m = "web_main (\<lambda>a. Ok ()) []" and ?q = "\<lparr>rd_bytes = [], rd_fault = None\<rparr>"
  let ?r = "\<lparr>rd_bytes = print_web_request ''GET'' ''/health'' [] [], rd_fault = None\<rparr>"
  define s1 where "s1 = ?m\<lparr>web_conns := [Web_Reading ?q], web_streams := [?q]\<rparr>"
  define s2 where "s2 = s1\<lparr>web_conns := [Web_Reading ?q, Web_Reading ?r], web_streams := [?q, ?r]\<rparr>"
  have m: "web_exit ?m = None" "web_conns ?m = []" "web_streams ?m = []" "web_order ?m = []" by (simp_all add: web_main_def)
  have "web_step ?m s1" using web_step.accepted [OF m(1), of ?q] by (simp add: s1_def m)
  moreover have "web_step s1 s2" using web_step.accepted [of s1 ?r] by (simp add: s1_def s2_def m)
  ultimately have r2: "web_reach s2" by (blast intro: web_reach.intros)
  obtain q where q: "fst (parse_request ?r) = Ok q" "wq_method q = ''GET''" "(wq_path q, wq_query q) = split_target ''/health''"
    using parse_request_print [of "''GET''" "''/health''" "[]" "[]" ?r "[]"] by (auto simp: token_def)
  then have h: "handle q (web_app s2) = (text_response 200 ''ok'', web_app s2)" by (auto simp: handle_def split_target_def split_once_def)
  have w: "web_receive ?r = Web_Waiting q" using q(1) by (simp add: web_receive_def)
  define s3 where "s3 = web_set 1 (Web_Waiting q) (web_app s2) s2"
  define s4 where "s4 = web_set 1 (Web_Sending (to_bytes (text_response 200 ''ok''))) (web_app s2) s3"
  have "web_step s2 s3" using web_step.received [of s2 1 ?r] by (simp add: w s3_def s2_def s1_def m web_thread_def)
  moreover have "web_step s3 s4" using web_step.handled [of s3 1 q _ "web_app s2"] h by (simp add: s4_def s3_def web_set_def s2_def s1_def m web_thread_def)
  ultimately have r4: "web_step\<^sup>*\<^sup>* s2 s4" by (meson r_into_rtranclp rtranclp.rtrancl_into_rtrancl)
  have o: "web_order s2 = []" "web_order s4 = [1]" "web_conns s4 ! 1 = Web_Sending (to_bytes (text_response 200 ''ok''))"
    by (simp_all add: s4_def s3_def web_set_def s2_def s1_def m)
  obtain outs where outs: "serve_all (map ((!) (web_streams s4)) (web_order s4)) notes_new = (outs, web_app s4)"
      "list_all2 (\<lambda>t out. web_sent (web_conns s4 ! t) out) (web_order s4) outs"
    using board_linearisable [OF r2 r4] by blast
  then obtain out where "outs = [out]" "web_sent (web_conns s4 ! 1) out" by (auto simp: o(2) list_all2_Cons1)
  then show ?thesis using r2 r4 o outs(1) by blast
qed

end
