(* ===== verification/Ws_Sha1.thy ===== *)
theory Ws_Sha1
  imports Rust_Prelude
begin

unbundle bit_operations_syntax

text \<open>
  The hash and the encoder of the WebSocket handshake:
  \<open>2026-09-05-rust-websocket-chat/src/sha1.rs\<close> and \<open>src/base64.rs\<close>. A byte is a \<open>u8\<close>;
  the arrays of the code are lists of fixed length, updated by index.
\<close>

section \<open>SHA-1\<close>

definition rotate_left :: "nat \<Rightarrow> u32 \<Rightarrow> u32" where
  "rotate_left k w = push_bit k w OR drop_bit (32 - k) w"

definition u32_be_bytes :: "u32 \<Rightarrow> u8 list" where
  "u32_be_bytes w = [ucast (drop_bit 24 w), ucast (drop_bit 16 w), ucast (drop_bit 8 w), ucast w]"

definition u32_from_be_bytes :: "u8 \<Rightarrow> u8 \<Rightarrow> u8 \<Rightarrow> u8 \<Rightarrow> u32" where
  "u32_from_be_bytes a b c d =
     push_bit 24 (ucast a) OR push_bit 16 (ucast b) OR push_bit 8 (ucast c) OR ucast d"

definition u64_be_bytes :: "u64 \<Rightarrow> u8 list" where
  "u64_be_bytes w = map (\<lambda>k. ucast (drop_bit (8 * k) w)) [7, 6, 5, 4, 3, 2, 1, 0]"

text \<open>\<open>while msg.len() % 64 != 56 { msg.push(0) }\<close>.\<close>

function pad_zeros :: "u8 list \<Rightarrow> u8 list" where
  "pad_zeros msg = (if length msg mod 64 = 56 then msg else pad_zeros (msg @ [0]))"
  by pat_completeness auto
termination
proof (relation "measure (\<lambda>msg. if length msg mod 64 \<le> 56 then 56 - length msg mod 64 else 120 - length msg mod 64)", goal_cases)
  case (2 msg)
  have "length msg mod 64 < 64" by simp
  moreover have "length (msg @ [0]) mod 64 = (if length msg mod 64 = 63 then 0 else Suc (length msg mod 64))"
    by (simp add: mod_Suc)
  moreover note 2
  ultimately show ?case
    by (cases "length msg mod 64 = 63") (simp_all only: in_measure, auto)
qed simp

declare pad_zeros.simps [simp del]

definition pad_message :: "u8 list \<Rightarrow> u8 list" where
  "pad_message input =
     pad_zeros (input @ [0x80]) @ u64_be_bytes (of_nat (length input) * 8)"

function chunks :: "nat \<Rightarrow> 'a list \<Rightarrow> 'a list list" where
  "chunks n xs = (if n = 0 \<or> xs = [] then [] else take n xs # chunks n (drop n xs))"
  by pat_completeness auto
termination
  by (relation "measure (\<lambda>(n, xs). length xs)") auto

declare chunks.simps [simp del]

text \<open>The two loops that fill \<open>w\<close>.\<close>

definition load_word :: "u8 list \<Rightarrow> nat \<Rightarrow> u32" where
  "load_word chunk i =
     u32_from_be_bytes (chunk ! (i * 4)) (chunk ! (i * 4 + 1)) (chunk ! (i * 4 + 2)) (chunk ! (i * 4 + 3))"

definition load_words :: "u8 list \<Rightarrow> u32 list" where
  "load_words chunk = foldl (\<lambda>w i. w[i := load_word chunk i]) (replicate 80 0) [0..<16]"

definition extend_word :: "u32 list \<Rightarrow> nat \<Rightarrow> u32 list" where
  "extend_word w i =
     w[i := rotate_left 1 (w ! (i - 3) XOR w ! (i - 8) XOR w ! (i - 14) XOR w ! (i - 16))]"

definition schedule :: "u8 list \<Rightarrow> u32 list" where
  "schedule chunk = foldl extend_word (load_words chunk) [16..<80]"

type_synonym regs = "u32 \<times> u32 \<times> u32 \<times> u32 \<times> u32"

definition round_fk :: "nat \<Rightarrow> u32 \<Rightarrow> u32 \<Rightarrow> u32 \<Rightarrow> u32 \<times> u32" where
  "round_fk i b c d =
     (if i \<le> 19 then ((b AND c) OR ((NOT b) AND d), 0x5A827999)
      else if i \<le> 39 then (b XOR c XOR d, 0x6ED9EBA1)
      else if i \<le> 59 then ((b AND c) OR (b AND d) OR (c AND d), 0x8F1BBCDC)
      else (b XOR c XOR d, 0xCA62C1D6))"

fun sha_round :: "regs \<Rightarrow> nat \<times> u32 \<Rightarrow> regs" where
  "sha_round (a, b, c, d, e) (i, wi) =
     (let (f, k) = round_fk i b c d;
          temp = rotate_left 5 a + f + e + k + wi
      in (temp, a, rotate_left 30 b, c, d))"

fun sha_chunk :: "regs \<Rightarrow> u8 list \<Rightarrow> regs" where
  "sha_chunk (h0, h1, h2, h3, h4) chunk =
     (let (a, b, c, d, e) = foldl sha_round (h0, h1, h2, h3, h4) (List.enumerate 0 (schedule chunk))
      in (h0 + a, h1 + b, h2 + c, h3 + d, h4 + e))"

definition sha_init :: regs where
  "sha_init = (0x67452301, 0xEFCDAB89, 0x98BADCFE, 0x10325476, 0xC3D2E1F0)"

definition sha1 :: "u8 list \<Rightarrow> u8 list" where
  "sha1 input =
     (case foldl sha_chunk sha_init (chunks 64 (pad_message input)) of
        (h0, h1, h2, h3, h4) \<Rightarrow>
          u32_be_bytes h0 @ u32_be_bytes h1 @ u32_be_bytes h2 @ u32_be_bytes h3 @ u32_be_bytes h4)"

section \<open>Base64\<close>

definition TABLE :: string where
  "TABLE = ''ABCDEFGHIJKLMNOPQRSTUVWXYZabcdefghijklmnopqrstuvwxyz0123456789+/''"

definition get_or_zero :: "u8 list \<Rightarrow> nat \<Rightarrow> u8" where
  "get_or_zero chunk i = (if i < length chunk then chunk ! i else 0)"

definition sextet :: "nat \<Rightarrow> u32 \<Rightarrow> char" where
  "sextet k n = TABLE ! unat (drop_bit k n AND 0x3F)"

definition encode_chunk :: "u8 list \<Rightarrow> string" where
  "encode_chunk chunk =
     (let b0 = ucast (chunk ! 0); b1 = ucast (get_or_zero chunk 1); b2 = ucast (get_or_zero chunk 2);
          n = push_bit 16 b0 OR push_bit 8 b1 OR b2
      in [sextet 18 n, sextet 12 n,
          if length chunk > 1 then sextet 6 n else CHR ''='',
          if length chunk > 2 then sextet 0 n else CHR ''=''])"

definition base64_encode :: "u8 list \<Rightarrow> string" where
  "base64_encode data = concat (map encode_chunk (chunks 3 data))"

section \<open>The accept key\<close>

definition WS_GUID :: string where
  "WS_GUID = ''258EAFA5-E914-47DA-95CA-C5AB0DC85B11''"

definition accept_key :: "string \<Rightarrow> string" where
  "accept_key client_key = base64_encode (sha1 (map u8_of_char (client_key @ WS_GUID)))"

section \<open>Padding and chunks\<close>

lemma pad_zeros_eq: "\<exists>k < 64. pad_zeros msg = msg @ replicate k 0 \<and> (length msg + k) mod 64 = 56"
proof (induction msg rule: pad_zeros.induct)
  case (1 msg)
  show ?case
  proof (cases "length msg mod 64 = 56")
    case True
    then show ?thesis by (subst pad_zeros.simps) (intro exI [of _ 0], simp)
  next
    case False
    from "1" [OF False] obtain k where k: "k < 64" "pad_zeros (msg @ [0]) = (msg @ [0]) @ replicate k 0"
      "(length (msg @ [0]) + k) mod 64 = 56" by blast
    have "k \<noteq> 63"
    proof
      assume "k = 63"
      with k(3) have "(length msg + 64) mod 64 = 56" by simp
      with False show False by simp
    qed
    with k have "Suc k < 64" by simp
    moreover have "pad_zeros msg = msg @ replicate (Suc k) 0"
      using False k(2) by (subst pad_zeros.simps) simp
    moreover have "(length msg + Suc k) mod 64 = 56" using k(3) by simp
    ultimately show ?thesis by blast
  qed
qed

lemma length_u64_be_bytes [simp]: "length (u64_be_bytes w) = 8"
  by (simp add: u64_be_bytes_def)

lemma pad_message_eq:
  "\<exists>k < 64. pad_message x = x @ 0x80 # replicate k 0 @ u64_be_bytes (of_nat (length x) * 8) \<and>
     (length x + 1 + k) mod 64 = 56"
  using pad_zeros_eq [of "x @ [0x80]"] by (auto simp: pad_message_def)

lemma pad_message_length: "length (pad_message x) mod 64 = 0"
proof -
  obtain k where "pad_message x = x @ 0x80 # replicate k 0 @ u64_be_bytes (of_nat (length x) * 8)"
    and k: "(length x + 1 + k) mod 64 = 56" using pad_message_eq [of x] by blast
  then have "length (pad_message x) = (length x + 1 + k) + 8" by simp
  then show ?thesis using mod_add_left_eq [of "length x + 1 + k" 64 8] by (simp only: k) simp
qed

lemma chunks_Nil [simp]: "chunks n [] = []"
  by (simp add: chunks.simps)

lemma chunks_step: "n \<noteq> 0 \<Longrightarrow> xs \<noteq> [] \<Longrightarrow> chunks n xs = take n xs # chunks n (drop n xs)"
  by (subst chunks.simps) simp

lemma concat_chunks: "n \<noteq> 0 \<Longrightarrow> concat (chunks n xs) = xs"
proof (induction n xs rule: chunks.induct)
  case (1 n xs)
  then show ?case by (cases "xs = []") (simp_all add: chunks_step)
qed

lemma chunks_length: "n \<noteq> 0 \<Longrightarrow> length (chunks n xs) = (length xs + n - 1) div n"
proof (induction n xs rule: chunks.induct)
  case (1 n xs)
  show ?case
  proof (cases "xs = []")
    case True
    then show ?thesis using 1 by simp
  next
    case False
    have "length (chunks n xs) = Suc ((length xs - n + n - 1) div n)"
      using 1 False by (simp add: chunks_step)
    also have "\<dots> = (length xs + n - 1) div n"
    proof (cases "n \<le> length xs")
      case True
      have "length xs + n - 1 = (length xs - 1) + n" using False by (cases xs) auto
      moreover have "length xs - n + n - 1 = length xs - 1" using True by simp
      ultimately show ?thesis using "1.prems" by (simp only: div_add_self2 not_False_eq_True Suc_eq_plus1)
    next
      case short: False
      have "length xs + n - 1 = (length xs - 1) + n" using False by (cases xs) auto
      moreover have "length xs - 1 < n" using short by simp
      ultimately have "(length xs + n - 1) div n = Suc 0"
        using "1.prems" by (simp only: div_add_self2 not_False_eq_True div_less)
      then show ?thesis using short 1 by simp
    qed
    finally show ?thesis .
  qed
qed

section \<open>The reference\<close>

text \<open>SHA-1 as RFC 3174 states it: the padded message, its blocks by index, the word sequence by its
  recurrence, the round functions, and the digest.\<close>

definition rfc_pad :: "u8 list \<Rightarrow> u8 list" where
  "rfc_pad x = x @ [0x80] @ replicate ((119 - length x mod 64) mod 64) 0 @ u64_be_bytes (of_nat (length x) * 8)"

definition rfc_blocks :: "u8 list \<Rightarrow> u8 list list" where
  "rfc_blocks m = map (\<lambda>j. take 64 (drop (64 * j) m)) [0..<length m div 64]"

fun rfc_W :: "u8 list \<Rightarrow> nat \<Rightarrow> u32" where
  "rfc_W M t =
     (if t < 16 then load_word M t
      else rotate_left 1 (rfc_W M (t - 3) XOR rfc_W M (t - 8) XOR rfc_W M (t - 14) XOR rfc_W M (t - 16)))"

declare rfc_W.simps [simp del]

definition rfc_block :: "regs \<Rightarrow> u8 list \<Rightarrow> regs" where
  "rfc_block H M =
     (let (A, B, C, D, E) = foldl sha_round H (map (\<lambda>t. (t, rfc_W M t)) [0..<80]);
          (h0, h1, h2, h3, h4) = H
      in (h0 + A, h1 + B, h2 + C, h3 + D, h4 + E))"

definition rfc_sha1 :: "u8 list \<Rightarrow> u8 list" where
  "rfc_sha1 x =
     (let (h0, h1, h2, h3, h4) = foldl rfc_block sha_init (rfc_blocks (rfc_pad x))
      in concat (map u32_be_bytes [h0, h1, h2, h3, h4]))"

lemma foldl_update:
  "n \<le> length w \<Longrightarrow> length (foldl (\<lambda>w i. w[i := f i]) w [0..<n]) = length w \<and>
     (\<forall>t < length w. foldl (\<lambda>w i. w[i := f i]) w [0..<n] ! t = (if t < n then f t else w ! t))"
  by (induction n) (auto simp: nth_list_update)

lemma schedule_prefix:
  "m \<le> 64 \<Longrightarrow> length (foldl extend_word (load_words M) [16..<16 + m]) = 80 \<and>
     (\<forall>t < 16 + m. foldl extend_word (load_words M) [16..<16 + m] ! t = rfc_W M t)"
proof (induction m)
  case 0
  show ?case
    using foldl_update [of 16 "replicate 80 0" "load_word M"] by (simp add: load_words_def rfc_W.simps)
next
  case (Suc m)
  let ?w = "foldl extend_word (load_words M) [16..<16 + m]"
  have l: "length ?w = 80" and w: "\<forall>t < 16 + m. ?w ! t = rfc_W M t" using Suc by auto
  have "[16..<16 + Suc m] = [16..<16 + m] @ [16 + m]"
    by (simp only: add_Suc_right upt_Suc_append le_add1)
  then have "foldl extend_word (load_words M) [16..<16 + Suc m] = extend_word ?w (16 + m)"
    by (simp only: foldl_append foldl.simps)
  moreover have "extend_word ?w (16 + m) ! t = rfc_W M t" if "t < 16 + Suc m" for t
  proof (cases "t = 16 + m")
    case True
    then show ?thesis
      using l w Suc.prems rfc_W.simps [of M t] by (simp add: extend_word_def)
  next
    case False
    then show ?thesis using that w by (simp add: extend_word_def)
  qed
  moreover have "length (extend_word ?w (16 + m)) = 80" using l by (simp add: extend_word_def)
  ultimately show ?case by simp
qed

lemma schedule_eq: "schedule M = map (rfc_W M) [0..<80]"
  using schedule_prefix [of 64 M] by (intro nth_equalityI) (auto simp: schedule_def)

lemma enumerate_schedule: "List.enumerate 0 (schedule M) = map (\<lambda>t. (t, rfc_W M t)) [0..<80]"
  by (rule nth_equalityI) (simp_all add: schedule_eq nth_enumerate_eq)

lemma sha_chunk_eq: "sha_chunk H M = rfc_block H M"
  by (cases H) (simp add: rfc_block_def enumerate_schedule Let_def split: prod.splits)

lemma pad_unique:
  "k < 64 \<Longrightarrow> (n + 1 + k) mod 64 = 56 \<Longrightarrow> k = (119 - n mod 64) mod (64 :: nat)"
proof -
  assume k: "k < 64" "(n + 1 + k) mod 64 = 56"
  define m where "m = n mod 64"
  have m: "m < 64" by (simp add: m_def)
  have "(m + 1 + k) mod 64 = 56" 
    using k(2) mod_add_left_eq [of n 64 "1 + k"] by (simp only: m_def add.assoc)
  moreover define q where "q = (m + 1 + k) div 64"
  ultimately have q: "m + 1 + k = q * 64 + 56" using div_mult_mod_eq [of "m + 1 + k" 64] by simp
  then have "q = 0 \<or> q = 1" using k(1) m by linarith
  then show ?thesis
  proof
    assume "q = 0"
    with q have "119 - m = k + 64" by linarith
    then show ?thesis using k(1) by (simp add: m_def [symmetric])
  next
    assume "q = 1"
    with q have "119 - m = k" by linarith
    then show ?thesis using k(1) by (simp add: m_def [symmetric])
  qed
qed

lemma pad_message_rfc: "pad_message x = rfc_pad x"
proof -
  obtain k where k: "k < 64" "pad_message x = x @ 0x80 # replicate k 0 @ u64_be_bytes (of_nat (length x) * 8)"
     "(length x + 1 + k) mod 64 = 56" using pad_message_eq [of x] by blast
  then show ?thesis using pad_unique [OF k(1,3)] by (simp add: rfc_pad_def)
qed

lemma chunks_blocks: "length m mod 64 = 0 \<Longrightarrow> chunks 64 m = rfc_blocks m"
proof (induction "length m div 64" arbitrary: m)
  case 0
  then show ?case by (auto simp: rfc_blocks_def)
next
  case (Suc n)
  then have l: "64 \<le> length m" "length m = 64 * Suc n" by auto
  then have "m \<noteq> []" by auto
  then have "chunks 64 m = take 64 m # chunks 64 (drop 64 m)" by (simp add: chunks_step)
  also have "chunks 64 (drop 64 m) = rfc_blocks (drop 64 m)" using l by (intro Suc.hyps) auto
  also have "take 64 m # rfc_blocks (drop 64 m) = rfc_blocks m"
  proof -
    have "[0..<length m div 64] = 0 # map Suc [0..<n]"
      using l by (simp add: map_Suc_upt upt_conv_Cons del: upt_Suc)
    then show ?thesis using l by (simp add: rfc_blocks_def drop_drop add.commute comp_def)
  qed
  finally show ?case .
qed

section \<open>Base64\<close>

text \<open>A decoder of base64 text.\<close>

fun index_of :: "'a \<Rightarrow> 'a list \<Rightarrow> nat" where
  "index_of c [] = 0"
| "index_of c (d # ds) = (if c = d then 0 else Suc (index_of c ds))"

definition decode_quad :: "char \<Rightarrow> char \<Rightarrow> char \<Rightarrow> char \<Rightarrow> u8 list" where
  "decode_quad c0 c1 c2 c3 =
     (let v = (\<lambda>c. if c = CHR ''='' then 0 else index_of c TABLE);
          n = v c0 * 2 ^ 18 + v c1 * 2 ^ 12 + v c2 * 2 ^ 6 + v c3
      in take (if c2 = CHR ''='' then 1 else if c3 = CHR ''='' then 2 else 3)
           [of_nat (n div 2 ^ 16), of_nat (n div 2 ^ 8), of_nat n])"

fun base64_decode :: "string \<Rightarrow> u8 list" where
  "base64_decode (c0 # c1 # c2 # c3 # s) = decode_quad c0 c1 c2 c3 @ base64_decode s"
| "base64_decode _ = []"

lemma index_of_nth: "distinct xs \<Longrightarrow> i < length xs \<Longrightarrow> index_of (xs ! i) xs = i"
  by (induction xs arbitrary: i) (auto simp: nth_Cons split: nat.splits)

lemma TABLE_facts: "length TABLE = 64" "distinct TABLE" "CHR ''='' \<notin> set TABLE"
  by (simp_all add: TABLE_def)

lemma and_63: "unat (w AND 0x3F :: u32) = unat w mod 64"
proof -
  have "w AND 0x3F = take_bit 6 w"
    using take_bit_eq_mask [of 6 w] by (simp only: mask_eq_exp_minus_1) simp
  then have "unat (w AND 0x3F) = take_bit 6 (unat w)" by (simp only: unsigned_take_bit_eq)
  then show ?thesis by (simp only: take_bit_eq_mod) simp
qed

lemma sextet_index: "sextet k n \<noteq> CHR ''=''" "index_of (sextet k n) TABLE = unat n div 2 ^ k mod 64"
proof -
  have i: "unat (drop_bit k n AND 0x3F) = unat n div 2 ^ k mod 64"
    by (simp only: and_63 unat_drop_bit_eq) (simp only: drop_bit_eq_div)
  then have l: "unat (drop_bit k n AND 0x3F) < length TABLE" by (simp add: TABLE_facts)
  then show "sextet k n \<noteq> CHR ''=''"
    using TABLE_facts(3) nth_mem by (metis sextet_def)
  show "index_of (sextet k n) TABLE = unat n div 2 ^ k mod 64"
    using index_of_nth [OF TABLE_facts(2) l] by (simp add: sextet_def i)
qed

lemma triple_word:
  "unat (push_bit 16 (ucast a) OR push_bit 8 (ucast b) OR ucast c :: u32) =
     unat (a :: u8) * 65536 + unat (b :: u8) * 256 + unat (c :: u8)"
proof -
  have "push_bit 8 (ucast b) OR (ucast c :: u32) = push_bit 8 (ucast b) + ucast c"
    by (rule disjunctive_add_eq_or [symmetric]) (rule bit_eqI, auto simp: bit_simps dest: bit_imp_le_length)
  moreover have "push_bit 16 (ucast a) OR (push_bit 8 (ucast b) + ucast c) = push_bit 16 (ucast a) + (push_bit 8 (ucast b) + (ucast c :: u32))"
    unfolding calculation [symmetric]
    by (rule disjunctive_add_eq_or [symmetric]) (rule bit_eqI, auto simp: bit_simps dest: bit_imp_le_length)
  moreover have "unat a < 256" "unat b < 256" "unat c < 256"
    using unsigned_less [of a, where ?'a = nat] unsigned_less [of b, where ?'a = nat] unsigned_less [of c, where ?'a = nat] by auto
  ultimately show ?thesis
    by (simp add: or.assoc unat_word_ariths push_bit_eq_mult unsigned_ucast_eq take_bit_eq_mod)
qed

lemma sextets_sum:
  assumes "(n :: nat) < 2 ^ 24"
  shows "n div 2 ^ 18 mod 64 * 2 ^ 18 + n div 2 ^ 12 mod 64 * 2 ^ 12 + n div 2 ^ 6 mod 64 * 2 ^ 6 + n mod 64 = n"
proof -
  define p q r where "p = n div 64" and "q = p div 64" and "r = q div 64"
  have "n div 2 ^ 12 = q" "n div 2 ^ 18 = r"
    by (simp_all add: p_def q_def r_def flip: div_mult2_eq)
  moreover have "r < 64" using assms by (simp add: p_def q_def r_def flip: div_mult2_eq)
  moreover have "n = p * 64 + n mod 64" "p = q * 64 + p mod 64" "q = r * 64 + q mod 64"
    by (simp_all add: p_def q_def r_def)
  ultimately show ?thesis by (simp add: p_def [symmetric])
qed

lemma byte_bounds: "unat (a :: u8) < 256"
  using unsigned_less [of a, where ?'a = nat] by simp

lemma decode_triple:
  assumes "n = unat a * 65536 + unat b * 256 + unat (c :: u8)"
  shows "of_nat (n div 2 ^ 16) = (a :: u8)" "of_nat (n div 2 ^ 8) = (b :: u8)" "of_nat n = c" "n < 2 ^ 24"
proof -
  note bs = byte_bounds [of a] byte_bounds [of b] byte_bounds [of c]
  have "n div 65536 = unat a" "n div 256 = unat a * 256 + unat b" using bs by (simp_all add: assms)
  moreover have z: "x * (256 :: u8) = 0" "x * (65536 :: u8) = 0" for x
  proof -
    have "(256 :: u8) = 0" "(65536 :: u8) = 0" by simp_all
    then show "x * (256 :: u8) = 0" "x * (65536 :: u8) = 0" by (metis mult_zero_right)+
  qed
  ultimately show "of_nat (n div 2 ^ 16) = a" "of_nat (n div 2 ^ 8) = b" by simp_all
  show "of_nat n = c" by (simp add: assms z)
  show "n < 2 ^ 24" using bs by (simp add: assms)
qed

lemma decode_encode_chunk:
  assumes "chunk \<noteq> []" and "length chunk \<le> 3"
  shows "base64_decode (encode_chunk chunk @ s) = chunk @ base64_decode s"
proof -
  let ?b = "get_or_zero chunk 1" and ?c = "get_or_zero chunk 2"
  define w :: u32 where "w = push_bit 16 (ucast (chunk ! 0)) OR push_bit 8 (ucast ?b) OR ucast ?c"
  define n where "n = unat w"
  have n: "n = unat (chunk ! 0) * 65536 + unat ?b * 256 + unat ?c"
    unfolding n_def w_def by (rule triple_word)
  have e: "encode_chunk chunk = [sextet 18 w, sextet 12 w,
      if length chunk > 1 then sextet 6 w else CHR ''='', if length chunk > 2 then sextet 0 w else CHR ''='']"
    by (simp only: encode_chunk_def Let_def w_def)
  note d = decode_triple [OF n] and sum = sextets_sum [OF decode_triple(4) [OF n]]
  consider (one) a where "chunk = [a]" | (two) a b where "chunk = [a, b]" | (three) a b c where "chunk = [a, b, c]"
    using assms by (cases chunk; cases "tl chunk"; cases "tl (tl chunk)") auto
  then show ?thesis
  proof cases
    case one
    then have "n mod 64 = 0" "n div 64 mod 64 = 0"
      by (simp_all add: n get_or_zero_def)
    then show ?thesis
      unfolding e using one d sum
      by (simp add: decode_quad_def Let_def sextet_index n_def [symmetric] get_or_zero_def)
  next
    case two
    then have "n mod 64 = 0" by (simp add: n get_or_zero_def)
    then show ?thesis
      unfolding e using two d sum
      by (simp add: decode_quad_def Let_def sextet_index n_def [symmetric] get_or_zero_def)
  next
    case three
    then show ?thesis
      unfolding e using d sum
      by (simp add: decode_quad_def Let_def sextet_index n_def [symmetric] get_or_zero_def
          del: of_nat_add of_nat_mult)
  qed
qed

lemma chunks_bounds: "c \<in> set (chunks n xs) \<Longrightarrow> c \<noteq> [] \<and> length c \<le> n"
proof (induction n xs rule: chunks.induct)
  case (1 n xs)
  then show ?case by (subst (asm) (2) chunks.simps) (auto split: if_splits)
qed

lemma decode_encode_chunks:
  "\<forall>c \<in> set cs. c \<noteq> [] \<and> length c \<le> 3 \<Longrightarrow> base64_decode (concat (map encode_chunk cs)) = concat cs"
  by (induction cs) (simp_all add: decode_encode_chunk)

lemma base64_decode_encode: "base64_decode (base64_encode data) = data"
  using decode_encode_chunks [of "chunks 3 data"] chunks_bounds [of _ 3 data]
  by (auto simp: base64_encode_def concat_chunks)

interpretation base64: codec base64_encode base64_decode "\<lambda>_. True"
  by unfold_locales (rule base64_decode_encode)

lemma encode_chunk_length: "length (encode_chunk c) = 4"
  by (simp add: encode_chunk_def Let_def)

lemma base64_length: "length (base64_encode data) = 4 * ((length data + 2) div 3)"
proof -
  have "length (concat (map encode_chunk cs)) = 4 * length cs" for cs
    by (induction cs) (simp_all add: encode_chunk_length)
  then show ?thesis by (simp add: base64_encode_def chunks_length)
qed

lemma sextet_TABLE: "sextet k n \<in> set TABLE"
proof -
  have "unat (drop_bit k n AND 0x3F) < length TABLE" by (simp add: TABLE_facts and_63)
  then show ?thesis by (simp add: sextet_def)
qed

lemma base64_chars: "c \<in> set (base64_encode data) \<Longrightarrow> c \<in> set TABLE \<or> c = CHR ''=''"
  using sextet_TABLE by (fastforce simp: base64_encode_def encode_chunk_def Let_def split: if_splits)

lemma sha1_length: "length (sha1 x) = 20"
  by (simp add: sha1_def u32_be_bytes_def split: prod.splits)

section \<open>Properties\<close>


text \<open>Property: Base64 text decodes to the bytes it encodes, has the padded length, and uses only the alphabet and
  the padding character; the accept key is therefore always 28 characters of a header value.\<close>

theorem base64_correct:
  "base64_decode (base64_encode data) = data \<and> length (base64_encode data) = 4 * ((length data + 2) div 3) \<and>
   set (base64_encode data) \<subseteq> set TABLE \<union> {CHR ''=''} \<and> length (accept_key key) = 28"
  using base64_decode_encode base64_length base64_chars
  by (auto simp: accept_key_def sha1_length)

end
