(* ===== verification/Ws_Chat.thy ===== *)
theory Ws_Chat
  imports Ws_Sha1 Http_Lines
begin

unbundle bit_operations_syntax

text \<open>
  Frames and the chat service of \<open>2026-09-05-rust-websocket-chat\<close>: the handshake key and the frame
  codec of \<open>src/websocket.rs\<close>, and the server of \<open>src/server.rs\<close> as a step relation over
  its clients. A reader's byte is a \<open>char\<close>; \<open>None\<close> is the panic of \<open>vec![0u8; n]\<close> with \<open>n\<close> beyond
  \<open>isize::MAX\<close>.
\<close>

section \<open>The handshake key\<close>

definition key_of_line :: "string \<Rightarrow> string option" where
  "key_of_line line =
     (case split_once (CHR '':'') line of
        None \<Rightarrow> None
      | Some (name, v) \<Rightarrow>
          if eq_ignore_ascii_case (trim name) ''Sec-WebSocket-Key'' then Some (trim v) else None)"

fun find_map :: "('a \<Rightarrow> 'b option) \<Rightarrow> 'a list \<Rightarrow> 'b option" where
  "find_map f [] = None"
| "find_map f (x # xs) = (case f x of Some y \<Rightarrow> Some y | None \<Rightarrow> find_map f xs)"

definition parse_websocket_key :: "string \<Rightarrow> string option" where
  "parse_websocket_key request = find_map key_of_line (lines request)"

text \<open>The loop of \<open>read_handshake_key\<close> collects the lines before the blank one.\<close>

function read_request :: "reader \<Rightarrow> string \<Rightarrow> (string, io_error) result \<times> reader" where
  "read_request r request =
     (case read_line r of
        (Err e, r') \<Rightarrow> (Err e, r')
      | (Ok line, r') \<Rightarrow>
          if line = [] then (Err Unexpected_Eof, r')
          else if line = [CHR 0x0D, CHR 0x0A] \<or> line = [CHR 0x0A] then (Ok request, r')
          else read_request r' (request @ line))"
  by pat_completeness auto
termination
  by (relation "measure (\<lambda>(r, req). length (rd_bytes r))")
    (auto dest!: sym [of _ "read_line _"] intro!: read_line_decreases)

declare read_request.simps [simp del]

definition read_handshake_key :: "reader \<Rightarrow> (string, io_error) result \<times> reader" where
  "read_handshake_key r =
     (case read_request r [] of
        (Err e, r') \<Rightarrow> (Err e, r')
      | (Ok request, r') \<Rightarrow>
          (case parse_websocket_key request of
             Some key \<Rightarrow> (Ok key, r')
           | None \<Rightarrow> (Err Invalid_Data, r')))"

section \<open>Frames\<close>

datatype Opcode = Continuation | Text | Binary | Close | Ping | Pong | Other u8

definition from_u8 :: "u8 \<Rightarrow> Opcode" where
  "from_u8 b =
     (if b = 0x0 then Continuation else if b = 0x1 then Text else if b = 0x2 then Binary
      else if b = 0x8 then Close else if b = 0x9 then Ping else if b = 0xA then Pong
      else Other b)"

fun to_u8 :: "Opcode \<Rightarrow> u8" where
  "to_u8 Continuation = 0x0"
| "to_u8 Text = 0x1"
| "to_u8 Binary = 0x2"
| "to_u8 Close = 0x8"
| "to_u8 Ping = 0x9"
| "to_u8 Pong = 0xA"
| "to_u8 (Other b) = b"

record Frame =
  fin :: bool
  opcode :: Opcode
  payload :: string

text \<open>\<open>from_be_bytes\<close> and \<open>to_be_bytes\<close> of an unsigned integer of \<open>k\<close> bytes.\<close>

definition from_be_bytes :: "string \<Rightarrow> nat" where
  "from_be_bytes bs = foldl (\<lambda>a c. a * 256 + code_of c) 0 bs"

fun to_be_bytes :: "nat \<Rightarrow> nat \<Rightarrow> string" where
  "to_be_bytes 0 n = []"
| "to_be_bytes (Suc k) n = to_be_bytes k (n div 256) @ [char_of (n mod 256)]"

definition xor_byte :: "char \<Rightarrow> char \<Rightarrow> char" where
  "xor_byte c k = char_of_u8 (u8_of_char c XOR u8_of_char k)"

definition unmask :: "string \<Rightarrow> string \<Rightarrow> string" where
  "unmask key bs = map (\<lambda>(i, b). xor_byte b (key ! (i mod 4))) (List.enumerate 0 bs)"

definition read_length :: "u8 \<Rightarrow> reader \<Rightarrow> (nat, io_error) result \<times> reader" where
  "read_length b1 r =
     (let len = unat (b1 AND 0x7F)
      in if len = 126 then
           (case read_exact 2 r of (Err e, r') \<Rightarrow> (Err e, r') | (Ok ext, r') \<Rightarrow> (Ok (from_be_bytes ext), r'))
         else if len = 127 then
           (case read_exact 8 r of (Err e, r') \<Rightarrow> (Err e, r') | (Ok ext, r') \<Rightarrow> (Ok (from_be_bytes ext), r'))
         else (Ok len, r))"

definition read_mask :: "u8 \<Rightarrow> reader \<Rightarrow> (string option, io_error) result \<times> reader" where
  "read_mask b1 r =
     (if b1 AND 0x80 \<noteq> 0 then
        (case read_exact 4 r of (Err e, r') \<Rightarrow> (Err e, r') | (Ok key, r') \<Rightarrow> (Ok (Some key), r'))
      else (Ok None, r))"

definition read_frame :: "reader \<Rightarrow> ((Frame, io_error) result \<times> reader) option" where
  "read_frame r =
     (case read_exact 2 r of
        (Err e, r1) \<Rightarrow> Some (Err e, r1)
      | (Ok header, r1) \<Rightarrow>
          (let b0 = u8_of_char (header ! 0); b1 = u8_of_char (header ! 1) in
           case read_length b1 r1 of
             (Err e, r2) \<Rightarrow> Some (Err e, r2)
           | (Ok len, r2) \<Rightarrow>
               (case read_mask b1 r2 of
                  (Err e, r3) \<Rightarrow> Some (Err e, r3)
                | (Ok mask_key, r3) \<Rightarrow>
                    if len > isize_max then None
                    else (case read_exact len r3 of
                            (Err e, r4) \<Rightarrow> Some (Err e, r4)
                          | (Ok body, r4) \<Rightarrow>
                              Some (Ok \<lparr>fin = (b0 AND 0x80 \<noteq> 0), opcode = from_u8 (b0 AND 0x0F),
                                payload = (case mask_key of Some key \<Rightarrow> unmask key body | None \<Rightarrow> body)\<rparr>, r4)))))"

definition length_bytes :: "nat \<Rightarrow> string" where
  "length_bytes len =
     (if len \<le> 125 then [char_of len]
      else if len \<le> 0xFFFF then char_of (126 :: nat) # to_be_bytes 2 len
      else char_of (127 :: nat) # to_be_bytes 8 len)"

definition encode_frame :: "Opcode \<Rightarrow> string \<Rightarrow> string" where
  "encode_frame op bs = char_of_u8 (0x80 OR to_u8 op) # length_bytes (length bs) @ bs"

section \<open>The service\<close>

text \<open>
  A client's thread is reading the handshake, has sent the response but is not registered yet, serves
  frames, has ended (its last act removes it from the registry), or has panicked, which skips
  that removal. A socket records the bytes the server wrote to it; \<open>broken\<close> says that writes to
  it fail.
\<close>

datatype phase = Handshake | Upgraded | Open | Ended | Crashed

record client =
  cl_phase :: phase
  cl_in :: reader
  cl_out :: string
  cl_broken :: bool

record chat =
  ch_clients :: "u64 \<rightharpoonup> client"
  ch_registry :: "u64 set"
  ch_next :: u64

definition chat_new :: chat where
  "chat_new = \<lparr>ch_clients = Map.empty, ch_registry = {}, ch_next = 1\<rparr>"

text \<open>\<open>main\<close> and \<open>run\<close>: what is printed first, and the state in which the accept loop starts. \<open>bind\<close> is the answer of \<open>TcpListener::bind\<close>.\<close>

definition chat_main :: "(string \<Rightarrow> (unit, io_error) result) \<Rightarrow> string list \<Rightarrow> string \<times> (chat, io_error) result" where
  "chat_main bind args =
     (let addr = (if 1 < length args then args ! 1 else ''127.0.0.1:9001'')
      in (''wschat listening on '' @ addr @ '' (connect with a WebSocket client, e.g. a browser console: new WebSocket('' @ [CHR 0x27] @
            ''ws://'' @ addr @ [CHR 0x27] @ ''))'' @ [CHR 0x0A],
          case bind addr of Ok _ \<Rightarrow> Ok chat_new | Err e \<Rightarrow> Err e))"

definition upgrade_response :: "string \<Rightarrow> string" where
  "upgrade_response accept =
     ''HTTP/1.1 101 Switching Protocols'' @ crlf @ ''Upgrade: websocket'' @ crlf @
     ''Connection: Upgrade'' @ crlf @ ''Sec-WebSocket-Accept: '' @ accept @ crlf @ crlf"

text \<open>\<open>write_all\<close> to a client's socket.\<close>

definition send :: "string \<Rightarrow> client \<Rightarrow> client" where
  "send bs c = (if cl_broken c then c else c\<lparr>cl_out := cl_out c @ bs\<rparr>)"

text \<open>\<open>broadcast\<close> under the registry's lock: every registered client but the sender is written to,
  and those whose write fails leave the registry.\<close>

definition broadcast :: "u64 \<Rightarrow> string \<Rightarrow> chat \<Rightarrow> chat" where
  "broadcast sender bs s =
     (let frame = encode_frame Text bs;
          targets = ch_registry s - {sender}
      in s\<lparr>ch_clients := (\<lambda>i. if i \<in> targets then map_option (send frame) (ch_clients s i) else ch_clients s i),
           ch_registry := Set.filter (\<lambda>i. i = sender \<or>
             (case ch_clients s i of Some c \<Rightarrow> \<not> cl_broken c | None \<Rightarrow> False)) (ch_registry s)\<rparr>)"

definition set_client :: "u64 \<Rightarrow> client \<Rightarrow> chat \<Rightarrow> chat" where
  "set_client i c s = s\<lparr>ch_clients := (ch_clients s)(i \<mapsto> c)\<rparr>"

text \<open>The end of a thread: \<open>clients.lock().unwrap().remove(&id)\<close>.\<close>

definition end_client :: "u64 \<Rightarrow> client \<Rightarrow> chat \<Rightarrow> chat" where
  "end_client i c s =
     (set_client i (c\<lparr>cl_phase := Ended\<rparr>) s)\<lparr>ch_registry := ch_registry s - {i}\<rparr>"

definition accept :: "reader \<Rightarrow> chat \<Rightarrow> chat" where
  "accept r s =
     s\<lparr>ch_clients := (ch_clients s)(ch_next s \<mapsto> \<lparr>cl_phase = Handshake, cl_in = r, cl_out = [], cl_broken = False\<rparr>),
       ch_next := ch_next s + 1\<rparr>"

definition do_handshake :: "u64 \<Rightarrow> client \<Rightarrow> chat \<Rightarrow> chat" where
  "do_handshake i c s =
     (case read_handshake_key (cl_in c) of
        (Err e, r) \<Rightarrow> end_client i (c\<lparr>cl_in := r\<rparr>) s
      | (Ok key, r) \<Rightarrow>
          (let c' = send (upgrade_response (accept_key key)) (c\<lparr>cl_in := r\<rparr>)
           in if cl_broken c then end_client i c' s else set_client i (c'\<lparr>cl_phase := Upgraded\<rparr>) s))"

definition register :: "u64 \<Rightarrow> client \<Rightarrow> chat \<Rightarrow> chat" where
  "register i c s =
     (set_client i (c\<lparr>cl_phase := Open\<rparr>) s)\<lparr>ch_registry := insert i (ch_registry s)\<rparr>"

text \<open>One iteration of the loop of \<open>handle_client\<close>.\<close>

definition serve_frame :: "u64 \<Rightarrow> client \<Rightarrow> chat \<Rightarrow> chat" where
  "serve_frame i c s =
     (case read_frame (cl_in c) of
        None \<Rightarrow> set_client i (c\<lparr>cl_phase := Crashed\<rparr>) s
      | Some (Err e, r) \<Rightarrow> end_client i (c\<lparr>cl_in := r\<rparr>) s
      | Some (Ok f, r) \<Rightarrow>
          (let c' = c\<lparr>cl_in := r\<rparr> in
           case opcode f of
             Text \<Rightarrow> broadcast i (payload f) (set_client i c' s)
           | Ping \<Rightarrow>
               if cl_broken c then end_client i c' s
               else set_client i (send (encode_frame Pong (payload f)) c') s
           | Close \<Rightarrow> end_client i c' s
           | _ \<Rightarrow> set_client i c' s))"

text \<open>The system: connections arrive (fewer than \<open>2 ^ 64\<close> of them), sockets break, and threads take their
  steps in any order, a whole turn at a time; the theory \<open>Ws_Server\<close> takes the turns apart.\<close>

inductive chat_step :: "chat \<Rightarrow> chat \<Rightarrow> bool" where
  accept: "unat (ch_next s) + 1 < 2 ^ 64 \<Longrightarrow> chat_step s (accept r s)"
| handshake: "ch_clients s i = Some c \<Longrightarrow> cl_phase c = Handshake \<Longrightarrow> chat_step s (do_handshake i c s)"
| register: "ch_clients s i = Some c \<Longrightarrow> cl_phase c = Upgraded \<Longrightarrow> chat_step s (register i c s)"
| frame: "ch_clients s i = Some c \<Longrightarrow> cl_phase c = Open \<Longrightarrow> chat_step s (serve_frame i c s)"
| break: "ch_clients s i = Some c \<Longrightarrow> chat_step s (set_client i (c\<lparr>cl_broken := True\<rparr>) s)"

inductive chat_reach :: "chat \<Rightarrow> bool" where
  start: "snd (chat_main bind args) = Ok s \<Longrightarrow> chat_reach s"
| step: "chat_reach s \<Longrightarrow> chat_step s s' \<Longrightarrow> chat_reach s'"

section \<open>Bytes and integers\<close>

lemma to_be_bytes_length [simp]: "length (to_be_bytes k n) = k"
  by (induction k arbitrary: n) simp_all

lemma from_to_be_bytes: "n < 256 ^ k \<Longrightarrow> from_be_bytes (to_be_bytes k n) = n"
proof (induction k arbitrary: n)
  case 0
  then show ?case by (simp add: from_be_bytes_def)
next
  case (Suc k)
  then have "n div 256 < 256 ^ k" by (simp add: less_mult_imp_div_less mult.commute)
  with Suc.IH [of "n div 256"] show ?case
    by (simp add: from_be_bytes_def)
qed

interpretation be16: codec "to_be_bytes 2" from_be_bytes "\<lambda>n. n < 256 ^ 2"
  by unfold_locales (rule from_to_be_bytes)

interpretation be64: codec "to_be_bytes 8" from_be_bytes "\<lambda>n. n < 256 ^ 8"
  by unfold_locales (rule from_to_be_bytes)

lemma u8_char_of: "n < 256 \<Longrightarrow> unat (u8_of_char (char_of (n :: nat))) = n"
  by (simp add: u8_of_char_def unat_of_nat)

lemma and_7F: "unat (w AND 0x7F :: u8) = unat w mod 128"
proof -
  have "w AND 0x7F = take_bit 7 w"
    using take_bit_eq_mask [of 7 w] by (simp only: mask_eq_exp_minus_1) simp
  then have "unat (w AND 0x7F) = take_bit 7 (unat w)" by (simp only: unsigned_take_bit_eq)
  then show ?thesis by (simp only: take_bit_eq_mod) simp
qed

lemma and_80: "w AND 0x80 \<noteq> 0 \<longleftrightarrow> 128 \<le> unat (w :: u8)"
proof -
  have "w AND 2 ^ 7 = 0 \<longleftrightarrow> \<not> bit w 7" by (rule and_exp_eq_0_iff_not_bit)
  then have "w AND 0x80 \<noteq> 0 \<longleftrightarrow> bit w 7" by simp
  also have "\<dots> \<longleftrightarrow> bit (unat w) 7" by (simp add: bit_unsigned_iff)
  also have "\<dots> \<longleftrightarrow> 128 \<le> unat w"
  proof -
    have "unat w div 128 < 2" using unsigned_less [of w, where ?'a = nat] by (intro less_mult_imp_div_less) simp
    then have "odd (unat w div 128) \<longleftrightarrow> 0 < unat w div 128" by (auto simp: less_2_cases_iff)
    then show ?thesis by (simp add: bit_iff_odd div_greater_zero_iff)
  qed
  finally show ?thesis .
qed

lemma header_bits:
  "(0x80 OR w :: u8) AND 0x80 \<noteq> 0" "(0x80 OR w :: u8) AND 0x0F = w AND 0x0F"
proof -
  have "bit (0x80 OR w) 7" by (simp add: bit_or_iff bit_numeral_rec)
  then show "(0x80 OR w :: u8) AND 0x80 \<noteq> 0"
    using and_exp_eq_0_iff_not_bit [of "0x80 OR w" 7] by simp
  show "(0x80 OR w :: u8) AND 0x0F = w AND 0x0F"
    by (simp add: bit.conj_disj_distrib2)
qed

text \<open>The opcodes that fit the four bits of the header.\<close>

definition wire_opcode :: "Opcode \<Rightarrow> bool" where
  "wire_opcode op \<longleftrightarrow> from_u8 (to_u8 op AND 0x0F) = op"

lemma wire_opcodes [simp]:
  "wire_opcode Continuation" "wire_opcode Text" "wire_opcode Binary" "wire_opcode Close"
  "wire_opcode Ping" "wire_opcode Pong"
  by (simp_all add: wire_opcode_def from_u8_def)

section \<open>Masking\<close>

lemma xor_byte_twice [simp]: "xor_byte (xor_byte c k) k = c"
  by (simp add: xor_byte_def xor.assoc)

lemma unmask_length [simp]: "length (unmask key bs) = length bs"
  by (simp add: unmask_def)

lemma unmask_nth: "i < length bs \<Longrightarrow> unmask key bs ! i = xor_byte (bs ! i) (key ! (i mod 4))"
  by (simp add: unmask_def nth_enumerate_eq)

lemma unmask_unmask [simp]: "unmask key (unmask key bs) = bs"
  by (rule nth_equalityI) (simp_all add: unmask_nth)

section \<open>Reading what is encoded\<close>

text \<open>A frame as a client sends it: masked with a key of four bytes.\<close>

definition client_length_bytes :: "nat \<Rightarrow> string" where
  "client_length_bytes len =
     (if len \<le> 125 then [char_of (128 + len)]
      else if len \<le> 0xFFFF then char_of (128 + 126 :: nat) # to_be_bytes 2 len
      else char_of (128 + 127 :: nat) # to_be_bytes 8 len)"

definition client_frame :: "Opcode \<Rightarrow> string \<Rightarrow> string \<Rightarrow> string" where
  "client_frame op key bs =
     char_of_u8 (0x80 OR to_u8 op) # client_length_bytes (length bs) @ key @ unmask key bs"

text \<open>The three encodings of a length, with the mask bit \<open>m\<close>: a first byte and what follows it.\<close>

definition len_code :: "nat \<Rightarrow> nat \<Rightarrow> char \<times> string" where
  "len_code m len =
     (if len \<le> 125 then (char_of (m + len), [])
      else if len \<le> 0xFFFF then (char_of (m + 126), to_be_bytes 2 len)
      else (char_of (m + 127), to_be_bytes 8 len))"

lemma length_bytes_code:
  "length_bytes len = fst (len_code 0 len) # snd (len_code 0 len)"
  "client_length_bytes len = fst (len_code 128 len) # snd (len_code 128 len)"
  by (simp_all add: length_bytes_def client_length_bytes_def len_code_def)

lemma read_exact_split:
  "rd_bytes r = s @ rest \<Longrightarrow> length s = n \<Longrightarrow> read_exact n r = (Ok s, r\<lparr>rd_bytes := rest\<rparr>)"
  by (simp add: read_exact_def)

lemma read_length_code:
  assumes "len_code m len = (c, ext)" and "m = 0 \<or> m = 128" and "len < 2 ^ 64"
    and "rd_bytes r = ext @ rest"
  shows "read_length (u8_of_char c) r = (Ok len, r\<lparr>rd_bytes := rest\<rparr>)"
    and "u8_of_char c AND 0x80 \<noteq> 0 \<longleftrightarrow> m = 128"
proof -
  define l where "l = (if len \<le> 125 then len else if len \<le> 0xFFFF then 126 else 127)"
  have c: "c = char_of (m + l)" using assms(1) by (auto simp: l_def len_code_def split: if_splits)
  have l: "l < 128" by (simp add: l_def)
  have u: "unat (u8_of_char c) = m + l"
    unfolding c using assms(2) l by (intro u8_char_of) auto
  have a: "unat (u8_of_char c AND 0x7F) = l"
    unfolding and_7F u using assms(2) l by auto
  show "u8_of_char c AND 0x80 \<noteq> 0 \<longleftrightarrow> m = 128"
    unfolding and_80 u using assms(2) l by auto
  consider "len \<le> 125" | "125 < len" "len \<le> 0xFFFF" | "0xFFFF < len" by linarith
  then show "read_length (u8_of_char c) r = (Ok len, r\<lparr>rd_bytes := rest\<rparr>)"
  proof cases
    case 1
    then have "ext = []" and "l = len" using assms(1) by (auto simp: len_code_def l_def)
    then show ?thesis using 1 assms(4) a by (simp add: read_length_def Let_def)
  next
    case 2
    then have e: "ext = to_be_bytes 2 len" and "l = 126" using assms(1) by (auto simp: len_code_def l_def)
    moreover have "from_be_bytes ext = len" unfolding e using 2 by (intro be16.dec_enc) simp
    ultimately show ?thesis
      using a read_exact_split [OF assms(4), of 2] by (simp add: read_length_def Let_def)
  next
    case 3
    then have e: "ext = to_be_bytes 8 len" and "l = 127" using assms(1) by (auto simp: len_code_def l_def)
    moreover have "from_be_bytes ext = len" unfolding e using assms(3) by (intro be64.dec_enc) simp
    ultimately show ?thesis
      using a read_exact_split [OF assms(4), of 8] by (simp add: read_length_def Let_def)
  qed
qed

text \<open>A frame of either direction: \<open>mk\<close> is the key of a client frame.\<close>

lemma read_frame_gen:
  assumes "wire_opcode op" and "length bs \<le> isize_max" and "pred_option (\<lambda>k. length k = 4) mk"
    and "len_code (if mk = None then 0 else 128) (length bs) = (c, ext)"
    and "rd_bytes r = [char_of_u8 (0x80 OR to_u8 op), c] @ ext @ (case mk of None \<Rightarrow> [] | Some k \<Rightarrow> k) @ bs @ rest"
  shows "read_frame r = Some (Ok \<lparr>fin = True, opcode = op,
    payload = (case mk of None \<Rightarrow> bs | Some k \<Rightarrow> unmask k bs)\<rparr>, r\<lparr>rd_bytes := rest\<rparr>)"
proof -
  let ?k = "case mk of None \<Rightarrow> [] | Some k \<Rightarrow> k"
  let ?r1 = "r\<lparr>rd_bytes := ext @ ?k @ bs @ rest\<rparr>" and ?r2 = "r\<lparr>rd_bytes := ?k @ bs @ rest\<rparr>" and ?r3 = "r\<lparr>rd_bytes := bs @ rest\<rparr>"
  have h: "read_exact 2 r = (Ok [char_of_u8 (0x80 OR to_u8 op), c], ?r1)"
    using read_exact_split [OF assms(5), of 2] by simp
  have "length bs < 2 ^ 64" using assms(2) by (simp add: isize_max_def)
  note l = read_length_code [OF assms(4) _ this, of ?r1 "?k @ bs @ rest"]
  have len: "read_length (u8_of_char c) ?r1 = (Ok (length bs), ?r2)" using l(1) by simp
  have m: "read_mask (u8_of_char c) ?r2 = (Ok mk, ?r3)"
    using l(2) assms(3) read_exact_split [of ?r2 ?k "bs @ rest" 4]
    by (auto simp: read_mask_def split: option.splits)
  have b: "read_exact (length bs) ?r3 = (Ok bs, r\<lparr>rd_bytes := rest\<rparr>)"
    using read_exact_split [of ?r3 bs rest "length bs"] by simp
  show ?thesis
    using assms(1,2) len m b
    by (simp add: read_frame_def h Let_def header_bits wire_opcode_def split: option.splits)
qed

lemma read_encode_frame:
  assumes "wire_opcode op" and "length bs \<le> isize_max" and "rd_bytes r = encode_frame op bs @ rest"
  shows "read_frame r = Some (Ok \<lparr>fin = True, opcode = op, payload = bs\<rparr>, r\<lparr>rd_bytes := rest\<rparr>)"
proof -
  obtain c ext where l: "len_code 0 (length bs) = (c, ext)" by fastforce
  show ?thesis
    using read_frame_gen [OF assms(1,2), of None c ext r rest] assms(3) l
    by (simp add: encode_frame_def length_bytes_code)
qed

lemma read_client_frame:
  assumes "wire_opcode op" and "length bs \<le> isize_max" and "length key = 4"
    and "rd_bytes r = client_frame op key bs @ rest"
  shows "read_frame r = Some (Ok \<lparr>fin = True, opcode = op, payload = bs\<rparr>, r\<lparr>rd_bytes := rest\<rparr>)"
proof -
  obtain c ext where l: "len_code 128 (length bs) = (c, ext)" by fastforce
  show ?thesis
    using read_frame_gen [OF assms(1), of "unmask key bs" "Some key" c ext r rest] assms(2-4) l
    by (simp add: client_frame_def length_bytes_code)
qed

section \<open>Truncated frames\<close>

text \<open>Reading is monotone: with more bytes behind, a successful read (or the panic) is the same.\<close>

definition more :: "string \<Rightarrow> reader \<Rightarrow> reader" where
  "more y r = r\<lparr>rd_bytes := rd_bytes r @ y\<rparr>"

lemma read_exact_more: "read_exact n r = (Ok s, r') \<Longrightarrow> read_exact n (more y r) = (Ok s, more y r')"
  by (auto simp: read_exact_def more_def split: if_splits)

lemma read_length_more: "read_length b r = (Ok n, r') \<Longrightarrow> read_length b (more y r) = (Ok n, more y r')"
  by (auto simp: read_length_def Let_def read_exact_more split: if_splits prod.splits result.splits)

lemma read_mask_more: "read_mask b r = (Ok k, r') \<Longrightarrow> read_mask b (more y r) = (Ok k, more y r')"
  by (auto simp: read_mask_def read_exact_more split: if_splits prod.splits result.splits)

lemma read_frame_more:
  "read_frame r = Some (Ok f, r') \<Longrightarrow> read_frame (more y r) = Some (Ok f, more y r')"
  "read_frame r = None \<Longrightarrow> read_frame (more y r) = None"
  by (auto simp: read_frame_def Let_def read_exact_more read_length_more read_mask_more
      split: if_splits prod.splits result.splits)

lemma read_frame_prefix:
  assumes "read_frame (more y r) = Some (Ok f, r')" and "rd_bytes r' = []" and "y \<noteq> []"
  shows "\<exists>e r''. read_frame r = Some (Err e, r'')"
proof (cases "read_frame r")
  case None
  then show ?thesis using read_frame_more(2) [of r y] assms(1) by simp
next
  case (Some p)
  obtain x r'' where p: "p = (x, r'')" by fastforce
  show ?thesis
  proof (cases x)
    case (Ok g)
    then have "read_frame (more y r) = Some (Ok g, more y r'')"
      using Some p by (intro read_frame_more) simp
    then have "rd_bytes r' = rd_bytes r'' @ y" using assms(1) by (auto simp: more_def)
    then show ?thesis using assms(2,3) by simp
  next
    case (Err e)
    then show ?thesis using Some p by simp
  qed
qed

section \<open>The handshake\<close>

lemma read_request_lines:
  assumes "\<forall>l \<in> set ls. plain l \<and> l \<noteq> []" and "rd_bytes r = concat (map (\<lambda>l. l @ crlf) ls) @ crlf @ rest"
  shows "read_request r req = (Ok (req @ concat (map (\<lambda>l. l @ crlf) ls)), r\<lparr>rd_bytes := rest\<rparr>)"
  using assms
proof (induction ls arbitrary: r req)
  case Nil
  then have "read_line r = (Ok crlf, r\<lparr>rd_bytes := rest\<rparr>)"
    using read_line_plain [of "[]" r rest] by simp
  then show ?case by (subst read_request.simps) (simp add: crlf_def)
next
  case (Cons l ls)
  let ?r = "r\<lparr>rd_bytes := concat (map (\<lambda>l. l @ crlf) ls) @ crlf @ rest\<rparr>"
  have l: "read_line r = (Ok (l @ crlf), ?r)"
    using Cons.prems by (intro read_line_plain) simp_all
  have "l @ crlf \<noteq> [CHR 0x0D, CHR 0x0A] \<and> l @ crlf \<noteq> [CHR 0x0A]"
    using Cons.prems(1) by (auto simp: crlf_def append_eq_Cons_conv)
  then have "read_request r req = read_request ?r (req @ l @ crlf)"
    by (subst read_request.simps) (simp add: l crlf_def)
  then show ?case using Cons.IH [of ?r "req @ l @ crlf"] Cons.prems by simp
qed

lemma lines_crlf:
  "\<forall>l \<in> set ls. plain l \<Longrightarrow> lines (concat (map (\<lambda>l. l @ crlf) ls)) = ls"
proof (induction ls)
  case (Cons l ls)
  then have "CHR 0x0A \<notin> set (l @ [CHR 0x0D])" using plain_newline [of l] by simp
  then have "lines_gen (CHR 0x0A) (CHR 0x0D) ((l @ [CHR 0x0D]) @ CHR 0x0A # concat (map (\<lambda>l. l @ crlf) ls)) =
      strip_last (CHR 0x0D) (l @ [CHR 0x0D]) # lines (concat (map (\<lambda>l. l @ crlf) ls))"
    unfolding lines_def by (rule lines_gen_append)
  with Cons show ?case by (simp add: crlf_def lines_def strip_last_def)
qed (simp add: lines_def)

lemma find_map_append: "\<forall>x \<in> set xs. f x = None \<Longrightarrow> find_map f (xs @ y # ys) = (case f y of Some z \<Rightarrow> Some z | None \<Rightarrow> find_map f ys)"
  by (induction xs) simp_all

lemma key_of_field:
  assumes "field (n, v)"
  shows "key_of_line (n @ '': '' @ v) = (if eq_ignore_ascii_case n ''Sec-WebSocket-Key'' then Some v else None)"
proof -
  have n: "CHR '':'' \<notin> set n" "trim n = n" "trim v = v"
    using assms by (auto simp: field_def token_trim field_value_trim)
  show ?thesis
    using split_once_append [OF n(1), of "'' '' @ v"] n by (simp add: key_of_line_def)
qed

lemma field_plain: "field h \<Longrightarrow> plain (fst h) \<and> plain (snd h)"
  by (auto simp: field_def token_def field_value_def)

lemma fields_plain:
  "\<forall>h \<in> set fs. field h \<Longrightarrow> \<forall>l \<in> set (map (\<lambda>h. fst h @ '': '' @ snd h) fs). plain l \<and> l \<noteq> []"
  by (induction fs) (simp_all add: field_plain)

lemma key_of_get: "key_of_line (''GET '' @ t) = None"
proof (cases "split_once (CHR '':'') (''GET '' @ t)")
  case None
  then show ?thesis by (simp add: key_of_line_def)
next
  case (Some p)
  obtain name v where p: "p = (name, v)" by fastforce
  have e: "''GET '' @ t = name @ CHR '':'' # v" and nc: "CHR '':'' \<notin> set name"
    using split_once_SomeD [of "CHR '':''" "''GET '' @ t" name v] Some p by auto
  then obtain x where x: "name = CHR ''G'' # x" by (cases name) auto
  obtain y where y: "name = trim name @ y"
    using trim_end_prefix [of name] trim_start_ascii [of name] x by (auto simp: trim_def)
  have "\<not> eq_ignore_ascii_case (trim name) ''Sec-WebSocket-Key''"
  proof
    assume a: "eq_ignore_ascii_case (trim name) ''Sec-WebSocket-Key''"
    then obtain c cs where t: "trim name = c # cs" by (cases "trim name") (auto simp: eq_ignore_ascii_case_def to_ascii_lowercase_def)
    then have "c = CHR ''G''" using y x by simp
    with a t show False
      by (simp add: eq_ignore_ascii_case_def to_ascii_lowercase_def ascii_lower_def char_of_nat_eq)
  qed
  then show ?thesis using Some p by (simp add: key_of_line_def)
qed

text \<open>An upgrade request as a client sends it.\<close>

definition print_upgrade :: "string \<Rightarrow> (string \<times> string) list \<Rightarrow> string" where
  "print_upgrade target fs = ''GET '' @ target @ '' HTTP/1.1'' @ crlf @ concat (map header_line fs) @ crlf"

lemma read_handshake_print:
  assumes "plain target" and "\<forall>h \<in> set (pre @ (n, key) # post). field h"
    and "eq_ignore_ascii_case n ''Sec-WebSocket-Key''"
    and "\<forall>h \<in> set pre. \<not> eq_ignore_ascii_case (fst h) ''Sec-WebSocket-Key''"
    and "rd_bytes r = print_upgrade target (pre @ (n, key) # post) @ rest"
  shows "read_handshake_key r = (Ok key, r\<lparr>rd_bytes := rest\<rparr>)"
proof -
  let ?f = "\<lambda>h. fst h @ '': '' @ snd h"
  let ?ls = "(''GET '' @ target @ '' HTTP/1.1'') # map ?f (pre @ (n, key) # post)"
  have pl: "\<forall>l \<in> set ?ls. plain l \<and> l \<noteq> []"
    using fields_plain [OF assms(2)] assms(1) by simp
  have "concat (map (\<lambda>l. l @ crlf) ?ls) = ''GET '' @ target @ '' HTTP/1.1'' @ crlf @ concat (map header_line (pre @ (n, key) # post))"
  proof -
    have "header_line = (\<lambda>h. fst h @ '': '' @ snd h @ crlf)" by (simp add: fun_eq_iff header_line_def)
    then show ?thesis by (simp add: comp_def header_line_def [of "(n, key)"])
  qed
  then have r: "read_request r [] = (Ok (concat (map (\<lambda>l. l @ crlf) ?ls)), r\<lparr>rd_bytes := rest\<rparr>)"
    using read_request_lines [OF pl, of r rest "[]"] assms(5) by (simp add: print_upgrade_def)
  have "find_map key_of_line ?ls = Some key"
  proof -
    have "\<forall>l \<in> set ((''GET '' @ target @ '' HTTP/1.1'') # map ?f pre). key_of_line l = None"
      using assms(2,4) key_of_field key_of_get by fastforce
    moreover have "key_of_line (?f (n, key)) = Some key"
      using assms(2,3) key_of_field [of n key] by simp
    ultimately show ?thesis
      using find_map_append [of "(''GET '' @ target @ '' HTTP/1.1'') # map ?f pre" key_of_line "?f (n, key)" "map ?f post"]
      by simp
  qed
  then have "parse_websocket_key (concat (map (\<lambda>l. l @ crlf) ?ls)) = Some key"
    unfolding parse_websocket_key_def using lines_crlf [of ?ls] pl by simp
  then show ?thesis by (simp only: read_handshake_key_def r prod.case result.case option.case)
qed

section \<open>The service\<close>

text \<open>What a client has been sent: nothing, or the upgrade response and then whole frames.\<close>

definition frames :: "(Opcode \<times> string) list \<Rightarrow> string" where
  "frames fs = concat (map (\<lambda>(op, bs). encode_frame op bs) fs)"

definition out_ok :: "client \<Rightarrow> bool" where
  "out_ok c \<longleftrightarrow> cl_out c = [] \<and> cl_phase c \<in> {Handshake, Ended} \<or>
     cl_phase c \<noteq> Handshake \<and>
     (\<exists>key fs. cl_out c = upgrade_response (accept_key key) @ frames fs \<and> fst ` set fs \<subseteq> {Text, Pong})"

definition chat_inv :: "chat \<Rightarrow> bool" where
  "chat_inv s \<longleftrightarrow>
     (\<forall>i c. ch_clients s i = Some c \<longrightarrow> i < ch_next s \<and> out_ok c) \<and>
     (\<forall>i \<in> ch_registry s. \<exists>c. ch_clients s i = Some c \<and> cl_phase c \<in> {Open, Crashed})"

lemma frames_snoc: "frames (fs @ [(op, bs)]) = frames fs @ encode_frame op bs"
  by (simp add: frames_def)

lemma out_ok_send:
  assumes "out_ok c" and "cl_phase c \<notin> {Handshake, Ended}" and "op \<in> {Text, Pong}"
  shows "out_ok (send (encode_frame op bs) c)"
proof -
  obtain key fs where k: "cl_out c = upgrade_response (accept_key key) @ frames fs" "fst ` set fs \<subseteq> {Text, Pong}"
    using assms(1,2) by (auto simp: out_ok_def)
  show ?thesis
  proof (cases "cl_broken c")
    case True
    then show ?thesis using assms(1) by (simp add: send_def)
  next
    case False
    have "fst ` set (fs @ [(op, bs)]) \<subseteq> {Text, Pong}" using k(2) assms(3) by auto
    with False k(1) assms(2) show ?thesis
      unfolding out_ok_def
      by (intro disjI2 conjI exI [of _ key] exI [of _ "fs @ [(op, bs)]"]) (simp_all add: send_def frames_snoc)
  qed
qed

lemma out_ok_phase:
  "out_ok c \<Longrightarrow> cl_phase c \<noteq> Handshake \<Longrightarrow> p \<noteq> Handshake \<Longrightarrow> cl_phase c \<noteq> Ended \<Longrightarrow> out_ok (c\<lparr>cl_phase := p\<rparr>)"
  "out_ok c \<Longrightarrow> out_ok (c\<lparr>cl_phase := Ended\<rparr>)"
  "out_ok (c\<lparr>cl_in := r\<rparr>) = out_ok c" "out_ok (c\<lparr>cl_broken := b\<rparr>) = out_ok c"
  by (auto simp: out_ok_def)

lemma chat_inv_set:
  assumes "chat_inv s" and "ch_clients s i = Some c" and "out_ok c'"
    and "i \<in> ch_registry s \<longrightarrow> cl_phase c' \<in> {Open, Crashed}"
  shows "chat_inv (set_client i c' s)"
  using assms unfolding chat_inv_def set_client_def by auto

lemma chat_inv_end:
  assumes "chat_inv s" and "ch_clients s i = Some c" and "out_ok c'"
  shows "chat_inv (end_client i c' s)"
  using assms out_ok_phase(2) [OF assms(3)] unfolding chat_inv_def end_client_def set_client_def by auto

lemma registered_phase:
  "chat_inv s \<Longrightarrow> ch_clients s i = Some c \<Longrightarrow> i \<in> ch_registry s \<Longrightarrow> cl_phase c \<in> {Open, Crashed}"
  by (force simp: chat_inv_def)

lemma chat_inv_broadcast:
  assumes "chat_inv s"
  shows "chat_inv (broadcast i bs s)"
proof -
  have o: "out_ok (send (encode_frame Text bs) c)" if "ch_clients s j = Some c" "j \<in> ch_registry s" for j c
    using that assms registered_phase [OF assms that] by (intro out_ok_send) (auto simp: chat_inv_def)
  have p: "cl_phase (send x c) = cl_phase c" for x c by (simp add: send_def)
  have "out_ok c' \<and> j < ch_next s" if "ch_clients (broadcast i bs s) j = Some c'" for j c'
    using that assms o by (auto simp: broadcast_def Let_def chat_inv_def split: if_splits)
  moreover have "\<exists>c. ch_clients (broadcast i bs s) j = Some c \<and> cl_phase c \<in> {Open, Crashed}"
    if "j \<in> ch_registry (broadcast i bs s)" for j
    using that assms p unfolding chat_inv_def broadcast_def Let_def by fastforce
  ultimately show ?thesis by (simp add: chat_inv_def broadcast_def Let_def)
qed

lemma do_handshake_inv:
  assumes "chat_inv s" and "ch_clients s i = Some c" and "cl_phase c = Handshake"
  shows "chat_inv (do_handshake i c s)"
proof -
  have o: "out_ok c" and reg: "i \<notin> ch_registry s"
    using assms registered_phase [OF assms(1,2)] by (auto simp: chat_inv_def)
  then have e: "cl_out c = []" using assms(3) by (auto simp: out_ok_def)
  have "out_ok (c\<lparr>cl_in := r, cl_out := upgrade_response (accept_key key), cl_phase := Upgraded\<rparr>)" for r key
    unfolding out_ok_def by (intro disjI2 conjI exI [of _ key] exI [of _ "[]"]) (simp_all add: frames_def)
  then show ?thesis
    using assms o reg e chat_inv_end [OF assms(1,2)] chat_inv_set [OF assms(1,2)]
    by (auto simp: do_handshake_def Let_def send_def out_ok_phase split: prod.splits result.splits)
qed

lemma serve_frame_inv:
  assumes "chat_inv s" and "ch_clients s i = Some c" and "cl_phase c = Open"
  shows "chat_inv (serve_frame i c s)"
proof -
  have o: "out_ok c" using assms by (auto simp: chat_inv_def)
  have sf: "chat_inv (set_client i (c\<lparr>cl_in := r\<rparr>) s)" for r
    using assms o by (intro chat_inv_set [OF assms(1,2)]) (simp_all add: out_ok_phase)
  have "out_ok (send (encode_frame Pong bs) (c\<lparr>cl_in := r\<rparr>))" for bs r
    using assms o by (intro out_ok_send) (simp_all add: out_ok_phase)
  then have pong: "chat_inv (set_client i (send (encode_frame Pong bs) (c\<lparr>cl_in := r\<rparr>)) s)" for bs r
    using assms by (intro chat_inv_set [OF assms(1,2)]) (simp_all add: send_def)
  have crash: "chat_inv (set_client i (c\<lparr>cl_phase := Crashed\<rparr>) s)"
    using assms o by (intro chat_inv_set [OF assms(1,2)]) (simp_all add: out_ok_phase)
  have en: "chat_inv (end_client i (c\<lparr>cl_in := r\<rparr>) s)" for r
    using o by (intro chat_inv_end [OF assms(1,2)]) (simp add: out_ok_phase)
  show ?thesis
    using sf pong crash en chat_inv_broadcast
    by (auto simp: serve_frame_def Let_def split: option.splits prod.splits result.splits Opcode.splits)
qed

lemma accept_inv:
  assumes "chat_inv s" and "unat (ch_next s) + 1 < 2 ^ 64"
  shows "chat_inv (accept r s)"
proof -
  have n: "ch_next s < ch_next s + 1"
    using assms(2) unat_plus_one [of "ch_next s"] by (simp add: word_less_nat_alt)
  have f: "ch_clients s (ch_next s) = None"
    using assms(1) by (force simp: chat_inv_def)
  have "i < ch_next s + 1 \<and> out_ok c" if "ch_clients (accept r s) i = Some c" for i c
    using that n assms(1) less_trans [of i "ch_next s" "ch_next s + 1"]
    by (auto simp: accept_def chat_inv_def out_ok_def split: if_splits)
  moreover have "\<exists>c. ch_clients (accept r s) i = Some c \<and> cl_phase c \<in> {Open, Crashed}" if i: "i \<in> ch_registry s" for i
  proof -
    obtain c where "ch_clients s i = Some c" "cl_phase c \<in> {Open, Crashed}"
      using assms(1) i by (auto simp: chat_inv_def)
    moreover from this f have "i \<noteq> ch_next s" by auto
    ultimately show ?thesis by (simp add: accept_def)
  qed
  ultimately show ?thesis by (simp add: chat_inv_def accept_def)
qed

lemma chat_start: "chat_reach chat_new"
  using chat_reach.start [of "\<lambda>_. Ok ()" "[]" chat_new] by (simp add: chat_main_def Let_def)

lemma chat_reach_inv: "chat_reach s \<Longrightarrow> chat_inv s"
proof (induction rule: chat_reach.induct)
  case (start bind args s)
  then have "s = chat_new" by (auto simp: chat_main_def Let_def split: result.splits)
  then show ?case by (simp add: chat_inv_def chat_new_def)
next
  case (step s s')
  from step.hyps(2) step.IH show ?case
  proof (cases rule: chat_step.cases)
    case (register i c)
    then have "out_ok (c\<lparr>cl_phase := Open\<rparr>)"
      using step.IH by (auto simp: chat_inv_def intro: out_ok_phase)
    then show ?thesis
      using register step.IH unfolding chat_inv_def register_def set_client_def by auto
  next
    case (break i c)
    then have "out_ok (c\<lparr>cl_broken := True\<rparr>)" using step.IH by (auto simp: chat_inv_def out_ok_phase)
    then show ?thesis
      using break registered_phase [OF step.IH] chat_inv_set [OF step.IH] by auto
  qed (auto intro: accept_inv do_handshake_inv serve_frame_inv)
qed

section \<open>A client joins\<close>

lemma client_joins:
  assumes "chat_reach c" and "unat (ch_next c) + 1 < 2 ^ 64"
  shows "\<exists>c'. chat_reach c' \<and> ch_next c' = ch_next c + 1 \<and> ch_registry c' = insert (ch_next c) (ch_registry c) \<and>
    ch_clients c' = (ch_clients c)(ch_next c \<mapsto> \<lparr>cl_phase = Open, cl_in = \<lparr>rd_bytes = rest, rd_fault = e\<rparr>, cl_out = upgrade_response (accept_key ''k''), cl_broken = False\<rparr>)"
proof -
  let ?i = "ch_next c" and ?r = "\<lparr>rd_bytes = print_upgrade ''/'' [(''Sec-WebSocket-Key'', ''k'')] @ rest, rd_fault = e\<rparr>"
  let ?c1 = "\<lparr>cl_phase = Handshake, cl_in = ?r, cl_out = [], cl_broken = False\<rparr>"
  let ?c2 = "\<lparr>cl_phase = Upgraded, cl_in = \<lparr>rd_bytes = rest, rd_fault = e\<rparr>, cl_out = upgrade_response (accept_key ''k''), cl_broken = False\<rparr>"
  define s1 where "s1 = accept ?r c"
  define s2 where "s2 = do_handshake ?i ?c1 s1"
  define s3 where "s3 = register ?i ?c2 s2"
  have h: "read_handshake_key ?r = (Ok ''k'', \<lparr>rd_bytes = rest, rd_fault = e\<rparr>)"
    using read_handshake_print [of "''/''" "[]" "''Sec-WebSocket-Key''" "''k''" "[]" ?r rest]
    by (simp add: field_def token_def field_value_def eq_ignore_ascii_case_def)
  have 1: "ch_clients s1 ?i = Some ?c1" by (simp add: s1_def accept_def)
  have s2: "s2 = set_client ?i ?c2 s1" by (simp add: s2_def do_handshake_def h send_def)
  have "chat_reach s1" unfolding s1_def using assms by (blast intro: chat_reach.step chat_step.accept)
  then have "chat_reach s2" unfolding s2_def using chat_step.handshake [OF 1] chat_reach.step by simp
  then have "chat_reach s3" unfolding s3_def using chat_step.register [of s2 ?i ?c2] chat_reach.step by (simp add: s2 set_client_def)
  then show ?thesis by (intro exI [of _ s3]) (simp add: s3_def s2 register_def set_client_def s1_def accept_def)
qed

section \<open>Properties\<close>



text \<open>Property: A truncated frame is an error: on any proper prefix of a frame, of either direction, reading neither
  returns a frame nor panics, whether the stream ends or fails there.\<close>

theorem truncated_frame:
  assumes "wire_opcode op" and "length bs \<le> isize_max" and "length key = 4"
    and "p @ y = encode_frame op bs \<or> p @ y = client_frame op key bs" and "y \<noteq> []"
  shows "\<exists>err r'. read_frame \<lparr>rd_bytes = p, rd_fault = e\<rparr> = Some (Err err, r')"
proof (rule read_frame_prefix [of y _ _ "\<lparr>rd_bytes = [], rd_fault = e\<rparr>"])
  show "read_frame (more y \<lparr>rd_bytes = p, rd_fault = e\<rparr>) =
      Some (Ok \<lparr>fin = True, opcode = op, payload = bs\<rparr>, \<lparr>rd_bytes = [], rd_fault = e\<rparr>)"
    using read_encode_frame [OF assms(1,2), of "\<lparr>rd_bytes = p @ y, rd_fault = e\<rparr>" "[]"]
      read_client_frame [OF assms(1-3), of "\<lparr>rd_bytes = p @ y, rd_fault = e\<rparr>" "[]"] assms(4)
    by (auto simp: more_def)
qed (use assms(5) in simp_all)

theorem truncated_frame_witness:
  "\<exists>err r'. read_frame \<lparr>rd_bytes = butlast (encode_frame Ping ''hey''), rd_fault = None\<rparr> = Some (Err err, r')"
proof -
  have "encode_frame Ping ''hey'' \<noteq> []" by (simp add: encode_frame_def)
  then show ?thesis
    using truncated_frame [of Ping "''hey''" "''abcd''" "butlast (encode_frame Ping ''hey'')" "[last (encode_frame Ping ''hey'')]" None]
    by (simp add: isize_max_def)
qed

text \<open>Property: The handshake finds the key: for any upgrade request with well-formed header fields the key is
  the value of the first field named \<open>Sec-WebSocket-Key\<close> in any case, and the server answers with the accept
  value of that key and leaves what follows the request (the first frames) unread.\<close>

theorem handshake_answers:
  assumes "plain target" and "\<forall>h \<in> set (pre @ (n, key) # post). field h"
    and "eq_ignore_ascii_case n ''Sec-WebSocket-Key''"
    and "\<forall>h \<in> set pre. \<not> eq_ignore_ascii_case (fst h) ''Sec-WebSocket-Key''"
    and "rd_bytes (cl_in c) = print_upgrade target (pre @ (n, key) # post) @ rest" and "\<not> cl_broken c"
  shows "ch_clients (do_handshake i c s) i = Some (c\<lparr>cl_phase := Upgraded, cl_in := (cl_in c)\<lparr>rd_bytes := rest\<rparr>,
    cl_out := cl_out c @ upgrade_response (accept_key key)\<rparr>)"
  using read_handshake_print [OF assms(1-5)] assms(6)
  by (simp add: do_handshake_def send_def set_client_def)

theorem handshake_answers_witness:
  "ch_clients (do_handshake 1 \<lparr>cl_phase = Handshake, cl_in = \<lparr>rd_bytes = print_upgrade ''/chat''
       [(''Host'', ''x''), (''sec-websocket-key'', ''dGhlIHNhbXBsZSBub25jZQ=='')] @ ''rest'', rd_fault = None\<rparr>,
       cl_out = [], cl_broken = False\<rparr> chat_new) 1 =
     Some \<lparr>cl_phase = Upgraded, cl_in = \<lparr>rd_bytes = ''rest'', rd_fault = None\<rparr>,
       cl_out = upgrade_response (accept_key ''dGhlIHNhbXBsZSBub25jZQ==''), cl_broken = False\<rparr>"
proof -
  let ?c = "\<lparr>cl_phase = Handshake, cl_in = \<lparr>rd_bytes = print_upgrade ''/chat''
       [(''Host'', ''x''), (''sec-websocket-key'', ''dGhlIHNhbXBsZSBub25jZQ=='')] @ ''rest'', rd_fault = None\<rparr>,
       cl_out = [], cl_broken = False\<rparr>"
  have up: "ascii_lower (CHR ''S'') = CHR ''s''" "ascii_lower (CHR ''W'') = CHR ''w''" "ascii_lower (CHR ''K'') = CHR ''k''"
    by (simp_all add: ascii_lower_def char_of_nat_eq)
  have lo: "map ascii_lower ''sec-websocket-key'' = ''sec-websocket-key''"
    "map ascii_lower ''ec-'' = ''ec-''" "map ascii_lower ''eb'' = ''eb''" "map ascii_lower ''ocket-'' = ''ocket-''" "map ascii_lower ''ey'' = ''ey''"
    by (simp_all add: ascii_lower_def)
  have e: "eq_ignore_ascii_case ''sec-websocket-key'' ''Sec-WebSocket-Key''"
    using up lo by (simp add: eq_ignore_ascii_case_def to_ascii_lowercase_def)
  have h: "\<not> eq_ignore_ascii_case ''Host'' ''Sec-WebSocket-Key''"
    by (simp add: eq_ignore_ascii_case_def to_ascii_lowercase_def)
  have "\<forall>h \<in> set ([(''Host'', ''x'')] @ (''sec-websocket-key'', ''dGhlIHNhbXBsZSBub25jZQ=='') # []). field h"
    by (simp add: field_def token_def field_value_def)
  then show ?thesis
    using handshake_answers [of "''/chat''" "[(''Host'', ''x'')]" "''sec-websocket-key''" "''dGhlIHNhbXBsZSBub25jZQ==''" "[]" ?c "''rest''" 1 chat_new]
      e h by simp
qed

text \<open>Property: A text message reaches every other client exactly once: when a client's next frame is a text
  frame, every other registered client whose socket works gets exactly that message appended as a text frame, the
  sender and unregistered clients get nothing, and exactly the clients whose socket failed leave the registry.\<close>

theorem text_broadcast:
  assumes "length key = 4" and "length bs \<le> isize_max" and "rd_bytes (cl_in c) = client_frame Text key bs @ rest"
    and "ch_clients s i = Some c" and "j \<noteq> i" and "ch_clients s j = Some d"
  shows "ch_clients (serve_frame i c s) j =
      Some (if j \<in> ch_registry s \<and> \<not> cl_broken d then d\<lparr>cl_out := cl_out d @ encode_frame Text bs\<rparr> else d) \<and>
    ch_clients (serve_frame i c s) i = Some (c\<lparr>cl_in := (cl_in c)\<lparr>rd_bytes := rest\<rparr>\<rparr>) \<and>
    (j \<in> ch_registry (serve_frame i c s) \<longleftrightarrow> j \<in> ch_registry s \<and> \<not> cl_broken d) \<and>
    (i \<in> ch_registry (serve_frame i c s) \<longleftrightarrow> i \<in> ch_registry s)"
  using read_client_frame [of Text bs key "cl_in c" rest] assms
  by (simp add: serve_frame_def broadcast_def Let_def set_client_def send_def)

theorem text_broadcast_witness:
  "let c = \<lparr>cl_phase = Open, cl_in = \<lparr>rd_bytes = client_frame Text ''abcd'' ''hi'', rd_fault = None\<rparr>, cl_out = [], cl_broken = False\<rparr>;
       d = \<lparr>cl_phase = Open, cl_in = \<lparr>rd_bytes = [], rd_fault = None\<rparr>, cl_out = [], cl_broken = False\<rparr>
   in ch_clients (serve_frame 1 c \<lparr>ch_clients = [1 \<mapsto> c, 2 \<mapsto> d], ch_registry = {1, 2}, ch_next = 3\<rparr>) 2 =
        Some (d\<lparr>cl_out := encode_frame Text ''hi''\<rparr>)"
proof -
  let ?c = "\<lparr>cl_phase = Open, cl_in = \<lparr>rd_bytes = client_frame Text ''abcd'' ''hi'', rd_fault = None\<rparr>, cl_out = [], cl_broken = False\<rparr>"
  let ?d = "\<lparr>cl_phase = Open, cl_in = \<lparr>rd_bytes = [], rd_fault = None\<rparr>, cl_out = [], cl_broken = False\<rparr>"
  show ?thesis
    using text_broadcast [of "''abcd''" "''hi''" ?c "[]" "\<lparr>ch_clients = [1 \<mapsto> ?c, 2 \<mapsto> ?d], ch_registry = {1, 2}, ch_next = 3\<rparr>" 1 2 ?d]
    by (simp add: isize_max_def)
qed

text \<open>Property: In every reachable state of the service, whatever clients send and whenever sockets break: the
  registry holds only clients that completed the handshake and have not ended, and what a client was sent is nothing
  or the upgrade response to a key followed by whole text and pong frames.\<close>

theorem chat_safety:
  assumes "chat_reach s" and "ch_clients s i = Some c"
  shows "(i \<in> ch_registry s \<longrightarrow> cl_phase c \<in> {Open, Crashed}) \<and>
    (cl_out c = [] \<or> (\<exists>key fs. cl_out c = upgrade_response (accept_key key) @ frames fs \<and> fst ` set fs \<subseteq> {Text, Pong}))"
  using chat_reach_inv [OF assms(1)] registered_phase [OF chat_reach_inv [OF assms(1)] assms(2)] assms(2)
  by (auto simp: chat_inv_def out_ok_def)

theorem chat_safety_witness:
  "\<exists>c. ch_clients (accept \<lparr>rd_bytes = [], rd_fault = None\<rparr> chat_new) 1 = Some c \<and> cl_out c = []"
proof -
  have r: "chat_reach (accept \<lparr>rd_bytes = [], rd_fault = None\<rparr> chat_new)"
    by (rule chat_reach.step [OF chat_start chat_step.accept]) (simp add: chat_new_def)
  obtain c where c: "ch_clients (accept \<lparr>rd_bytes = [], rd_fault = None\<rparr> chat_new) 1 = Some c" "cl_phase c = Handshake"
    by (simp add: accept_def chat_new_def)
  show ?thesis
    using chat_safety [OF r c(1)] c by (auto simp: accept_def chat_new_def)
qed

text \<open>Property: A hostile frame header leaves a ghost in the registry: a client that completes the handshake and
  then announces a payload of \<open>2 ^ 64 - 1\<close> bytes makes its thread panic on the allocation, which skips the removal,
  so the service keeps a registered client that no thread serves.\<close>

theorem oversized_frame_crashes:
  "read_frame \<lparr>rd_bytes = CHR 0x81 # CHR 0x7F # replicate 8 (CHR 0xFF), rd_fault = e\<rparr> = None \<and>
   (\<exists>s c. chat_reach s \<and> ch_clients s 1 = Some c \<and> cl_phase c = Crashed \<and> 1 \<in> ch_registry s)"
proof -
  let ?b = "CHR 0x81 # CHR 0x7F # replicate 8 (CHR 0xFF)"
  have x: "read_frame \<lparr>rd_bytes = ?b, rd_fault = e\<rparr> = None" for e
  proof -
    have "unat (u8_of_char (CHR 0x7F) AND 0x7F) = 127" "u8_of_char (CHR 0x7F) AND 0x80 = 0"
      by (simp_all add: u8_of_char_def)
    moreover have "replicate 8 (CHR 0xFF) = [CHR 0xFF, CHR 0xFF, CHR 0xFF, CHR 0xFF, CHR 0xFF, CHR 0xFF, CHR 0xFF, CHR 0xFF]"
      by (simp add: numeral_eq_Suc)
    then have "from_be_bytes (replicate 8 (CHR 0xFF)) = 2 ^ 64 - 1"
      by (simp only:) (simp add: from_be_bytes_def)
    ultimately show ?thesis
      by (simp add: read_frame_def read_exact_def read_length_def read_mask_def Let_def isize_max_def)
  qed
  obtain s c where s: "chat_reach s" "1 \<in> ch_registry s" "ch_clients s 1 = Some c" "cl_phase c = Open" "cl_in c = \<lparr>rd_bytes = ?b, rd_fault = None\<rparr>"
    using client_joins [OF chat_start, of ?b None] by (auto simp: chat_new_def)
  have "serve_frame 1 c s = set_client 1 (c\<lparr>cl_phase := Crashed\<rparr>) s" by (simp add: serve_frame_def s(5) x)
  then have "chat_reach (set_client 1 (c\<lparr>cl_phase := Crashed\<rparr>) s)" using chat_reach.step [OF s(1) chat_step.frame [OF s(3,4)]] by simp
  then show ?thesis using x s(2) by (intro conjI exI [of _ "set_client 1 (c\<lparr>cl_phase := Crashed\<rparr>) s"]) (simp_all add: set_client_def)
qed

end
