(* ===== verification/Ws_Server.thy ===== *)
theory Ws_Server
  imports Ws_Chat "HOL-Library.Sublist"
begin

text \<open>
  The running chat server of \<open>server.rs\<close>, write by write: a \<open>write_all\<close> is a sequence of writes, each of which hands some of the bytes to the
  socket, and \<open>broadcast\<close> holds the mutex of the registry from its first target to its last. A socket is written to by two kinds of writers, the client's own
  thread and the broadcasts of the others. The theory shows what a client can find in its stream in every interleaving, that the whole turns of
  \<open>Ws_Chat\<close> are runs of this system, and that a pong and a message can be mixed on the wire.
\<close>

section \<open>The code\<close>

text \<open>Where the thread of a client is: before the handshake; writing the response, with what is left of it; before the registration; at the head of its loop; writing a
  pong; before \<open>lock()\<close> with a frame to broadcast; within the broadcast of a frame, with what is left to write to the first of the remaining targets and the
  targets found dead so far; after \<open>handle_client\<close>, before the removal from the registry; ended; or ended by a panic.\<close>

datatype work = Hello | Greeting string | Greeted | Listening | Ponging string | Casting string
  | Writing_To string string "u64 list" "u64 list" | Leaving | Left | Panicked

text \<open>The log of a socket is the sequence of bytes that were written to it, each with its writer: \<open>True\<close> for the client's own thread.\<close>

record peer =
  pe_work :: work
  pe_in :: reader
  pe_log :: "(bool \<times> char) list"
  pe_broken :: bool

record hall =
  ha_peers :: "u64 \<rightharpoonup> peer"
  ha_registry :: "u64 set"
  ha_next :: u64
  ha_lock :: "u64 option"

definition hall_new :: hall where
  "hall_new = \<lparr>ha_peers = Map.empty, ha_registry = {}, ha_next = 1, ha_lock = None\<rparr>"

definition peer_new :: "reader \<Rightarrow> peer" where
  "peer_new r = \<lparr>pe_work = Hello, pe_in = r, pe_log = [], pe_broken = False\<rparr>"

definition put_peer :: "u64 \<Rightarrow> peer \<Rightarrow> hall \<Rightarrow> hall" where
  "put_peer i p s = s\<lparr>ha_peers := (ha_peers s)(i \<mapsto> p)\<rparr>"

definition pe_write :: "bool \<Rightarrow> string \<Rightarrow> peer \<Rightarrow> peer" where
  "pe_write own bs p = p\<lparr>pe_log := pe_log p @ map (Pair own) bs\<rparr>"

definition working :: "hall \<Rightarrow> u64 \<Rightarrow> peer \<Rightarrow> work \<Rightarrow> bool" where
  "working s i p w \<longleftrightarrow> ha_peers s i = Some p \<and> pe_work p = w"

definition shaken :: "peer \<Rightarrow> peer" where
  "shaken p =
     (case read_handshake_key (pe_in p) of
        (Err e, r) \<Rightarrow> p\<lparr>pe_in := r, pe_work := Leaving\<rparr>
      | (Ok key, r) \<Rightarrow> p\<lparr>pe_in := r, pe_work := Greeting (upgrade_response (accept_key key))\<rparr>)"

definition heard :: "peer \<Rightarrow> peer" where
  "heard p =
     (case read_frame (pe_in p) of
        None \<Rightarrow> p\<lparr>pe_work := Panicked\<rparr>
      | Some (Err e, r) \<Rightarrow> p\<lparr>pe_in := r, pe_work := Leaving\<rparr>
      | Some (Ok f, r) \<Rightarrow>
          p\<lparr>pe_in := r, pe_work := (case opcode f of
               Text \<Rightarrow> Casting (encode_frame Text (payload f))
             | Ping \<Rightarrow> Ponging (encode_frame Pong (payload f))
             | Close \<Rightarrow> Leaving
             | _ \<Rightarrow> Listening)\<rparr>)"

text \<open>One step of the accept loop, of a client's thread, or of the network that breaks a connection. The mutex is free or held by the thread that
  broadcasts; the other critical sections are one step each.\<close>

inductive hall_step :: "hall \<Rightarrow> hall \<Rightarrow> bool" where
  arrive: "unat (ha_next s) + 1 < 2 ^ 64 \<Longrightarrow>
     hall_step s ((put_peer (ha_next s) (peer_new r) s)\<lparr>ha_next := ha_next s + 1\<rparr>)"
| break: "ha_peers s i = Some p \<Longrightarrow> hall_step s (put_peer i (p\<lparr>pe_broken := True\<rparr>) s)"
| clone_fails: "working s i p w \<Longrightarrow> w = Hello \<or> w = Greeted \<and> ha_lock s = None \<Longrightarrow> hall_step s (put_peer i (p\<lparr>pe_work := Leaving\<rparr>) s)"
| shake: "working s i p Hello \<Longrightarrow> hall_step s (put_peer i (shaken p) s)"
| own_write: "K = Greeting \<or> K = Ponging \<Longrightarrow> working s i p (K rest) \<Longrightarrow> \<not> pe_broken p \<Longrightarrow> 0 < n \<Longrightarrow> n \<le> length rest \<Longrightarrow>
     hall_step s (put_peer i ((pe_write True (take n rest) p)\<lparr>pe_work := K (drop n rest)\<rparr>) s)"
| own_fail: "K = Greeting \<or> K = Ponging \<Longrightarrow> working s i p (K rest) \<Longrightarrow> pe_broken p \<Longrightarrow> rest \<noteq> [] \<Longrightarrow>
     hall_step s (put_peer i (p\<lparr>pe_work := Leaving\<rparr>) s)"
| greeted: "working s i p (Greeting []) \<Longrightarrow> hall_step s (put_peer i (p\<lparr>pe_work := Greeted\<rparr>) s)"
| ponged: "working s i p (Ponging []) \<Longrightarrow> hall_step s (put_peer i (p\<lparr>pe_work := Listening\<rparr>) s)"
| enrol: "working s i p Greeted \<Longrightarrow> ha_lock s = None \<Longrightarrow>
     hall_step s ((put_peer i (p\<lparr>pe_work := Listening\<rparr>) s)\<lparr>ha_registry := insert i (ha_registry s)\<rparr>)"
| hear: "working s i p Listening \<Longrightarrow> hall_step s (put_peer i (heard p) s)"
| cast_lock: "working s i p (Casting fr) \<Longrightarrow> ha_lock s = None \<Longrightarrow> distinct ts \<Longrightarrow> set ts = ha_registry s - {i} \<Longrightarrow>
     hall_step s ((put_peer i (p\<lparr>pe_work := Writing_To fr fr ts []\<rparr>) s)\<lparr>ha_lock := Some i\<rparr>)"
| cast_write: "working s i p (Writing_To fr rest (t # ts) dead) \<Longrightarrow> ha_peers s t = Some q \<Longrightarrow> \<not> pe_broken q \<Longrightarrow> 0 < n \<Longrightarrow> n \<le> length rest \<Longrightarrow>
     hall_step s (put_peer i (p\<lparr>pe_work := Writing_To fr (drop n rest) (t # ts) dead\<rparr>) (put_peer t (pe_write False (take n rest) q) s))"
| cast_fail: "working s i p (Writing_To fr rest (t # ts) dead) \<Longrightarrow> ha_peers s t = Some q \<Longrightarrow> pe_broken q \<Longrightarrow> rest \<noteq> [] \<Longrightarrow>
     hall_step s (put_peer i (p\<lparr>pe_work := Writing_To fr fr ts (t # dead)\<rparr>) s)"
| cast_next: "working s i p (Writing_To fr [] (t # ts) dead) \<Longrightarrow> hall_step s (put_peer i (p\<lparr>pe_work := Writing_To fr fr ts dead\<rparr>) s)"
| cast_end: "working s i p (Writing_To fr rest [] dead) \<Longrightarrow>
     hall_step s ((put_peer i (p\<lparr>pe_work := Listening\<rparr>) s)\<lparr>ha_registry := ha_registry s - set dead, ha_lock := None\<rparr>)"
| leave: "working s i p Leaving \<Longrightarrow> ha_lock s = None \<Longrightarrow>
     hall_step s ((put_peer i (p\<lparr>pe_work := Left\<rparr>) s)\<lparr>ha_registry := ha_registry s - {i}\<rparr>)"

inductive hall_reach :: "hall \<Rightarrow> bool" where
  start: "snd (chat_main bind args) = Ok c \<Longrightarrow> hall_reach hall_new"
| step: "hall_reach s \<Longrightarrow> hall_step s s' \<Longrightarrow> hall_reach s'"

section \<open>The two writers of a socket\<close>

abbreviation tag :: "bool \<Rightarrow> string \<Rightarrow> (bool \<times> char) list" where
  "tag own bs \<equiv> map (Pair own) bs"

definition written_by :: "bool \<Rightarrow> (bool \<times> char) list \<Rightarrow> string" where
  "written_by own l = map snd (filter (\<lambda>e. fst e = own) l)"

lemma written_by_simps [simp]:
  "written_by b [] = []" "written_by b (l @ l') = written_by b l @ written_by b l'" "written_by b (tag b bs) = bs"
  "written_by True (tag False bs) = []" "written_by False (tag True bs) = []"
  by (simp_all add: written_by_def filter_map o_def)

text \<open>A stream with one writer only is what this writer wrote.\<close>

lemma one_writer: "written_by (\<not> b) l = [] \<Longrightarrow> map snd l = written_by b l"
  by (induction l) (auto simp: written_by_def split: if_splits)

definition pongs :: "string list \<Rightarrow> string" where
  "pongs ps = concat (map (encode_frame Pong) ps)"

definition texts :: "string list \<Rightarrow> string" where
  "texts ts = concat (map (encode_frame Text) ts)"

lemma frames_append [simp]: "pongs [] = []" "texts [] = []" "pongs (ps @ [b]) = pongs ps @ encode_frame Pong b" "texts (ts @ [b]) = texts ts @ encode_frame Text b"
  by (simp_all add: pongs_def texts_def)

lemma encode_frame_nonempty [simp]: "encode_frame op bs \<noteq> []"
  by (simp add: encode_frame_def)

abbreviation response_to :: "string \<Rightarrow> string" where
  "response_to key \<equiv> upgrade_response (accept_key key)"

text \<open>A client that was answered at most in part; and one that was answered in full, with what its thread wrote behind the response.\<close>

definition quiet :: "peer \<Rightarrow> bool" where
  "quiet p \<longleftrightarrow> (\<exists>key x. pe_log p = tag True x \<and> prefix x (response_to key))"

definition answered_then :: "peer \<Rightarrow> (string \<Rightarrow> bool) \<Rightarrow> bool" where
  "answered_then p Q \<longleftrightarrow> (\<exists>key tail. pe_log p = tag True (response_to key) @ tail \<and> Q (written_by True tail))"

abbreviation spoken :: "peer \<Rightarrow> bool" where
  "spoken p \<equiv> answered_then p (\<lambda>x. \<exists>ps. prefix x (pongs ps))"

fun talk :: "work \<Rightarrow> peer \<Rightarrow> bool" where
  "talk Hello p \<longleftrightarrow> pe_log p = []"
| "talk (Greeting rest) p \<longleftrightarrow> (\<exists>key x. pe_log p = tag True x \<and> x @ rest = response_to key)"
| "talk Greeted p \<longleftrightarrow> (\<exists>key. pe_log p = tag True (response_to key))"
| "talk (Ponging rest) p \<longleftrightarrow> answered_then p (\<lambda>y. \<exists>ps b x. y = pongs ps @ x \<and> x @ rest = encode_frame Pong b)"
| "talk Leaving p \<longleftrightarrow> quiet p \<or> spoken p"
| "talk Left p \<longleftrightarrow> quiet p \<or> spoken p"
| "talk _ p \<longleftrightarrow> answered_then p (\<lambda>y. \<exists>ps. y = pongs ps)"

fun enrolled :: "work \<Rightarrow> bool" where
  "enrolled Hello = False"
| "enrolled (Greeting rest) = False"
| "enrolled Greeted = False"
| "enrolled Left = False"
| "enrolled _ = True"

fun is_writing :: "work \<Rightarrow> bool" where
  "is_writing (Writing_To fr rest ts dead) = True"
| "is_writing w = False"

lemma answered_then_mono: "answered_then p Q \<Longrightarrow> (\<And>x. Q x \<Longrightarrow> R x) \<Longrightarrow> answered_then p R"
  by (auto simp: answered_then_def)

lemma answered_then_upd [simp]:
  "answered_then (p\<lparr>pe_work := w\<rparr>) Q = answered_then p Q" "answered_then (p\<lparr>pe_in := r\<rparr>) Q = answered_then p Q"
  "answered_then (p\<lparr>pe_broken := b\<rparr>) Q = answered_then p Q"
  by (simp_all add: answered_then_def)

lemma quiet_upd [simp]:
  "quiet (p\<lparr>pe_work := w\<rparr>) = quiet p" "quiet (p\<lparr>pe_in := r\<rparr>) = quiet p" "quiet (p\<lparr>pe_broken := b\<rparr>) = quiet p"
  by (simp_all add: quiet_def)

lemma talk_upd [simp]:
  "talk w (p\<lparr>pe_work := w'\<rparr>) = talk w p" "talk w (p\<lparr>pe_in := r\<rparr>) = talk w p" "talk w (p\<lparr>pe_broken := b\<rparr>) = talk w p"
  by (cases w; simp)+

text \<open>Writes of the thread extend its part behind the response; writes of a broadcast leave it alone.\<close>

lemma answered_own: "answered_then p (\<lambda>x. Q (x @ bs)) \<Longrightarrow> answered_then (pe_write True bs p) Q"
  by (fastforce simp: answered_then_def pe_write_def)

lemma answered_cast: "answered_then p Q \<Longrightarrow> answered_then (pe_write False bs p) Q"
  by (fastforce simp: answered_then_def pe_write_def)

lemma talk_spoken: "talk w p \<Longrightarrow> enrolled w \<Longrightarrow> w \<noteq> Leaving \<Longrightarrow> spoken p"
proof (induction w p rule: talk.induct)
  case (4 rest p)
  then show ?case by simp (erule answered_then_mono, metis append.assoc frames_append(3) prefix_append prefix_order.refl prefixI)
qed (auto elim!: answered_then_mono)

lemma talk_quits: "talk w p \<Longrightarrow> quiet p \<or> spoken p"
  using talk_spoken [of w p] by (cases w) (auto simp: quiet_def intro: exI [of _ "[]"], metis prefixI)

lemma talk_cast: "talk w p \<Longrightarrow> enrolled w \<Longrightarrow> spoken p \<Longrightarrow> talk w (pe_write False bs p)"
  by (cases w) (auto intro: answered_cast)


section \<open>The invariant\<close>

text \<open>What the lock holder is writing to a client: the frame and what is left of it.\<close>

definition target_of :: "work \<Rightarrow> u64 \<Rightarrow> (string \<times> string) option" where
  "target_of w t = (case w of Writing_To fr rest (u # us) dead \<Rightarrow> if u = t then Some (fr, rest) else None | _ \<Rightarrow> None)"

definition current :: "hall \<Rightarrow> u64 \<Rightarrow> (string \<times> string) option" where
  "current s t = (case ha_lock s of None \<Rightarrow> None | Some h \<Rightarrow> (case ha_peers s h of None \<Rightarrow> None | Some p \<Rightarrow> target_of (pe_work p) t))"

text \<open>The broadcasts' part of a stream: whole text frames, and of the frame that is being written what is not left; on a broken connection the last may be cut.\<close>

definition cast_ok :: "(string \<times> string) option \<Rightarrow> peer \<Rightarrow> bool" where
  "cast_ok cur p \<longleftrightarrow>
     (if pe_broken p then \<exists>ts b x. written_by False (pe_log p) = texts ts @ x \<and> prefix x (encode_frame Text b)
      else case cur of
        None \<Rightarrow> \<exists>ts. written_by False (pe_log p) = texts ts
      | Some (fr, rest) \<Rightarrow> \<exists>ts x. written_by False (pe_log p) = texts ts @ x \<and> x @ rest = fr)"

fun work_ok :: "hall \<Rightarrow> u64 \<Rightarrow> work \<Rightarrow> bool" where
  "work_ok s i (Casting fr) \<longleftrightarrow> (\<exists>b. fr = encode_frame Text b)"
| "work_ok s i (Writing_To fr rest ts dead) \<longleftrightarrow>
     ha_lock s = Some i \<and> (\<exists>b. fr = encode_frame Text b) \<and> distinct ts \<and> set ts \<subseteq> ha_registry s - {i}"
| "work_ok s i w \<longleftrightarrow> True"

definition peer_ok :: "hall \<Rightarrow> u64 \<Rightarrow> peer \<Rightarrow> bool" where
  "peer_ok s i p \<longleftrightarrow> i < ha_next s \<and> talk (pe_work p) p \<and> work_ok s i (pe_work p) \<and> cast_ok (current s i) p"

definition hall_inv :: "hall \<Rightarrow> bool" where
  "hall_inv s \<longleftrightarrow> finite (ha_registry s) \<and> (\<forall>i p. ha_peers s i = Some p \<longrightarrow> peer_ok s i p) \<and>
     (\<forall>i \<in> ha_registry s. \<exists>p. ha_peers s i = Some p \<and> enrolled (pe_work p) \<and> spoken p) \<and>
     (\<forall>h. ha_lock s = Some h \<longrightarrow> (\<exists>p. ha_peers s h = Some p \<and> is_writing (pe_work p)))"

lemma put_peer_sel [simp]:
  "ha_peers (put_peer i p s) = (ha_peers s)(i \<mapsto> p)" "ha_registry (put_peer i p s) = ha_registry s" "ha_next (put_peer i p s) = ha_next s"
  "ha_lock (put_peer i p s) = ha_lock s"
  by (simp_all add: put_peer_def)

lemma target_of_idle [simp]: "\<not> is_writing w \<Longrightarrow> target_of w t = None"
  by (cases w) (simp_all add: target_of_def)

lemma target_of_writing [simp]:
  "target_of (Writing_To fr rest (u # us) dead) t = (if u = t then Some (fr, rest) else None)" "target_of (Writing_To fr rest [] dead) t = None"
  by (simp_all add: target_of_def)

lemma cast_ok_cong:
  "written_by False (pe_log p') = written_by False (pe_log p) \<Longrightarrow> pe_broken p' = pe_broken p \<Longrightarrow> cast_ok cur p' = cast_ok cur p"
  by (cases cur) (auto simp: cast_ok_def)

text \<open>Moving on to a new frame, finishing one, and losing the connection.\<close>

lemma cast_ok_start: "cast_ok None p \<Longrightarrow> cast_ok (Some (fr, fr)) p"
  by (auto simp: cast_ok_def)

lemma cast_ok_whole: "cast_ok (Some (encode_frame Text b, [])) p \<Longrightarrow> cast_ok None p"
  by (fastforce simp: cast_ok_def simp flip: frames_append(4))

lemma cast_ok_broken: "cast_ok cur p \<Longrightarrow> pe_broken p \<Longrightarrow> cast_ok cur' p"
  by (simp add: cast_ok_def)

lemma cast_ok_write:
  assumes "cast_ok (Some (fr, rest)) q" and "\<not> pe_broken q"
  shows "cast_ok (Some (fr, drop n rest)) (pe_write False (take n rest) q)"
proof -
  obtain ts x where "written_by False (pe_log q) = texts ts @ x" "x @ rest = fr" using assms by (auto simp: cast_ok_def)
  then show ?thesis using assms(2) by (auto simp: cast_ok_def pe_write_def intro!: exI [of _ ts])
qed

lemma cast_ok_break:
  assumes "cast_ok cur p" and "\<And>fr rest. cur = Some (fr, rest) \<Longrightarrow> \<exists>b. fr = encode_frame Text b"
  shows "cast_ok cur (p\<lparr>pe_broken := True\<rparr>)"
proof (cases cur)
  case None
  then show ?thesis using assms(1) by (auto simp: cast_ok_def split: if_splits) (metis append_Nil2 Nil_prefix)
next
  case (Some c)
  obtain fr rest where c: "c = (fr, rest)" by fastforce
  then obtain b where "fr = encode_frame Text b" using assms(2) Some by blast
  then show ?thesis using assms(1) Some c by (auto simp: cast_ok_def split: if_splits) (metis prefixI)
qed

lemma current_frame: "hall_inv s \<Longrightarrow> current s t = Some (fr, rest) \<Longrightarrow> \<exists>b. fr = encode_frame Text b"
  by (auto simp: current_def hall_inv_def peer_ok_def target_of_def split: option.splits work.splits list.splits if_splits) fastforce

lemma hall_inv_peer: "hall_inv s \<Longrightarrow> ha_peers s i = Some p \<Longrightarrow> peer_ok s i p"
  by (simp add: hall_inv_def)

lemma hall_inv_registered: "hall_inv s \<Longrightarrow> i \<in> ha_registry s \<Longrightarrow> ha_peers s i = Some p \<Longrightarrow> enrolled (pe_work p) \<and> spoken p"
  by (fastforce simp: hall_inv_def)

lemma hall_inv_idle: "hall_inv s \<Longrightarrow> ha_peers s i = Some p \<Longrightarrow> \<not> is_writing (pe_work p) \<Longrightarrow> ha_lock s \<noteq> Some i"
  by (fastforce simp: hall_inv_def)

text \<open>A step of a client's thread that neither holds the mutex nor takes it.\<close>

lemma hall_inv_put:
  assumes "hall_inv s" and "ha_peers s i = Some p" and "\<not> is_writing (pe_work p)" and "\<not> is_writing (pe_work p')" and "talk (pe_work p') p'"
    and "work_ok s i (pe_work p')" and "cast_ok (current s i) p'" and "i \<in> R \<longrightarrow> enrolled (pe_work p') \<and> spoken p'"
    and "R \<subseteq> insert i (ha_registry s)" and "ha_lock s = None \<or> R = ha_registry s"
  shows "hall_inv ((put_peer i p' s)\<lparr>ha_registry := R\<rparr>)" (is "hall_inv ?s")
proof -
  have h: "ha_lock s \<noteq> Some i" using hall_inv_idle [OF assms(1-3)] .
  have cur: "current ?s t = current s t" for t using h by (auto simp: current_def split: option.splits)
  have wk: "work_ok ?s j w" if "work_ok s j w" "is_writing w \<longrightarrow> ha_lock s = Some j" for j w
    using that assms(10) by (cases w) auto
  have lk: "is_writing (pe_work q) \<longrightarrow> ha_lock s = Some j" if "ha_peers s j = Some q" for j q
    using hall_inv_peer [OF assms(1) that] by (cases "pe_work q") (auto simp: peer_ok_def)
  have "peer_ok ?s j q" if "ha_peers ?s j = Some q" for j q
  proof (cases "j = i")
    case True
    then have "q = p'" using that by (simp add:)
    then show ?thesis using True assms(4-7) hall_inv_peer [OF assms(1,2)] wk [of i "pe_work p'"] cur by (auto simp: peer_ok_def)
  next
    case False
    then have "ha_peers s j = Some q" using that by (simp add:)
    then show ?thesis using hall_inv_peer [OF assms(1), of j q] wk [of j "pe_work q"] lk cur by (auto simp: peer_ok_def)
  qed
  moreover have "finite R" using assms(1,9) by (auto simp: hall_inv_def intro: finite_subset)
  moreover have "\<exists>q. ha_peers ?s j = Some q \<and> enrolled (pe_work q) \<and> spoken q" if "j \<in> R" for j
    using that assms(1,8,9) by (cases "j = i") (auto simp: hall_inv_def)
  ultimately show ?thesis using h assms(1) by (auto simp: hall_inv_def)
qed

lemmas hall_inv_thread = hall_inv_put [where R = "ha_registry s" and s = s for s, simplified]


text \<open>Steps that change neither what the broadcasts wrote to a client nor its connection.\<close>

lemma hall_inv_work:
  assumes "hall_inv s" and "working s i p w" and "\<not> is_writing w" and "\<not> is_writing (pe_work p')" and "talk (pe_work p') p'"
    and "work_ok s i (pe_work p')" and "enrolled w \<longrightarrow> enrolled (pe_work p')" and "enrolled w \<and> spoken p \<longrightarrow> spoken p'"
    and "written_by False (pe_log p') = written_by False (pe_log p)" and "pe_broken p' = pe_broken p"
  shows "hall_inv (put_peer i p' s)"
proof -
  have p: "ha_peers s i = Some p" "pe_work p = w" using assms(2) by (auto simp: working_def)
  have "cast_ok (current s i) p'" using hall_inv_peer [OF assms(1) p(1)] cast_ok_cong [OF assms(9,10)] by (simp add: peer_ok_def)
  moreover have "i \<in> ha_registry s \<longrightarrow> enrolled (pe_work p') \<and> spoken p'"
    using hall_inv_registered [OF assms(1) _ p(1)] assms(7,8) p(2) by blast
  ultimately have "hall_inv ((put_peer i p' s)\<lparr>ha_registry := ha_registry s\<rparr>)"
    using hall_inv_put [OF assms(1) p(1), of p' "ha_registry s"] assms(3-6) p(2) by (simp add: subset_insertI)
  moreover have "(put_peer i p' s)\<lparr>ha_registry := ha_registry s\<rparr> = put_peer i p' s" by (simp add: put_peer_def)
  ultimately show ?thesis by (rule subst [rotated])
qed

text \<open>The two writes of a thread begin.\<close>

lemma greeting_begins: "pe_log p = [] \<Longrightarrow> talk (Greeting (response_to key)) p"
  by simp (metis append_Nil)

lemma ponging_begins: "talk Listening p \<Longrightarrow> talk (Ponging (encode_frame Pong b)) p"
  by simp (erule answered_then_mono, metis append_Nil append_Nil2)

lemma talk_now: "hall_inv s \<Longrightarrow> working s i p w \<Longrightarrow> talk w p"
  by (auto simp: working_def dest: hall_inv_peer simp: peer_ok_def)

lemma shaken_fields [simp]: "pe_log (shaken p) = pe_log p" "pe_broken (shaken p) = pe_broken p"
  by (simp_all add: shaken_def split: prod.splits result.splits)

lemma heard_fields [simp]: "pe_log (heard p) = pe_log p" "pe_broken (heard p) = pe_broken p"
  by (simp_all add: heard_def split: prod.splits result.splits option.splits)

lemma inv_shake:
  assumes "hall_inv s" and "working s i p Hello"
  shows "hall_inv (put_peer i (shaken p) s)"
proof (rule hall_inv_work [OF assms])
  have "pe_log p = []" using talk_now [OF assms] by simp
  then show "talk (pe_work (shaken p)) (shaken p)"
    using greeting_begins [of p] by (auto simp: shaken_def quiet_def simp del: talk.simps(2) split: prod.splits result.splits)
qed (auto simp: shaken_def split: prod.splits result.splits)

lemma inv_hear:
  assumes "hall_inv s" and "working s i p Listening"
  shows "hall_inv (put_peer i (heard p) s)"
proof (rule hall_inv_work [OF assms])
  have t: "talk Listening p" using talk_now [OF assms] .
  then have "spoken p" using talk_spoken by fastforce
  then show "talk (pe_work (heard p)) (heard p)" "enrolled Listening \<and> spoken p \<longrightarrow> spoken (heard p)"
    using t ponging_begins [OF t] by (auto simp: heard_def simp del: talk.simps(4) split: option.splits prod.splits result.splits Opcode.splits)
qed (auto simp: heard_def split: option.splits prod.splits result.splits Opcode.splits)

lemma inv_own_write:
  assumes "hall_inv s" and "K = Greeting \<or> K = Ponging" and "working s i p (K rest)"
  shows "hall_inv (put_peer i ((pe_write True (take n rest) p)\<lparr>pe_work := K (drop n rest)\<rparr>) s)" (is "hall_inv (put_peer i ?p s)")
proof (rule hall_inv_work [OF assms(1,3)])
  have t: "talk (K rest) p" using talk_now [OF assms(1,3)] .
  show "talk (pe_work ?p) ?p"
  proof (cases "K = Greeting")
    case True
    then obtain key x where "pe_log p = tag True x" "x @ rest = response_to key" using t by auto
    then have "pe_log ?p = tag True (x @ take n rest)" "(x @ take n rest) @ drop n rest = response_to key" by (simp_all add: pe_write_def)
    then have "talk (Greeting (drop n rest)) ?p" unfolding talk.simps by blast
    then show ?thesis using True by simp
  next
    case False
    then have "answered_then p (\<lambda>y. \<exists>ps b x. y = pongs ps @ x \<and> x @ rest = encode_frame Pong b)" using t assms(2) by auto
    then have "answered_then p (\<lambda>y. \<exists>ps b x. y @ take n rest = pongs ps @ x \<and> x @ drop n rest = encode_frame Pong b)"
      by (rule answered_then_mono) (metis append.assoc append_take_drop_id)
    then show ?thesis using False assms(2) answered_own [of p "\<lambda>y. \<exists>ps b x. y = pongs ps @ x \<and> x @ drop n rest = encode_frame Pong b"] by auto
  qed
  then show "enrolled (K rest) \<and> spoken p \<longrightarrow> spoken ?p" using talk_spoken [of "pe_work ?p" ?p] assms(2) by auto
qed (use assms(2) in \<open>auto simp: pe_write_def\<close>)

lemma inv_leaving: "hall_inv s \<Longrightarrow> working s i p w \<Longrightarrow> \<not> is_writing w \<Longrightarrow> hall_inv (put_peer i (p\<lparr>pe_work := Leaving\<rparr>) s)"
  by (rule hall_inv_work, assumption+) (auto dest: talk_now talk_quits)

lemma inv_greeted: "hall_inv s \<Longrightarrow> working s i p (Greeting []) \<Longrightarrow> hall_inv (put_peer i (p\<lparr>pe_work := Greeted\<rparr>) s)"
  by (rule hall_inv_work [where w = "Greeting []"], assumption+) (auto dest: talk_now)

lemma inv_ponged:
  assumes "hall_inv s" and "working s i p (Ponging [])"
  shows "hall_inv (put_peer i (p\<lparr>pe_work := Listening\<rparr>) s)"
proof (rule hall_inv_work [OF assms])
  have "answered_then p (\<lambda>y. \<exists>ps b x. y = pongs ps @ x \<and> x @ [] = encode_frame Pong b)" using talk_now [OF assms] by simp
  then have "answered_then p (\<lambda>y. \<exists>ps. y = pongs ps)" by (rule answered_then_mono) (metis append_Nil2 frames_append(3))
  then show "talk (pe_work (p\<lparr>pe_work := Listening\<rparr>)) (p\<lparr>pe_work := Listening\<rparr>)" by simp
qed simp_all


lemma inv_enrol:
  assumes "hall_inv s" and "working s i p Greeted" and "ha_lock s = None"
  shows "hall_inv ((put_peer i (p\<lparr>pe_work := Listening\<rparr>) s)\<lparr>ha_registry := insert i (ha_registry s)\<rparr>)"
proof -
  have p: "ha_peers s i = Some p" "pe_work p = Greeted" using assms(2) by (auto simp: working_def)
  obtain key where "pe_log p = tag True (response_to key) @ []" using talk_now [OF assms(1,2)] by auto
  then have t: "talk Listening p" unfolding talk.simps answered_then_def by (metis frames_append(1) written_by_simps(1))
  then show ?thesis
    using assms p hall_inv_peer [OF assms(1) p(1)] talk_spoken [OF t] cast_ok_cong [of "p\<lparr>pe_work := Listening\<rparr>" p]
    by (intro hall_inv_put [OF assms(1) p(1)]) (auto simp: peer_ok_def)
qed

lemma inv_leave:
  assumes "hall_inv s" and "working s i p Leaving" and "ha_lock s = None"
  shows "hall_inv ((put_peer i (p\<lparr>pe_work := Left\<rparr>) s)\<lparr>ha_registry := ha_registry s - {i}\<rparr>)"
proof -
  have p: "ha_peers s i = Some p" "pe_work p = Leaving" using assms(2) by (auto simp: working_def)
  show ?thesis
    using assms p hall_inv_peer [OF assms(1) p(1)] talk_now [OF assms(1,2)] cast_ok_cong [of "p\<lparr>pe_work := Left\<rparr>" p]
    by (intro hall_inv_put [OF assms(1) p(1)]) (auto simp: peer_ok_def)
qed

lemma work_ok_cong: "ha_lock s' = ha_lock s \<Longrightarrow> ha_registry s' = ha_registry s \<Longrightarrow> work_ok s' i w = work_ok s i w"
  by (cases w) simp_all

lemma inv_break:
  assumes "hall_inv s" and "ha_peers s i = Some p"
  shows "hall_inv (put_peer i (p\<lparr>pe_broken := True\<rparr>) s)" (is "hall_inv ?s")
proof -
  have cur: "current ?s t = current s t" for t using assms(2) by (auto simp: current_def split: option.splits)
  have wk: "work_ok ?s j w = work_ok s j w" for j w by (rule work_ok_cong) simp_all
  have "cast_ok (current s i) (p\<lparr>pe_broken := True\<rparr>)"
    using hall_inv_peer [OF assms] current_frame [OF assms(1)] by (intro cast_ok_break) (auto simp: peer_ok_def)
  then have "peer_ok ?s j q" if "ha_peers ?s j = Some q" for j q
    using that hall_inv_peer [OF assms] hall_inv_peer [OF assms(1), of j q] by (auto simp: peer_ok_def cur wk split: if_splits)
  moreover have "\<exists>q. ha_peers ?s j = Some q \<and> enrolled (pe_work q) \<and> spoken q" if "j \<in> ha_registry s" for j
    using that assms by (cases "j = i") (auto simp: hall_inv_def)
  ultimately show ?thesis using assms by (auto simp: hall_inv_def)
qed

lemma current_registered: "hall_inv s \<Longrightarrow> current s t = Some c \<Longrightarrow> t \<in> ha_registry s"
  by (auto simp: current_def hall_inv_def peer_ok_def target_of_def split: option.splits work.splits list.splits if_splits) fastforce

lemma peer_new_sel [simp]:
  "pe_work (peer_new r) = Hello" "pe_in (peer_new r) = r" "pe_log (peer_new r) = []" "\<not> pe_broken (peer_new r)"
  by (simp_all add: peer_new_def)

lemma inv_arrive:
  assumes "hall_inv s" and "unat (ha_next s) + 1 < 2 ^ 64"
  shows "hall_inv ((put_peer (ha_next s) (peer_new r) s)\<lparr>ha_next := ha_next s + 1\<rparr>)" (is "hall_inv ?s")
proof -
  have n: "ha_next s < ha_next s + 1" using assms(2) unat_plus_one [of "ha_next s"] by (simp add: word_less_nat_alt)
  have new: "ha_peers s (ha_next s) = None"
    using assms(1) hall_inv_peer [OF assms(1), of "ha_next s"] by (cases "ha_peers s (ha_next s)") (auto simp: peer_ok_def)
  have h: "ha_lock s \<noteq> Some (ha_next s)" using assms(1) new by (auto simp: hall_inv_def)
  have cur: "current ?s t = current s t" for t using h by (auto simp: current_def split: option.splits)
  have "current s (ha_next s) = None"
    using current_registered [OF assms(1), of "ha_next s"] new assms(1) by (cases "current s (ha_next s)") (auto simp: hall_inv_def)
  then have c: "cast_ok (current s (ha_next s)) (peer_new r)" by (auto simp: cast_ok_def intro: exI [of _ "[]"])
  have wk: "work_ok ?s j w = work_ok s j w" for j w by (rule work_ok_cong) simp_all
  have "peer_ok ?s j q" if "ha_peers ?s j = Some q" for j q
    using that c hall_inv_peer [OF assms(1), of j q] n less_trans [OF _ n, of j]
    by (auto simp: peer_ok_def cur wk split: if_splits)
  moreover have "\<exists>q. ha_peers ?s j = Some q \<and> enrolled (pe_work q) \<and> spoken q" if "j \<in> ha_registry s" for j
    using that assms(1) new by (cases "j = ha_next s") (auto simp: hall_inv_def)
  ultimately show ?thesis using assms(1) h by (auto simp: hall_inv_def)
qed


text \<open>Steps of the thread that holds the mutex. One target's stream may change.\<close>

lemma hall_inv_holder:
  assumes "hall_inv s" and "working s i p (Writing_To fr rest us dead)" and "set us' \<subseteq> set us" and "distinct us'"
    and "ha_peers s t = Some q" and "t \<noteq> i" and "talk (pe_work q) q'" and "pe_work q' = pe_work q" and "spoken q \<longrightarrow> spoken q'"
    and "cast_ok (target_of (Writing_To fr rest' us' dead') t) q'"
    and "\<And>j r. j \<noteq> t \<Longrightarrow> cast_ok (target_of (Writing_To fr rest us dead) j) r \<Longrightarrow> ha_peers s j = Some r \<Longrightarrow> cast_ok (target_of (Writing_To fr rest' us' dead') j) r"
  shows "hall_inv (put_peer i (p\<lparr>pe_work := Writing_To fr rest' us' dead'\<rparr>) (put_peer t q' s))" (is "hall_inv (put_peer i ?p ?t)")
proof -
  let ?s = "put_peer i ?p ?t" and ?w = "Writing_To fr rest' us' dead'"
  have p: "ha_peers s i = Some p" "pe_work p = Writing_To fr rest us dead" using assms(2) by (auto simp: working_def)
  have ok: "peer_ok s i p" using hall_inv_peer [OF assms(1) p(1)] .
  then have lock: "ha_lock s = Some i" using p(2) by (simp add: peer_ok_def)
  have cur: "current s j = target_of (Writing_To fr rest us dead) j" "current ?s j = target_of ?w j" for j using lock p by (simp_all add: current_def)
  have wk: "work_ok ?s j w = work_ok s j w" for j w by (rule work_ok_cong) simp_all
  have "peer_ok ?s j r" if r: "ha_peers ?s j = Some r" for j r
  proof -
    consider "j = i" "r = ?p" | "j = t" "j \<noteq> i" "r = q'" | "j \<noteq> i" "j \<noteq> t" "ha_peers s j = Some r" using r by (auto split: if_splits)
    then show ?thesis
    proof cases
      case 1
      then show ?thesis using ok assms(3,4) p cast_ok_cong [of ?p p] assms(6) assms(11) [of i p] cur by (auto simp: peer_ok_def)
    next
      case 2
      then show ?thesis using hall_inv_peer [OF assms(1,5)] assms(7,8,10) cur wk by (simp add: peer_ok_def)
    next
      case 3
      then show ?thesis using hall_inv_peer [OF assms(1) 3(3)] assms(11) [of j r] cur wk by (simp add: peer_ok_def)
    qed
  qed
  moreover have "\<exists>r. ha_peers ?s j = Some r \<and> enrolled (pe_work r) \<and> spoken r" if "j \<in> ha_registry s" for j
    using that assms(1,5,6,8,9) p hall_inv_registered [OF assms(1) that] by (cases "j = i"; cases "j = t") (auto simp: hall_inv_def)
  ultimately show ?thesis using assms(1) lock by (auto simp: hall_inv_def)
qed

lemma put_same: "ha_peers s t = Some q \<Longrightarrow> put_peer t q s = s"
  by (simp add: put_peer_def fun_upd_idem)

lemma holder_target:
  assumes "hall_inv s" and "working s i p (Writing_To fr rest (t # ts) dead)" and "ha_peers s t = Some q"
  shows "t \<noteq> i" and "distinct (t # ts)" and "\<exists>b. fr = encode_frame Text b" and "talk (pe_work q) q" and "enrolled (pe_work q)" and "spoken q"
    and "cast_ok (Some (fr, rest)) q"
proof -
  have p: "ha_peers s i = Some p" "pe_work p = Writing_To fr rest (t # ts) dead" using assms(2) by (auto simp: working_def)
  then have w: "work_ok s i (Writing_To fr rest (t # ts) dead)" using hall_inv_peer [OF assms(1) p(1)] by (simp add: peer_ok_def)
  then show "t \<noteq> i" "distinct (t # ts)" "\<exists>b. fr = encode_frame Text b" by auto
  have "t \<in> ha_registry s" using w by auto
  then show "enrolled (pe_work q)" "spoken q" using hall_inv_registered [OF assms(1) _ assms(3)] by auto
  have "current s t = Some (fr, rest)" using w p by (simp add: current_def)
  then show "talk (pe_work q) q" "cast_ok (Some (fr, rest)) q" using hall_inv_peer [OF assms(1,3)] by (simp_all add: peer_ok_def)
qed

lemma inv_cast_write:
  assumes "hall_inv s" and "working s i p (Writing_To fr rest (t # ts) dead)" and "ha_peers s t = Some q" and "\<not> pe_broken q"
  shows "hall_inv (put_peer i (p\<lparr>pe_work := Writing_To fr (drop n rest) (t # ts) dead\<rparr>) (put_peer t (pe_write False (take n rest) q) s))"
  using holder_target [OF assms(1-3)] assms(4) cast_ok_write [of fr rest q n]
  by (intro hall_inv_holder [OF assms(1,2) _ _ assms(3)]) (auto intro: talk_cast answered_cast simp: pe_write_def [THEN arg_cong [where f = pe_work]])

text \<open>Turning to the next target, after the last byte or after a failure.\<close>

lemma inv_cast_turn:
  assumes "hall_inv s" and "working s i p (Writing_To fr rest (t # ts) dead)" and "ha_peers s t = Some q" and "rest = [] \<or> pe_broken q"
  shows "hall_inv (put_peer i (p\<lparr>pe_work := Writing_To fr fr ts dead'\<rparr>) s)"
proof -
  note q = holder_target [OF assms(1-3)]
  have t: "target_of (Writing_To fr fr ts dead') t = None" using q(2) by (cases ts) auto
  have "cast_ok None q" using q(3,7) assms(4) by (auto intro: cast_ok_whole cast_ok_broken)
  moreover have "cast_ok (target_of (Writing_To fr fr ts dead') j) r" if "j \<noteq> t" "cast_ok (target_of (Writing_To fr rest (t # ts) dead) j) r" for j r
    using that by (cases ts) (auto intro: cast_ok_start)
  ultimately have "hall_inv (put_peer i (p\<lparr>pe_work := Writing_To fr fr ts dead'\<rparr>) (put_peer t q s))"
    using q t by (intro hall_inv_holder [OF assms(1,2) _ _ assms(3)]) auto
  then show ?thesis by (simp add: put_same [OF assms(3)])
qed

lemma inv_cast_lock:
  assumes "hall_inv s" and "working s i p (Casting fr)" and "ha_lock s = None" and "distinct ts" and "set ts = ha_registry s - {i}"
  shows "hall_inv ((put_peer i (p\<lparr>pe_work := Writing_To fr fr ts []\<rparr>) s)\<lparr>ha_lock := Some i\<rparr>)" (is "hall_inv ?s")
proof -
  have p: "ha_peers s i = Some p" "pe_work p = Casting fr" using assms(2) by (auto simp: working_def)
  have none: "current s j = None" for j using assms(3) by (simp add: current_def)
  have cur: "current ?s j = target_of (Writing_To fr fr ts []) j" for j by (simp add: current_def)
  have start: "cast_ok (target_of (Writing_To fr fr ts []) j) q" if "cast_ok None q" for j q using that by (cases ts) (auto intro: cast_ok_start)
  have wk: "work_ok ?s j w" if "work_ok s j w" "\<not> is_writing w" for j w using that by (cases w) simp_all
  have idle: "\<not> is_writing (pe_work q)" if "ha_peers s j = Some q" for j q
    using hall_inv_peer [OF assms(1) that] assms(3) by (cases "pe_work q") (auto simp: peer_ok_def)
  have "peer_ok ?s j q" if "ha_peers ?s j = Some q" for j q
  proof (cases "j = i")
    case True
    let ?p = "p\<lparr>pe_work := Writing_To fr fr ts []\<rparr>"
    have ok: "i < ha_next s" "talk Listening p" "\<exists>b. fr = encode_frame Text b" "cast_ok None p"
      using hall_inv_peer [OF assms(1) p(1)] p(2) by (simp_all add: peer_ok_def none)
    have "cast_ok None ?p" using cast_ok_cong [of ?p p None] ok(4) by simp
    then have "cast_ok (current ?s i) ?p" unfolding cur by (rule start)
    then have "peer_ok ?s i ?p" unfolding peer_ok_def using ok(1-3) assms(4,5) by simp
    then show ?thesis using that True by simp
  next
    case False
    then have q: "ha_peers s j = Some q" using that by simp
    then show ?thesis using hall_inv_peer [OF assms(1) q] wk [of j "pe_work q"] idle [OF q] start [of q j] by (simp add: peer_ok_def none cur)
  qed
  moreover have "\<exists>q. ha_peers ?s j = Some q \<and> enrolled (pe_work q) \<and> spoken q" if "j \<in> ha_registry s" for j
    using that assms(1) p hall_inv_registered [OF assms(1) that] by (cases "j = i") (auto simp: hall_inv_def)
  ultimately show ?thesis using assms(1) by (auto simp: hall_inv_def)
qed

lemma inv_cast_end:
  assumes "hall_inv s" and "working s i p (Writing_To fr rest [] dead)"
  shows "hall_inv ((put_peer i (p\<lparr>pe_work := Listening\<rparr>) s)\<lparr>ha_registry := ha_registry s - set dead, ha_lock := None\<rparr>)" (is "hall_inv ?s")
proof -
  have p: "ha_peers s i = Some p" "pe_work p = Writing_To fr rest [] dead" using assms(2) by (auto simp: working_def)
  then have lock: "ha_lock s = Some i" using hall_inv_peer [OF assms(1) p(1)] by (simp add: peer_ok_def)
  have cur: "current s j = None" "current ?s j = None" for j using lock p by (simp_all add: current_def)
  have idle: "\<not> is_writing (pe_work q)" if "ha_peers s j = Some q" "j \<noteq> i" for j q
    using hall_inv_peer [OF assms(1) that(1)] lock that(2) by (cases "pe_work q") (auto simp: peer_ok_def)
  have wk: "work_ok ?s j w" if "work_ok s j w" "\<not> is_writing w" for j w using that by (cases w) simp_all
  have "peer_ok ?s j q" if "ha_peers ?s j = Some q" for j q
  proof (cases "j = i")
    case True
    then show ?thesis using that hall_inv_peer [OF assms(1) p(1)] p(2) cast_ok_cong [of "p\<lparr>pe_work := Listening\<rparr>" p None] by (auto simp: peer_ok_def cur)
  next
    case False
    then have q: "ha_peers s j = Some q" using that by simp
    then show ?thesis using hall_inv_peer [OF assms(1) q] wk [of j "pe_work q"] idle [OF q False] by (simp add: peer_ok_def cur)
  qed
  moreover have "\<exists>q. ha_peers ?s j = Some q \<and> enrolled (pe_work q) \<and> spoken q" if "j \<in> ha_registry s" for j
    using that assms(1) p hall_inv_registered [OF assms(1) that] by (cases "j = i") (auto simp: hall_inv_def)
  ultimately show ?thesis using assms(1) by (auto simp: hall_inv_def)
qed

lemma hall_inv_step: "hall_step s s' \<Longrightarrow> hall_inv s \<Longrightarrow> hall_inv s'"
proof (induction rule: hall_step.induct)
  case (cast_next s i p fr t ts dead)
  have "\<exists>q. ha_peers s t = Some q"
    using cast_next hall_inv_peer [of s i p] by (auto simp: working_def peer_ok_def hall_inv_def)
  then show ?case using cast_next by (auto intro: inv_cast_turn)
qed (auto intro: inv_arrive inv_break inv_leaving inv_shake inv_own_write inv_greeted inv_ponged inv_enrol inv_hear inv_cast_lock inv_cast_write inv_cast_turn inv_cast_end inv_leave)

lemma hall_inv_reach: "hall_reach s \<Longrightarrow> hall_inv s"
proof (induction rule: hall_reach.induct)
  case (start bind args c)
  show ?case by (simp add: hall_inv_def hall_new_def)
next
  case (step s s')
  then show ?case using hall_inv_step by blast
qed


lemma casts_prefix:
  assumes "hall_inv s" and "ha_peers s i = Some p"
  shows "\<exists>ts. prefix (written_by False (pe_log p)) (texts ts)"
proof -
  obtain us x b where "written_by False (pe_log p) = texts us @ x" "prefix x (encode_frame Text b)"
    using hall_inv_peer [OF assms] current_frame [OF assms(1), of i]
    by (auto simp: peer_ok_def cast_ok_def split: if_splits option.splits) (metis append_Nil2 Nil_prefix, metis prefixI)
  then have "prefix (written_by False (pe_log p)) (texts (us @ [b]))" by simp
  then show ?thesis by blast
qed

section \<open>Whole turns\<close>

text \<open>The system between turns: no thread is within a write or a critical section. Its state is then one of \<open>Ws_Chat\<close>.\<close>

fun phase_of :: "work \<Rightarrow> phase option" where
  "phase_of Hello = Some Handshake"
| "phase_of Greeted = Some Upgraded"
| "phase_of Listening = Some Open"
| "phase_of Left = Some Ended"
| "phase_of Panicked = Some Crashed"
| "phase_of w = None"

definition client_of :: "peer \<Rightarrow> client" where
  "client_of p = \<lparr>cl_phase = the (phase_of (pe_work p)), cl_in = pe_in p, cl_out = map snd (pe_log p), cl_broken = pe_broken p\<rparr>"

definition chat_of :: "hall \<Rightarrow> chat" where
  "chat_of s = \<lparr>ch_clients = (\<lambda>i. map_option client_of (ha_peers s i)), ch_registry = ha_registry s, ch_next = ha_next s\<rparr>"

definition at_rest :: "hall \<Rightarrow> bool" where
  "at_rest s \<longleftrightarrow> ha_lock s = None \<and> (\<forall>i p. ha_peers s i = Some p \<longrightarrow> phase_of (pe_work p) \<noteq> None)"

abbreviation hall_steps :: "hall \<Rightarrow> hall \<Rightarrow> bool" where
  "hall_steps \<equiv> hall_step\<^sup>*\<^sup>*"

lemma working_put [simp]: "working (put_peer i p s) i p' w \<longleftrightarrow> p' = p \<and> pe_work p = w"
  by (auto simp: working_def)

lemma put_peer_twice [simp]: "put_peer i p (put_peer i q s) = put_peer i p s"
  by (simp add: put_peer_def)

lemma pe_write_sel [simp]:
  "pe_work (pe_write b bs p) = pe_work p" "pe_in (pe_write b bs p) = pe_in p" "pe_log (pe_write b bs p) = pe_log p @ tag b bs"
  "pe_broken (pe_write b bs p) = pe_broken p" "pe_write b [] p = p"
  by (simp_all add: pe_write_def)

lemma tag_bytes [simp]: "map snd (tag b bs) = bs"
  by (simp add: o_def)

lemma own_write_all:
  assumes "K = Greeting \<or> K = Ponging" and "working s i p (K rest)" and "\<not> pe_broken p"
  shows "hall_steps s (put_peer i ((pe_write True rest p)\<lparr>pe_work := K []\<rparr>) s)"
proof (cases "rest = []")
  case True
  then have "p\<lparr>pe_work := K []\<rparr> = p" "ha_peers s i = Some p" using assms(2) by (auto simp: working_def)
  then show ?thesis using True put_same [of s i p] by simp
next
  case False
  then have "hall_step s (put_peer i ((pe_write True (take (length rest) rest) p)\<lparr>pe_work := K (drop (length rest) rest)\<rparr>) s)"
    by (intro hall_step.own_write [OF assms]) simp_all
  then show ?thesis by simp
qed

lemma leave_now:
  assumes "working s i p Leaving" and "ha_lock s = None"
  shows "hall_step s ((put_peer i (p\<lparr>pe_work := Left\<rparr>) s)\<lparr>ha_registry := ha_registry s - {i}\<rparr>)"
  using assms by (rule hall_step.leave)

definition delivered :: "string \<Rightarrow> peer \<Rightarrow> peer" where
  "delivered fr q = (if pe_broken q then q else pe_write False fr q)"

text \<open>A broadcast that nobody interrupts.\<close>

lemma cast_run:
  assumes "working s i p (Writing_To fr fr ts dead)" and "distinct ts" and "i \<notin> set ts" and "set ts \<subseteq> dom (ha_peers s)" and "fr \<noteq> []"
  shows "\<exists>s' dead'. hall_steps s s' \<and> ha_registry s' = ha_registry s \<and> ha_next s' = ha_next s \<and> ha_lock s' = ha_lock s \<and>
    working s' i (p\<lparr>pe_work := Writing_To fr fr [] dead'\<rparr>) (Writing_To fr fr [] dead') \<and>
    set dead' = set dead \<union> {t \<in> set ts. pe_broken (the (ha_peers s t))} \<and>
    (\<forall>j. j \<noteq> i \<longrightarrow> ha_peers s' j = (if j \<in> set ts then map_option (delivered fr) (ha_peers s j) else ha_peers s j))"
  using assms
proof (induction ts arbitrary: s p dead)
  case Nil
  then have "p\<lparr>pe_work := Writing_To fr fr [] dead\<rparr> = p" by (simp add: working_def)
  then show ?case using Nil by (intro exI [of _ s] exI [of _ dead]) simp
next
  case (Cons t ts)
  obtain q where q: "ha_peers s t = Some q" using Cons.prems(4) by auto
  define dead1 where "dead1 = (if pe_broken q then t # dead else dead)"
  define s1 where "s1 = put_peer i (p\<lparr>pe_work := Writing_To fr fr ts dead1\<rparr>) (put_peer t (delivered fr q) s)"
  have "hall_steps s s1"
  proof (cases "pe_broken q")
    case True
    then have "s1 = put_peer i (p\<lparr>pe_work := Writing_To fr fr ts (t # dead)\<rparr>) s" using put_same [OF q] by (simp add: s1_def dead1_def delivered_def)
    then show ?thesis using hall_step.cast_fail [OF Cons.prems(1) q True Cons.prems(5)] by auto
  next
    case False
    let ?s = "put_peer i (p\<lparr>pe_work := Writing_To fr [] (t # ts) dead\<rparr>) (put_peer t (pe_write False fr q) s)"
    have "hall_step s ?s" using hall_step.cast_write [OF Cons.prems(1) q False, of "length fr"] Cons.prems(5) by simp
    moreover have "hall_step ?s s1" using hall_step.cast_next [of ?s i "p\<lparr>pe_work := Writing_To fr [] (t # ts) dead\<rparr>" fr t ts dead] False
      by (simp add: s1_def dead1_def delivered_def)
    ultimately show ?thesis by (meson converse_rtranclp_into_rtranclp r_into_rtranclp)
  qed
  moreover have s1: "ha_peers s1 j = (if j = t then Some (delivered fr q) else ha_peers s j)" if "j \<noteq> i" for j using that by (simp add: s1_def)
  moreover have w1: "working s1 i (p\<lparr>pe_work := Writing_To fr fr ts dead1\<rparr>) (Writing_To fr fr ts dead1)" by (simp add: s1_def)
  have dom: "set ts \<subseteq> dom (ha_peers s1)" using Cons.prems(4) by (auto simp: s1_def)
  obtain s' dead' where s': "hall_steps s1 s'" "ha_registry s' = ha_registry s1" "ha_next s' = ha_next s1" "ha_lock s' = ha_lock s1"
    "working s' i (p\<lparr>pe_work := Writing_To fr fr [] dead'\<rparr>) (Writing_To fr fr [] dead')"
    "set dead' = set dead1 \<union> {t \<in> set ts. pe_broken (the (ha_peers s1 t))}"
    "\<forall>j. j \<noteq> i \<longrightarrow> ha_peers s' j = (if j \<in> set ts then map_option (delivered fr) (ha_peers s1 j) else ha_peers s1 j)"
    using Cons.IH [OF w1 _ _ dom Cons.prems(5)] Cons.prems(2,3) by auto
  moreover have "set dead' = set dead \<union> {t' \<in> set (t # ts). pe_broken (the (ha_peers s t'))}"
  proof -
    have "ha_peers s1 j = ha_peers s j" if "j \<in> set ts" for j
    proof -
      have "j \<noteq> i" "j \<noteq> t" using that Cons.prems(2,3) by auto
      then show ?thesis by (simp add: s1)
    qed
    then have "{t \<in> set ts. pe_broken (the (ha_peers s1 t))} = {t \<in> set ts. pe_broken (the (ha_peers s t))}" by auto
    then show ?thesis using s'(6) q by (auto simp: dead1_def)
  qed
  ultimately show ?case using Cons.prems(2,3) q
    by (intro exI [of _ s'] exI [of _ dead'] conjI) (auto simp: s1_def intro: rtranclp_trans)
qed


text \<open>Steps between states at rest, and their effect on the abstract state.\<close>

lemma client_of_sel [simp]:
  "cl_in (client_of p) = pe_in p" "cl_out (client_of p) = map snd (pe_log p)" "cl_broken (client_of p) = pe_broken p"
  by (simp_all add: client_of_def)

lemma chat_of_put: "chat_of (put_peer i p s) = set_client i (client_of p) (chat_of s)"
  by (auto simp: chat_of_def set_client_def)

lemma chat_of_sel [simp]: "ch_clients (chat_of s) i = map_option client_of (ha_peers s i)" "ch_registry (chat_of s) = ha_registry s" "ch_next (chat_of s) = ha_next s"
  by (simp_all add: chat_of_def)

lemma chat_of_leave: "chat_of ((put_peer i (p\<lparr>pe_work := Left\<rparr>) s)\<lparr>ha_registry := ha_registry s - {i}\<rparr>) = end_client i (client_of p) (chat_of s)"
  by (auto simp: chat_of_def end_client_def set_client_def client_of_def)

lemma rest_put: "at_rest s \<Longrightarrow> phase_of (pe_work p) \<noteq> None \<Longrightarrow> at_rest (put_peer i p s)"
  by (simp add: at_rest_def)

lemma rest_leave: "at_rest s \<Longrightarrow> at_rest ((put_peer i (p\<lparr>pe_work := Left\<rparr>) s)\<lparr>ha_registry := R\<rparr>)"
  by (simp add: at_rest_def)

text \<open>A thread that has finished leaves: the common end of several turns.\<close>

lemma turn_leaves:
  assumes "at_rest s" and "hall_steps s (put_peer i (p\<lparr>pe_work := Leaving\<rparr>) s)"
  shows "\<exists>s'. hall_steps s s' \<and> at_rest s' \<and> chat_of s' = end_client i (client_of p) (chat_of s)"
proof -
  let ?s = "put_peer i (p\<lparr>pe_work := Leaving\<rparr>) s" and ?t = "(put_peer i (p\<lparr>pe_work := Left\<rparr>) s)\<lparr>ha_registry := ha_registry s - {i}\<rparr>"
  have "hall_step ?s ?t" using leave_now [of ?s i "p\<lparr>pe_work := Leaving\<rparr>"] assms(1) by (simp add: at_rest_def)
  then show ?thesis using assms rest_leave [OF assms(1)] chat_of_leave by (meson rtranclp.rtrancl_into_rtrancl)
qed

lemma turn_handshake:
  assumes "at_rest s" and "working s i p Hello"
  shows "\<exists>s'. hall_steps s s' \<and> at_rest s' \<and> chat_of s' = do_handshake i (client_of p) (chat_of s)"
proof -
  have shake: "hall_steps s (put_peer i (shaken p) s)" using hall_step.shake [OF assms(2)] by blast
  obtain res r where h: "read_handshake_key (pe_in p) = (res, r)" by fastforce
  have end_same: "end_client i (client_of (p\<lparr>pe_in := r, pe_work := w\<rparr>)) c = end_client i ((client_of p)\<lparr>cl_in := r\<rparr>) c" for w c
    by (simp add: end_client_def set_client_def client_of_def)
  show ?thesis
  proof (cases res)
    case (Err e)
    then show ?thesis using h shake turn_leaves [OF assms(1), of i "p\<lparr>pe_in := r\<rparr>"] end_same [of "pe_work p"]
      by (simp add: shaken_def do_handshake_def)
  next
    case (Ok key)
    let ?p = "p\<lparr>pe_in := r, pe_work := Greeting (response_to key)\<rparr>"
    have p: "shaken p = ?p" using h Ok by (simp add: shaken_def)
    have ne: "response_to key \<noteq> []" by (simp add: upgrade_response_def)
    show ?thesis
    proof (cases "pe_broken p")
      case True
      have "hall_step (put_peer i ?p s) (put_peer i (p\<lparr>pe_in := r, pe_work := Leaving\<rparr>) s)"
        using hall_step.own_fail [of Greeting "put_peer i ?p s" i ?p "response_to key"] True ne by simp
      then have "hall_steps s (put_peer i (p\<lparr>pe_in := r, pe_work := Leaving\<rparr>) s)" using shake p by (metis rtranclp.rtrancl_into_rtrancl)
      then show ?thesis using turn_leaves [OF assms(1), of i "p\<lparr>pe_in := r\<rparr>"] end_same [of "pe_work p"] True h Ok
        by (simp add: do_handshake_def send_def)
    next
      case False
      let ?q = "(pe_write True (response_to key) ?p)\<lparr>pe_work := Greeting []\<rparr>"
      have "hall_steps (put_peer i ?p s) (put_peer i ?q s)" using own_write_all [of Greeting "put_peer i ?p s" i ?p "response_to key"] False by simp
      moreover have "hall_step (put_peer i ?q s) (put_peer i (?q\<lparr>pe_work := Greeted\<rparr>) s)" using hall_step.greeted [of "put_peer i ?q s" i ?q] by simp
      ultimately have "hall_steps s (put_peer i (?q\<lparr>pe_work := Greeted\<rparr>) s)" using shake p by (metis rtranclp.rtrancl_into_rtrancl rtranclp_trans)
      moreover have "client_of (?q\<lparr>pe_work := Greeted\<rparr>) = (send (response_to key) ((client_of p)\<lparr>cl_in := r\<rparr>))\<lparr>cl_phase := Upgraded\<rparr>"
        using False by (simp add: client_of_def send_def o_def)
      ultimately show ?thesis using False h Ok rest_put [OF assms(1), of "?q\<lparr>pe_work := Greeted\<rparr>" i]
        by (intro exI [of _ "put_peer i (?q\<lparr>pe_work := Greeted\<rparr>) s"]) (simp add: chat_of_put do_handshake_def)
    qed
  qed
qed


lemma turn_cast:
  assumes "at_rest s" and "finite (ha_registry s)" and "ha_registry s \<subseteq> dom (ha_peers s)" and "pe_work p = Listening"
    and "hall_steps s (put_peer i (p\<lparr>pe_work := Casting (encode_frame Text bs)\<rparr>) s)"
  shows "\<exists>s'. hall_steps s s' \<and> at_rest s' \<and> chat_of s' = broadcast i bs (set_client i (client_of p) (chat_of s))"
proof -
  let ?fr = "encode_frame Text bs" and ?p = "p\<lparr>pe_work := Casting (encode_frame Text bs)\<rparr>"
  obtain ts where ts: "set ts = ha_registry s - {i}" "distinct ts" using finite_distinct_list [of "ha_registry s - {i}"] assms(2) by auto
  let ?held = "p\<lparr>pe_work := Writing_To ?fr ?fr ts []\<rparr>"
  define s1 where "s1 = (put_peer i ?held s)\<lparr>ha_lock := Some i\<rparr>"
  have 1: "hall_step (put_peer i ?p s) s1"
    using hall_step.cast_lock [of "put_peer i ?p s" i ?p ?fr ts] ts assms(1) by (simp add: s1_def at_rest_def)
  have w1: "working s1 i ?held (Writing_To ?fr ?fr ts [])" by (simp add: s1_def working_def)
  have d1: "set ts \<subseteq> dom (ha_peers s1)" using ts(1) assms(3) by (auto simp: s1_def)
  obtain s2 dead where s2: "hall_steps s1 s2" "ha_registry s2 = ha_registry s" "ha_next s2 = ha_next s"
    "working s2 i (p\<lparr>pe_work := Writing_To ?fr ?fr [] dead\<rparr>) (Writing_To ?fr ?fr [] dead)" "set dead = {t \<in> set ts. pe_broken (the (ha_peers s1 t))}"
    "\<forall>j. j \<noteq> i \<longrightarrow> ha_peers s2 j = (if j \<in> set ts then map_option (delivered ?fr) (ha_peers s1 j) else ha_peers s1 j)"
    using cast_run [OF w1 ts(2) _ d1] ts(1) by (auto simp: s1_def)
  define s3 where "s3 = (put_peer i (p\<lparr>pe_work := Listening\<rparr>) s2)\<lparr>ha_registry := ha_registry s2 - set dead, ha_lock := None\<rparr>"
  have 3: "hall_step s2 s3" using hall_step.cast_end [OF s2(4)] by (simp add: s3_def)
  have same: "ha_peers s1 j = ha_peers s j" if "j \<noteq> i" for j using that by (simp add: s1_def)
  have self: "p\<lparr>pe_work := Listening\<rparr> = p" using assms(4) by simp
  have peers3: "ha_peers s3 j = (if j = i then Some p else if j \<in> ha_registry s then map_option (delivered ?fr) (ha_peers s j) else ha_peers s j)" for j
    using s2(6) ts(1) same [of j] by (auto simp: s3_def self)
  have s3: "ha_registry s3 = ha_registry s - set dead" "ha_next s3 = ha_next s" "ha_lock s3 = None" by (simp_all add: s3_def s2(2,3))
  have del: "client_of (delivered ?fr q) = send ?fr (client_of q)" "pe_work (delivered ?fr q) = pe_work q" for q
    by (simp_all add: delivered_def send_def client_of_def o_def)
  have "set dead = {t \<in> ha_registry s - {i}. pe_broken (the (ha_peers s t))}" using s2(5) ts(1) same by auto
  then have "chat_of s3 = broadcast i bs (set_client i (client_of p) (chat_of s))"
    using assms(3) by (auto simp: chat_of_def broadcast_def set_client_def Let_def peers3 fun_eq_iff option.map_comp o_def del s3 split: option.splits)
  moreover have "at_rest s3" using assms(1,4) by (auto simp: at_rest_def peers3 del s3 split: if_splits)
  moreover have "hall_steps s s3" using assms(5) 1 s2(1) 3 by (meson rtranclp.rtrancl_into_rtrancl rtranclp_trans)
  ultimately show ?thesis by blast
qed

lemma turn_frame:
  assumes "at_rest s" and "finite (ha_registry s)" and "ha_registry s \<subseteq> dom (ha_peers s)" and "working s i p Listening"
  shows "\<exists>s'. hall_steps s s' \<and> at_rest s' \<and> chat_of s' = serve_frame i (client_of p) (chat_of s)"
proof -
  have pw: "pe_work p = Listening" using assms(4) by (simp add: working_def)
  have hear: "hall_steps s (put_peer i (heard p) s)" using hall_step.hear [OF assms(4)] by blast
  have quiet: "\<exists>s'. hall_steps s s' \<and> at_rest s' \<and> chat_of s' = set_client i (client_of (heard p)) (chat_of s)" if "phase_of (pe_work (heard p)) \<noteq> None"
    using hear rest_put [OF assms(1) that] chat_of_put by blast
  have in_same: "client_of (p\<lparr>pe_in := r\<rparr>) = (client_of p)\<lparr>cl_in := r\<rparr>" for r by (simp add: client_of_def)
  have leaves: "\<exists>s'. hall_steps s s' \<and> at_rest s' \<and> chat_of s' = end_client i ((client_of p)\<lparr>cl_in := r\<rparr>) (chat_of s)"
    if "hall_steps s (put_peer i (p\<lparr>pe_in := r, pe_work := Leaving\<rparr>) s)" for r
    using turn_leaves [OF assms(1), of i "p\<lparr>pe_in := r\<rparr>"] that in_same by simp
  consider (panic) "read_frame (pe_in p) = None" | (error) e r where "read_frame (pe_in p) = Some (Err e, r)"
    | (frame) f r where "read_frame (pe_in p) = Some (Ok f, r)" by (metis old.prod.exhaust option.exhaust result.exhaust)
  then show ?thesis
  proof cases
    case panic
    then show ?thesis using quiet pw by (simp add: heard_def serve_frame_def client_of_def)
  next
    case error
    then show ?thesis using hear leaves by (simp add: heard_def serve_frame_def)
  next
    case frame
    let ?pong = "encode_frame Pong (payload f)" and ?q = "p\<lparr>pe_in := r\<rparr>"
    have listens: "pe_work ?q = Listening" using pw by simp
    consider (message) "opcode f = Text" | (ping) "opcode f = Ping" | (close) "opcode f = Close" | (other) "opcode f \<notin> {Text, Ping, Close}" by blast
    then show ?thesis
    proof cases
      case message
      then have "heard p = ?q\<lparr>pe_work := Casting (encode_frame Text (payload f))\<rparr>" using frame by (simp add: heard_def)
      then show ?thesis using turn_cast [OF assms(1-3) listens, of i "payload f"] hear frame message in_same by (simp add: serve_frame_def)
    next
      case ping
      then have h: "heard p = ?q\<lparr>pe_work := Ponging ?pong\<rparr>" using frame by (simp add: heard_def)
      show ?thesis
      proof (cases "pe_broken p")
        case True
        have "hall_step (put_peer i (heard p) s) (put_peer i (?q\<lparr>pe_work := Leaving\<rparr>) s)"
          using hall_step.own_fail [of Ponging "put_peer i (heard p) s" i "heard p" ?pong] True by (simp add: h)
        then have "hall_steps s (put_peer i (p\<lparr>pe_in := r, pe_work := Leaving\<rparr>) s)" using hear by (metis rtranclp.rtrancl_into_rtrancl)
        then show ?thesis using leaves frame ping True by (simp add: serve_frame_def)
      next
        case False
        let ?w = "(pe_write True ?pong (heard p))\<lparr>pe_work := Ponging []\<rparr>"
        have "hall_steps (put_peer i (heard p) s) (put_peer i ?w s)" using own_write_all [of Ponging "put_peer i (heard p) s" i "heard p" ?pong] False by (simp add: h)
        moreover have "hall_step (put_peer i ?w s) (put_peer i (?w\<lparr>pe_work := Listening\<rparr>) s)" using hall_step.ponged [of "put_peer i ?w s" i ?w] by simp
        ultimately have "hall_steps s (put_peer i (?w\<lparr>pe_work := Listening\<rparr>) s)" using hear by (metis rtranclp.rtrancl_into_rtrancl rtranclp_trans)
        moreover have "client_of (?w\<lparr>pe_work := Listening\<rparr>) = send ?pong ((client_of p)\<lparr>cl_in := r\<rparr>)" using False pw by (simp add: h client_of_def send_def o_def)
        ultimately show ?thesis using False frame ping rest_put [OF assms(1), of "?w\<lparr>pe_work := Listening\<rparr>" i]
          by (intro exI [of _ "put_peer i (?w\<lparr>pe_work := Listening\<rparr>) s"]) (simp add: chat_of_put serve_frame_def)
      qed
    next
      case close
      then show ?thesis using hear leaves frame by (simp add: heard_def serve_frame_def)
    next
      case other
      then have h: "heard p = ?q" using frame pw by (cases "opcode f") (auto simp: heard_def)
      show ?thesis using quiet other frame pw in_same by (cases "opcode f") (auto simp: h serve_frame_def)
    qed
  qed
qed


lemma phase_of_iff [simp]:
  "phase_of w = Some Handshake \<longleftrightarrow> w = Hello" "phase_of w = Some Upgraded \<longleftrightarrow> w = Greeted" "phase_of w = Some Open \<longleftrightarrow> w = Listening"
  by (cases w; simp)+

lemma rest_phase: "at_rest s \<Longrightarrow> ha_peers s i = Some p \<Longrightarrow> phase_of (pe_work p) = Some (cl_phase (client_of p))"
  by (fastforce simp: at_rest_def client_of_def)

lemma turn_exists:
  assumes "hall_inv s" and "at_rest s" and "chat_step (chat_of s) c"
  shows "\<exists>s'. hall_steps s s' \<and> at_rest s' \<and> chat_of s' = c"
  using assms(3)
proof (cases rule: chat_step.cases)
  case (accept r)
  let ?s = "(put_peer (ha_next s) (peer_new r) s)\<lparr>ha_next := ha_next s + 1\<rparr>"
  have "hall_step s ?s" using accept by (intro hall_step.arrive) simp
  moreover have "chat_of ?s = c" using accept by (auto simp: chat_of_def accept_def client_of_def)
  ultimately show ?thesis using assms(2) by (intro exI [of _ ?s]) (auto simp: at_rest_def)
next
  case (handshake i cl)
  then obtain p where "ha_peers s i = Some p" "cl = client_of p" by auto
  moreover from this have "pe_work p = Hello" using rest_phase [OF assms(2)] handshake(3) by fastforce
  ultimately show ?thesis using turn_handshake [OF assms(2), of i p] handshake(1) by (simp add: working_def)
next
  case (register i cl)
  then obtain p where p: "ha_peers s i = Some p" "cl = client_of p" by auto
  let ?s = "(put_peer i (p\<lparr>pe_work := Listening\<rparr>) s)\<lparr>ha_registry := insert i (ha_registry s)\<rparr>"
  have "pe_work p = Greeted" using rest_phase [OF assms(2) p(1)] register(3) p(2) by simp
  then have "hall_step s ?s" using p assms(2) by (intro hall_step.enrol) (auto simp: working_def at_rest_def)
  moreover have "chat_of ?s = c" using register p by (auto simp: chat_of_def register_def set_client_def client_of_def)
  ultimately show ?thesis using assms(2) by (intro exI [of _ ?s]) (auto simp: at_rest_def)
next
  case (frame i cl)
  then obtain p where "ha_peers s i = Some p" "cl = client_of p" by auto
  moreover from this have "pe_work p = Listening" using rest_phase [OF assms(2)] frame(3) by fastforce
  moreover have "finite (ha_registry s)" "ha_registry s \<subseteq> dom (ha_peers s)" using assms(1) by (auto simp: hall_inv_def)
  ultimately show ?thesis using turn_frame [OF assms(2), of i p] frame(1) by (simp add: working_def)
next
  case (break i cl)
  then obtain p where p: "ha_peers s i = Some p" "cl = client_of p" by auto
  have "chat_of (put_peer i (p\<lparr>pe_broken := True\<rparr>) s) = c" using break p by (simp add: chat_of_put client_of_def)
  moreover have "at_rest (put_peer i (p\<lparr>pe_broken := True\<rparr>) s)" using assms(2) p(1) by (intro rest_put) (auto simp: at_rest_def)
  ultimately show ?thesis using hall_step.break [OF p(1)] by blast
qed

lemma hall_reach_steps: "hall_steps s s' \<Longrightarrow> hall_reach s \<Longrightarrow> hall_reach s'"
  by (induction rule: rtranclp_induct) (auto intro: hall_reach.step)

lemma turns_reach: "chat_reach c \<Longrightarrow> \<exists>s. hall_reach s \<and> at_rest s \<and> chat_of s = c"
proof (induction rule: chat_reach.induct)
  case (start bind args c)
  then have "chat_of hall_new = c" by (auto simp: chat_of_def hall_new_def chat_new_def chat_main_def Let_def split: result.splits)
  then show ?case using hall_reach.start [OF start] by (intro exI [of _ hall_new]) (simp add: at_rest_def hall_new_def)
next
  case (step c c')
  then obtain s where s: "hall_reach s" "at_rest s" "chat_of s = c" by blast
  then obtain s' where "hall_steps s s'" "at_rest s'" "chat_of s' = c'" using turn_exists [OF hall_inv_reach [OF s(1)] s(2)] step.hyps(2) by blast
  then show ?case using hall_reach_steps [OF _ s(1)] by blast
qed


section \<open>A pong between the bytes of a message\<close>

text \<open>The state with two clients whose threads move.\<close>

definition duo :: "hall \<Rightarrow> peer \<Rightarrow> peer \<Rightarrow> u64 option \<Rightarrow> hall" where
  "duo s p q l = s\<lparr>ha_peers := (ha_peers s)(1 \<mapsto> p, 2 \<mapsto> q), ha_lock := l\<rparr>"

lemma duo_simps [simp]:
  "put_peer 1 p' (duo s p q l) = duo s p' q l" "put_peer 2 q' (duo s p q l) = duo s p q' l" "(duo s p q l)\<lparr>ha_lock := l'\<rparr> = duo s p q l'"
  "ha_peers (duo s p q l) 1 = Some p" "ha_peers (duo s p q l) 2 = Some q" "ha_lock (duo s p q l) = l" "ha_registry (duo s p q l) = ha_registry s"
  "(duo s p q l)\<lparr>ha_registry := ha_registry s, ha_lock := l'\<rparr> = duo s p q l'"
  "working (duo s p q l) 1 p' w \<longleftrightarrow> p' = p \<and> pe_work p = w" "working (duo s p q l) 2 q' w \<longleftrightarrow> q' = q \<and> pe_work q = w"
  by (auto simp: duo_def put_peer_def working_def fun_upd_twist)

lemma duo_cast:
  assumes "\<not> pe_broken p" and "0 < n" and "n \<le> length rest"
  shows "hall_step (duo s p (q\<lparr>pe_work := Writing_To fr rest [1] []\<rparr>) (Some 2)) (duo s (pe_write False (take n rest) p) (q\<lparr>pe_work := Writing_To fr (drop n rest) [1] []\<rparr>) (Some 2))"
  using hall_step.cast_write [of "duo s p (q\<lparr>pe_work := Writing_To fr rest [1] []\<rparr>) (Some 2)" 2 "q\<lparr>pe_work := Writing_To fr rest [1] []\<rparr>" fr rest 1 "[]" "[]" p n] assms by simp

lemma duo_pong:
  assumes "\<not> pe_broken p" and "pe_work p = Ponging pong"
  shows "hall_steps (duo s p q l) (duo s ((pe_write True pong p)\<lparr>pe_work := Listening\<rparr>) q l)"
proof -
  let ?p = "(pe_write True pong p)\<lparr>pe_work := Ponging []\<rparr>"
  have "hall_steps (duo s p q l) (duo s ?p q l)" using own_write_all [of Ponging "duo s p q l" 1 p pong] assms by simp
  moreover have "hall_step (duo s ?p q l) (duo s (?p\<lparr>pe_work := Listening\<rparr>) q l)" using hall_step.ponged [of "duo s ?p q l" 1 ?p] by simp
  ultimately show ?thesis by (simp add: rtranclp.rtrancl_into_rtrancl)
qed

lemma duo_lock:
  assumes "ha_registry s = {1, 2}"
  shows "hall_step (duo s p (q\<lparr>pe_work := Casting fr\<rparr>) None) (duo s p (q\<lparr>pe_work := Writing_To fr fr [1] []\<rparr>) (Some 2))"
proof -
  have "{1} = {1, 2 :: u64} - {2}" by auto
  then show ?thesis using hall_step.cast_lock [of "duo s p (q\<lparr>pe_work := Casting fr\<rparr>) None" 2 "q\<lparr>pe_work := Casting fr\<rparr>" fr "[1]"] assms by simp
qed

lemma duo_end:
  "hall_steps (duo s p (q\<lparr>pe_work := Writing_To fr [] [1] []\<rparr>) (Some 2)) (duo s p (q\<lparr>pe_work := Listening\<rparr>) None)"
proof -
  let ?q = "q\<lparr>pe_work := Writing_To fr fr [] []\<rparr>"
  have "hall_step (duo s p (q\<lparr>pe_work := Writing_To fr [] [1] []\<rparr>) (Some 2)) (duo s p ?q (Some 2))"
    using hall_step.cast_next [of "duo s p (q\<lparr>pe_work := Writing_To fr [] [1] []\<rparr>) (Some 2)" 2 "q\<lparr>pe_work := Writing_To fr [] [1] []\<rparr>"] by simp
  moreover have "hall_step (duo s p ?q (Some 2)) (duo s p (q\<lparr>pe_work := Listening\<rparr>) None)"
    using hall_step.cast_end [of "duo s p ?q (Some 2)" 2 ?q] by simp
  ultimately show ?thesis by (meson converse_rtranclp_into_rtranclp r_into_rtranclp)
qed

lemma mixed_run:
  assumes "hall_reach s" and "at_rest s" and "ha_registry s = {1, 2}" and "working s 1 p Listening" and "working s 2 q Listening" and "\<not> pe_broken p"
    and "read_frame (pe_in p) = Some (Ok \<lparr>fin = True, opcode = Ping, payload = a\<rparr>, r1)"
    and "read_frame (pe_in q) = Some (Ok \<lparr>fin = True, opcode = Text, payload = b\<rparr>, r2)"
  shows "\<exists>s' p'. hall_reach s' \<and> at_rest s' \<and> ha_peers s' 1 = Some p' \<and> pe_work p' = Listening \<and> \<not> pe_broken p' \<and>
    pe_log p' = pe_log p @ tag False (take 1 (encode_frame Text b)) @ tag True (encode_frame Pong a) @ tag False (drop 1 (encode_frame Text b))"
proof -
  define fr where "fr = encode_frame Text b"
  define pong where "pong = encode_frame Pong a"
  have fr: "0 < length fr" "0 < length (drop 1 fr)" by (simp_all add: fr_def encode_frame_def length_bytes_def)
  let ?q = "q\<lparr>pe_in := r2\<rparr>"
  define p1 where "p1 = p\<lparr>pe_in := r1, pe_work := Ponging pong\<rparr>"
  define p2 where "p2 = pe_write False (take 1 fr) p1"
  define p3 where "p3 = (pe_write True pong p2)\<lparr>pe_work := Listening\<rparr>"
  define p4 where "p4 = pe_write False (drop 1 fr) p3"
  let ?s = "duo s p4 (?q\<lparr>pe_work := Listening\<rparr>) None"
  have ok: "\<not> pe_broken p1" "\<not> pe_broken p2" "\<not> pe_broken p3" "pe_work p2 = Ponging pong" using assms(6) by (simp_all add: p1_def p2_def p3_def)
  have "s = duo s p q None" using assms(2,4,5) by (auto simp: duo_def working_def at_rest_def intro!: hall.equality)
  then have "hall_steps s (duo s p1 q None)" using hall_step.hear [OF assms(4)] assms(7) duo_simps(1) [of _ s p q None] by (auto simp: heard_def p1_def pong_def)
  also have "hall_steps (duo s p1 q None) (duo s p1 (?q\<lparr>pe_work := Casting fr\<rparr>) None)"
    using hall_step.hear [of "duo s p1 q None" 2 q] assms(5,8) by (auto simp: heard_def fr_def working_def)
  also have "hall_steps (duo s p1 (?q\<lparr>pe_work := Casting fr\<rparr>) None) (duo s p1 (?q\<lparr>pe_work := Writing_To fr fr [1] []\<rparr>) (Some 2))" by (intro r_into_rtranclp duo_lock assms(3))
  also have "hall_steps (duo s p1 (?q\<lparr>pe_work := Writing_To fr fr [1] []\<rparr>) (Some 2)) (duo s p2 (?q\<lparr>pe_work := Writing_To fr (drop 1 fr) [1] []\<rparr>) (Some 2))"
    using duo_cast [OF ok(1), of 1 fr s fr ?q] fr(1) unfolding p2_def by (intro r_into_rtranclp) linarith
  also have "hall_steps (duo s p2 (?q\<lparr>pe_work := Writing_To fr (drop 1 fr) [1] []\<rparr>) (Some 2)) (duo s p3 (?q\<lparr>pe_work := Writing_To fr (drop 1 fr) [1] []\<rparr>) (Some 2))"
    unfolding p3_def by (rule duo_pong [OF ok(2,4)])
  also have "hall_steps (duo s p3 (?q\<lparr>pe_work := Writing_To fr (drop 1 fr) [1] []\<rparr>) (Some 2)) (duo s p4 (?q\<lparr>pe_work := Writing_To fr [] [1] []\<rparr>) (Some 2))"
    using duo_cast [OF ok(3) fr(2), of "drop 1 fr" s fr ?q] by (intro r_into_rtranclp) (simp add: p4_def)
  also have "hall_steps (duo s p4 (?q\<lparr>pe_work := Writing_To fr [] [1] []\<rparr>) (Some 2)) ?s" by (rule duo_end)
  finally have "hall_reach ?s" using hall_reach_steps assms(1) by blast
  moreover have "at_rest ?s" using assms(2) by (auto simp: duo_def at_rest_def p4_def p3_def)
  ultimately show ?thesis using assms(6) unfolding fr_def [symmetric] pong_def [symmetric]
    by (intro exI [of _ ?s] exI [of _ p4]) (simp add: p4_def p3_def p2_def p1_def)
qed

lemma mixed_unreadable:
  "\<exists>e r. read_frame \<lparr>rd_bytes = take 1 (encode_frame Text ''hi'') @ encode_frame Pong [] @ drop 1 (encode_frame Text ''hi''), rd_fault = None\<rparr> = Some (Err e, r)"
  by (simp add: encode_frame_def length_bytes_def read_frame_def read_exact_def read_length_def read_mask_def Let_def char_of_u8_def u8_of_char_def isize_max_def)

section \<open>Properties\<close>

text \<open>C22: What a client can find in its stream, in every interleaving of the threads' writes. It is a part of the response to its handshake; or the whole response
  followed by bytes of two writers: its own thread, whose bytes are pong frames in a row, and the broadcasts, whose bytes are text frames in a row, the last
  frame of each possibly not complete. Only clients that were answered in full and have not ended are registered. At most one thread broadcasts at a time, and between
  broadcasts a client that waits for input on a working connection has been sent whole frames only. In particular a client that never pings reads the response and the messages as sent.\<close>

theorem wire_safety:
  assumes "hall_reach s" and "ha_peers s i = Some p"
  shows "(quiet p \<or> (\<exists>key tail ps ts. pe_log p = tag True (response_to key) @ tail \<and> prefix (written_by True tail) (pongs ps) \<and>
        prefix (written_by False tail) (texts ts) \<and> (written_by True tail = [] \<longrightarrow> prefix (map snd (pe_log p)) (response_to key @ texts ts)))) \<and>
    (i \<in> ha_registry s \<longrightarrow> enrolled (pe_work p) \<and> spoken p) \<and>
    (\<forall>j q. ha_peers s j = Some q \<and> is_writing (pe_work p) \<and> is_writing (pe_work q) \<longrightarrow> j = i) \<and>
    (ha_lock s = None \<and> pe_work p = Listening \<and> \<not> pe_broken p \<longrightarrow>
       (\<exists>key tail ps ts. pe_log p = tag True (response_to key) @ tail \<and> written_by True tail = pongs ps \<and> written_by False tail = texts ts))"
proof (intro conjI)
  have inv: "hall_inv s" using hall_inv_reach [OF assms(1)] .
  note ok = hall_inv_peer [OF inv assms(2)]
  obtain ts where ts: "prefix (written_by False (pe_log p)) (texts ts)" using casts_prefix [OF inv assms(2)] by blast
  show "quiet p \<or> (\<exists>key tail ps ts. pe_log p = tag True (response_to key) @ tail \<and> prefix (written_by True tail) (pongs ps) \<and>
        prefix (written_by False tail) (texts ts) \<and> (written_by True tail = [] \<longrightarrow> prefix (map snd (pe_log p)) (response_to key @ texts ts)))"
  proof (cases "quiet p")
    case False
    then have "spoken p" using ok talk_quits by (auto simp: peer_ok_def)
    then obtain key tail ps where t: "pe_log p = tag True (response_to key) @ tail" "prefix (written_by True tail) (pongs ps)" by (auto simp: answered_then_def)
    have f: "prefix (written_by False tail) (texts ts)" using ts t(1) by simp
    have "prefix (map snd (pe_log p)) (response_to key @ texts ts)" if "written_by True tail = []"
      using one_writer [of False tail] that f t(1) by (simp add: o_def)
    then show ?thesis using t f by blast
  qed simp
  show "i \<in> ha_registry s \<longrightarrow> enrolled (pe_work p) \<and> spoken p" using hall_inv_registered [OF inv _ assms(2)] by blast
  have lock: "ha_lock s = Some j" if "ha_peers s j = Some q" "is_writing (pe_work q)" for j q
    using hall_inv_peer [OF inv that(1)] that(2) by (cases "pe_work q") (auto simp: peer_ok_def)
  show "\<forall>j q. ha_peers s j = Some q \<and> is_writing (pe_work p) \<and> is_writing (pe_work q) \<longrightarrow> j = i"
    using lock [OF assms(2)] lock by auto
  show "ha_lock s = None \<and> pe_work p = Listening \<and> \<not> pe_broken p \<longrightarrow>
       (\<exists>key tail ps ts. pe_log p = tag True (response_to key) @ tail \<and> written_by True tail = pongs ps \<and> written_by False tail = texts ts)"
  proof (intro impI)
    assume idle: "ha_lock s = None \<and> pe_work p = Listening \<and> \<not> pe_broken p"
    then obtain key tail ps where "pe_log p = tag True (response_to key) @ tail" "written_by True tail = pongs ps" using ok by (auto simp: peer_ok_def answered_then_def)
    moreover from this obtain us where "written_by False tail = texts us" using ok idle by (auto simp: peer_ok_def current_def cast_ok_def)
    ultimately show "\<exists>key tail ps ts. pe_log p = tag True (response_to key) @ tail \<and> written_by True tail = pongs ps \<and> written_by False tail = texts ts" by blast
  qed
qed

theorem wire_safety_witness:
  "\<exists>s p. hall_reach s \<and> ha_peers s 1 = Some p \<and> 1 \<in> ha_registry s \<and> enrolled (pe_work p) \<and> spoken p"
proof -
  obtain c where c: "chat_reach c" "1 \<in> ch_registry c" "ch_clients c 1 \<noteq> None" 
    using client_joins [OF chat_start, of "[]" None] by (auto simp: chat_new_def)
  then obtain s where s: "hall_reach s" "chat_of s = c" using turns_reach by blast
  then obtain p where "ha_peers s 1 = Some p" "1 \<in> ha_registry s" using c by (auto simp: chat_of_def)
  then show ?thesis using wire_safety [OF s(1)] s(1) by blast
qed




text \<open>C38: A pong and a message can be mixed on the wire. There is a run, with every connection working and every thread back at rest, in which the first byte of a message is
  followed by the whole pong and then by the rest of the message: the client cannot read even one frame behind its response.\<close>

theorem frames_mixed:
  "\<exists>s p key mixed. hall_reach s \<and> at_rest s \<and> ha_peers s 1 = Some p \<and> pe_work p = Listening \<and> \<not> pe_broken p \<and>
     map snd (pe_log p) = response_to key @ mixed \<and>
     mixed = take 1 (encode_frame Text ''hi'') @ encode_frame Pong [] @ drop 1 (encode_frame Text ''hi'') \<and>
     (\<exists>e r. read_frame \<lparr>rd_bytes = mixed, rd_fault = None\<rparr> = Some (Err e, r))"
proof -
  let ?fr = "encode_frame Text ''hi''" and ?pong = "encode_frame Pong []"
  let ?in1 = "client_frame Ping ''abcd'' []" and ?in2 = "client_frame Text ''abcd'' ''hi''"
  let ?c = "\<lambda>b. \<lparr>cl_phase = Open, cl_in = \<lparr>rd_bytes = b, rd_fault = None\<rparr>, cl_out = response_to ''k'', cl_broken = False\<rparr>"
  obtain c1 where c1: "chat_reach c1" "ch_next c1 = 2" "ch_registry c1 = {1}" "ch_clients c1 = [1 \<mapsto> ?c ?in1]"
    using client_joins [OF chat_start, of ?in1 None] by (auto simp: chat_new_def)
  obtain c2 where c2: "chat_reach c2" "ch_registry c2 = {1, 2}" "ch_clients c2 = [1 \<mapsto> ?c ?in1, 2 \<mapsto> ?c ?in2]"
    using client_joins [OF c1(1), of ?in2 None] c1 by (auto simp: insert_commute)
  obtain s where s: "hall_reach s" "at_rest s" "chat_of s = c2" using turns_reach [OF c2(1)] by blast
  have reg: "ha_registry s = {1, 2}" and lock: "ha_lock s = None" using s c2(2) by (auto simp: chat_of_def at_rest_def)
  have "map_option client_of (ha_peers s 1) = Some (?c ?in1)" "map_option client_of (ha_peers s 2) = Some (?c ?in2)"
    using chat_of_sel(1) [of s 1] chat_of_sel(1) [of s 2] s(3) c2(3) by simp_all
  then obtain p q where p: "ha_peers s 1 = Some p" "client_of p = ?c ?in1" and q: "ha_peers s 2 = Some q" "client_of q = ?c ?in2" by auto
  have w: "working s 1 p Listening" "working s 2 q Listening"
    using rest_phase [OF s(2)] p q by (fastforce simp: working_def)+
  have pf: "pe_in p = \<lparr>rd_bytes = ?in1, rd_fault = None\<rparr>" "map snd (pe_log p) = response_to ''k''" "\<not> pe_broken p" "pe_in q = \<lparr>rd_bytes = ?in2, rd_fault = None\<rparr>"
    using p(2) q(2) by (simp_all add: client_of_def)
  have f: "read_frame (pe_in p) = Some (Ok \<lparr>fin = True, opcode = Ping, payload = []\<rparr>, \<lparr>rd_bytes = [], rd_fault = None\<rparr>)"
    "read_frame (pe_in q) = Some (Ok \<lparr>fin = True, opcode = Text, payload = ''hi''\<rparr>, \<lparr>rd_bytes = [], rd_fault = None\<rparr>)"
    using read_client_frame [of Ping "[]" "''abcd''" "pe_in p" "[]"] read_client_frame [of Text "''hi''" "''abcd''" "pe_in q" "[]"]
    by (simp_all add: pf isize_max_def)
  obtain s' p' where s': "hall_reach s'" "at_rest s'" "ha_peers s' 1 = Some p'" "pe_work p' = Listening" "\<not> pe_broken p'"
    "pe_log p' = pe_log p @ tag False (take 1 ?fr) @ tag True ?pong @ tag False (drop 1 ?fr)"
    using mixed_run [OF s(1,2) reg w pf(3) f] by blast
  have "map snd (pe_log p') = response_to ''k'' @ take 1 ?fr @ ?pong @ drop 1 ?fr" by (simp add: s'(6) pf(2) o_def del: One_nat_def)
  moreover have "\<exists>e r. read_frame \<lparr>rd_bytes = take 1 ?fr @ ?pong @ drop 1 ?fr, rd_fault = None\<rparr> = Some (Err e, r)" by (rule mixed_unreadable)
  ultimately show ?thesis using s'(1-5) by blast
qed

end
