(* ===== verification/Roguelike.thy ===== *)
theory Roguelike
  imports Rust_Prelude
begin

unbundle bit_operations_syntax

text \<open>
  The dungeon engine of \<open>2026-10-02-rust-roguelike/src/lib.rs\<close>: the generator of maps, the game
  turn and the text renderer. Coordinates and hit points (\<open>i32\<close>) are integers; the
  additions whose operands come from a caller or from the random numbers are checked, and an index out of the tile
  vector, a division by zero and an overflow are panics (\<open>None\<close>).
\<close>

section \<open>Random numbers\<close>

definition i32_ok :: "int \<Rightarrow> bool" where
  "i32_ok n \<longleftrightarrow> - (2 ^ 31) \<le> n \<and> n < 2 ^ 31"

definition rng_new :: "u64 \<Rightarrow> u64" where
  "rng_new seed = max seed 1"

definition rng_next :: "u64 \<Rightarrow> u64" where
  "rng_next x0 =
     (let x1 = x0 XOR push_bit 13 x0;
          x2 = x1 XOR drop_bit 7 x1
      in x2 XOR push_bit 17 x2)"

text \<open>\<open>(hi - lo) as u64\<close> extends the sign, \<open>as i32\<close> truncates.\<close>

definition rng_range :: "u64 \<Rightarrow> int \<Rightarrow> int \<Rightarrow> (int \<times> u64) option" where
  "rng_range s lo hi =
     (let s' = rng_next s; d = word_of_int (hi - lo) :: u64
      in if \<not> i32_ok (hi - lo) \<or> d = 0 then None
         else (let r = lo + sint (ucast (s' mod d) :: u32)
               in if i32_ok r then Some (r, s') else None))"

section \<open>Maps\<close>

datatype Tile = Wall | Floor

record Rect =
  rx :: int
  ry :: int
  rw :: int
  rh :: int

text \<open>Division by two truncates towards zero.\<close>

definition half :: "int \<Rightarrow> int" where
  "half n = (if n < 0 then - (- n div 2) else n div 2)"

definition center :: "Rect \<Rightarrow> int \<times> int" where
  "center r = (rx r + half (rw r), ry r + half (rh r))"

definition intersects :: "Rect \<Rightarrow> Rect \<Rightarrow> bool" where
  "intersects a b \<longleftrightarrow>
     rx a \<le> rx b + rw b \<and> rx a + rw a \<ge> rx b \<and> ry a \<le> ry b + rh b \<and> ry a + rh a \<ge> ry b"

record Map =
  map_width :: int
  map_height :: int
  tiles :: "Tile list"
  rooms :: "Rect list"

definition idx :: "Map \<Rightarrow> int \<Rightarrow> int \<Rightarrow> int" where
  "idx m x y = y * map_width m + x"

definition in_bounds :: "Map \<Rightarrow> int \<Rightarrow> int \<Rightarrow> bool" where
  "in_bounds m x y \<longleftrightarrow> x \<ge> 0 \<and> y \<ge> 0 \<and> x < map_width m \<and> y < map_height m"

definition walkable :: "Map \<Rightarrow> int \<Rightarrow> int \<Rightarrow> bool" where
  "walkable m x y \<longleftrightarrow> in_bounds m x y \<and> tiles m ! nat (idx m x y) = Floor"

definition carve :: "int \<times> int \<Rightarrow> Map \<Rightarrow> Map option" where
  "carve p m =
     (let i = idx m (fst p) (snd p)
      in if 0 \<le> i \<and> i < int (length (tiles m)) then Some (m\<lparr>tiles := (tiles m)[nat i := Floor]\<rparr>) else None)"

fun carve_all :: "(int \<times> int) list \<Rightarrow> Map \<Rightarrow> Map option" where
  "carve_all [] m = Some m"
| "carve_all (p # ps) m = (case carve p m of None \<Rightarrow> None | Some m' \<Rightarrow> carve_all ps m')"

definition room_cells :: "Rect \<Rightarrow> (int \<times> int) list" where
  "room_cells r = concat (map (\<lambda>y. map (\<lambda>x. (x, y)) [rx r..rx r + rw r - 1]) [ry r..ry r + rh r - 1])"

definition carve_room :: "Rect \<Rightarrow> Map \<Rightarrow> Map option" where
  "carve_room r m = carve_all (room_cells r) m"

definition carve_h :: "int \<Rightarrow> int \<Rightarrow> int \<Rightarrow> Map \<Rightarrow> Map option" where
  "carve_h x1 x2 y m = carve_all (map (\<lambda>x. (x, y)) [min x1 x2..max x1 x2]) m"

definition carve_v :: "int \<Rightarrow> int \<Rightarrow> int \<Rightarrow> Map \<Rightarrow> Map option" where
  "carve_v y1 y2 x m = carve_all (map (\<lambda>y. (x, y)) [min y1 y2..max y1 y2]) m"

text \<open>The corridor from the previous room; the direction is drawn only when there is one.\<close>

definition carve_corridor :: "Rect \<Rightarrow> u64 \<times> Map \<Rightarrow> (u64 \<times> Map) option" where
  "carve_corridor room sm =
     (let (s, m) = sm in
      if rooms m = [] then Some (s, m)
      else (let (px, py) = center (last (rooms m)); (nx, ny) = center room; s' = rng_next s
            in map_option (Pair s')
                 (if s' mod 2 = 0
                  then Option.bind (carve_h px nx py m) (carve_v py ny nx)
                  else Option.bind (carve_v py ny px m) (carve_h px nx ny))))"

definition place_room :: "Rect \<Rightarrow> u64 \<times> Map \<Rightarrow> (u64 \<times> Map) option" where
  "place_room room sm =
     (let (s, m) = sm in
      if list_ex (\<lambda>r. intersects r room) (rooms m) then Some (s, m)
      else (case carve_room room m of
              None \<Rightarrow> None
            | Some m1 \<Rightarrow>
                map_option (\<lambda>(s', m2). (s', m2\<lparr>rooms := rooms m2 @ [room]\<rparr>)) (carve_corridor room (s, m1))))"

definition draw_room :: "int \<Rightarrow> int \<Rightarrow> u64 \<Rightarrow> (Rect \<times> u64) option" where
  "draw_room width height s0 =
     Option.bind (rng_range s0 4 10) (\<lambda>(w, s1).
     Option.bind (rng_range s1 3 7) (\<lambda>(h, s2).
     Option.bind (rng_range s2 1 (width - w - 1)) (\<lambda>(x, s3).
     Option.bind (rng_range s3 1 (height - h - 1)) (\<lambda>(y, s4).
     Some (\<lparr>rx = x, ry = y, rw = w, rh = h\<rparr>, s4)))))"

fun gen_rooms :: "nat \<Rightarrow> u64 \<times> Map \<Rightarrow> (u64 \<times> Map) option" where
  "gen_rooms 0 sm = Some sm"
| "gen_rooms (Suc n) (s, m) =
     (case draw_room (map_width m) (map_height m) s of
        None \<Rightarrow> None
      | Some (room, s') \<Rightarrow> Option.bind (place_room room (s', m)) (gen_rooms n))"

definition blank_map :: "int \<Rightarrow> int \<Rightarrow> Map" where
  "blank_map width height =
     \<lparr>map_width = width, map_height = height, tiles = replicate (nat (width * height)) Wall, rooms = []\<rparr>"

definition generate :: "int \<Rightarrow> int \<Rightarrow> u64 \<Rightarrow> Map option" where
  "generate width height seed =
     (if width * height < 0 \<or> \<not> i32_ok (width * height) then None
      else map_option snd (gen_rooms 30 (rng_new seed, blank_map width height)))"

section \<open>The game\<close>

record Actor =
  ax :: int
  ay :: int
  hp :: int
  power :: int
  glyph :: char

record Game =
  gmap :: Map
  player :: Actor
  monsters :: "Actor list"
  glog :: "string list"

fun spawn :: "Rect list \<Rightarrow> u64 \<Rightarrow> Actor list option" where
  "spawn [] s = Some []"
| "spawn (r # rs) s =
     Option.bind (rng_range s 0 (rw r)) (\<lambda>(dx, s1).
     Option.bind (rng_range s1 0 (rh r)) (\<lambda>(dy, s2).
     map_option (Cons \<lparr>ax = rx r + dx, ay = ry r + dy, hp = 6, power = 2, glyph = CHR ''o''\<rparr>) (spawn rs s2)))"

definition game_new :: "u64 \<Rightarrow> Game option" where
  "game_new seed =
     (case generate 60 24 seed of
        None \<Rightarrow> None
      | Some m \<Rightarrow>
          (case rooms m of
             [] \<Rightarrow> None
           | r0 # rs \<Rightarrow>
               (let (px, py) = center r0
                in map_option (\<lambda>ms. \<lparr>gmap = m, player = \<lparr>ax = px, ay = py, hp = 30, power = 3, glyph = CHR ''@''\<rparr>,
                     monsters = ms, glog = []\<rparr>) (spawn rs (rng_new (seed XOR 0x9e3779b97f4a7c15))))))"

definition alive_at :: "int \<Rightarrow> int \<Rightarrow> Actor \<Rightarrow> bool" where
  "alive_at x y a \<longleftrightarrow> ax a = x \<and> ay a = y \<and> hp a > 0"

fun position :: "('a \<Rightarrow> bool) \<Rightarrow> 'a list \<Rightarrow> nat option" where
  "position P [] = None"
| "position P (x # xs) = (if P x then Some 0 else map_option Suc (position P xs))"

definition monster_at :: "Game \<Rightarrow> int \<Rightarrow> int \<Rightarrow> nat option" where
  "monster_at g x y = position (alive_at x y) (monsters g)"

definition cheb :: "int \<Rightarrow> int \<Rightarrow> int" where
  "cheb dx dy = max \<bar>dx\<bar> \<bar>dy\<bar>"

text \<open>The first of the two tries that is a step and is free.\<close>

fun try_steps :: "nat \<Rightarrow> int \<Rightarrow> int \<Rightarrow> (int \<times> int) list \<Rightarrow> Game \<Rightarrow> Game" where
  "try_steps i mx my [] g = g"
| "try_steps i mx my ((tx, ty) # ts) g =
     (if (tx, ty) = (0, 0) then try_steps i mx my ts g
      else (let nx = mx + tx; ny = my + ty;
                blocked = (nx, ny) = (ax (player g), ay (player g)) \<or> monster_at g nx ny \<noteq> None
            in if walkable (gmap g) nx ny \<and> \<not> blocked
               then g\<lparr>monsters := (monsters g)[i := (monsters g ! i)\<lparr>ax := nx, ay := ny\<rparr>]\<rparr>
               else try_steps i mx my ts g))"

definition monster_act :: "nat \<Rightarrow> Game \<Rightarrow> Game" where
  "monster_act i g =
     (let mo = monsters g ! i in
      if hp mo \<le> 0 then g
      else (let dx = ax (player g) - ax mo; dy = ay (player g) - ay mo in
            if cheb dx dy > 8 then g
            else if cheb dx dy \<le> 1
            then g\<lparr>player := (player g)\<lparr>hp := hp (player g) - power mo\<rparr>,
                   glog := glog g @ [''The orc hits you for '' @ show_int (power mo)]\<rparr>
            else try_steps i (ax mo) (ay mo)
                   (if \<bar>dx\<bar> \<ge> \<bar>dy\<bar> then [(sgn dx, 0), (0, sgn dy)] else [(0, sgn dy), (sgn dx, 0)]) g))"

definition monsters_act :: "Game \<Rightarrow> Game" where
  "monsters_act g = fold monster_act [0..<length (monsters g)] g"

definition hit_monster :: "nat \<Rightarrow> Game \<Rightarrow> Game" where
  "hit_monster i g =
     (let mo = monsters g ! i; h = hp mo - power (player g)
      in g\<lparr>monsters := (monsters g)[i := mo\<lparr>hp := h\<rparr>],
           glog := glog g @ [''You hit the orc for '' @ show_int (power (player g))] @
             (if h \<le> 0 then [''The orc dies''] else [])\<rparr>)"

definition player_move :: "int \<Rightarrow> int \<Rightarrow> Game \<Rightarrow> (bool \<times> Game) option" where
  "player_move dx dy g =
     (let nx = ax (player g) + dx; ny = ay (player g) + dy in
      if \<not> i32_ok nx \<or> \<not> i32_ok ny then None
      else (case monster_at g nx ny of
              Some i \<Rightarrow> Some (True, monsters_act (hit_monster i g))
            | None \<Rightarrow>
                if walkable (gmap g) nx ny
                then Some (True, monsters_act (g\<lparr>player := (player g)\<lparr>ax := nx, ay := ny\<rparr>\<rparr>))
                else Some (False, g)))"

definition is_dead :: "Game \<Rightarrow> bool" where
  "is_dead g \<longleftrightarrow> hp (player g) \<le> 0"

definition cell_char :: "Game \<Rightarrow> int \<Rightarrow> int \<Rightarrow> char" where
  "cell_char g x y =
     (if (x, y) = (ax (player g), ay (player g)) then CHR ''@''
      else if monster_at g x y \<noteq> None then CHR ''o''
      else if walkable (gmap g) x y then CHR ''.'' else CHR ''#'')"

definition render_game :: "Game \<Rightarrow> string" where
  "render_game g =
     concat (map (\<lambda>y. map (\<lambda>x. cell_char g x y) [0..map_width (gmap g) - 1] @ [CHR 0x0A])
       [0..map_height (gmap g) - 1])"

section \<open>The generator of random numbers\<close>

lemma push_bit_fixed: "(x :: u64) = push_bit k x \<Longrightarrow> 0 < k \<Longrightarrow> x = 0"
proof (rule bit_eqI)
  fix n assume x: "x = push_bit k x" "0 < k"
  have "\<not> bit x n"
  proof (induction n rule: less_induct)
    case (less n)
    have "bit x n \<longleftrightarrow> bit (push_bit k x) n" using x(1) by simp
    then show ?case using less x(2) by (simp add: bit_push_bit_iff)
  qed
  then show "bit x n \<longleftrightarrow> bit 0 n" by simp
qed

lemma drop_bit_fixed: "(x :: u64) = drop_bit k x \<Longrightarrow> 0 < k \<Longrightarrow> x = 0"
proof (rule ccontr)
  assume x: "x = drop_bit k x" "0 < k" "x \<noteq> 0"
  then have "unat x = unat x div 2 ^ k" by (metis unat_drop_bit_eq drop_bit_eq_div)
  moreover have "0 < unat x" using x(3) by (simp add: unat_gt_0)
  then have "unat x div 2 ^ k < unat x" using x(2) by (intro div_less_dividend) (auto simp: one_less_power simp flip: One_nat_def)
  ultimately show False by simp
qed

lemma xor_shift_nonzero:
  "x \<noteq> 0 \<Longrightarrow> 0 < k \<Longrightarrow> x XOR push_bit k x \<noteq> (0 :: u64)"
  "x \<noteq> 0 \<Longrightarrow> 0 < k \<Longrightarrow> x XOR drop_bit k x \<noteq> (0 :: u64)"
  using push_bit_fixed [of x k] drop_bit_fixed [of x k] by (metis xor_self_eq xor.left_commute xor.right_neutral)+

lemma rng_next_nonzero: "x \<noteq> 0 \<Longrightarrow> rng_next x \<noteq> 0"
  unfolding rng_next_def Let_def by (intro xor_shift_nonzero) simp_all

lemma rng_new_nonzero: "rng_new s \<noteq> 0"
proof -
  have "1 \<le> rng_new s" by (simp add: rng_new_def)
  then show ?thesis by auto
qed

text \<open>A range that fits 31 bits never panics and is respected.\<close>

lemma rng_range_ok:
  assumes "lo < hi" and "i32_ok lo" and "i32_ok hi" and "hi - lo < 2 ^ 31"
  shows "\<exists>r s'. rng_range s lo hi = Some (r, s') \<and> lo \<le> r \<and> r < hi \<and> (s \<noteq> 0 \<longrightarrow> s' \<noteq> 0)"
proof -
  let ?s = "rng_next s"
  define d :: u64 where "d = word_of_int (hi - lo)"
  have ud: "uint d = hi - lo" unfolding d_def
    using assms(1,4) by (simp only: uint_word_of_int) (simp add: mod_pos_pos_trivial)
  then have dn: "d \<noteq> 0" using assms(1) by (metis eq_iff_diff_eq_0 less_irrefl uint_0_iff)
  have m: "uint (?s mod d) = uint ?s mod (hi - lo)"
    by (simp add: uint_mod ud)
  have b: "0 \<le> uint (?s mod d)" "uint (?s mod d) < hi - lo"
    using assms(1) by (simp_all add: m)
  have "uint (ucast (?s mod d) :: u32) = uint (?s mod d)"
    using b assms(4) by (simp add: unsigned_ucast_eq take_bit_int_eq_self)
  then have "sint (ucast (?s mod d) :: u32) = uint (?s mod d)"
  proof -
    have "signed_take_bit 31 (uint (?s mod d)) = uint (?s mod d)"
      by (rule signed_take_bit_int_eq_self) (use b assms(4) in linarith)+
    then show ?thesis
      using \<open>uint (ucast (?s mod d) :: u32) = uint (?s mod d)\<close> by (simp add: sint_uint)
  qed
  moreover have "i32_ok (hi - lo)" "i32_ok (lo + uint (?s mod d))"
    unfolding i32_ok_def using b assms [unfolded i32_ok_def] by linarith+
  ultimately show ?thesis
    unfolding rng_range_def Let_def d_def [symmetric]
    using b dn rng_next_nonzero [of s] by simp
qed

text \<open>What the generator of maps relies on.\<close>

locale random_source =
  fixes range :: "'s \<Rightarrow> int \<Rightarrow> int \<Rightarrow> (int \<times> 's) option" and good :: "'s \<Rightarrow> bool"
  assumes range_ok: "lo < hi \<Longrightarrow> 0 \<le> lo \<Longrightarrow> hi < 2 ^ 31 \<Longrightarrow> good s \<Longrightarrow>
      \<exists>r s'. range s lo hi = Some (r, s') \<and> lo \<le> r \<and> r < hi \<and> good s'"
begin

text \<open>Four draws give a room that keeps a wall around it.\<close>

lemma four_draws:
  assumes "12 \<le> width" and "9 \<le> height" and "width < 2 ^ 31" and "height < 2 ^ 31" and "good s"
  obtains w h x y s1 s2 s3 s4 where
    "range s 4 10 = Some (w, s1)" "range s1 3 7 = Some (h, s2)"
    "range s2 1 (width - w - 1) = Some (x, s3)" "range s3 1 (height - h - 1) = Some (y, s4)"
    "4 \<le> w" "3 \<le> h" "1 \<le> x" "x + w < width - 1" "1 \<le> y" "y + h < height - 1" "w < 10" "h < 7" "good s4"
proof -
  obtain w s1 where w: "range s 4 10 = Some (w, s1)" "4 \<le> w" "w < 10" "good s1"
    using range_ok [of 4 10 s] assms by auto
  obtain h s2 where h: "range s1 3 7 = Some (h, s2)" "3 \<le> h" "h < 7" "good s2"
    using range_ok [of 3 7 s1] w by auto
  obtain x s3 where x: "range s2 1 (width - w - 1) = Some (x, s3)" "1 \<le> x" "x < width - w - 1" "good s3"
    using range_ok [of 1 "width - w - 1" s2] w h assms by auto
  obtain y s4 where y: "range s3 1 (height - h - 1) = Some (y, s4)" "1 \<le> y" "y < height - h - 1" "good s4"
    using range_ok [of 1 "height - h - 1" s3] h x assms by auto
  show ?thesis using w h x y by (intro that [of w s1 h s2 x s3 y s4]) auto
qed

end

interpretation rng: random_source rng_range "\<lambda>s. s \<noteq> 0"
proof
  fix lo hi :: int and s :: u64 assume "lo < hi" "0 \<le> lo" "hi < 2 ^ 31" "s \<noteq> (0 :: u64)"
  then show "\<exists>r s'. rng_range s lo hi = Some (r, s') \<and> lo \<le> r \<and> r < hi \<and> s' \<noteq> 0"
    using rng_range_ok [of lo hi s] by (auto simp: i32_ok_def)
qed

section \<open>Connected sets of cells\<close>

definition adjacent :: "int \<times> int \<Rightarrow> int \<times> int \<Rightarrow> bool" where
  "adjacent p q \<longleftrightarrow> \<bar>fst p - fst q\<bar> + \<bar>snd p - snd q\<bar> = 1"

definition walk_in :: "(int \<times> int) set \<Rightarrow> ((int \<times> int) \<times> (int \<times> int)) set" where
  "walk_in S = {(p, q). p \<in> S \<and> q \<in> S \<and> adjacent p q}\<^sup>*"

definition connected :: "(int \<times> int) set \<Rightarrow> bool" where
  "connected S \<longleftrightarrow> (\<forall>p \<in> S. \<forall>q \<in> S. (p, q) \<in> walk_in S)"

lemma walk_in_mono: "S \<subseteq> T \<Longrightarrow> (p, q) \<in> walk_in S \<Longrightarrow> (p, q) \<in> walk_in T"
  unfolding walk_in_def by (erule rtrancl_mono [THEN subsetD, rotated]) auto

lemma walk_in_trans: "(p, q) \<in> walk_in S \<Longrightarrow> (q, r) \<in> walk_in S \<Longrightarrow> (p, r) \<in> walk_in S"
  unfolding walk_in_def by (rule rtrancl_trans)

lemma connectedI:
  assumes "\<And>p. p \<in> S \<Longrightarrow> (p, c) \<in> walk_in S \<and> (c, p) \<in> walk_in S"
  shows "connected S"
  using assms walk_in_trans unfolding connected_def by blast

lemma connected_Un:
  assumes "connected S" and "connected T" and "c \<in> S" and "c \<in> T"
  shows "connected (S \<union> T)"
proof (rule connectedI [of _ c])
  fix p assume "p \<in> S \<union> T"
  then show "(p, c) \<in> walk_in (S \<union> T) \<and> (c, p) \<in> walk_in (S \<union> T)"
    using assms walk_in_mono [of S "S \<union> T"] walk_in_mono [of T "S \<union> T"] unfolding connected_def by blast
qed

text \<open>Straight segments. The function \<open>f\<close> is the segment's cell at a coordinate.\<close>

lemma line_connected:
  assumes "\<And>i. adjacent (f i) (f (i + 1)) \<and> adjacent (f (i + 1)) (f i)"
  shows "connected (f ` {a..b :: int})"
proof (rule connectedI [of _ "f a"])
  let ?S = "f ` {a..b}"
  have "(f a, f (a + int n)) \<in> walk_in ?S \<and> (f (a + int n), f a) \<in> walk_in ?S" if "a + int n \<le> b" for n
    using that
  proof (induction n)
    case 0
    then show ?case by (simp add: walk_in_def)
  next
    case (Suc n)
    let ?p = "f (a + int n)" and ?q = "f (a + int (Suc n))"
    have "?p \<in> ?S" "?q \<in> ?S" using Suc.prems by auto
    moreover have "adjacent ?p ?q \<and> adjacent ?q ?p" using assms [of "a + int n"] by (simp add: algebra_simps)
    ultimately have "(?p, ?q) \<in> walk_in ?S" "(?q, ?p) \<in> walk_in ?S"
      unfolding walk_in_def by (auto intro!: r_into_rtrancl)
    moreover have "(f a, ?p) \<in> walk_in ?S \<and> (?p, f a) \<in> walk_in ?S" using Suc by simp
    ultimately show ?case using walk_in_trans by blast
  qed
  then show "(p, f a) \<in> walk_in ?S \<and> (f a, p) \<in> walk_in ?S" if "p \<in> ?S" for p
    using that by (auto simp: image_iff) (metis atLeastAtMost_iff zle_iff_zadd)+
qed

definition hseg :: "int \<Rightarrow> int \<Rightarrow> int \<Rightarrow> (int \<times> int) set" where
  "hseg x1 x2 y = (\<lambda>x. (x, y)) ` {min x1 x2..max x1 x2}"

definition vseg :: "int \<Rightarrow> int \<Rightarrow> int \<Rightarrow> (int \<times> int) set" where
  "vseg y1 y2 x = (\<lambda>y. (x, y)) ` {min y1 y2..max y1 y2}"

lemma hseg_connected: "connected (hseg x1 x2 y)" and vseg_connected: "connected (vseg y1 y2 x)"
  unfolding hseg_def vseg_def by (rule line_connected; simp add: adjacent_def)+

lemma seg_ends: "(x1, y) \<in> hseg x1 x2 y" "(x2, y) \<in> hseg x1 x2 y" "(x, y1) \<in> vseg y1 y2 x" "(x, y2) \<in> vseg y1 y2 x"
  by (auto simp: hseg_def vseg_def)

definition rect_cells :: "Rect \<Rightarrow> (int \<times> int) set" where
  "rect_cells r = {rx r..rx r + rw r - 1} \<times> {ry r..ry r + rh r - 1}"

lemma rect_connected: "connected (rect_cells r)"
proof (cases "rect_cells r = {}")
  case True
  then show ?thesis by (simp add: connected_def)
next
  case False
  then obtain x0 y0 where c: "(x0, y0) \<in> rect_cells r" by (cases "SOME p. p \<in> rect_cells r") auto
  show ?thesis
  proof (rule connectedI [of _ "(x0, y0)"])
    fix p assume p: "p \<in> rect_cells r"
    obtain x y where xy: "p = (x, y)" by fastforce
    have h: "hseg x x0 y \<subseteq> rect_cells r" and v: "vseg y y0 x0 \<subseteq> rect_cells r"
      using p c unfolding xy by (auto simp: hseg_def vseg_def rect_cells_def)
    have "(p, (x0, y)) \<in> walk_in (rect_cells r)" "((x0, y), p) \<in> walk_in (rect_cells r)"
      using hseg_connected [of x x0 y] seg_ends walk_in_mono [OF h] unfolding connected_def xy by blast+
    moreover have "((x0, y), (x0, y0)) \<in> walk_in (rect_cells r)" "((x0, y0), (x0, y)) \<in> walk_in (rect_cells r)"
      using vseg_connected [of y y0 x0] seg_ends walk_in_mono [OF v] unfolding connected_def by blast+
    ultimately show "(p, (x0, y0)) \<in> walk_in (rect_cells r) \<and> ((x0, y0), p) \<in> walk_in (rect_cells r)"
      using walk_in_trans by blast
  qed
qed

section \<open>Carving\<close>

definition map_ok :: "Map \<Rightarrow> bool" where
  "map_ok m \<longleftrightarrow> 0 < map_width m \<and> 0 < map_height m \<and> length (tiles m) = nat (map_width m * map_height m)"

definition floor_cells :: "Map \<Rightarrow> (int \<times> int) set" where
  "floor_cells m = {(x, y). walkable m x y}"

definition cells :: "Map \<Rightarrow> (int \<times> int) set" where
  "cells m = {0..<map_width m} \<times> {0..<map_height m}"

text \<open>The cells that are not on the border.\<close>

definition interior :: "Map \<Rightarrow> (int \<times> int) set" where
  "interior m = {1..<map_width m - 1} \<times> {1..<map_height m - 1}"

lemma in_bounds_cells: "in_bounds m x y \<longleftrightarrow> (x, y) \<in> cells m"
  by (auto simp: in_bounds_def cells_def)

lemma idx_bounds:
  assumes "map_ok m" and "(x, y) \<in> cells m"
  shows "0 \<le> idx m x y" and "idx m x y < int (length (tiles m))"
proof -
  have b: "0 \<le> x" "x < map_width m" "0 \<le> y" "y \<le> map_height m - 1" using assms(2) by (auto simp: cells_def)
  then show "0 \<le> idx m x y" by (simp add: idx_def)
  have "y * map_width m \<le> (map_height m - 1) * map_width m"
    using b by (intro mult_right_mono) auto
  then have "idx m x y < map_width m * map_height m"
    using b by (simp add: idx_def algebra_simps)
  then show "idx m x y < int (length (tiles m))"
    using assms(1) by (simp add: map_ok_def)
qed

lemma idx_inj:
  assumes "(x, y) \<in> cells m" and "(x', y') \<in> cells m" and "idx m x y = idx m x' y'"
  shows "x = x' \<and> y = y'"
proof -
  have b: "0 \<le> x" "x < map_width m" "0 \<le> x'" "x' < map_width m" using assms(1,2) by (auto simp: cells_def)
  have "(y * map_width m + x) div map_width m = y" "(y' * map_width m + x') div map_width m = y'"
    using b by simp_all
  then have "y = y'" using assms(3) by (simp add: idx_def)
  with assms(3) show ?thesis by (simp add: idx_def)
qed

text \<open>\<open>carved ps m m'\<close>: \<open>m'\<close> is \<open>m\<close> with the cells \<open>ps\<close> turned to floor and nothing else changed.\<close>

definition carved :: "(int \<times> int) set \<Rightarrow> Map \<Rightarrow> Map \<Rightarrow> bool" where
  "carved ps m m' \<longleftrightarrow> map_ok m' \<and> map_width m' = map_width m \<and> map_height m' = map_height m \<and> rooms m' = rooms m \<and>
     floor_cells m' = floor_cells m \<union> ps"

lemma carved_cells [simp]: "carved ps m m' \<Longrightarrow> cells m' = cells m" "carved ps m m' \<Longrightarrow> interior m' = interior m"
  by (simp_all add: carved_def cells_def interior_def)

lemma carved_trans: "carved ps m m1 \<Longrightarrow> carved qs m1 m2 \<Longrightarrow> carved (ps \<union> qs) m m2"
  by (simp add: carved_def Un_assoc)

lemma carve_ok:
  assumes "map_ok m" and "p \<in> cells m"
  shows "\<exists>m'. carve p m = Some m' \<and> carved {p} m m'"
proof -
  obtain x y where p: "p = (x, y)" by fastforce
  let ?i = "nat (idx m x y)"
  let ?m = "m\<lparr>tiles := (tiles m)[?i := Floor]\<rparr>"
  note b = idx_bounds [OF assms(1), of x y]
  have i: "0 \<le> idx m x y" "?i < length (tiles m)" using b assms(2) p by auto
  have "walkable ?m u v \<longleftrightarrow> walkable m u v \<or> (u, v) = (x, y)" for u v
  proof (cases "(u, v) \<in> cells m")
    case True
    have "0 \<le> idx m u v" using idx_bounds [OF assms(1) True] by simp
    then have "nat (idx m u v) = ?i \<longleftrightarrow> (u, v) = (x, y)"
      using idx_inj [OF True, of x y] assms(2) p i(1) by auto
    then show ?thesis
      using True i(2) by (auto simp: walkable_def in_bounds_cells nth_list_update idx_def in_bounds_def cells_def)
  next
    case False
    then show ?thesis using assms(2) p by (auto simp: walkable_def in_bounds_cells) (auto simp: cells_def)
  qed
  then have "floor_cells ?m = floor_cells m \<union> {p}" by (auto simp: floor_cells_def p)
  moreover have "carve p m = Some ?m" using i b(2) assms(2) by (simp add: carve_def Let_def p)
  moreover have "map_ok ?m" using assms(1) by (simp add: map_ok_def)
  ultimately show ?thesis by (simp add: carved_def)
qed

lemma carve_all_ok:
  "map_ok m \<Longrightarrow> set ps \<subseteq> cells m \<Longrightarrow> \<exists>m'. carve_all ps m = Some m' \<and> carved (set ps) m m'"
proof (induction ps arbitrary: m)
  case Nil
  then show ?case by (simp add: carved_def)
next
  case (Cons p ps)
  obtain m1 where m1: "carve p m = Some m1" "carved {p} m m1" using carve_ok [of m p] Cons.prems by auto
  then have "map_ok m1" "cells m1 = cells m" by (simp_all add: carved_def cells_def)
  then obtain m2 where "carve_all ps m1 = Some m2" "carved (set ps) m1 m2" using Cons.IH [of m1] Cons.prems by auto
  then show ?case using m1 carved_trans [OF m1(2)] by auto
qed

lemma set_room_cells: "set (room_cells r) = rect_cells r"
  by (auto simp: room_cells_def rect_cells_def)

lemma carve_room_ok: "map_ok m \<Longrightarrow> rect_cells r \<subseteq> cells m \<Longrightarrow> \<exists>m'. carve_room r m = Some m' \<and> carved (rect_cells r) m m'"
  using carve_all_ok [of m "room_cells r"] by (simp add: carve_room_def set_room_cells)

lemma carve_h_ok: "map_ok m \<Longrightarrow> hseg x1 x2 y \<subseteq> cells m \<Longrightarrow> \<exists>m'. carve_h x1 x2 y m = Some m' \<and> carved (hseg x1 x2 y) m m'"
  using carve_all_ok [of m "map (\<lambda>x. (x, y)) [min x1 x2..max x1 x2]"] by (simp add: carve_h_def hseg_def)

lemma carve_v_ok: "map_ok m \<Longrightarrow> vseg y1 y2 x \<subseteq> cells m \<Longrightarrow> \<exists>m'. carve_v y1 y2 x m = Some m' \<and> carved (vseg y1 y2 x) m m'"
  using carve_all_ok [of m "map (\<lambda>y. (x, y)) [min y1 y2..max y1 y2]"] by (simp add: carve_v_def vseg_def)

section \<open>Generation\<close>

definition room_ok :: "Map \<Rightarrow> Rect \<Rightarrow> bool" where
  "room_ok m r \<longleftrightarrow> 1 \<le> rx r \<and> 1 \<le> ry r \<and> 4 \<le> rw r \<and> 3 \<le> rh r \<and> rw r < 10 \<and> rh r < 7 \<and>
     rx r + rw r < map_width m - 1 \<and> ry r + rh r < map_height m - 1"

definition gen_inv :: "Map \<Rightarrow> bool" where
  "gen_inv m \<longleftrightarrow> map_ok m \<and> (\<forall>r \<in> set (rooms m). room_ok m r \<and> rect_cells r \<subseteq> floor_cells m) \<and>
     sorted_wrt (\<lambda>a b. \<not> intersects a b) (rooms m) \<and> connected (floor_cells m) \<and>
     floor_cells m \<subseteq> interior m \<and> (rooms m = [] \<longrightarrow> floor_cells m = {})"

lemma room_center: "4 \<le> rw r \<Longrightarrow> 3 \<le> rh r \<Longrightarrow> center r \<in> rect_cells r"
  by (auto simp: center_def half_def rect_cells_def)

lemma rect_interior: "room_ok m r \<Longrightarrow> rect_cells r \<subseteq> interior m"
  by (auto simp: room_ok_def rect_cells_def interior_def)

lemma interior_cells: "interior m \<subseteq> cells m"
  by (auto simp: interior_def cells_def)

lemma seg_interior:
  "(px, py) \<in> interior m \<Longrightarrow> (nx, ny) \<in> interior m \<Longrightarrow> y \<in> {py, ny} \<Longrightarrow> hseg px nx y \<subseteq> interior m"
  "(px, py) \<in> interior m \<Longrightarrow> (nx, ny) \<in> interior m \<Longrightarrow> x \<in> {px, nx} \<Longrightarrow> vseg py ny x \<subseteq> interior m"
  by (auto simp: interior_def hseg_def vseg_def)

text \<open>An L-shaped corridor joins a connected set to a point.\<close>

lemma corridor_connected:
  assumes "connected F" and "(px, py) \<in> F" and "connected R" and "(nx, ny) \<in> R"
  shows "connected (F \<union> R \<union> (hseg px nx py \<union> vseg py ny nx))" and "connected (F \<union> R \<union> (vseg py ny px \<union> hseg px nx ny))"
proof -
  have "connected (F \<union> hseg px nx py)"
    using connected_Un [OF assms(1) hseg_connected assms(2)] seg_ends by blast
  then have "connected ((F \<union> hseg px nx py) \<union> vseg py ny nx)"
    using connected_Un [OF _ vseg_connected, of _ "(nx, py)"] seg_ends by blast
  then have "connected (((F \<union> hseg px nx py) \<union> vseg py ny nx) \<union> R)"
    using connected_Un [OF _ assms(3), of _ "(nx, ny)"] assms(4) seg_ends by blast
  then show "connected (F \<union> R \<union> (hseg px nx py \<union> vseg py ny nx))" by (simp add: Un_ac)
  have "connected (F \<union> vseg py ny px)"
    using connected_Un [OF assms(1) vseg_connected assms(2)] seg_ends by blast
  then have "connected ((F \<union> vseg py ny px) \<union> hseg px nx ny)"
    using connected_Un [OF _ hseg_connected, of _ "(px, ny)"] seg_ends by blast
  then have "connected (((F \<union> vseg py ny px) \<union> hseg px nx ny) \<union> R)"
    using connected_Un [OF _ assms(3), of _ "(nx, ny)"] assms(4) seg_ends by blast
  then show "connected (F \<union> R \<union> (vseg py ny px \<union> hseg px nx ny))" by (simp add: Un_ac)
qed

lemma carve_corridor_ok:
  assumes "map_ok m" and "rooms m \<noteq> []" and "center (last (rooms m)) \<in> interior m" and "center room \<in> interior m" and "s \<noteq> 0"
    and "connected F" and "center (last (rooms m)) \<in> F" and "connected R" and "center room \<in> R" and "floor_cells m = F \<union> R"
    and "floor_cells m \<subseteq> interior m"
  shows "\<exists>s' m' C. carve_corridor room (s, m) = Some (s', m') \<and> s' \<noteq> 0 \<and> carved C m m' \<and>
    connected (floor_cells m') \<and> floor_cells m' \<subseteq> interior m"
proof -
  obtain px py where p: "center (last (rooms m)) = (px, py)" by fastforce
  obtain nx ny where n: "center room = (nx, ny)" by fastforce
  note pn = assms(3,4) [unfolded p n]
  note con = corridor_connected [OF assms(6) assms(7) [unfolded p] assms(8) assms(9) [unfolded n]]
  have sub: "hseg px nx py \<subseteq> interior m" "vseg py ny nx \<subseteq> interior m" "vseg py ny px \<subseteq> interior m" "hseg px nx ny \<subseteq> interior m"
    using seg_interior [OF pn] by auto
  show ?thesis
  proof (cases "rng_next s mod 2 = 0")
    case True
    obtain m1 where m1: "carve_h px nx py m = Some m1" "carved (hseg px nx py) m m1"
      using carve_h_ok [OF assms(1)] sub(1) interior_cells [of m] by blast
    then obtain m2 where m2: "carve_v py ny nx m1 = Some m2" "carved (vseg py ny nx) m1 m2"
      using carve_v_ok [of m1] sub(2) interior_cells [of m] by (metis carved_cells(1) carved_def order_trans)
    have c: "carved (hseg px nx py \<union> vseg py ny nx) m m2" using m1(2) m2(2) by (rule carved_trans)
    then show ?thesis
      using True m1 m2 assms con(1) sub rng_next_nonzero [of s]
      by (intro exI [of _ "rng_next s"] exI [of _ m2] exI) (auto simp: carve_corridor_def p n carved_def)
  next
    case False
    obtain m1 where m1: "carve_v py ny px m = Some m1" "carved (vseg py ny px) m m1"
      using carve_v_ok [OF assms(1)] sub(3) interior_cells [of m] by blast
    then obtain m2 where m2: "carve_h px nx ny m1 = Some m2" "carved (hseg px nx ny) m1 m2"
      using carve_h_ok [of m1] sub(4) interior_cells [of m] by (metis carved_cells(1) carved_def order_trans)
    have c: "carved (vseg py ny px \<union> hseg px nx ny) m m2" using m1(2) m2(2) by (rule carved_trans)
    then show ?thesis
      using False m1 m2 assms con(2) sub rng_next_nonzero [of s]
      by (intro exI [of _ "rng_next s"] exI [of _ m2] exI) (auto simp: carve_corridor_def p n carved_def)
  qed
qed

lemma room_ok_cong: "map_width m' = map_width m \<Longrightarrow> map_height m' = map_height m \<Longrightarrow> room_ok m' r = room_ok m r"
  by (simp add: room_ok_def)

lemma floor_rooms_update [simp]: "floor_cells (m\<lparr>rooms := rs\<rparr>) = floor_cells m" "interior (m\<lparr>rooms := rs\<rparr>) = interior m"
  "map_ok (m\<lparr>rooms := rs\<rparr>) = map_ok m" "room_ok (m\<lparr>rooms := rs\<rparr>) = room_ok m"
  by (simp_all add: floor_cells_def walkable_def in_bounds_def idx_def interior_def map_ok_def room_ok_def fun_eq_iff)

text \<open>Adding a room to a map: the conditions under which the invariant is kept.\<close>

lemma gen_inv_add:
  assumes "gen_inv m" and "room_ok m room" and "\<forall>r \<in> set (rooms m). \<not> intersects r room"
    and "carved C m m'" and "rect_cells room \<subseteq> C" and "connected (floor_cells m')" and "floor_cells m' \<subseteq> interior m"
  shows "gen_inv (m'\<lparr>rooms := rooms m' @ [room]\<rparr>)"
proof -
  have d: "map_width m' = map_width m" "map_height m' = map_height m" "rooms m' = rooms m" "map_ok m'"
    and f: "floor_cells m' = floor_cells m \<union> C" using assms(4) by (simp_all add: carved_def)
  have i: "interior m' = interior m" using assms(4) by simp
  have r: "room_ok m' = room_ok m" using d room_ok_cong by blast
  show ?thesis
    using assms d f i r by (auto simp: gen_inv_def sorted_wrt_append)
qed

lemma place_room_ok:
  assumes "gen_inv m" and "room_ok m room" and "s \<noteq> 0"
  shows "\<exists>s' m'. place_room room (s, m) = Some (s', m') \<and> gen_inv m' \<and> s' \<noteq> 0 \<and> rooms m' \<noteq> [] \<and>
    map_width m' = map_width m \<and> map_height m' = map_height m"
proof (cases "list_ex (\<lambda>r. intersects r room) (rooms m)")
  case True
  then show ?thesis using assms by (auto simp: place_room_def list_ex_iff)
next
  case False
  then have ni: "\<forall>r \<in> set (rooms m). \<not> intersects r room" by (simp add: list_ex_iff)
  have mo: "map_ok m" using assms(1) by (simp add: gen_inv_def)
  have ri: "rect_cells room \<subseteq> interior m" using assms(2) by (rule rect_interior)
  have cr: "center room \<in> rect_cells room" using assms(2) by (intro room_center) (simp_all add: room_ok_def)
  obtain m1 where m1: "carve_room room m = Some m1" "carved (rect_cells room) m m1"
    using carve_room_ok [OF mo] ri interior_cells [of m] by blast
  have f1: "floor_cells m1 = floor_cells m \<union> rect_cells room" and r1: "rooms m1 = rooms m" "map_ok m1"
    using m1(2) by (simp_all add: carved_def)
  have i1: "interior m1 = interior m" using m1(2) by simp
  have fi: "floor_cells m1 \<subseteq> interior m" using assms(1) ri f1 by (simp add: gen_inv_def)
  show ?thesis
  proof (cases "rooms m = []")
    case True
    then have "connected (floor_cells m1)" using assms(1) rect_connected f1 by (simp add: gen_inv_def)
    then have "gen_inv (m1\<lparr>rooms := rooms m1 @ [room]\<rparr>)"
      using fi by (intro gen_inv_add [OF assms(1,2) ni m1(2)]) auto
    then show ?thesis
      using False True m1 r1 assms(3) by (simp add: place_room_def carve_corridor_def carved_def)
  next
    case prev: False
    have l: "last (rooms m) \<in> set (rooms m)" using prev by simp
    then have lr: "room_ok m (last (rooms m))" "rect_cells (last (rooms m)) \<subseteq> floor_cells m"
      using assms(1) by (simp_all add: gen_inv_def)
    have cl: "center (last (rooms m)) \<in> floor_cells m"
      using room_center [of "last (rooms m)"] lr by (auto simp: room_ok_def)
    have "connected (floor_cells m)" "floor_cells m \<subseteq> interior m" using assms(1) by (simp_all add: gen_inv_def)
    then obtain s' m2 C where m2: "carve_corridor room (s, m1) = Some (s', m2)" "s' \<noteq> 0" "carved C m1 m2"
      "connected (floor_cells m2)" "floor_cells m2 \<subseteq> interior m1"
      using carve_corridor_ok [of m1 room s "floor_cells m" "rect_cells room"] cl cr subsetD [OF ri cr] subsetD [OF _ cl, of "interior m"]
        prev assms(3) rect_connected [of room] f1 r1 i1 fi by auto
    have "carved (rect_cells room \<union> C) m m2" using m1(2) m2(3) by (rule carved_trans)
    then have "gen_inv (m2\<lparr>rooms := rooms m2 @ [room]\<rparr>)"
      using m2(4,5) i1 by (intro gen_inv_add [OF assms(1,2) ni]) auto
    then show ?thesis
      using False m1 m2 by (auto simp: place_room_def carved_def)
  qed
qed

lemma draw_room_ok:
  assumes "12 \<le> map_width m" and "9 \<le> map_height m" and "map_width m < 2 ^ 31" and "map_height m < 2 ^ 31" and "s \<noteq> 0"
  shows "\<exists>room s'. draw_room (map_width m) (map_height m) s = Some (room, s') \<and> room_ok m room \<and> s' \<noteq> 0"
  using assms
  by (rule rng.four_draws) (auto simp: draw_room_def room_ok_def)

definition dims_ok :: "Map \<Rightarrow> bool" where
  "dims_ok m \<longleftrightarrow> 12 \<le> map_width m \<and> 9 \<le> map_height m \<and> map_width m < 2 ^ 31 \<and> map_height m < 2 ^ 31"

lemma gen_rooms_ok:
  assumes "gen_inv m" and "dims_ok m" and "s \<noteq> 0"
  shows "\<exists>s' m'. gen_rooms n (s, m) = Some (s', m') \<and> gen_inv m' \<and> (n \<noteq> 0 \<or> rooms m \<noteq> [] \<longrightarrow> rooms m' \<noteq> []) \<and>
    map_width m' = map_width m \<and> map_height m' = map_height m"
  using assms
proof (induction n arbitrary: s m)
  case (Suc n)
  obtain room s1 where d: "draw_room (map_width m) (map_height m) s = Some (room, s1)" "room_ok m room" "s1 \<noteq> 0"
    using draw_room_ok [of m s] Suc.prems by (auto simp: dims_ok_def)
  obtain s2 m2 where p: "place_room room (s1, m) = Some (s2, m2)" "gen_inv m2" "s2 \<noteq> 0" "rooms m2 \<noteq> []"
    "map_width m2 = map_width m" "map_height m2 = map_height m"
    using place_room_ok [OF Suc.prems(1) d(2,3)] by blast
  then have "dims_ok m2" using Suc.prems(2) by (simp add: dims_ok_def)
  then show ?case using Suc.IH [OF p(2) _ p(3)] d p by auto
qed simp

lemma gen_inv_blank: "0 < w \<Longrightarrow> 0 < h \<Longrightarrow> gen_inv (blank_map w h)"
proof -
  assume "0 < w" "0 < h"
  then have m: "map_ok (blank_map w h)" by (simp add: map_ok_def blank_map_def)
  have "\<not> walkable (blank_map w h) x y" for x y
  proof (cases "(x, y) \<in> cells (blank_map w h)")
    case True
    have "tiles (blank_map w h) ! i = Wall" if "i < length (tiles (blank_map w h))" for i
      using that by (simp add: blank_map_def)
    then show ?thesis using idx_bounds [OF m True] by (simp add: walkable_def nat_less_iff)
  next
    case False
    then show ?thesis by (simp add: walkable_def in_bounds_cells)
  qed
  then have "floor_cells (blank_map w h) = {}" by (auto simp: floor_cells_def)
  with m show ?thesis by (simp add: gen_inv_def connected_def) (simp add: blank_map_def)
qed

lemma generate_ok:
  assumes "12 \<le> w" and "9 \<le> h" and "w * h < 2 ^ 31"
  shows "\<exists>m. generate w h seed = Some m \<and> gen_inv m \<and> rooms m \<noteq> [] \<and> map_width m = w \<and> map_height m = h"
proof -
  have "w \<le> w * h" "h \<le> w * h" using assms mult_left_mono [of 1 h w] mult_right_mono [of 1 w h] by auto
  then have "w < 2 ^ 31" "h < 2 ^ 31" using assms(3) by linarith+
  then have "dims_ok (blank_map w h)" using assms(1,2) by (simp add: dims_ok_def blank_map_def)
  moreover have "gen_inv (blank_map w h)" using assms by (intro gen_inv_blank) auto
  ultimately obtain s' m where "gen_rooms 30 (rng_new seed, blank_map w h) = Some (s', m)" "gen_inv m" "rooms m \<noteq> []"
    "map_width m = w" "map_height m = h"
    using gen_rooms_ok [of "blank_map w h" "rng_new seed" 30] rng_new_nonzero [of seed] by (auto simp: blank_map_def)
  moreover have "0 \<le> w * h" using \<open>w \<le> w * h\<close> assms(1) by linarith
  moreover have "i32_ok (w * h)"
    unfolding i32_ok_def using \<open>w \<le> w * h\<close> assms(1,3) by linarith
  ultimately show ?thesis by (simp add: generate_def)
qed

section \<open>Actors\<close>

definition pos :: "Actor \<Rightarrow> int \<times> int" where
  "pos a = (ax a, ay a)"

definition living :: "Actor \<Rightarrow> bool" where
  "living a \<longleftrightarrow> 0 < hp a"

definition manhattan :: "int \<times> int \<Rightarrow> int \<times> int \<Rightarrow> int" where
  "manhattan p q = \<bar>fst p - fst q\<bar> + \<bar>snd p - snd q\<bar>"

definition gap :: "int \<times> int \<Rightarrow> int \<times> int \<Rightarrow> int" where
  "gap p q = cheb (fst p - fst q) (snd p - snd q)"

lemma position_None: "position P xs = None \<longleftrightarrow> (\<forall>x \<in> set xs. \<not> P x)"
  by (induction xs) auto

lemma position_Some: "position P xs = Some i \<Longrightarrow> i < length xs \<and> P (xs ! i)"
  by (induction xs arbitrary: i) (auto split: if_splits)

lemma alive_at_iff: "alive_at x y a \<longleftrightarrow> living a \<and> pos a = (x, y)"
  by (auto simp: alive_at_def living_def pos_def)

lemma monster_at_None: "monster_at g x y = None \<longleftrightarrow> (\<forall>a \<in> set (monsters g). living a \<longrightarrow> pos a \<noteq> (x, y))"
  by (auto simp: monster_at_def position_None alive_at_iff)

lemma monster_at_Some: "monster_at g x y = Some i \<Longrightarrow>
    i < length (monsters g) \<and> living (monsters g ! i) \<and> pos (monsters g ! i) = (x, y)"
  unfolding monster_at_def using position_Some alive_at_iff by blast

text \<open>The player stands on floor, and so does every living monster; no two of them share a cell.\<close>

definition actors_ok :: "Game \<Rightarrow> bool" where
  "actors_ok g \<longleftrightarrow> pos (player g) \<in> floor_cells (gmap g) \<and>
     (\<forall>i < length (monsters g). living (monsters g ! i) \<longrightarrow>
        pos (monsters g ! i) \<in> floor_cells (gmap g) \<and> pos (monsters g ! i) \<noteq> pos (player g) \<and>
        (\<forall>j < length (monsters g). j \<noteq> i \<longrightarrow> living (monsters g ! j) \<longrightarrow> pos (monsters g ! j) \<noteq> pos (monsters g ! i)))"

text \<open>What one monster's move may do: step to a free floor cell one closer to the player, or nothing.\<close>

definition chases :: "Game \<Rightarrow> nat \<Rightarrow> Actor \<Rightarrow> bool" where
  "chases g i a \<longleftrightarrow> a = monsters g ! i \<or>
     (living (monsters g ! i) \<and> (\<exists>x y. a = (monsters g ! i)\<lparr>ax := x, ay := y\<rparr>) \<and>
      1 < gap (pos (player g)) (pos (monsters g ! i)) \<and> gap (pos (player g)) (pos (monsters g ! i)) \<le> 8 \<and>
      manhattan (pos a) (pos (monsters g ! i)) = 1 \<and>
      manhattan (pos a) (pos (player g)) = manhattan (pos (monsters g ! i)) (pos (player g)) - 1 \<and>
      pos a \<in> floor_cells (gmap g) \<and> pos a \<noteq> pos (player g) \<and>
      (\<forall>b \<in> set (monsters g). living b \<longrightarrow> pos b \<noteq> pos a))"

lemma try_steps_spec:
  "try_steps i mx my ts g = g \<or>
   (\<exists>tx ty. (tx, ty) \<in> set ts \<and> (tx, ty) \<noteq> (0, 0) \<and> walkable (gmap g) (mx + tx) (my + ty) \<and>
      (mx + tx, my + ty) \<noteq> pos (player g) \<and> monster_at g (mx + tx) (my + ty) = None \<and>
      try_steps i mx my ts g = g\<lparr>monsters := (monsters g)[i := (monsters g ! i)\<lparr>ax := mx + tx, ay := my + ty\<rparr>]\<rparr>)"
proof (induction ts)
  case (Cons t ts)
  obtain tx ty where t: "t = (tx, ty)" by fastforce
  let ?go = "(tx, ty) \<noteq> (0, 0) \<and> walkable (gmap g) (mx + tx) (my + ty) \<and>
      (mx + tx, my + ty) \<noteq> pos (player g) \<and> monster_at g (mx + tx) (my + ty) = None"
  show ?case
  proof (cases ?go)
    case True
    then have "try_steps i mx my (t # ts) g = g\<lparr>monsters := (monsters g)[i := (monsters g ! i)\<lparr>ax := mx + tx, ay := my + ty\<rparr>]\<rparr>"
      unfolding t by (auto simp add: Let_def pos_def)
    with True t show ?thesis by (intro disjI2 exI [of _ tx] exI [of _ ty]) simp
  next
    case False
    then have "try_steps i mx my (t # ts) g = try_steps i mx my ts g" unfolding t by (auto simp: Let_def pos_def)
    then show ?thesis using Cons by (metis list.set_intros(2))
  qed
qed simp

lemma sgn_step: "(d :: int) \<noteq> 0 \<Longrightarrow> \<bar>d - sgn d\<bar> = \<bar>d\<bar> - 1"
  by (auto simp: sgn_if)

lemma monster_act_moves:
  assumes "i < length (monsters g)"
  shows "\<exists>a. monsters (monster_act i g) = (monsters g)[i := a] \<and> chases g i a"
proof -
  let ?m = "monsters g ! i"
  let ?dx = "ax (player g) - ax ?m" and ?dy = "ay (player g) - ay ?m"
  let ?ts = "if \<bar>?dx\<bar> \<ge> \<bar>?dy\<bar> then [(sgn ?dx, 0), (0, sgn ?dy)] else [(0, sgn ?dy), (sgn ?dx, 0)]"
  have stay: "\<exists>a. monsters g = (monsters g)[i := a] \<and> chases g i a"
    by (intro exI [of _ ?m]) (simp add: chases_def)
  show ?thesis
  proof (cases "hp ?m \<le> 0 \<or> cheb ?dx ?dy > 8 \<or> cheb ?dx ?dy \<le> 1")
    case True
    then have "monsters (monster_act i g) = monsters g" by (auto simp: monster_act_def Let_def)
    with stay show ?thesis by metis
  next
    case False
    then have act: "monster_act i g = try_steps i (ax ?m) (ay ?m) ?ts g" by (simp add: monster_act_def Let_def)
    show ?thesis
    proof (cases "try_steps i (ax ?m) (ay ?m) ?ts g = g")
      case True
      with stay act show ?thesis by metis
    next
      case moved: False
      obtain tx ty where t: "(tx, ty) \<in> set ?ts" "(tx, ty) \<noteq> (0, 0)" "walkable (gmap g) (ax ?m + tx) (ay ?m + ty)"
        "(ax ?m + tx, ay ?m + ty) \<noteq> pos (player g)" "monster_at g (ax ?m + tx) (ay ?m + ty) = None"
        "try_steps i (ax ?m) (ay ?m) ?ts g = g\<lparr>monsters := (monsters g)[i := ?m\<lparr>ax := ax ?m + tx, ay := ay ?m + ty\<rparr>]\<rparr>"
        using try_steps_spec [of i "ax ?m" "ay ?m" ?ts g] moved by blast
      have d: "tx = sgn ?dx \<and> tx \<noteq> 0 \<and> ty = 0 \<or> tx = 0 \<and> ty = sgn ?dy \<and> ty \<noteq> 0"
        using t(1,2) by (auto split: if_splits)
      let ?a = "?m\<lparr>ax := ax ?m + tx, ay := ay ?m + ty\<rparr>"
      have pa: "pos ?a = (ax ?m + tx, ay ?m + ty)" by (simp add: pos_def)
      have "\<bar>tx\<bar> + \<bar>ty\<bar> = 1" using d by (auto simp: sgn_if)
      then have "manhattan (pos ?a) (pos ?m) = 1" by (simp add: manhattan_def pos_def)
      moreover have "manhattan (pos ?a) (pos (player g)) = manhattan (pos ?m) (pos (player g)) - 1"
        using d sgn_step [of ?dx] sgn_step [of ?dy] by (auto simp: manhattan_def pos_def sgn_if split: if_splits)
      moreover have "1 < gap (pos (player g)) (pos ?m)" "gap (pos (player g)) (pos ?m) \<le> 8" "living ?m"
        using False by (simp_all add: gap_def pos_def living_def)
      moreover have "pos ?a \<in> floor_cells (gmap g)" unfolding pa using t(3) by (simp add: floor_cells_def)
      moreover have "pos ?a \<noteq> pos (player g)" unfolding pa using t(4) .
      moreover have "\<forall>b \<in> set (monsters g). living b \<longrightarrow> pos b \<noteq> pos ?a"
        unfolding pa using t(5) by (simp add: monster_at_None)
      ultimately have "chases g i ?a" unfolding chases_def by blast
      then show ?thesis using act t(6) by auto
    qed
  qed
qed

definition strikes :: "Game \<Rightarrow> Actor \<Rightarrow> bool" where
  "strikes g a \<longleftrightarrow> living a \<and> gap (pos (player g)) (pos a) \<le> 1"

lemma try_steps_player [simp]: "player (try_steps i mx my ts g) = player g" "gmap (try_steps i mx my ts g) = gmap g"
  "glog (try_steps i mx my ts g) = glog g"
  by (induction ts) (auto simp: Let_def)

lemma monster_act_player:
  "gmap (monster_act i g) = gmap g"
  "player (monster_act i g) =
     (if strikes g (monsters g ! i) then (player g)\<lparr>hp := hp (player g) - power (monsters g ! i)\<rparr> else player g)"
  by (auto simp: monster_act_def Let_def strikes_def living_def gap_def pos_def)

lemma monster_act_ok:
  assumes "actors_ok g" and "i < length (monsters g)"
  shows "actors_ok (monster_act i g)"
proof -
  let ?g = "monster_act i g"
  obtain a where a: "monsters ?g = (monsters g)[i := a]" "chases g i a" using monster_act_moves [OF assms(2)] by blast
  have p: "pos (player ?g) = pos (player g)" "gmap ?g = gmap g" by (simp_all add: monster_act_player pos_def)
  show ?thesis
  proof (cases "a = monsters g ! i")
    case True
    then show ?thesis using assms(1) a(1) p by (simp add: actors_ok_def)
  next
    case False
    then have c: "pos a \<in> floor_cells (gmap g)" "pos a \<noteq> pos (player g)"
      "\<And>j. j < length (monsters g) \<Longrightarrow> living (monsters g ! j) \<Longrightarrow> pos (monsters g ! j) \<noteq> pos a"
      using a(2) by (auto simp: chases_def)
    show ?thesis
      using assms c unfolding actors_ok_def p a(1) by (auto simp: nth_list_update) metis+
  qed
qed

section \<open>A turn\<close>

text \<open>The monsters act in order; the state before monster \<open>k\<close> acts.\<close>

definition acted :: "nat \<Rightarrow> Game \<Rightarrow> Game" where
  "acted k g = fold monster_act [0..<k] g"

lemma acted_simps: "acted 0 g = g" "acted (Suc k) g = monster_act k (acted k g)"
  by (simp_all add: acted_def)

lemma acted_length [simp]: "length (monsters (acted k g)) = length (monsters g)"
  if "k \<le> length (monsters g)"
  using that
proof (induction k)
  case (Suc k)
  then have "k < length (monsters (acted k g))" by simp
  then show ?case using monster_act_moves [of k "acted k g"] Suc by (auto simp: acted_simps)
qed (simp add: acted_simps)

lemma acted_frame:
  assumes "k \<le> length (monsters g)"
  shows "gmap (acted k g) = gmap g" and "pos (player (acted k g)) = pos (player g)"
    and "power (player (acted k g)) = power (player g)"
    and "k \<le> j \<Longrightarrow> j < length (monsters g) \<Longrightarrow> monsters (acted k g) ! j = monsters g ! j"
  using assms
proof (induction k)
  case (Suc k)
  { case 1 then show ?case using Suc.IH(1) by (simp add: acted_simps monster_act_player) }
  { case 2 then show ?case using Suc.IH(2) by (simp add: acted_simps monster_act_player pos_def) }
  { case 3 then show ?case using Suc.IH(3) by (simp add: acted_simps monster_act_player) }
  { case 4 then show ?case
      using Suc.IH(4) monster_act_moves [of k "acted k g"] by (auto simp: acted_simps) }
qed (simp_all add: acted_simps)

lemma acted_ok: "actors_ok g \<Longrightarrow> k \<le> length (monsters g) \<Longrightarrow> actors_ok (acted k g)"
proof (induction k)
  case (Suc k)
  then show ?case using monster_act_ok [of "acted k g" k] by (simp add: acted_simps)
qed (simp add: acted_simps)

lemma acted_hp:
  "k \<le> length (monsters g) \<Longrightarrow>
   hp (player (acted k g)) = hp (player g) - sum_list (map power (filter (strikes g) (take k (monsters g))))"
proof (induction k)
  case (Suc k)
  have p: "pos (player (acted k g)) = pos (player g)" using Suc.prems by (intro acted_frame) simp
  have m: "monsters (acted k g) ! k = monsters g ! k" using Suc.prems by (intro acted_frame) simp_all
  have s: "strikes (acted k g) a = strikes g a" for a by (simp add: strikes_def p)
  show ?case
    using Suc by (simp add: acted_simps monster_act_player m s take_Suc_conv_app_nth)
qed (simp add: acted_simps)

text \<open>What the turn does to one monster.\<close>

definition pursues :: "Game \<Rightarrow> Actor \<Rightarrow> Actor \<Rightarrow> bool" where
  "pursues g a a' \<longleftrightarrow> a' = a \<or>
     (living a \<and> (\<exists>x y. a' = a\<lparr>ax := x, ay := y\<rparr>) \<and>
      1 < gap (pos (player g)) (pos a) \<and> gap (pos (player g)) (pos a) \<le> 8 \<and> manhattan (pos a') (pos a) = 1 \<and>
      manhattan (pos a') (pos (player g)) = manhattan (pos a) (pos (player g)) - 1)"

lemma chases_pursues: "chases g i a \<Longrightarrow> pursues g (monsters g ! i) a"
  unfolding chases_def pursues_def by blast

lemma pursues_cong: "pos (player g) = pos (player g') \<Longrightarrow> pursues g = pursues g'"
  by (simp add: pursues_def fun_eq_iff)

lemma acted_pursues:
  "k \<le> length (monsters g) \<Longrightarrow> j < k \<Longrightarrow> pursues g (monsters g ! j) (monsters (acted k g) ! j)"
proof (induction k)
  case (Suc k)
  obtain a where a: "monsters (acted (Suc k) g) = (monsters (acted k g))[k := a]" "chases (acted k g) k a"
    using monster_act_moves [of k "acted k g"] Suc.prems by (auto simp: acted_simps)
  show ?case
  proof (cases "j = k")
    case True
    have "pursues (acted k g) (monsters g ! k) a"
      using chases_pursues [OF a(2)] acted_frame(4) [of k g k] Suc.prems by simp
    then have "pursues g (monsters g ! k) a"
      using pursues_cong [of "acted k g" g] acted_frame(2) [of k g] Suc.prems by simp
    then show ?thesis using True a(1) Suc.prems by simp
  next
    case False
    then show ?thesis using Suc a(1) by simp
  qed
qed simp

lemma monsters_act_acted: "monsters_act g = acted (length (monsters g)) g"
  by (simp add: monsters_act_def acted_def)

lemmas acted_all = acted_frame [OF order_refl, folded monsters_act_acted]
  acted_length [OF order_refl, folded monsters_act_acted]
  acted_ok [OF _ order_refl, folded monsters_act_acted]
  acted_pursues [OF order_refl, folded monsters_act_acted]

lemma monsters_act_hp:
  "hp (player (monsters_act g)) = hp (player g) - sum_list (map power (filter (strikes g) (monsters g)))"
  using acted_hp [of "length (monsters g)" g] by (simp add: monsters_act_acted)

lemma hit_monster_ok:
  assumes "actors_ok g" and "i < length (monsters g)" and "living (monsters g ! i)"
  shows "actors_ok (hit_monster i g)"
proof -
  have "monsters (hit_monster i g) = (monsters g)[i := (monsters g ! i)\<lparr>hp := hp (monsters g ! i) - power (player g)\<rparr>]"
    "player (hit_monster i g) = player g" "gmap (hit_monster i g) = gmap g"
    by (simp_all add: hit_monster_def Let_def)
  then show ?thesis
    using assms unfolding actors_ok_def by (auto simp: nth_list_update pos_def living_def)
qed

lemma step_ok:
  assumes "actors_ok g" and "monster_at g x y = None" and "walkable (gmap g) x y"
  shows "actors_ok (g\<lparr>player := (player g)\<lparr>ax := x, ay := y\<rparr>\<rparr>)"
  using assms by (auto simp: actors_ok_def monster_at_None floor_cells_def) (auto simp: pos_def all_set_conv_all_nth)

lemma player_move_cases:
  assumes "player_move dx dy g = Some (b, g')"
  obtains (attack) i where "monster_at g (ax (player g) + dx) (ay (player g) + dy) = Some i" "b" "g' = monsters_act (hit_monster i g)"
  | (step) "monster_at g (ax (player g) + dx) (ay (player g) + dy) = None" "b"
      "walkable (gmap g) (ax (player g) + dx) (ay (player g) + dy)"
      "g' = monsters_act (g\<lparr>player := (player g)\<lparr>ax := ax (player g) + dx, ay := ay (player g) + dy\<rparr>\<rparr>)"
  | (blocked) "monster_at g (ax (player g) + dx) (ay (player g) + dy) = None" "\<not> b"
      "\<not> walkable (gmap g) (ax (player g) + dx) (ay (player g) + dy)" "g' = g"
  using assms by (auto simp: player_move_def Let_def split: if_splits option.splits)

lemma player_move_ok:
  assumes "actors_ok g" and "player_move dx dy g = Some (b, g')"
  shows "actors_ok g' \<and> gmap g' = gmap g \<and> length (monsters g') = length (monsters g) \<and> power (player g') = power (player g)"
  using assms(2)
proof (cases rule: player_move_cases)
  case (attack i)
  then have "actors_ok (hit_monster i g)" using monster_at_Some hit_monster_ok assms(1) by blast
  then show ?thesis unfolding attack using acted_all by (simp add: hit_monster_def Let_def)
next
  case step
  then have "actors_ok (g\<lparr>player := (player g)\<lparr>ax := ax (player g) + dx, ay := ay (player g) + dy\<rparr>\<rparr>)"
    using step_ok assms(1) by blast
  then show ?thesis unfolding step using acted_all by simp
qed (simp add: assms(1))

section \<open>A new game\<close>

lemma intersects_disjoint: "\<not> intersects a b \<Longrightarrow> rect_cells a \<inter> rect_cells b = {}"
  by (auto simp: intersects_def rect_cells_def)

lemma spawn_ok:
  assumes "\<forall>r \<in> set rs. 4 \<le> rw r \<and> 3 \<le> rh r \<and> rw r < 2 ^ 31 \<and> rh r < 2 ^ 31" and "s \<noteq> 0"
  shows "\<exists>ms. spawn rs s = Some ms \<and> list_all2 (\<lambda>r a. pos a \<in> rect_cells r \<and> hp a = 6 \<and> power a = 2) rs ms"
  using assms
proof (induction rs arbitrary: s)
  case (Cons r rs)
  obtain dx s1 where x: "rng_range s 0 (rw r) = Some (dx, s1)" "0 \<le> dx" "dx < rw r" "s1 \<noteq> 0"
    using rng.range_ok [of 0 "rw r" s] Cons.prems by auto
  obtain dy s2 where y: "rng_range s1 0 (rh r) = Some (dy, s2)" "0 \<le> dy" "dy < rh r" "s2 \<noteq> 0"
    using rng.range_ok [of 0 "rh r" s1] Cons.prems x by auto
  obtain ms where "spawn rs s2 = Some ms" "list_all2 (\<lambda>r a. pos a \<in> rect_cells r \<and> hp a = 6 \<and> power a = 2) rs ms"
    using Cons.IH [of s2] Cons.prems y by auto
  then show ?case using x y by (simp add: pos_def rect_cells_def)
qed simp

text \<open>One monster in every room but the first, in which the player starts.\<close>

lemma game_new_ok:
  "\<exists>g m. game_new seed = Some g \<and> generate 60 24 seed = Some m \<and> gmap g = m \<and> actors_ok g \<and>
     pos (player g) = center (hd (rooms m)) \<and> hp (player g) = 30 \<and> power (player g) = 3 \<and>
     list_all2 (\<lambda>r a. pos a \<in> rect_cells r \<and> hp a = 6 \<and> power a = 2) (tl (rooms m)) (monsters g)"
proof -
  obtain m where m: "generate 60 24 seed = Some m" "gen_inv m" "rooms m \<noteq> []" "map_width m = 60" "map_height m = 24"
    using generate_ok [of 60 24 seed] by auto
  obtain r0 rs where r: "rooms m = r0 # rs" using m(3) by (cases "rooms m") auto
  have ro: "room_ok m q" "rect_cells q \<subseteq> floor_cells m" if "q \<in> set (r0 # rs)" for q
    using m(2) that by (auto simp: gen_inv_def r)
  have dis: "sorted_wrt (\<lambda>a b. \<not> intersects a b) (r0 # rs)" using m(2) by (simp add: gen_inv_def r)
  have "\<forall>q \<in> set rs. 4 \<le> rw q \<and> 3 \<le> rh q \<and> rw q < 2 ^ 31 \<and> rh q < 2 ^ 31"
    using ro(1) m(4,5) by (fastforce simp: room_ok_def)
  then obtain ms where ms: "spawn rs (rng_new (seed XOR 0x9e3779b97f4a7c15)) = Some ms"
    and l: "list_all2 (\<lambda>r a. pos a \<in> rect_cells r \<and> hp a = 6 \<and> power a = 2) rs ms"
    using spawn_ok [OF _ rng_new_nonzero] by blast
  obtain px py where c: "center r0 = (px, py)" by fastforce
  let ?g = "\<lparr>gmap = m, player = \<lparr>ax = px, ay = py, hp = 30, power = 3, glyph = CHR ''@''\<rparr>, monsters = ms, glog = []\<rparr>"
  have g: "game_new seed = Some ?g" by (simp add: game_new_def m(1) r c ms)
  have p: "(px, py) \<in> rect_cells r0" using room_center [of r0] ro(1) [of r0] c by (simp add: room_ok_def)
  have i: "pos (ms ! i) \<in> rect_cells (rs ! i)" "i < length rs" if "i < length ms" for i
    using l that by (auto simp: list_all2_conv_all_nth)
  have "pos (ms ! i) \<noteq> (px, py)" if "i < length ms" for i
    using dis p i [OF that] intersects_disjoint [of r0 "rs ! i"] by auto
  moreover have ord: "pos (ms ! i) \<noteq> pos (ms ! j)" if "i < j" "j < length ms" for i j
  proof -
    have "\<not> intersects (rs ! i) (rs ! j)" using dis i(2) [OF that(2)] that(1) sorted_wrt_nth_less [of "\<lambda>a b. \<not> intersects a b" rs i j] by simp
    then show ?thesis using i(1) [OF that(2)] i(1) [of i] that intersects_disjoint by fastforce
  qed
  moreover have "pos (ms ! j) \<noteq> pos (ms ! i)" if "i < length ms" "j < length ms" "j \<noteq> i" for i j
    using ord [of i j] ord [of j i] that by (metis linorder_neqE_nat)
  moreover have "pos (ms ! i) \<in> floor_cells m" if "i < length ms" for i
    using ro(2) [of "rs ! i"] i [OF that] by auto
  ultimately have "actors_ok ?g" using subsetD [OF ro(2) p] by (auto simp: actors_ok_def pos_def)
  then show ?thesis using g m(1) l r c by (simp add: pos_def)
qed

section \<open>Play\<close>

text \<open>The games that can be reached from a new game by steps to a neighbouring cell (diagonals included).\<close>

inductive plays :: "u64 \<Rightarrow> Game \<Rightarrow> bool" where
  start: "game_new seed = Some g \<Longrightarrow> plays seed g"
| turn: "plays seed g \<Longrightarrow> \<bar>dx\<bar> \<le> 1 \<Longrightarrow> \<bar>dy\<bar> \<le> 1 \<Longrightarrow> player_move dx dy g = Some (b, g') \<Longrightarrow> plays seed g'"

inductive_cases playsE: "plays seed g"

lemma plays_inv:
  "plays seed g \<Longrightarrow> actors_ok g \<and> generate 60 24 seed = Some (gmap g) \<and> power (player g) = 3"
proof (induction rule: plays.induct)
  case (start seed g)
  then show ?case using game_new_ok [of seed] by auto
next
  case (turn seed g dx dy b g')
  then show ?case using player_move_ok by auto
qed

lemma plays_map: "plays seed g \<Longrightarrow> gen_inv (gmap g) \<and> map_width (gmap g) = 60 \<and> map_height (gmap g) = 24"
  using plays_inv [of seed g] generate_ok [of 60 24 seed] by auto

lemma floor_inside: "gen_inv m \<Longrightarrow> (x, y) \<in> floor_cells m \<Longrightarrow> 0 < x \<and> x < map_width m - 1 \<and> 0 < y \<and> y < map_height m - 1"
  unfolding gen_inv_def interior_def by fastforce

text \<open>C2: For every map of at least 12 by 9 cells whose area fits \<open>i32\<close>, and every seed, \<open>Map::generate\<close> returns a
  map of that size without a panic; it has a room, every room is inside the map with a wall around the border, the
  rooms share no cell and consist of floor, and every floor cell can be reached from every other by steps up, down,
  left and right over floor.\<close>

theorem generate_connected:
  assumes "12 \<le> w" and "9 \<le> h" and "w * h < 2 ^ 31"
  shows "\<exists>m. generate w h seed = Some m \<and> map_width m = w \<and> map_height m = h \<and> length (tiles m) = nat (w * h) \<and>
    rooms m \<noteq> [] \<and> (\<forall>r \<in> set (rooms m). rect_cells r \<subseteq> floor_cells m \<and> 4 \<le> rw r \<and> 3 \<le> rh r) \<and>
    sorted_wrt (\<lambda>a b. rect_cells a \<inter> rect_cells b = {}) (rooms m) \<and>
    floor_cells m \<subseteq> {1..w - 2} \<times> {1..h - 2} \<and> connected (floor_cells m)"
proof -
  obtain m where m: "generate w h seed = Some m" "gen_inv m" "rooms m \<noteq> []" "map_width m = w" "map_height m = h"
    using generate_ok [OF assms] by blast
  moreover have "sorted_wrt (\<lambda>a b. rect_cells a \<inter> rect_cells b = {}) (rooms m)"
    by (rule sorted_wrt_mono_rel [of _ "\<lambda>a b. \<not> intersects a b"]) (use m(2) in \<open>simp_all add: gen_inv_def intersects_disjoint\<close>)
  moreover have "floor_cells m \<subseteq> {1..w - 2} \<times> {1..h - 2}"
    using m(2,4,5) floor_inside [of m] by fastforce
  ultimately show ?thesis by (auto simp: gen_inv_def map_ok_def room_ok_def)
qed

theorem generate_connected_witness:
  "\<exists>m. generate 12 9 7 = Some m \<and> rooms m \<noteq> [] \<and> connected (floor_cells m)"
  using generate_connected [of 12 9 7] by auto

lemma plays_move:
  assumes "plays seed g" and "\<bar>dx\<bar> \<le> 1" and "\<bar>dy\<bar> \<le> 1"
  shows "\<exists>b g'. player_move dx dy g = Some (b, g')"
proof -
  note i = plays_inv [OF assms(1)] plays_map [OF assms(1)]
  have "0 < ax (player g) \<and> ax (player g) < 59 \<and> 0 < ay (player g) \<and> ay (player g) < 23"
    using i floor_inside [of "gmap g" "ax (player g)" "ay (player g)"] by (auto simp: actors_ok_def pos_def)
  then have "i32_ok (ax (player g) + dx)" "i32_ok (ay (player g) + dy)"
    unfolding i32_ok_def using assms(2,3) by (auto simp: abs_le_iff)
  then show ?thesis by (auto simp: player_move_def Let_def split: option.splits)
qed


lemma game_new_plays: "\<exists>g. game_new seed = Some g \<and> plays seed g"
  using game_new_ok [of seed] plays.start by blast


definition turn_effect :: "Game \<Rightarrow> Game \<Rightarrow> bool" where
  "turn_effect g g' \<longleftrightarrow> gmap g' = gmap g \<and> pos (player g') = pos (player g) \<and>
     hp (player g') = hp (player g) - sum_list (map power (filter (strikes g) (monsters g))) \<and>
     length (monsters g') = length (monsters g) \<and>
     (\<forall>j < length (monsters g). pursues g (monsters g ! j) (monsters g' ! j))"

lemma monsters_act_effect: "turn_effect g (monsters_act g)"
  by (simp add: turn_effect_def acted_all monsters_act_hp)

text \<open>Property: A move does one of three things. Where a living monster stands it is hit with the player's power and
  the player stays; onto free floor the player steps; else the move returns false and changes nothing. In the first two cases
  the monsters act afterwards: the player loses the sum of the powers of the living monsters within one cell (diagonals
  included) and nothing else, and each monster stays or, when it is two to eight cells away, takes one step that brings
  it one cell closer.\<close>

theorem player_move_effect:
  assumes "i32_ok (ax (player g) + dx)" and "i32_ok (ay (player g) + dy)"
  shows "case monster_at g (ax (player g) + dx) (ay (player g) + dy) of
      Some i \<Rightarrow> \<exists>g'. player_move dx dy g = Some (True, g') \<and> turn_effect (hit_monster i g) g' \<and>
        pos (player g') = pos (player g) \<and>
        monsters (hit_monster i g) =
          (monsters g)[i := (monsters g ! i)\<lparr>hp := hp (monsters g ! i) - power (player g)\<rparr>] \<and> i < length (monsters g)
    | None \<Rightarrow>
        if walkable (gmap g) (ax (player g) + dx) (ay (player g) + dy)
        then \<exists>g'. player_move dx dy g = Some (True, g') \<and>
          turn_effect (g\<lparr>player := (player g)\<lparr>ax := ax (player g) + dx, ay := ay (player g) + dy\<rparr>\<rparr>) g'
        else player_move dx dy g = Some (False, g)"
proof -
  have "player (hit_monster i g) = player g" "monsters (hit_monster i g) =
      (monsters g)[i := (monsters g ! i)\<lparr>hp := hp (monsters g ! i) - power (player g)\<rparr>]" for i
    by (simp_all add: hit_monster_def Let_def)
  moreover have "pos (player (monsters_act (hit_monster i g))) = pos (player (hit_monster i g))" for i
    by (rule acted_all)
  ultimately show ?thesis
    using assms monsters_act_effect monster_at_Some [of g]
    by (auto simp: player_move_def Let_def split: option.split)
qed

theorem player_move_effect_witness:
  "\<exists>g'. player_move 1 0 \<lparr>gmap = \<lparr>map_width = 3, map_height = 1, tiles = [Floor, Floor, Floor], rooms = []\<rparr>,
      player = \<lparr>ax = 0, ay = 0, hp = 30, power = 3, glyph = CHR ''@''\<rparr>,
      monsters = [\<lparr>ax = 1, ay = 0, hp = 6, power = 2, glyph = CHR ''o''\<rparr>], glog = []\<rparr> = Some (True, g') \<and>
    hp (player g') = 28"
  using player_move_effect [of "\<lparr>gmap = \<lparr>map_width = 3, map_height = 1, tiles = [Floor, Floor, Floor], rooms = []\<rparr>,
      player = \<lparr>ax = 0, ay = 0, hp = 30, power = 3, glyph = CHR ''@''\<rparr>,
      monsters = [\<lparr>ax = 1, ay = 0, hp = 6, power = 2, glyph = CHR ''o''\<rparr>], glog = []\<rparr>" 1 0]
  by (auto simp: i32_ok_def monster_at_def alive_at_def turn_effect_def hit_monster_def strikes_def living_def gap_def
      pos_def cheb_def)

section \<open>The picture\<close>

text \<open>Property: The rendered picture of a reachable game has 24 lines of 60 characters; the player's cell shows the at sign and is
  the only one, a living monster's cell shows an \<open>o\<close>, every other floor cell a dot and every wall a hash.\<close>

theorem render_picture:
  assumes "plays seed g"
  shows "\<exists>rows. render_game g = concat (map (\<lambda>row. row @ [CHR 0x0A]) rows) \<and> length rows = 24 \<and>
    (\<forall>y < 24. length (rows ! y) = 60 \<and> (\<forall>x < 60. rows ! y ! x =
       (if (int x, int y) = pos (player g) then CHR ''@''
        else if \<exists>a \<in> set (monsters g). living a \<and> pos a = (int x, int y) then CHR ''o''
        else if (int x, int y) \<in> floor_cells (gmap g) then CHR ''.'' else CHR ''#'')))"
proof -
  have d: "map_width (gmap g) = 60" "map_height (gmap g) = 24" using plays_map [OF assms] by simp_all
  let ?rows = "map (\<lambda>y. map (\<lambda>x. cell_char g x y) [0..59]) [0..23]"
  have "render_game g = concat (map (\<lambda>row. row @ [CHR 0x0A]) ?rows)"
    by (simp add: render_game_def d comp_def)
  moreover have "cell_char g x y =
       (if (x, y) = pos (player g) then CHR ''@''
        else if \<exists>a \<in> set (monsters g). living a \<and> pos a = (x, y) then CHR ''o''
        else if (x, y) \<in> floor_cells (gmap g) then CHR ''.'' else CHR ''#'')" for x y
    using monster_at_None [of g x y] by (auto simp: cell_char_def pos_def floor_cells_def)
  ultimately show ?thesis
    by (intro exI [of _ ?rows] conjI) (auto simp: nth_upto)
qed

theorem render_picture_witness:
  "\<exists>g rows. game_new 42 = Some g \<and> render_game g = concat (map (\<lambda>row. row @ [CHR 0x0A]) rows) \<and> length rows = 24"
proof -
  obtain g where "game_new 42 = Some g" "plays 42 g" using game_new_plays by blast
  then show ?thesis using render_picture [of 42 g] by blast
qed

end
