(* ===== verification/Rogue_Main.thy ===== *)
theory Rogue_Main
  imports Roguelike
begin

text \<open>
  \<open>main.rs\<close> of the roguelike: a headless demonstration in which the player walks toward the nearest living orc. Differences of positions are
  plain integers, since both lie on the map and no \<open>i32\<close> overflows. The theory shows that the demonstration never panics and only plays
  legal moves, and when it stands still.
\<close>

section \<open>The code\<close>

definition seed_of_args :: "string list \<Rightarrow> u64" where
  "seed_of_args argv =
     (case (if 1 < length argv then parse_uint (2 ^ 64 - 1) (argv ! 1) else None) of
        Some n \<Rightarrow> of_nat n
      | None \<Rightarrow> 2026)"

text \<open>\<open>Iterator::min_by_key\<close>: the first of the least elements.\<close>

fun min_by_key :: "('a \<Rightarrow> int) \<Rightarrow> 'a list \<Rightarrow> 'a option" where
  "min_by_key k [] = None"
| "min_by_key k (x # xs) = Some (foldl (\<lambda>best y. if k y < k best then y else best) x xs)"

definition nearest_orc :: "Game \<Rightarrow> Actor option" where
  "nearest_orc g =
     min_by_key (\<lambda>m. \<bar>ax m - ax (player g)\<bar> + \<bar>ay m - ay (player g)\<bar>) (filter (\<lambda>m. hp m > 0) (monsters g))"

definition demo_turn :: "Game \<Rightarrow> Game option" where
  "demo_turn g =
     Option.bind (nearest_orc g) (\<lambda>target.
       let dx = sgn (ax target - ax (player g)); dy = sgn (ay target - ay (player g)) in
       Option.bind (player_move dx 0 g) (\<lambda>(moved, g1).
         if moved then Some g1 else map_option snd (player_move 0 dy g1)))"

fun demo_loop :: "nat \<Rightarrow> Game \<Rightarrow> Game option" where
  "demo_loop 0 g = Some g"
| "demo_loop (Suc n) g =
     (if is_dead g \<or> (\<forall>m \<in> set (monsters g). hp m \<le> 0) then Some g
      else Option.bind (demo_turn g) (demo_loop n))"

definition demo_main :: "string list \<Rightarrow> string option" where
  "demo_main argv =
     Option.bind (game_new (seed_of_args argv)) (\<lambda>g.
     Option.bind (demo_loop 300 g) (\<lambda>g'.
       Some (render_game g @ [CHR 0x0A] @ render_game g' @ [CHR 0x0A]
         @ ''player hp: '' @ show_int (hp (player g')) @ '', orcs alive: '' @ show_nat (length (filter (\<lambda>m. hp m > 0) (monsters g'))) @ [CHR 0x0A]
         @ concat (map (\<lambda>l. l @ [CHR 0x0A]) (rev (take 5 (rev (glog g'))))))))"

section \<open>The nearest orc\<close>

lemma min_by_key_least:
  "min_by_key k xs = Some x \<Longrightarrow> x \<in> set xs \<and> (\<forall>y \<in> set xs. k x \<le> k y)"
proof (cases xs)
  case (Cons a ys)
  have "foldl (\<lambda>best y. if k y < k best then y else best) b zs \<in> insert b (set zs)
     \<and> (\<forall>y \<in> insert b (set zs). k (foldl (\<lambda>best y. if k y < k best then y else best) b zs) \<le> k y)" for b zs
  proof (induction zs arbitrary: b)
    case (Cons z zs)
    show ?case using Cons.IH [of "if k z < k b then z else b"] by (auto split: if_splits)
  qed simp
  then show "min_by_key k xs = Some x \<Longrightarrow> x \<in> set xs \<and> (\<forall>y \<in> set xs. k x \<le> k y)" using Cons by auto
qed simp

lemma min_by_key_some: "xs \<noteq> [] \<Longrightarrow> \<exists>x. min_by_key k xs = Some x"
  by (cases xs) auto

lemma nearest_orc_some: "\<not> (\<forall>m \<in> set (monsters g). hp m \<le> 0) \<Longrightarrow> \<exists>t. nearest_orc g = Some t"
  unfolding nearest_orc_def by (rule min_by_key_some) (auto simp: filter_empty_conv not_le)

section \<open>The demonstration never panics\<close>

lemma abs_sgn_le: "\<bar>sgn (x :: int)\<bar> \<le> 1"
  by (simp add: sgn_if)

lemma demo_turn_plays:
  assumes "plays seed g" "\<not> (\<forall>m \<in> set (monsters g). hp m \<le> 0)"
  shows "\<exists>g'. demo_turn g = Some g' \<and> plays seed g'"
proof -
  obtain t where t: "nearest_orc g = Some t" using nearest_orc_some [OF assms(2)] by blast
  define dx dy where "dx = sgn (ax t - ax (player g))" and "dy = sgn (ay t - ay (player g))"
  have d: "\<bar>dx\<bar> \<le> 1" "\<bar>dy\<bar> \<le> 1" "\<bar>0 :: int\<bar> \<le> 1" by (simp_all add: dx_def dy_def abs_sgn_le)
  obtain b g1 where m1: "player_move dx 0 g = Some (b, g1)" using plays_move [OF assms(1) d(1,3)] by blast
  have p1: "plays seed g1" using plays.turn [OF assms(1) d(1,3) m1] .
  obtain c g2 where m2: "player_move 0 dy g1 = Some (c, g2)" using plays_move [OF p1 d(3,2)] by blast
  have "plays seed g2" using plays.turn [OF p1 d(3,2) m2] .
  then show ?thesis using t m1 m2 p1 by (simp add: demo_turn_def Let_def flip: dx_def dy_def)
qed

lemma demo_loop_plays: "plays seed g \<Longrightarrow> \<exists>g'. demo_loop n g = Some g' \<and> plays seed g'"
proof (induction n arbitrary: g)
  case (Suc n)
  show ?case
  proof (cases "is_dead g \<or> (\<forall>m \<in> set (monsters g). hp m \<le> 0)")
    case True
    then show ?thesis using Suc.prems by auto
  next
    case False
    then obtain g1 where "demo_turn g = Some g1" "plays seed g1" using demo_turn_plays [OF Suc.prems] by blast
    then show ?thesis using False Suc.IH by auto
  qed
qed auto

section \<open>Properties\<close>

text \<open>Property: The demonstration never panics, whatever its arguments: it prints a first picture and, after legal moves only, a last one.\<close>

theorem demo_completes:
  "\<exists>g g' rest. game_new (seed_of_args argv) = Some g \<and> plays (seed_of_args argv) g' \<and> demo_loop 300 g = Some g'
     \<and> demo_main argv = Some (render_game g @ [CHR 0x0A] @ render_game g' @ [CHR 0x0A] @ rest)"
proof -
  obtain g where g: "game_new (seed_of_args argv) = Some g" "plays (seed_of_args argv) g" using game_new_plays by blast
  obtain g' where "demo_loop 300 g = Some g'" "plays (seed_of_args argv) g'" using demo_loop_plays [OF g(2)] by blast
  then show ?thesis using g(1) by (simp add: demo_main_def)
qed

lemma still_move:
  assumes "actors_ok g" "i32_ok (ax (player g))" "i32_ok (ay (player g))"
  shows "player_move 0 0 g = Some (True, monsters_act g)"
proof -
  have "monster_at g (ax (player g)) (ay (player g)) = None" using assms(1) unfolding monster_at_None by (auto simp: actors_ok_def pos_def in_set_conv_nth)
  moreover have "walkable (gmap g) (ax (player g)) (ay (player g))" using assms(1) by (simp add: actors_ok_def floor_cells_def pos_def)
  ultimately show ?thesis using assms(2,3) by (simp add: player_move_def)
qed

definition far_orcs :: "Game \<Rightarrow> bool" where
  "far_orcs g \<longleftrightarrow> (\<forall>m \<in> set (monsters g). hp m > 0 \<longrightarrow> 8 < cheb (ax (player g) - ax m) (ay (player g) - ay m))"

lemma far_orcs_wait: "far_orcs g \<Longrightarrow> monsters_act g = g"
proof -
  assume far: "far_orcs g"
  have "monster_act i g = g" if "i < length (monsters g)" for i
    using far nth_mem [OF that] by (auto simp: far_orcs_def monster_act_def Let_def not_le)
  then have "set is \<subseteq> {..<length (monsters g)} \<Longrightarrow> fold monster_act is g = g" for "is"
    by (induction "is") auto
  from this [of "[0..<length (monsters g)]"] show ?thesis by (simp add: monsters_act_def lessThan_atLeast0)
qed

text \<open>Property: When the nearest orc is in the player's column, the demonstration does not step along the column: its horizontal move by zero counts as made,
  and only the orcs act. If moreover every living orc is more than eight cells away, nothing changes, and the remaining turns are spent standing still.\<close>

theorem demo_stands_still:
  assumes "actors_ok g" "i32_ok (ax (player g))" "i32_ok (ay (player g))" "nearest_orc g = Some t" "ax t = ax (player g)"
  shows "demo_turn g = Some (monsters_act g) \<and> (far_orcs g \<longrightarrow> demo_loop n g = Some g)"
proof -
  have turn: "demo_turn g = Some (monsters_act g)" using assms(4,5) still_move [OF assms(1-3)] by (simp add: demo_turn_def)
  moreover have "demo_loop n g = Some g" if "far_orcs g" using turn far_orcs_wait [OF that] by (induction n) simp_all
  ultimately show ?thesis by blast
qed

text \<open>A corridor one cell wide, the player at its upper and an orc at its lower end.\<close>

definition corridor :: Game where
  "corridor = \<lparr>gmap = \<lparr>map_width = 1, map_height = 12, tiles = replicate 12 Floor, rooms = []\<rparr>,
     player = \<lparr>ax = 0, ay = 0, hp = 30, power = 3, glyph = CHR ''@''\<rparr>, monsters = [\<lparr>ax = 0, ay = 11, hp = 6, power = 2, glyph = CHR ''o''\<rparr>], glog = []\<rparr>"

theorem demo_stands_still_witness: "demo_loop 300 corridor = Some corridor \<and> hp (hd (monsters corridor)) = 6"
proof -
  have "walkable (gmap corridor) 0 0" "walkable (gmap corridor) 0 11" by (simp_all add: corridor_def walkable_def in_bounds_def idx_def)
  then have "actors_ok corridor" by (simp add: actors_ok_def floor_cells_def pos_def corridor_def)
  moreover have "nearest_orc corridor = Some (hd (monsters corridor))" "i32_ok (ax (player corridor))" "i32_ok (ay (player corridor))" "far_orcs corridor"
    by (simp_all add: corridor_def nearest_orc_def i32_ok_def far_orcs_def cheb_def)
  ultimately show ?thesis using demo_stands_still [of corridor "hd (monsters corridor)" 300] by (simp add: corridor_def)
qed

end
