(* ===== verification/Linked_List.thy ===== *)
theory Linked_List
  imports Rust_Prelude
begin

text \<open>
  The singly linked stack of \<open>2026-07-22-rust-linked-list/src/lib.rs\<close>. A \<open>Box\<close> is owned by one place only, so a
  chain of boxes is a value. A shared borrow is the borrowed value; a mutable borrow is the borrowed value with the
  function that writes the place back. The theory shows that the operations refine a stack kept as a list, that the
  three iterators end and yield the elements in order, and that dropping a list frees every node with constant stack depth.
\<close>

section \<open>The code\<close>

datatype 'a Node = Node (elem: 'a) (node_next: "'a Node option")

type_synonym 'a Link = "'a Node option"

record 'a List =
  head :: "'a Link"

definition list_new :: "'a List" where
  "list_new = \<lparr>head = None\<rparr>"

definition list_default :: "'a List" where
  "list_default = list_new"

text \<open>\<open>Option::take\<close> leaves \<open>None\<close> behind.\<close>

definition head_take :: "'a List \<Rightarrow> 'a Link \<times> 'a List" where
  "head_take l = (head l, l\<lparr>head := None\<rparr>)"

definition list_push :: "'a \<Rightarrow> 'a List \<Rightarrow> 'a List" where
  "list_push x l = (let (old, l1) = head_take l; new_node = Node x old in l1\<lparr>head := Some new_node\<rparr>)"

definition list_pop :: "'a List \<Rightarrow> 'a option \<times> 'a List" where
  "list_pop l =
     (let (old, l1) = head_take l
      in case old of None \<Rightarrow> (None, l1) | Some node \<Rightarrow> (Some (elem node), l1\<lparr>head := node_next node\<rparr>))"

definition list_peek :: "'a List \<Rightarrow> 'a option" where
  "list_peek l = map_option elem (head l)"

text \<open>The borrowed element and the list after a write through the borrow.\<close>

definition list_peek_mut :: "'a List \<Rightarrow> ('a \<times> ('a \<Rightarrow> 'a List)) option" where
  "list_peek_mut l = map_option (\<lambda>node. (elem node, \<lambda>y. l\<lparr>head := Some (Node y (node_next node))\<rparr>)) (head l)"

definition list_is_empty :: "'a List \<Rightarrow> bool" where
  "list_is_empty l \<longleftrightarrow> head l = None"

datatype 'a IntoIter = IntoIter "'a List"

record 'a Iter =
  iter_ptr :: "'a Link"

record 'a IterMut =
  iter_mut_ptr :: "'a Link"

definition list_into_iter :: "'a List \<Rightarrow> 'a IntoIter" where
  "list_into_iter l = IntoIter l"

definition list_iter :: "'a List \<Rightarrow> 'a Iter" where
  "list_iter l = \<lparr>iter_ptr = head l\<rparr>"

definition list_iter_mut :: "'a List \<Rightarrow> 'a IterMut" where
  "list_iter_mut l = \<lparr>iter_mut_ptr = head l\<rparr>"

fun into_iter_next :: "'a IntoIter \<Rightarrow> 'a option \<times> 'a IntoIter" where
  "into_iter_next (IntoIter l) = (let (r, l') = list_pop l in (r, IntoIter l'))"

definition iter_next :: "'a Iter \<Rightarrow> 'a option \<times> 'a Iter" where
  "iter_next it =
     (case iter_ptr it of None \<Rightarrow> (None, it) | Some node \<Rightarrow> (Some (elem node), it\<lparr>iter_ptr := node_next node\<rparr>))"

definition iter_mut_next :: "'a IterMut \<Rightarrow> 'a option \<times> 'a IterMut" where
  "iter_mut_next it =
     (let it1 = it\<lparr>iter_mut_ptr := None\<rparr>
      in case iter_mut_ptr it of
           None \<Rightarrow> (None, it1)
         | Some node \<Rightarrow> (Some (elem node), it1\<lparr>iter_mut_ptr := node_next node\<rparr>))"

text \<open>
  A loop over \<open>iter_mut\<close> that overwrites each element \<open>x\<close> it is given with \<open>f x\<close>, and the chain it leaves: the borrow of
  a node's element and the borrow of the rest of the chain are writes to that node's two fields.
\<close>

partial_function (option) write_each :: "('a \<Rightarrow> 'a) \<Rightarrow> 'a IterMut \<Rightarrow> 'a Link option" where
  "write_each f it =
     (case iter_mut_next it of
        (None, it') \<Rightarrow> Some (iter_mut_ptr it)
      | (Some x, it') \<Rightarrow> Option.bind (write_each f it') (\<lambda>rest. Some (Some (Node (f x) rest))))"

definition map_in_place :: "('a \<Rightarrow> 'a) \<Rightarrow> 'a List \<Rightarrow> 'a List option" where
  "map_in_place f l = map_option (\<lambda>link. l\<lparr>head := link\<rparr>) (write_each f (list_iter_mut l))"

text \<open>
  Dropping. \<open>drop_box\<close> is the drop the compiler generates for a chain of boxes: the element, then the rest, one frame
  deeper. Both functions give the elements dropped, in order, and the depth of the deepest frame.
\<close>

fun drop_box :: "'a Link \<Rightarrow> 'a list \<times> nat" where
  "drop_box None = ([], 0)"
| "drop_box (Some (Node x n)) = (let (xs, d) = drop_box n in (x # xs, Suc d))"

partial_function (option) drop_loop :: "'a Link \<Rightarrow> ('a list \<times> nat) option" where
  "drop_loop cur_link =
     (case cur_link of
        None \<Rightarrow> Some ([], 0)
      | Some boxed_node \<Rightarrow>
          (let next_link = node_next boxed_node;
               (xs, d) = drop_box (Some (Node (elem boxed_node) None))
           in Option.bind (drop_loop next_link) (\<lambda>(ys, e). Some (xs @ ys, max d e))))"

definition list_drop :: "'a List \<Rightarrow> ('a list \<times> nat) option" where
  "list_drop l = drop_loop (fst (head_take l))"

section \<open>The elements of a chain\<close>

fun link_elems :: "'a Link \<Rightarrow> 'a list" where
  "link_elems None = []"
| "link_elems (Some (Node x n)) = x # link_elems n"

definition elems :: "'a List \<Rightarrow> 'a list" where
  "elems l = link_elems (head l)"

lemma link_elems_Some: "link_elems (Some n) = elem n # link_elems (node_next n)"
  by (cases n) simp

lemma link_elems_Nil [simp]: "link_elems k = [] \<longleftrightarrow> k = None"
  by (cases k rule: link_elems.cases) simp_all

lemma link_elems_ConsE:
  assumes "link_elems k = x # xs"
  obtains n where "k = Some n" and "elem n = x" and "link_elems (node_next n) = xs"
  using assms by (cases k rule: link_elems.cases) auto

section \<open>Stacks\<close>

text \<open>The abstract stack is the list of its elements, top first. The calls a client can make and the answers it sees.\<close>

datatype 'a call = Push 'a | Pop | Peek | Replace_top 'a | Is_empty

datatype 'a answer = Done | Item "'a option" | Flag bool

fun spec_call :: "'a call \<Rightarrow> 'a list \<Rightarrow> 'a answer \<times> 'a list" where
  "spec_call (Push x) xs = (Done, x # xs)"
| "spec_call Pop [] = (Item None, [])"
| "spec_call Pop (x # xs) = (Item (Some x), xs)"
| "spec_call Peek xs = (Item (case xs of [] \<Rightarrow> None | x # _ \<Rightarrow> Some x), xs)"
| "spec_call (Replace_top y) xs = (Done, case xs of [] \<Rightarrow> [] | _ # zs \<Rightarrow> y # zs)"
| "spec_call Is_empty xs = (Flag (xs = []), xs)"

fun list_call :: "'a call \<Rightarrow> 'a List \<Rightarrow> 'a answer \<times> 'a List" where
  "list_call (Push x) l = (Done, list_push x l)"
| "list_call Pop l = (let (r, l') = list_pop l in (Item r, l'))"
| "list_call Peek l = (Item (list_peek l), l)"
| "list_call (Replace_top y) l = (Done, case list_peek_mut l of None \<Rightarrow> l | Some (x, wr) \<Rightarrow> wr y)"
| "list_call Is_empty l = (Flag (list_is_empty l), l)"

text \<open>A run of calls with its answers.\<close>

fun run_calls :: "('c \<Rightarrow> 's \<Rightarrow> 'b \<times> 's) \<Rightarrow> 'c list \<Rightarrow> 's \<Rightarrow> 'b list \<times> 's" where
  "run_calls f [] s = ([], s)"
| "run_calls f (c # cs) s = (let (b, s1) = f c s; (bs, s2) = run_calls f cs s1 in (b # bs, s2))"

text \<open>The contract of an implementation of stacks: each call commutes with the abstraction.\<close>

locale simulates =
  fixes impl :: "'c \<Rightarrow> 's \<Rightarrow> 'b \<times> 's" and spec :: "'c \<Rightarrow> 't \<Rightarrow> 'b \<times> 't" and abs :: "'s \<Rightarrow> 't"
  assumes commutes: "map_prod id abs (impl c s) = spec c (abs s)"
begin

lemma run_commutes: "map_prod id abs (run_calls impl cs s) = run_calls spec cs (abs s)"
proof (induction cs arbitrary: s)
  case (Cons c cs)
  obtain b s1 where i: "impl c s = (b, s1)" by fastforce
  obtain bs s2 where r: "run_calls impl cs s1 = (bs, s2)" by fastforce
  have "spec c (abs s) = (b, abs s1)" using commutes [of c s] by (simp add: i)
  moreover have "run_calls spec cs (abs s1) = (bs, abs s2)" using Cons [of s1] by (simp add: r)
  ultimately show ?case by (simp add: i r)
qed simp

end

lemma elems_simps:
  "elems list_new = []"
  "elems (list_push x l) = x # elems l"
  "list_is_empty l \<longleftrightarrow> elems l = []"
  by (simp_all add: elems_def list_new_def list_push_def head_take_def list_is_empty_def)

interpretation ll: simulates list_call spec_call elems
proof
  fix c :: "'a call" and l :: "'a List"
  show "map_prod id elems (list_call c l) = spec_call c (elems l)"
    by (cases c; cases "head l" rule: link_elems.cases)
      (auto simp: elems_def list_push_def list_pop_def list_peek_def list_peek_mut_def list_is_empty_def head_take_def)
qed

section \<open>Iterators\<close>

text \<open>A \<open>for\<close> loop that collects what an iterator yields.\<close>

partial_function (option) collect :: "('i \<Rightarrow> 'a option \<times> 'i) \<Rightarrow> 'i \<Rightarrow> 'a list option" where
  "collect nxt it =
     (case nxt it of
        (None, it') \<Rightarrow> Some []
      | (Some x, it') \<Rightarrow> Option.bind (collect nxt it') (\<lambda>xs. Some (x # xs)))"

text \<open>The contract of an iterator: it yields the elements it has left one by one and stays exhausted.\<close>

locale fused_iterator =
  fixes nxt :: "'i \<Rightarrow> 'a option \<times> 'i" and left :: "'i \<Rightarrow> 'a list"
  assumes exhausted: "left it = [] \<Longrightarrow> fst (nxt it) = None \<and> left (snd (nxt it)) = []"
    and yields: "left it = x # xs \<Longrightarrow> fst (nxt it) = Some x \<and> left (snd (nxt it)) = xs"
begin

lemma collect_left: "collect nxt it = Some (left it)"
proof (induction "left it" arbitrary: it)
  case Nil
  then show ?case using exhausted [of it] by (subst collect.simps) (auto split: prod.split)
next
  case (Cons x xs)
  have n: "fst (nxt it) = Some x" "left (snd (nxt it)) = xs" using yields [of it x xs] Cons.hyps(2) by simp_all
  then have "collect nxt (snd (nxt it)) = Some xs" using Cons.hyps(1) [of "snd (nxt it)"] by simp
  then show ?case using n Cons.hyps(2) by (subst collect.simps) (cases "nxt it", simp)
qed

end

interpretation shared: fused_iterator iter_next "\<lambda>it. link_elems (iter_ptr it)"
  by unfold_locales (auto simp: iter_next_def elim: link_elems_ConsE)

interpretation unique: fused_iterator iter_mut_next "\<lambda>it. link_elems (iter_mut_ptr it)"
  by unfold_locales (auto simp: iter_mut_next_def elim: link_elems_ConsE)

fun into_elems :: "'a IntoIter \<Rightarrow> 'a list" where
  "into_elems (IntoIter l) = elems l"

interpretation owned: fused_iterator into_iter_next into_elems
proof
  fix it :: "'a IntoIter" and x xs
  obtain l where it: "it = IntoIter l" by (cases it)
  show "into_elems it = [] \<Longrightarrow> fst (into_iter_next it) = None \<and> into_elems (snd (into_iter_next it)) = []"
    by (auto simp: it elems_def list_pop_def head_take_def)
  show "into_elems it = x # xs \<Longrightarrow> fst (into_iter_next it) = Some x \<and> into_elems (snd (into_iter_next it)) = xs"
    by (auto simp: it elems_def list_pop_def head_take_def elim: link_elems_ConsE)
qed

lemma write_each_elems:
  "\<exists>k. write_each f it = Some k \<and> link_elems k = map f (link_elems (iter_mut_ptr it))"
proof (induction "link_elems (iter_mut_ptr it)" arbitrary: it)
  case Nil
  from Nil [symmetric] show ?case by (subst write_each.simps) (simp add: iter_mut_next_def)
next
  case (Cons x xs)
  then obtain n where n: "iter_mut_ptr it = Some n" "elem n = x" "link_elems (node_next n) = xs"
    by (metis link_elems_ConsE)
  obtain k where "write_each f (it\<lparr>iter_mut_ptr := node_next n\<rparr>) = Some k" "link_elems k = map f xs"
    using Cons.hyps(1) [of "it\<lparr>iter_mut_ptr := node_next n\<rparr>"] n(3) by auto
  then show ?case
    using n by (subst write_each.simps) (simp add: iter_mut_next_def link_elems_Some)
qed

section \<open>Dropping\<close>

lemma drop_box_spec: "drop_box k = (link_elems k, length (link_elems k))"
  by (induction k rule: link_elems.induct) simp_all

lemma drop_loop_spec: "drop_loop k = Some (link_elems k, min 1 (length (link_elems k)))"
proof (induction k rule: link_elems.induct)
  case 1
  show ?case by (subst drop_loop.simps) simp
next
  case (2 x n)
  then show ?case by (subst drop_loop.simps) simp
qed

section \<open>Properties\<close>

text \<open>C10: The linked stack refines the stack kept as a list: on a list with any content, any sequence of pushes, pops,
  peeks, writes through \<open>peek_mut\<close> and emptiness tests gives the same answers and ends with the same elements.\<close>

theorem stack_refines:
  "map_prod id elems (run_calls list_call cs l) = run_calls spec_call cs (elems l)"
  by (rule ll.run_commutes)

text \<open>C29: The loops over \<open>iter\<close>, \<open>iter_mut\<close> and \<open>into_iter\<close> end on every list and yield its elements, top first; a loop that
  overwrites each element through \<open>iter_mut\<close> ends with the list whose elements are the overwritten ones, in the same order.\<close>

theorem iterators_end:
  "collect iter_next (list_iter l) = Some (elems l) \<and>
   collect iter_mut_next (list_iter_mut l) = Some (elems l) \<and>
   collect into_iter_next (list_into_iter l) = Some (elems l) \<and>
   (\<exists>l'. map_in_place f l = Some l' \<and> elems l' = map f (elems l))"
  using write_each_elems [of f "list_iter_mut l"]
  by (auto simp: shared.collect_left unique.collect_left owned.collect_left list_iter_def list_iter_mut_def
      list_into_iter_def map_in_place_def elems_def)

text \<open>Property: Dropping a list ends, drops every element once from the front to the back as the generated drop of the chain
  would, and never goes deeper than one frame, where the generated drop goes as deep as the list is long.\<close>

theorem drop_constant_stack:
  "\<exists>d. list_drop l = Some (elems l, d) \<and> d \<le> 1 \<and> drop_box (head l) = (elems l, length (elems l))"
  by (simp add: list_drop_def head_take_def drop_loop_spec drop_box_spec elems_def)

section \<open>The demonstration\<close>

text \<open>\<open>main.rs\<close>: what it prints, or \<open>None\<close> if one of its loops did not end. The elements are small, so that doubling an \<open>i32\<close> is doubling.\<close>

definition debug_option :: "int option \<Rightarrow> string" where
  "debug_option x = (case x of None \<Rightarrow> ''None'' | Some n \<Rightarrow> ''Some('' @ show_int n @ '')'')"

definition stack_demo :: "string option" where
  "stack_demo =
     (let list = list_push 3 (list_push 2 (list_push 1 list_new)); nl = [CHR 0x0A] in
      Option.bind (map_in_place (\<lambda>n. n * 2) list) (\<lambda>list2.
      Option.bind (collect iter_next (list_iter list2)) (\<lambda>xs.
      Option.bind (collect into_iter_next (list_into_iter list2)) (\<lambda>ys.
        Some (''pushing 1, 2, 3'' @ nl @ ''peek: '' @ debug_option (list_peek list) @ nl
          @ ''doubling every element via iter_mut'' @ nl
          @ ''contents front-to-back via iter():'' @ concat (map (\<lambda>n. '' '' @ show_int n) xs) @ nl
          @ ''draining via into_iter():'' @ concat (map (\<lambda>n. '' '' @ show_int n) ys) @ nl)))))"

text \<open>Property: The demonstration ends and prints the elements it pushed, doubled, from the last to the first, twice.\<close>

theorem stack_demo_prints:
  "stack_demo = Some (''pushing 1, 2, 3'' @ [CHR 0x0A] @ ''peek: Some(3)'' @ [CHR 0x0A] @ ''doubling every element via iter_mut'' @ [CHR 0x0A]
     @ ''contents front-to-back via iter(): 6 4 2'' @ [CHR 0x0A] @ ''draining via into_iter(): 6 4 2'' @ [CHR 0x0A])"
proof -
  define l :: "int List" where "l = list_push 3 (list_push 2 (list_push 1 list_new))"
  have l: "elems l = [3, 2, 1]" "list_peek l = Some 3" by (simp_all add: l_def list_push_def list_new_def head_take_def elems_def list_peek_def)
  obtain l2 where l2: "map_in_place (\<lambda>n. n * 2) l = Some l2" "elems l2 = [6, 4, 2]"
    using write_each_elems [of "\<lambda>n. n * 2" "list_iter_mut l"] l(1) by (auto simp: map_in_place_def list_iter_mut_def elems_def)
  have "collect iter_next (list_iter l2) = Some [6, 4, 2]" "collect into_iter_next (list_into_iter l2) = Some [6, 4, 2]"
    using l2(2) by (simp_all add: shared.collect_left owned.collect_left list_iter_def list_into_iter_def elems_def)
  then show ?thesis using l(2) l2(1)
    by (simp add: stack_demo_def Let_def debug_option_def show_int_def show_nat.simps digit_def char_of_def bit_0 flip: l_def)
qed

end
