(* ===== verification/Utf8_Chars.thy ===== *)
theory Utf8_Chars
  imports Rust_Prelude
begin

text \<open>
  Characters inside strings. A Rust \<open>char\<close> is the list of the bytes of its UTF-8 encoding, so that collecting characters into a
  \<open>String\<close> is \<^const>\<open>concat\<close>; \<open>chars\<close> is \<open>str::chars\<close>. The theory shows that the two are inverse on well-formed characters and where the character boundaries are.
\<close>

section \<open>Characters\<close>

type_synonym rchar = string

definition char_ok :: "rchar \<Rightarrow> bool" where
  "char_ok c = (case c of [] \<Rightarrow> False | b # bs \<Rightarrow> utf8_step b bs = (True, length bs))"

fun chars :: "string \<Rightarrow> rchar list" where
  "chars [] = []"
| "chars (c # cs) = (let k = snd (utf8_step c cs) in (c # take k cs) # chars (drop k cs))"

abbreviation space :: rchar where
  "space \<equiv> [CHR '' '']"

abbreviation tab :: rchar where
  "tab \<equiv> [CHR 0x09]"

abbreviation newline :: rchar where
  "newline \<equiv> [CHR 0x0A]"

text \<open>\<open>str::is_char_boundary\<close> and \<open>String::truncate\<close> (which panics inside a character).\<close>

definition is_cont :: "char \<Rightarrow> bool" where
  "is_cont b \<longleftrightarrow> 0x80 \<le> code_of b \<and> code_of b \<le> 0xBF"

definition is_char_boundary :: "string \<Rightarrow> nat \<Rightarrow> bool" where
  "is_char_boundary s i \<longleftrightarrow> i = 0 \<or> i = length s \<or> (i < length s \<and> \<not> is_cont (s ! i))"

definition truncate_str :: "nat \<Rightarrow> string \<Rightarrow> string option" where
  "truncate_str n s = (if n \<le> length s then if is_char_boundary s n then Some (take n s) else None else Some s)"

section \<open>Strings and characters\<close>

lemma concat_chars [simp]: "concat (chars s) = s"
proof (induction s rule: chars.induct)
  case (2 c cs)
  then show ?case by (simp add: Let_def)
qed simp

lemma chars_ok: "utf8_valid s \<Longrightarrow> \<forall>c \<in> set (chars s). char_ok c"
proof (induction s rule: chars.induct)
  case (2 c cs)
  obtain k where st: "utf8_step c cs = (True, k)" and v: "utf8_valid (drop k cs)"
    using 2(2) by (auto split: prod.splits)
  have "utf8_step c (take k cs) = (True, k)" using utf8_step_take [OF st, of "[]"] by simp
  moreover have "length (take k cs) = k" using utf8_step_bound [OF st] by simp
  ultimately have "char_ok (c # take k cs)" by (simp add: char_ok_def)
  then show ?case using 2 st v by (simp add: Let_def)
qed simp

lemma chars_concat: "\<forall>c \<in> set cs. char_ok c \<Longrightarrow> chars (concat cs) = cs \<and> utf8_valid (concat cs)"
proof (induction cs)
  case (Cons c cs)
  then obtain b bs where c: "c = b # bs" and st: "utf8_step b bs = (True, length bs)"
    by (cases c) (auto simp: char_ok_def)
  have "utf8_step b (bs @ concat cs) = (True, length bs)" using utf8_step_append [OF st] by simp
  then show ?case using Cons c by (simp add: Let_def)
qed simp

lemma chars_valid: "utf8_valid (concat cs) \<Longrightarrow> \<forall>c \<in> set (chars (concat cs)). char_ok c"
  by (rule chars_ok)

lemma char_ok_ascii [simp]: "char_ok [b] \<longleftrightarrow> code_of b < 0x80"
  by (auto simp: char_ok_def utf8_step_def utf8_lead_def cont_in_def split: if_splits)

lemma chars_append: "\<forall>c \<in> set cs. char_ok c \<Longrightarrow> chars (concat cs @ t) = cs @ chars t"
proof (induction cs)
  case (Cons c cs)
  then obtain b bs where c: "c = b # bs" and st: "utf8_step b bs = (True, length bs)"
    by (cases c) (auto simp: char_ok_def)
  have "utf8_step b (bs @ concat cs @ t) = (True, length bs)" using utf8_step_append [OF st] by simp
  then show ?case using Cons c by (simp add: Let_def)
qed simp

lemma char_ok_bytes:
  assumes "char_ok c"
  obtains b bs where "c = b # bs" and "\<not> is_cont b" and "\<forall>d \<in> set bs. is_cont d"
proof -
  obtain b bs where c: "c = b # bs" and st: "utf8_step b bs = (True, length bs)"
    using assms by (cases c) (auto simp: char_ok_def)
  have "\<not> is_cont b" using st by (auto simp: utf8_step_def utf8_lead_def is_cont_def split: if_splits)
  moreover have "is_cont (bs ! n)" if "n < length bs" for n
    using utf8_step_cont [OF st that] that by (simp add: cont_in_def is_cont_def Cons_nth_drop_Suc [symmetric])
  ultimately show ?thesis using that c by (metis in_set_conv_nth)
qed

lemma char_boundary_concat:
  assumes "\<forall>c \<in> set hs. char_ok c" and "i \<le> length hs"
  shows "is_char_boundary (concat hs) (length (concat (take i hs)))"
proof (cases "i = length hs")
  case False
  then have h: "concat hs = concat (take i hs) @ hs ! i @ concat (drop (Suc i) hs)"
    using assms(2) by (metis Cons_nth_drop_Suc append_take_drop_id concat.simps(2) concat_append le_neq_implies_less)
  have "char_ok (hs ! i)" using assms False by (simp add: le_neq_implies_less)
  then obtain b bs where "hs ! i = b # bs" "\<not> is_cont b" by (rule char_ok_bytes)
  then show ?thesis using h by (simp add: is_char_boundary_def)
qed (simp add: is_char_boundary_def)

lemma utf8_valid_rest: "utf8_valid a \<Longrightarrow> utf8_valid (a @ w) \<Longrightarrow> utf8_valid w"
proof (induction a rule: utf8_valid.induct)
  case (2 c cs)
  obtain k where st: "utf8_step c cs = (True, k)" and v: "utf8_valid (drop k cs)" using "2.prems"(1) by (auto split: prod.splits)
  have k: "k \<le> length cs" using st by (rule utf8_step_bound)
  have "utf8_valid (drop k cs @ w)" using "2.prems"(2) utf8_step_append [OF st, of w] k by simp
  then show ?case using "2.IH" [OF st [symmetric]] v by simp
qed simp

end
