(* ===== verification/Ed_Row.thy ===== *)
theory Ed_Row
  imports Utf8_Chars
begin

text \<open>
  Lines of text of the editor, \<open>2026-08-04-rust-text-editor/src/row.rs\<close>. The Unicode tables behind
  \<open>str::to_lowercase\<close> are a parameter of the search.
\<close>

section \<open>Strings\<close>

text \<open>\<open>str::find\<close>.\<close>

fun find_sub :: "'a list \<Rightarrow> 'a list \<Rightarrow> nat option" where
  "find_sub w [] = (if w = [] then Some 0 else None)"
| "find_sub w (c # cs) = (if starts_with w (c # cs) then Some 0 else map_option Suc (find_sub w cs))"

section \<open>Rows\<close>

record Row =
  row_chars :: "rchar list"
  row_render :: string

definition TAB_STOP :: nat where
  "TAB_STOP = 8"

definition row_default :: Row where
  "row_default = \<lparr>row_chars = [], row_render = []\<rparr>"

definition row_len :: "Row \<Rightarrow> nat" where
  "row_len r = length (row_chars r)"

definition row_is_empty :: "Row \<Rightarrow> bool" where
  "row_is_empty r \<longleftrightarrow> row_chars r = []"

definition render_slice :: "nat \<Rightarrow> nat \<Rightarrow> Row \<Rightarrow> string" where
  "render_slice start stop r =
     (let cs = chars (row_render r); stop' = min stop (length cs); start' = min start stop'
      in concat (take (stop' - start') (drop start' cs)))"

text \<open>The distance to the next tab stop shrinks with every blank.\<close>

lemma tab_gap: "8 - col mod 8 = Suc ((8 - Suc col mod 8) mod 8)" for col :: nat
proof (cases "Suc (col mod 8) = 8")
  case True
  then have "col mod 8 = 7" by simp
  then show ?thesis by (simp add: mod_Suc)
next
  case False
  have "col mod 8 < 8" by simp
  then have "Suc (col mod 8) < 8" using False by linarith
  moreover have "Suc col mod 8 = Suc (col mod 8)" using False by (simp add: mod_Suc)
  ultimately show ?thesis by simp
qed

lemma tab_gap_less: "col mod 8 \<noteq> 0 \<Longrightarrow> (8 - Suc col mod 8) mod 8 < (8 - col mod 8) mod 8" for col :: nat
  using tab_gap [of col] by (metis diff_less lessI mod_less neq0_conv zero_less_numeral)

text \<open>The loop that pads to the next tab stop, and the loop over the characters.\<close>

function pad_tab :: "string \<Rightarrow> nat \<Rightarrow> string \<times> nat" where
  "pad_tab out col = (if col mod TAB_STOP \<noteq> 0 then pad_tab (out @ space) (col + 1) else (out, col))"
  by pat_completeness auto
termination
proof (relation "measure (\<lambda>(out, col). (8 - col mod 8) mod 8)")
  fix out :: string and col :: nat
  assume "col mod TAB_STOP \<noteq> 0"
  then have "col mod 8 \<noteq> 0" by (simp add: TAB_STOP_def)
  then have "(8 - Suc col mod 8) mod 8 < (8 - col mod 8) mod 8" by (rule tab_gap_less)
  then show "((out @ space, col + 1), out, col) \<in> measure (\<lambda>(out, col). (8 - col mod 8) mod 8)" by simp
qed simp

declare pad_tab.simps [simp del]

definition render_char :: "string \<times> nat \<Rightarrow> rchar \<Rightarrow> string \<times> nat" where
  "render_char st c = (let (out, col) = st in if c = tab then pad_tab (out @ space) (col + 1) else (out @ c, col + 1))"

definition rebuild_render :: "Row \<Rightarrow> Row" where
  "rebuild_render r = r\<lparr>row_render := fst (foldl render_char ([], 0) (row_chars r))\<rparr>"

definition row_from :: "string \<Rightarrow> Row" where
  "row_from s = rebuild_render \<lparr>row_chars = chars s, row_render = []\<rparr>"

definition row_insert :: "nat \<Rightarrow> rchar \<Rightarrow> Row \<Rightarrow> Row" where
  "row_insert pos c r =
     (let i = min pos (length (row_chars r))
      in rebuild_render (r\<lparr>row_chars := take i (row_chars r) @ c # drop i (row_chars r)\<rparr>))"

definition row_delete :: "nat \<Rightarrow> Row \<Rightarrow> Row" where
  "row_delete pos r =
     (if pos \<ge> length (row_chars r) then r
      else rebuild_render (r\<lparr>row_chars := take pos (row_chars r) @ drop (pos + 1) (row_chars r)\<rparr>))"

text \<open>The tail goes through a \<open>String\<close> and back.\<close>

definition row_split :: "nat \<Rightarrow> Row \<Rightarrow> Row \<times> Row" where
  "row_split pos r =
     (let i = min pos (length (row_chars r)); tail = drop i (row_chars r)
      in (rebuild_render (r\<lparr>row_chars := take i (row_chars r)\<rparr>), row_from (concat tail)))"

definition row_append :: "Row \<Rightarrow> Row \<Rightarrow> Row" where
  "row_append other r = rebuild_render (r\<lparr>row_chars := row_chars r @ row_chars other\<rparr>)"

definition as_string :: "Row \<Rightarrow> string" where
  "as_string r = concat (row_chars r)"

text \<open>The outer option is a panic: slicing the lower-cased text at an index inside a character.\<close>

definition row_find :: "(string \<Rightarrow> string) \<Rightarrow> string \<Rightarrow> nat \<Rightarrow> Row \<Rightarrow> nat option option" where
  "row_find to_lowercase query start r =
     (if query = [] \<or> start > length (row_chars r) then Some None
      else (let haystack = concat (drop start (row_chars r));
                haystack_lower = to_lowercase haystack;
                query_lower = to_lowercase query
            in case find_sub query_lower haystack_lower of
                 None \<Rightarrow> Some None
               | Some byte_idx \<Rightarrow>
                   if is_char_boundary haystack_lower byte_idx
                   then Some (Some (start + length (chars (take byte_idx haystack_lower))))
                   else None))"

section \<open>The render string\<close>

text \<open>The reference: a tab is replaced by the blanks up to the next multiple of eight.\<close>

fun expand :: "nat \<Rightarrow> rchar list \<Rightarrow> rchar list" where
  "expand col [] = []"
| "expand col (c # cs) =
     (if c = tab then replicate (8 - col mod 8) space @ expand (col + (8 - col mod 8)) cs
      else c # expand (col + 1) cs)"

lemma pad_tab_eq: "pad_tab out col = (out @ replicate ((8 - col mod 8) mod 8) (CHR '' ''), col + (8 - col mod 8) mod 8)"
proof (induction out col rule: pad_tab.induct)
  case (1 out col)
  show ?case
  proof (cases "col mod 8 = 0")
    case True
    then show ?thesis by (subst pad_tab.simps) (simp add: TAB_STOP_def)
  next
    case False
    let ?n = "(8 - Suc col mod 8) mod 8"
    have "8 - col mod 8 < 8" using False by simp
    then have n: "(8 - col mod 8) mod 8 = Suc ?n" using tab_gap [of col] by (metis mod_less)
    have "pad_tab out col = pad_tab (out @ space) (col + 1)" using False by (subst pad_tab.simps) (simp add: TAB_STOP_def)
    also have "\<dots> = (out @ space @ replicate ?n (CHR '' ''), col + 1 + ?n)"
      using 1 False by (simp add: TAB_STOP_def)
    finally show ?thesis unfolding n by simp
  qed
qed

lemma render_tab: "render_char (out, col) tab = (out @ replicate (8 - col mod 8) (CHR '' ''), col + (8 - col mod 8))"
  by (subst (1 2) tab_gap) (simp add: render_char_def pad_tab_eq)

lemma foldl_render: "foldl render_char (out, col) cs = (out @ concat (expand col cs), col + length (expand col cs))"
proof (induction cs arbitrary: out col)
  case (Cons c cs)
  show ?case
  proof (cases "c = tab")
    case True
    have "concat (replicate n space) = replicate n (CHR '' '')" for n by (induction n) simp_all
    then show ?thesis using Cons True by (simp add: render_tab del: replicate_Suc)
  next
    case False
    then show ?thesis using Cons by (simp add: render_char_def)
  qed
qed simp

lemma rebuild_render_eq: "rebuild_render r = r\<lparr>row_render := concat (expand 0 (row_chars r))\<rparr>"
  by (simp add: rebuild_render_def foldl_render)

lemma expand_ok: "\<forall>c \<in> set cs. char_ok c \<Longrightarrow> \<forall>c \<in> set (expand col cs). char_ok c"
  by (induction col cs rule: expand.induct) auto

lemma expand_tab: "tab \<notin> set (expand col cs)"
  by (induction col cs rule: expand.induct) auto

section \<open>Rows stay well formed\<close>

text \<open>A row holds well-formed characters other than the newline, and its render string is the expansion of the tabs.\<close>

definition row_ok :: "Row \<Rightarrow> bool" where
  "row_ok r \<longleftrightarrow> (\<forall>c \<in> set (row_chars r). char_ok c \<and> c \<noteq> newline) \<and> row_render r = concat (expand 0 (row_chars r))"

definition typable :: "rchar \<Rightarrow> bool" where
  "typable c \<longleftrightarrow> char_ok c \<and> c \<noteq> newline"

lemma row_eqI: "row_chars r = row_chars s \<Longrightarrow> row_render r = row_render s \<Longrightarrow> r = (s :: Row)"
  by simp

lemma row_chars_rebuild [simp]: "row_chars (rebuild_render r) = row_chars r"
  by (simp add: rebuild_render_def)

lemma row_ok_rebuild: "row_ok (rebuild_render r) \<longleftrightarrow> (\<forall>c \<in> set (row_chars r). typable c)"
  by (simp add: row_ok_def typable_def rebuild_render_eq)

lemma row_ok_typable: "row_ok r \<Longrightarrow> \<forall>c \<in> set (row_chars r). typable c"
  by (simp add: row_ok_def typable_def)

lemma row_ok_unique: "row_ok r \<Longrightarrow> row_ok s \<Longrightarrow> row_chars r = row_chars s \<Longrightarrow> r = s"
  by (simp add: row_ok_def)

lemma newline_in_chars: "newline \<in> set (chars s) \<Longrightarrow> CHR 0x0A \<in> set s"
  by (metis UN_I concat_chars list.set_intros(1) set_concat)

lemma row_default_ok [simp]: "row_ok row_default" "row_chars row_default = []"
  by (simp_all add: row_ok_def row_default_def)

lemma row_chars_simps [simp]:
  "row_chars (row_from s) = chars s"
  "row_chars (row_insert i c r) = take i (row_chars r) @ c # drop i (row_chars r)"
  "row_chars (row_delete i r) = take i (row_chars r) @ drop (Suc i) (row_chars r)"
  "row_chars (fst (row_split i r)) = take i (row_chars r)"
  "row_chars (row_append q r) = row_chars r @ row_chars q"
  by (simp_all add: row_from_def row_insert_def row_delete_def row_split_def row_append_def Let_def min_def)

lemma row_split_tail: "row_ok r \<Longrightarrow> row_chars (snd (row_split i r)) = drop i (row_chars r)"
  using chars_concat [of "drop i (row_chars r)"] row_ok_typable [of r]
  by (auto simp: row_split_def Let_def typable_def min_def dest: in_set_dropD)

lemma row_insert_ok: "row_ok r \<Longrightarrow> typable c \<Longrightarrow> row_ok (row_insert i c r)"
  using row_ok_typable [of r]
  by (auto simp: row_insert_def Let_def row_ok_rebuild dest: in_set_takeD in_set_dropD)

lemma row_delete_ok: "row_ok r \<Longrightarrow> row_ok (row_delete i r)"
  using row_ok_typable [of r]
  by (auto simp: row_delete_def row_ok_rebuild dest: in_set_takeD in_set_dropD)

lemma row_split_ok:
  assumes "row_ok r"
  shows "row_ok (fst (row_split i r))" and "row_ok (snd (row_split i r))"
proof -
  show "row_ok (fst (row_split i r))"
    using row_ok_typable [OF assms] by (auto simp: row_split_def Let_def row_ok_rebuild dest: in_set_takeD)
  have "row_ok (row_from s)" if "\<forall>c \<in> set (chars s). typable c" for s
    using that by (simp add: row_from_def row_ok_rebuild)
  then show "row_ok (snd (row_split i r))"
    using row_split_tail [OF assms, of i] row_ok_typable [OF assms]
    by (metis in_set_dropD row_chars_simps(1) row_split_def snd_conv)
qed

lemma row_append_ok: "row_ok r \<Longrightarrow> row_ok s \<Longrightarrow> row_ok (row_append s r)"
  using row_ok_typable [of r] row_ok_typable [of s] by (auto simp: row_append_def row_ok_rebuild)

lemma row_from_ok: "utf8_valid s \<Longrightarrow> CHR 0x0A \<notin> set s \<Longrightarrow> row_ok (row_from s)"
  using chars_ok [of s] newline_in_chars [of s] by (auto simp: row_from_def row_ok_rebuild typable_def)

lemmas row_ok_ops = row_insert_ok row_delete_ok row_split_ok row_append_ok row_from_ok row_default_ok

text \<open>A row that was read back from its string.\<close>

lemma row_from_as_string: "row_ok r \<Longrightarrow> row_from (as_string r) = r"
proof -
  assume r: "row_ok r"
  then have "chars (as_string r) = row_chars r"
    using chars_concat [of "row_chars r"] row_ok_typable [of r] by (simp add: as_string_def typable_def)
  then show ?thesis using r by (intro row_eqI) (simp_all add: row_from_def rebuild_render_eq row_ok_def)
qed

lemma as_string_newline: "row_ok r \<Longrightarrow> CHR 0x0A \<notin> set (as_string r)"
proof
  assume r: "row_ok r" and "CHR 0x0A \<in> set (as_string r)"
  then obtain c where c: "c \<in> set (row_chars r)" "CHR 0x0A \<in> set c" by (auto simp: as_string_def)
  then have ok: "char_ok c" "c \<noteq> newline" using row_ok_typable [OF r] by (auto simp: typable_def)
  obtain b bs where cb: "c = b # bs" using ok(1) by (cases c) (auto simp: char_ok_def)
  have st: "utf8_step b bs = (True, length bs)" using ok(1) cb by (simp add: char_ok_def)
  have "b \<noteq> CHR 0x0A"
  proof
    assume "b = CHR 0x0A"
    then have "bs = []" using st by simp
    then show False using ok(2) cb \<open>b = CHR 0x0A\<close> by simp
  qed
  then have "CHR 0x0A \<in> set bs" using c(2) cb by simp
  then obtain n where n: "n < length bs" "bs ! n = CHR 0x0A" by (auto simp: in_set_conv_nth)
  then have "cont_in 0x80 0xBF (drop n bs)" using utf8_step_cont [OF st] by simp
  then show False using n by (simp add: cont_in_def Cons_nth_drop_Suc [symmetric])
qed

text \<open>C26: The render string of a row is the text with every tab replaced by blanks up to the next multiple of eight columns: it
  holds no tab, every operation on rows keeps it so, and a row is rebuilt from its own string.\<close>

theorem row_render_expands:
  assumes "row_ok r" and "row_ok s" and "typable c"
  shows "row_render r = concat (expand 0 (row_chars r)) \<and> chars (row_render r) = expand 0 (row_chars r) \<and>
    tab \<notin> set (chars (row_render r)) \<and> row_from (as_string r) = r \<and>
    row_ok (row_insert i c r) \<and> row_ok (row_delete i r) \<and> row_ok (fst (row_split i r)) \<and> row_ok (snd (row_split i r)) \<and>
    row_ok (row_append s r)"
proof -
  have "row_render r = concat (expand 0 (row_chars r))" using assms(1) by (simp add: row_ok_def)
  moreover have "chars (row_render r) = expand 0 (row_chars r)"
    using calculation chars_concat [OF expand_ok, of "row_chars r" 0] assms(1) by (simp add: row_ok_def)
  ultimately show ?thesis
    using assms row_ok_ops expand_tab [of 0 "row_chars r"] row_from_as_string [of r] by simp
qed

theorem row_render_expands_witness:
  "chars (row_render (row_from ''a'')) = expand 0 [''a''] \<and> row_ok (row_insert 1 tab (row_from ''a''))"
  using row_render_expands [of "row_from ''a''" row_default tab 1] row_from_ok [of "''a''"]
  by (simp add: typable_def)

section \<open>Search in a row\<close>

text \<open>A byte search for a well-formed text in a well-formed text finds characters.\<close>

lemma starts_with_iff: "starts_with w s \<longleftrightarrow> (\<exists>t. s = w @ t)"
  unfolding starts_with_def by (metis append_eq_conv_conj append_take_drop_id)

lemma starts_with_chars:
  assumes "\<forall>c \<in> set qs. char_ok c" and "\<forall>c \<in> set hs. char_ok c"
  shows "starts_with (concat qs) (concat hs) \<longleftrightarrow> starts_with qs hs"
proof
  assume "starts_with (concat qs) (concat hs)"
  then obtain t where "concat hs = concat qs @ t" by (auto simp: starts_with_iff)
  then have "hs = qs @ chars t" using chars_append [OF assms(1), of t] chars_concat [OF assms(2)] by simp
  then show "starts_with qs hs" by (auto simp: starts_with_iff)
qed (auto simp: starts_with_iff)

lemma find_sub_skip:
  "\<forall>d \<in> set bs. is_cont d \<Longrightarrow> \<not> is_cont b \<Longrightarrow> find_sub (b # w) (bs @ t) = map_option ((+) (length bs)) (find_sub (b # w) t)"
proof (induction bs)
  case Nil
  then show ?case by (simp add: option.map_id [unfolded id_def])
next
  case (Cons d bs)
  then have "d \<noteq> b" by auto
  then have "\<not> starts_with (b # w) (d # bs @ t)" by (simp add: starts_with_def)
  then show ?case using Cons by (simp add: option.map_comp comp_def)
qed

lemma find_sub_Nil [simp]: "find_sub [] s = Some 0"
  by (cases s) (simp_all add: starts_with_def)

lemma find_sub_chars:
  assumes "\<forall>c \<in> set qs. char_ok c" and "\<forall>c \<in> set hs. char_ok c"
  shows "find_sub (concat qs) (concat hs) = map_option (\<lambda>i. length (concat (take i hs))) (find_sub qs hs)"
proof (cases qs)
  case (Cons q qs')
  obtain b w where w: "concat qs = b # w" "\<not> is_cont b"
    using assms(1) Cons by (auto elim: char_ok_bytes)
  show ?thesis
    using assms(2)
  proof (induction hs)
    case Nil
    then show ?case using w(1) Cons by auto
  next
    case (Cons h hs)
    then obtain hb ht where h: "h = hb # ht" "\<not> is_cont hb" "\<forall>d \<in> set ht. is_cont d" by (auto elim: char_ok_bytes)
    have sw: "starts_with (concat qs) (concat (h # hs)) \<longleftrightarrow> starts_with qs (h # hs)"
      using starts_with_chars [OF assms(1) Cons.prems] .
    have "find_sub (concat qs) (concat (h # hs)) =
        (if starts_with qs (h # hs) then Some 0 else map_option Suc (find_sub (concat qs) (ht @ concat hs)))"
      using sw h(1) by simp
    also have "find_sub (concat qs) (ht @ concat hs) = map_option ((+) (length ht)) (find_sub (concat qs) (concat hs))"
      unfolding w(1) using h(3) w(2) by (rule find_sub_skip)
    also have "find_sub (concat qs) (concat hs) = map_option (\<lambda>i. length (concat (take i hs))) (find_sub qs hs)"
      using Cons by simp
    finally show ?case using h(1) by (simp add: option.map_comp comp_def)
  qed
qed simp

lemma find_sub_bound: "find_sub w s = Some i \<Longrightarrow> i \<le> length s"
  by (induction s arbitrary: i) (auto split: if_splits)

text \<open>What the search computes when lower-casing keeps strings well formed: the place of the query's characters in those of the
  lower-cased rest of the row. It never panics.\<close>

lemma row_find_eq:
  assumes "utf8_valid (lower query)" and "utf8_valid (lower (concat (drop start (row_chars r))))"
  shows "row_find lower query start r =
    Some (if query = [] \<or> length (row_chars r) < start then None
          else map_option ((+) start) (find_sub (chars (lower query)) (chars (lower (concat (drop start (row_chars r)))))))"
proof (cases "query = [] \<or> length (row_chars r) < start")
  case False
  let ?hs = "chars (lower (concat (drop start (row_chars r))))" and ?qs = "chars (lower query)"
  note ok = chars_ok [OF assms(1)] chars_ok [OF assms(2)]
  have f: "find_sub (lower query) (lower (concat (drop start (row_chars r)))) =
      map_option (\<lambda>i. length (concat (take i ?hs))) (find_sub ?qs ?hs)"
    using find_sub_chars [OF ok] by simp
  show ?thesis
  proof (cases "find_sub ?qs ?hs")
    case None
    then show ?thesis using False f by (simp add: row_find_def)
  next
    case (Some i)
    have i: "i \<le> length ?hs" using Some by (rule find_sub_bound)
    have b: "is_char_boundary (lower (concat (drop start (row_chars r)))) (length (concat (take i ?hs)))"
      using char_boundary_concat [OF ok(2) i] by simp
    have "lower (concat (drop start (row_chars r))) = concat (take i ?hs) @ concat (drop i ?hs)"
      by (metis append_take_drop_id concat_append concat_chars)
    then have "take (length (concat (take i ?hs))) (lower (concat (drop start (row_chars r)))) = concat (take i ?hs)"
      by (metis append_eq_conv_conj)
    moreover have "\<forall>c \<in> set (take i ?hs). char_ok c" using ok(2) in_set_takeD by metis
    ultimately have "length (chars (take (length (concat (take i ?hs))) (lower (concat (drop start (row_chars r)))))) = i"
      using chars_concat [of "take i ?hs"] i by simp
    then show ?thesis using False f Some b by (simp add: row_find_def)
  qed
qed (auto simp: row_find_def)

text \<open>Lower-casing that works character by character on the characters of \<open>S\<close>, as \<open>str::to_lowercase\<close> does on ASCII.\<close>

definition charwise :: "(string \<Rightarrow> string) \<Rightarrow> (rchar \<Rightarrow> rchar) \<Rightarrow> rchar set \<Rightarrow> bool" where
  "charwise lower lc S \<longleftrightarrow>
     (\<forall>cs. set cs \<subseteq> S \<longrightarrow> lower (concat cs) = concat (map lc cs)) \<and> (\<forall>c \<in> S. char_ok c \<and> char_ok (lc c))"

text \<open>The characters \<open>qs\<close> stand at index \<open>i\<close> of \<open>cs\<close>, up to \<open>lc\<close>.\<close>

definition match_at :: "(rchar \<Rightarrow> rchar) \<Rightarrow> rchar list \<Rightarrow> rchar list \<Rightarrow> nat \<Rightarrow> bool" where
  "match_at lc qs cs i \<longleftrightarrow> i + length qs \<le> length cs \<and> map lc (take (length qs) (drop i cs)) = map lc qs"

lemma find_sub_first: "find_sub w s = Some i \<longleftrightarrow>
    i + length w \<le> length s \<and> take (length w) (drop i s) = w \<and> (\<forall>j < i. take (length w) (drop j s) \<noteq> w)"
proof (induction s arbitrary: i)
  case (Cons c s)
  show ?case
  proof (cases "starts_with w (c # s)")
    case True
    then have "length w \<le> length (c # s)" by (metis length_take min.cobounded1 min_def starts_with_def)
    then show ?thesis using True by (cases i) (auto simp: starts_with_def)
  next
    case False
    then show ?thesis using Cons by (cases i) (auto simp: starts_with_def All_less_Suc2)
  qed
qed auto

lemma find_sub_None: "find_sub w s = None \<longleftrightarrow> (\<forall>j < Suc (length s). take (length w) (drop j s) \<noteq> w)"
proof (induction s)
  case (Cons c s)
  then show ?case by (subst All_less_Suc2) (simp add: starts_with_def)
qed simp


lemma charwise_chars:
  assumes "charwise lower lc S" and "set cs \<subseteq> S"
  shows "chars (lower (concat cs)) = map lc cs" and "utf8_valid (lower (concat cs))"
proof -
  have "\<forall>c \<in> set (map lc cs). char_ok c" using assms by (auto simp: charwise_def)
  then show "chars (lower (concat cs)) = map lc cs" "utf8_valid (lower (concat cs))"
    using chars_concat [of "map lc cs"] assms by (simp_all add: charwise_def)
qed

definition first_match :: "(rchar \<Rightarrow> rchar) \<Rightarrow> rchar list \<Rightarrow> rchar list \<Rightarrow> nat \<Rightarrow> nat option \<Rightarrow> bool" where
  "first_match lc qs cs start res \<longleftrightarrow>
     (case res of
        None \<Rightarrow> \<forall>i \<ge> start. \<not> match_at lc qs cs i
      | Some i \<Rightarrow> start \<le> i \<and> match_at lc qs cs i \<and> (\<forall>j. start \<le> j \<longrightarrow> j < i \<longrightarrow> \<not> match_at lc qs cs j))"

lemma match_at_drop:
  assumes "start \<le> length cs"
  shows "match_at lc qs cs (start + j) \<longleftrightarrow>
    j + length qs \<le> length (map lc (drop start cs)) \<and> take (length qs) (drop j (map lc (drop start cs))) = map lc qs"
  using assms by (auto simp: match_at_def take_map drop_map add.commute add.left_commute)

lemma row_find_first:
  assumes "charwise lower lc S" and "set (row_chars r) \<subseteq> S" and "set qs \<subseteq> S" and "qs \<noteq> []"
  shows "\<exists>res. row_find lower (concat qs) start r = Some res \<and> first_match lc qs (row_chars r) start res"
proof -
  let ?cs = "row_chars r" and ?w = "map lc qs" and ?s = "map lc (drop start (row_chars r))"
  have d: "set (drop start ?cs) \<subseteq> S" using assms(2) set_drop_subset by fastforce
  have ne: "concat qs \<noteq> []"
    using assms by (cases qs) (auto simp: charwise_def char_ok_def)
  have e: "row_find lower (concat qs) start r =
      Some (if length ?cs < start then None else map_option ((+) start) (find_sub ?w ?s))"
    using row_find_eq [OF charwise_chars(2) [OF assms(1,3)] charwise_chars(2) [OF assms(1) d]] ne
    by (simp add: charwise_chars(1) [OF assms(1,3)] charwise_chars(1) [OF assms(1) d] del: concat_eq_Nil_conv)
  show ?thesis
  proof (cases "length ?cs < start")
    case True
    then show ?thesis using e assms(4) by (auto simp: first_match_def match_at_def)
  next
    case False
    note m = match_at_drop [of start ?cs lc qs]
    show ?thesis
    proof (cases "find_sub ?w ?s")
      case None
      have "\<not> match_at lc qs ?cs i" if "start \<le> i" for i
        using None m [of "i - start"] that False by (auto simp: find_sub_None)
      then show ?thesis using e None False by (simp add: first_match_def)
    next
      case (Some i)
      then have i: "match_at lc qs ?cs (start + i)" using m [of i] False by (simp add: find_sub_first)
      have "\<not> match_at lc qs ?cs j" if "start \<le> j" "j < start + i" for j
        using Some m [of "j - start"] that False by (auto simp: find_sub_first)
      then show ?thesis using e Some False i by (simp add: first_match_def)
    qed
  qed
qed

text \<open>The ASCII lower-casing is an instance.\<close>

lemma charwise_ascii: "charwise to_ascii_lowercase (map ascii_lower) {[b] | b. code_of b < 0x80}"
proof -
  have "code_of (ascii_lower b) < 0x80" if "code_of b < 0x80" for b
    using that by (auto simp: ascii_lower_def)
  then show ?thesis by (auto simp: charwise_def to_ascii_lowercase_def map_concat)
qed

end
