(* ===== verification/File_System.thy ===== *)
theory File_System
  imports Rust_Prelude
begin

text \<open>
  The part of \<open>std::fs\<close> that the programs use. The file system is a state: the contents of the files, which files can be read and created, and the
  space that is left, so that every failure of \<open>fs::read_to_string\<close>, \<open>File::create\<close>, \<open>write_all\<close> and \<open>fs::write\<close> can happen.
\<close>

section \<open>Files\<close>

record Disk =
  files :: "string \<Rightarrow> string option"
  can_read :: "string \<Rightarrow> bool"
  can_create :: "string \<Rightarrow> bool"
  space_left :: "nat option"

definition read_to_string :: "string \<Rightarrow> Disk \<Rightarrow> (string, io_error) result" where
  "read_to_string name d =
     (case files d name of
        None \<Rightarrow> Err (Os_Error 2)
      | Some bs \<Rightarrow> if \<not> can_read d name then Err (Os_Error 13) else if utf8_valid bs then Ok bs else Err Invalid_Data)"

definition create_file :: "string \<Rightarrow> Disk \<Rightarrow> (unit, io_error) result \<times> Disk" where
  "create_file name d =
     (if can_create d name then (Ok (), d\<lparr>files := (files d)(name := Some [])\<rparr>) else (Err (Os_Error 13), d))"

text \<open>A write that does not fit leaves the part that did.\<close>

definition write_all :: "string \<Rightarrow> string \<Rightarrow> Disk \<Rightarrow> (unit, io_error) result \<times> Disk" where
  "write_all name buf d =
     (let n = (case space_left d of None \<Rightarrow> length buf | Some k \<Rightarrow> min k (length buf));
          old = (case files d name of None \<Rightarrow> [] | Some bs \<Rightarrow> bs);
          d' = d\<lparr>files := (files d)(name := Some (old @ take n buf)), space_left := map_option (\<lambda>k. k - n) (space_left d)\<rparr>
      in if n < length buf then (Err (Os_Error 28), d') else (Ok (), d'))"

definition fs_write :: "string \<Rightarrow> string \<Rightarrow> Disk \<Rightarrow> (unit, io_error) result \<times> Disk" where
  "fs_write name contents d =
     (case create_file name d of (Err e, d1) \<Rightarrow> (Err e, d1) | (Ok u, d1) \<Rightarrow> write_all name contents d1)"

text \<open>A write into a file that can be created, with the space it needs, leaves exactly the contents and touches no other file.\<close>

lemma fs_write_ok:
  assumes "can_create d name" "\<forall>k. space_left d = Some k \<longrightarrow> length contents \<le> k"
  shows "\<exists>d'. fs_write name contents d = (Ok (), d') \<and> files d' = (files d)(name \<mapsto> contents)"
  using assms by (auto simp: fs_write_def create_file_def write_all_def Let_def split: option.splits)

lemma fs_write_refused: "\<not> can_create d name \<Longrightarrow> fs_write name contents d = (Err (Os_Error 13), d)"
  by (simp add: fs_write_def create_file_def)

end
