(* ===== verification/Ed_Document.thy ===== *)
theory Ed_Document
  imports Ed_Row File_System
begin

text \<open>
  The text buffer of the editor, \<open>2026-08-04-rust-text-editor/src/document.rs\<close>. It is read from and saved to the
  files of \<open>File_System\<close>.
\<close>

section \<open>The document\<close>

record Position =
  pos_x :: nat
  pos_y :: nat

record Document =
  doc_rows :: "Row list"
  file_name :: "string option"
  dirty :: bool

definition doc_default :: Document where
  "doc_default = \<lparr>doc_rows = [], file_name = None, dirty = False\<rparr>"

definition doc_open :: "string \<Rightarrow> Disk \<Rightarrow> (Document, io_error) result" where
  "doc_open name d =
     (case read_to_string name d of
        Err e \<Rightarrow> Err e
      | Ok contents \<Rightarrow> Ok \<lparr>doc_rows = map row_from (lines contents), file_name = Some name, dirty = False\<rparr>)"

fun save_rows :: "string \<Rightarrow> Row list \<Rightarrow> Disk \<Rightarrow> (unit, io_error) result \<times> Disk" where
  "save_rows name [] d = (Ok (), d)"
| "save_rows name (r # rs) d =
     (case write_all name (as_string r) d of
        (Err e, d1) \<Rightarrow> (Err e, d1)
      | (Ok u, d1) \<Rightarrow>
          (case write_all name newline d1 of
             (Err e, d2) \<Rightarrow> (Err e, d2)
           | (Ok u, d2) \<Rightarrow> save_rows name rs d2))"

definition doc_save :: "Document \<Rightarrow> Disk \<Rightarrow> (unit, io_error) result \<times> Document \<times> Disk" where
  "doc_save doc d =
     (case file_name doc of
        None \<Rightarrow> (Err Invalid_Input, doc, d)
      | Some name \<Rightarrow>
          (case create_file name d of
             (Err e, d1) \<Rightarrow> (Err e, doc, d1)
           | (Ok u, d1) \<Rightarrow>
               (case save_rows name (doc_rows doc) d1 of
                  (Err e, d2) \<Rightarrow> (Err e, doc, d2)
                | (Ok u, d2) \<Rightarrow> (Ok (), doc\<lparr>dirty := False\<rparr>, d2))))"

definition is_dirty :: "Document \<Rightarrow> bool" where
  "is_dirty doc = dirty doc"

definition doc_len :: "Document \<Rightarrow> nat" where
  "doc_len doc = length (doc_rows doc)"

definition doc_is_empty :: "Document \<Rightarrow> bool" where
  "doc_is_empty doc \<longleftrightarrow> doc_rows doc = []"

definition doc_row :: "nat \<Rightarrow> Document \<Rightarrow> Row option" where
  "doc_row i doc = (if i < length (doc_rows doc) then Some (doc_rows doc ! i) else None)"

definition insert_newline :: "Position \<Rightarrow> Document \<Rightarrow> Document" where
  "insert_newline p doc =
     (let rs = doc_rows doc; y = pos_y p in
      if y \<ge> length rs then doc\<lparr>doc_rows := rs @ [row_default]\<rparr>
      else (let (head, new_row) = row_split (pos_x p) (rs ! y); rs' = rs[y := head]
            in doc\<lparr>doc_rows := take (y + 1) rs' @ new_row # drop (y + 1) rs'\<rparr>))"

definition doc_insert :: "Position \<Rightarrow> rchar \<Rightarrow> Document \<Rightarrow> Document" where
  "doc_insert p c doc =
     (if pos_y p > length (doc_rows doc) then doc
      else (let doc1 = doc\<lparr>dirty := True\<rparr>; rs = doc_rows doc; y = pos_y p in
            if c = newline then insert_newline p doc1
            else if y = length rs then doc1\<lparr>doc_rows := rs @ [row_insert 0 c row_default]\<rparr>
            else doc1\<lparr>doc_rows := rs[y := row_insert (pos_x p) c (rs ! y)]\<rparr>))"

definition doc_delete :: "Position \<Rightarrow> Document \<Rightarrow> Document" where
  "doc_delete p doc =
     (let rs = doc_rows doc; y = pos_y p in
      if y \<ge> length rs then doc
      else (let doc1 = doc\<lparr>dirty := True\<rparr> in
            if pos_x p = row_len (rs ! y) \<and> y + 1 < length rs
            then (let next_row = rs ! (y + 1); rs' = take (y + 1) rs @ drop (y + 2) rs
                  in doc1\<lparr>doc_rows := rs'[y := row_append next_row (rs' ! y)]\<rparr>)
            else doc1\<lparr>doc_rows := rs[y := row_delete (pos_x p) (rs ! y)]\<rparr>))"

text \<open>The rows to search with the column to start at, then the search of these rows in order.\<close>

fun find_rows :: "(string \<Rightarrow> string) \<Rightarrow> string \<Rightarrow> Row list \<Rightarrow> (nat \<times> nat) list \<Rightarrow> Position option option" where
  "find_rows lower query rs [] = Some None"
| "find_rows lower query rs ((y, start) # todo) =
     (case row_find lower query start (rs ! y) of
        None \<Rightarrow> None
      | Some (Some x) \<Rightarrow> Some (Some \<lparr>pos_x = x, pos_y = y\<rparr>)
      | Some None \<Rightarrow> find_rows lower query rs todo)"

definition doc_find :: "(string \<Rightarrow> string) \<Rightarrow> string \<Rightarrow> Position \<Rightarrow> Document \<Rightarrow> Position option option" where
  "doc_find lower query p doc =
     (if query = [] then Some None
      else (let n = length (doc_rows doc)
            in find_rows lower query (doc_rows doc)
                 (map (\<lambda>y. (y, if y = pos_y p then pos_x p else 0)) [pos_y p..<n] @
                  map (\<lambda>y. (y, 0)) [0..<min (pos_y p) n])))"

section \<open>The document as a text\<close>

text \<open>The text: the characters of the rows, each row ended by a newline. A position in a row is a place in the text.\<close>

definition rows_text :: "Row list \<Rightarrow> rchar list" where
  "rows_text rs = concat (map (\<lambda>r. row_chars r @ [newline]) rs)"

definition doc_text :: "Document \<Rightarrow> rchar list" where
  "doc_text doc = rows_text (doc_rows doc)"

definition doc_ok :: "Document \<Rightarrow> bool" where
  "doc_ok doc \<longleftrightarrow> (\<forall>r \<in> set (doc_rows doc). row_ok r)"

definition in_text :: "Document \<Rightarrow> Position \<Rightarrow> bool" where
  "in_text doc p \<longleftrightarrow> pos_y p < doc_len doc \<and> pos_x p \<le> row_len (doc_rows doc ! pos_y p)"

definition place :: "Document \<Rightarrow> Position \<Rightarrow> nat" where
  "place doc p = length (rows_text (take (pos_y p) (doc_rows doc))) + pos_x p"

lemma rows_text_simps [simp]:
  "rows_text [] = []" "rows_text (r # rs) = row_chars r @ newline # rows_text rs" "rows_text (rs @ qs) = rows_text rs @ rows_text qs"
  by (simp_all add: rows_text_def)

lemma row_atE:
  assumes "pos_y p < length (doc_rows doc)"
  obtains A r B where "doc_rows doc = A @ r # B" and "length A = pos_y p"
  using id_take_nth_drop [OF assms] assms by (metis length_take min.absorb4)

lemma in_textE:
  assumes "in_text doc p"
  obtains A r B where "doc_rows doc = A @ r # B" and "length A = pos_y p" and "pos_x p \<le> length (row_chars r)"
    and "place doc p = length (rows_text A) + pos_x p"
proof -
  have "pos_y p < length (doc_rows doc)" using assms by (simp add: in_text_def doc_len_def)
  then obtain A r B where d: "doc_rows doc = A @ r # B" "length A = pos_y p" by (rule row_atE)
  then show ?thesis
    using assms by (intro that [of A r B]) (auto simp: in_text_def row_len_def place_def nth_append)
qed

lemma doc_okD: "doc_ok doc \<Longrightarrow> doc_rows doc = A @ r # B \<Longrightarrow> row_ok r"
  by (simp add: doc_ok_def)

lemma doc_insert_split:
  assumes "doc_rows doc = A @ r # B" and "length A = pos_y p"
  shows "doc_insert p c doc = doc\<lparr>dirty := True, doc_rows :=
    (if c = newline then A @ fst (row_split (pos_x p) r) # snd (row_split (pos_x p) r) # B else A @ row_insert (pos_x p) c r # B)\<rparr>"
  using assms
  by (cases "row_split (pos_x p) r") (auto simp: doc_insert_def insert_newline_def Let_def list_update_append nth_append)

lemma doc_insert_end:
  assumes "pos_y p = doc_len doc"
  shows "doc_insert p c doc = doc\<lparr>dirty := True, doc_rows :=
    doc_rows doc @ [if c = newline then row_default else row_insert 0 c row_default]\<rparr>"
  using assms by (auto simp: doc_insert_def insert_newline_def Let_def doc_len_def)

lemma doc_delete_split:
  assumes "doc_rows doc = A @ r # B" and "length A = pos_y p"
  shows "doc_delete p doc = doc\<lparr>dirty := True, doc_rows :=
    (case B of q # C \<Rightarrow> if pos_x p = row_len r then A @ row_append q r # C else A @ row_delete (pos_x p) r # B
     | [] \<Rightarrow> A @ row_delete (pos_x p) r # B)\<rparr>"
  using assms
  by (cases B) (auto simp: doc_delete_def Let_def list_update_append nth_append)

lemma doc_insert_text:
  assumes "doc_ok doc" and "in_text doc p"
  shows "doc_text (doc_insert p c doc) = take (place doc p) (doc_text doc) @ c # drop (place doc p) (doc_text doc)"
proof -
  obtain A r B where d: "doc_rows doc = A @ r # B" "length A = pos_y p" "pos_x p \<le> length (row_chars r)"
    "place doc p = length (rows_text A) + pos_x p" using assms(2) by (rule in_textE)
  have "row_ok r" using assms(1) d(1) by (rule doc_okD)
  then show ?thesis
    using d by (simp add: doc_insert_split [OF d(1,2)] doc_text_def row_split_tail)
qed

lemma doc_delete_text:
  assumes "doc_ok doc" and "in_text doc p"
  shows "doc_text (doc_delete p doc) =
    (if Suc (place doc p) = length (doc_text doc) then doc_text doc
     else take (place doc p) (doc_text doc) @ drop (Suc (place doc p)) (doc_text doc))"
proof -
  obtain A r B where d: "doc_rows doc = A @ r # B" "length A = pos_y p" "pos_x p \<le> length (row_chars r)"
    "place doc p = length (rows_text A) + pos_x p" using assms(2) by (rule in_textE)
  show ?thesis
    using d by (cases B; cases "pos_x p = length (row_chars r)")
      (auto simp: doc_delete_split [OF d(1,2)] doc_text_def row_len_def Suc_diff_le)
qed

lemma doc_insert_ok: "doc_ok doc \<Longrightarrow> char_ok c \<Longrightarrow> doc_ok (doc_insert p c doc)"
proof -
  assume d: "doc_ok doc" and c: "char_ok c"
  consider "pos_y p > doc_len doc" | "pos_y p = doc_len doc" | "pos_y p < length (doc_rows doc)"
    unfolding doc_len_def by linarith
  then show ?thesis
  proof cases
    case 1
    then show ?thesis using d by (simp add: doc_insert_def doc_len_def)
  next
    case 2
    then show ?thesis using d c by (simp add: doc_insert_end doc_ok_def row_ok_ops typable_def)
  next
    case 3
    then obtain A r B where s: "doc_rows doc = A @ r # B" "length A = pos_y p" by (rule row_atE)
    then show ?thesis
      using d c by (auto simp: doc_insert_split [OF s] doc_ok_def row_ok_ops typable_def)
  qed
qed

lemma doc_delete_ok: "doc_ok doc \<Longrightarrow> doc_ok (doc_delete p doc)"
proof (cases "pos_y p < length (doc_rows doc)")
  case True
  assume d: "doc_ok doc"
  obtain A r B where s: "doc_rows doc = A @ r # B" "length A = pos_y p" using True by (rule row_atE)
  show ?thesis
    unfolding doc_delete_split [OF s] using d s(1) by (cases B) (auto simp: doc_ok_def row_ok_ops)
qed (simp add: doc_delete_def)

section \<open>Saving and opening\<close>

definition free_disk :: "string \<Rightarrow> Disk \<Rightarrow> bool" where
  "free_disk name d \<longleftrightarrow> can_read d name \<and> can_create d name \<and> space_left d = None"

definition file_text :: "Document \<Rightarrow> string" where
  "file_text doc = concat (map (\<lambda>r. as_string r @ newline) (doc_rows doc))"

lemma file_text_concat: "file_text doc = concat (doc_text doc)"
proof -
  have "concat (map (\<lambda>r. as_string r @ newline) rs) = concat (rows_text rs)" for rs
    by (induction rs) (simp_all add: as_string_def)
  then show ?thesis by (simp add: file_text_def doc_text_def)
qed

text \<open>A sequence of writes: what the file holds afterwards, whether they succeed or not.\<close>

definition rows_bytes :: "Row list \<Rightarrow> string" where
  "rows_bytes rs = concat (map (\<lambda>r. as_string r @ newline) rs)"

definition wrote :: "string \<Rightarrow> string \<Rightarrow> Disk \<Rightarrow> (unit, io_error) result \<Rightarrow> Disk \<Rightarrow> bool" where
  "wrote name buf d res d' \<longleftrightarrow> (\<exists>t u. buf = t @ u \<and> files d' = (files d)(name := Some (the (files d name) @ t)) \<and>
     (res = Ok () \<longrightarrow> u = []) \<and> (space_left d = None \<longrightarrow> res = Ok () \<and> space_left d' = None) \<and> can_read d' = can_read d)"

lemma wroteE:
  assumes "wrote name buf d res d'"
  obtains t u where "buf = t @ u" and "files d' = (files d)(name := Some (the (files d name) @ t))" and "res = Ok () \<Longrightarrow> u = []"
    and "space_left d = None \<Longrightarrow> res = Ok () \<and> space_left d' = None" and "can_read d' = can_read d"
  using assms unfolding wrote_def by metis

lemma wrote_Ok:
  assumes "wrote name a d (Ok ()) d1" and "wrote name b d1 res d2"
  shows "wrote name (a @ b) d res d2"
proof -
  obtain t u where 1: "a = t @ u" "files d1 = (files d)(name := Some (the (files d name) @ t))" "u = []"
    "space_left d = None \<Longrightarrow> space_left d1 = None" "can_read d1 = can_read d"
    using assms(1) by (elim wroteE) simp_all
  obtain v w where 2: "b = v @ w" "files d2 = (files d1)(name := Some (the (files d1 name) @ v))" "res = Ok () \<Longrightarrow> w = []"
    "space_left d1 = None \<Longrightarrow> res = Ok () \<and> space_left d2 = None" "can_read d2 = can_read d1"
    using assms(2) by (elim wroteE) simp_all
  show ?thesis unfolding wrote_def using 1 2 by (intro exI [of _ "t @ v"] exI [of _ w]) simp
qed

lemma wrote_Err: "wrote name a d (Err e) d1 \<Longrightarrow> wrote name (a @ b) d (Err e) d1"
  by (elim wroteE, unfold wrote_def) (metis append_assoc result.distinct(1))

lemma write_all_wrote:
  assumes "files d name \<noteq> None" and "write_all name buf d = (res, d')"
  shows "wrote name buf d res d' \<and> files d' name \<noteq> None"
proof -
  let ?n = "case space_left d of None \<Rightarrow> length buf | Some k \<Rightarrow> min k (length buf)"
  show ?thesis
    using assms unfolding wrote_def
    by (intro conjI exI [of _ "take ?n buf"] exI [of _ "drop ?n buf"]) (auto simp: write_all_def Let_def split: if_splits)
qed

lemma unit_Ok: "(x :: (unit, 'e) result) = Ok u \<longleftrightarrow> x = Ok ()"
  by simp

lemma save_rows_wrote:
  assumes "files d name \<noteq> None" and "save_rows name rs d = (res, d')"
  shows "wrote name (rows_bytes rs) d res d'"
  using assms
proof (induction rs arbitrary: d)
  case Nil
  then show ?case by (auto simp: wrote_def rows_bytes_def)
next
  case (Cons r rs)
  have rb: "rows_bytes (r # rs) = as_string r @ newline @ rows_bytes rs" by (simp add: rows_bytes_def)
  obtain res1 d1 where w1: "write_all name (as_string r) d = (res1, d1)" by fastforce
  obtain res2 d2 where w2: "write_all name newline d1 = (res2, d2)" by fastforce
  note 1 = write_all_wrote [OF Cons.prems(1) w1]
  note 2 = write_all_wrote [OF conjunct2 [OF 1] w2]
  show ?case
  proof (cases res1)
    case (Err e)
    then show ?thesis unfolding rb using 1 Cons.prems(2) w1 by (auto intro: wrote_Err)
  next
    case ok1: (Ok x1)
    show ?thesis
    proof (cases res2)
      case (Err e)
      then have "wrote name (newline @ rows_bytes rs) d1 (Err e) d2" using 2 wrote_Err by blast
      then have "wrote name (rows_bytes (r # rs)) d (Err e) d2"
        unfolding rb using 1 ok1 by (metis old.unit.exhaust wrote_Ok)
      then show ?thesis using Err Cons.prems(2) w1 w2 ok1 by simp
    next
      case (Ok x2)
      then have "wrote name (rows_bytes rs) d2 res d'" using Cons.IH [of d2] Cons.prems(2) w1 w2 ok1 2 by simp
      then show ?thesis unfolding rb using 1 2 ok1 Ok by (metis old.unit.exhaust wrote_Ok)
    qed
  qed
qed

lemma doc_save_cases:
  assumes "file_name doc = Some name" and "doc_save doc d = (res, doc', d')"
  shows "(\<not> can_create d name \<and> (\<exists>e. res = Err e) \<and> doc' = doc \<and> d' = d) \<or>
    (can_create d name \<and> (\<exists>t u. file_text doc = t @ u \<and> files d' = (files d)(name := Some t) \<and>
       (res = Ok () \<longrightarrow> u = [] \<and> doc' = doc\<lparr>dirty := False\<rparr>) \<and> (res \<noteq> Ok () \<longrightarrow> doc' = doc) \<and>
       (space_left d = None \<longrightarrow> res = Ok ()) \<and> can_read d' = can_read d))"
proof (cases "can_create d name")
  case True
  let ?d = "d\<lparr>files := (files d)(name := Some [])\<rparr>"
  obtain res1 d1 where s: "save_rows name (doc_rows doc) ?d = (res1, d1)" by fastforce
  have "wrote name (rows_bytes (doc_rows doc)) ?d res1 d1" using save_rows_wrote [OF _ s] by simp
  then obtain t u where tu: "rows_bytes (doc_rows doc) = t @ u" "files d1 = (files d)(name := Some t)" "res1 = Ok () \<Longrightarrow> u = []"
    "space_left d = None \<Longrightarrow> res1 = Ok ()" "can_read d1 = can_read d" by (elim wroteE) simp_all
  have sv: "doc_save doc d = (case res1 of Err e \<Rightarrow> (Err e, doc, d1) | Ok _ \<Rightarrow> (Ok (), doc\<lparr>dirty := False\<rparr>, d1))"
    using True assms(1) s by (simp add: doc_save_def create_file_def split: result.split)
  have "\<exists>t u. file_text doc = t @ u \<and> files d' = (files d)(name := Some t) \<and>
       (res = Ok () \<longrightarrow> u = [] \<and> doc' = doc\<lparr>dirty := False\<rparr>) \<and> (res \<noteq> Ok () \<longrightarrow> doc' = doc) \<and>
       (space_left d = None \<longrightarrow> res = Ok ()) \<and> can_read d' = can_read d"
    using assms(2) tu unfolding sv file_text_def rows_bytes_def [symmetric]
    by - (rule exI [of _ t], rule exI [of _ u], cases res1, auto)
  then show ?thesis using True by simp
qed (use assms in \<open>auto simp: doc_save_def create_file_def\<close>)

lemma doc_text_ok: "doc_ok doc \<Longrightarrow> \<forall>c \<in> set (doc_text doc). char_ok c"
  by (auto simp: doc_text_def rows_text_def doc_ok_def row_ok_def)

text \<open>The rows of which no line ending can take a part.\<close>

definition no_final_cr :: "Document \<Rightarrow> bool" where
  "no_final_cr doc \<longleftrightarrow> (\<forall>r \<in> set (doc_rows doc). row_chars r = [] \<or> last (row_chars r) \<noteq> [CHR 0x0D])"

lemma last_byte_cr:
  assumes "row_ok r" and "as_string r \<noteq> []" and "last (as_string r) = CHR 0x0D"
  shows "row_chars r \<noteq> [] \<and> last (row_chars r) = [CHR 0x0D]"
proof -
  have n: "row_chars r \<noteq> []" using assms(2) by (auto simp: as_string_def)
  let ?c = "last (row_chars r)"
  have c: "char_ok ?c" using n row_ok_typable [OF assms(1)] by (simp add: typable_def)
  then obtain b bs where cb: "?c = b # bs" by (cases ?c) (auto simp: char_ok_def)
  have st: "utf8_step b bs = (True, length bs)" using c cb by (simp add: char_ok_def)
  have "as_string r = concat (butlast (row_chars r)) @ ?c"
    unfolding as_string_def using n by (metis append_butlast_last_id concat.simps concat_append append_Nil2)
  then have l: "last ?c = CHR 0x0D" using assms(3) cb by simp
  have "bs = []"
  proof (rule ccontr)
    assume bs: "bs \<noteq> []"
    then have "cont_in 0x80 0xBF (drop (length bs - 1) bs)" using utf8_step_cont [OF st] by simp
    moreover have "drop (length bs - 1) bs = [last bs]"
      using bs by (metis append_butlast_last_id append_eq_conv_conj length_butlast)
    ultimately show False using l cb bs by (simp add: cont_in_def)
  qed
  then show ?thesis using n l cb by simp
qed

lemma lines_file_text:
  assumes "doc_ok doc" and "no_final_cr doc"
  shows "lines (file_text doc) = map as_string (doc_rows doc)"
proof -
  have "file_text doc = concat (map (\<lambda>l. l @ newline) (map as_string (doc_rows doc)))"
    by (simp add: file_text_def comp_def)
  moreover have "l = [] \<or> last l \<noteq> CHR 0x0D" "CHR 0x0A \<notin> set l" if "l \<in> set (map as_string (doc_rows doc))" for l
    using that assms last_byte_cr as_string_newline by (fastforce simp: doc_ok_def no_final_cr_def)+
  ultimately show ?thesis
    unfolding lines_def by (simp only:) (rule lines_gen_concat, auto)
qed

lemma open_file_text:
  assumes "doc_ok doc" and "no_final_cr doc" and "files d name = Some (file_text doc)" and "can_read d name"
  shows "doc_open name d = Ok \<lparr>doc_rows = doc_rows doc, file_name = Some name, dirty = False\<rparr>"
proof -
  have "utf8_valid (file_text doc)" using chars_concat [OF doc_text_ok [OF assms(1)]] by (simp add: file_text_concat)
  moreover have "map row_from (map as_string (doc_rows doc)) = doc_rows doc"
    using assms(1) by (simp add: doc_ok_def row_from_as_string map_idI)
  ultimately show ?thesis
    using assms(3,4) lines_file_text [OF assms(1,2)] by (simp add: doc_open_def read_to_string_def)
qed

lemma lines_gen_no_newline: "l \<in> set (lines_gen nl cr s) \<Longrightarrow> nl \<notin> set l"
proof (induction nl cr s rule: lines_gen.induct)
  case (1 nl cr s)
  show ?case
  proof (cases "split_once nl s")
    case None
    then show ?thesis using "1.prems" by (cases "s = []") (auto simp: lines_gen.simps [of nl cr s] split_once_def split: if_splits)
  next
    case (Some ab)
    obtain a b where ab: "ab = (a, b)" by fastforce
    have a: "nl \<notin> set a" using Some ab by (auto simp: split_once_def split: if_splits dest: set_takeWhileD)
    have ne: "s \<noteq> []" using Some by (auto simp: split_once_def)
    have "l = strip_last cr a \<or> l \<in> set (lines_gen nl cr b)"
      using "1.prems" Some ab ne by (simp add: lines_gen.simps [of nl cr s])
    then show ?thesis
      using "1.IH" [OF ne Some ab [symmetric]] a by (auto simp: strip_last_def split: if_splits dest: in_set_butlastD)
  qed
qed

section \<open>Search\<close>

definition found :: "(rchar \<Rightarrow> rchar) \<Rightarrow> rchar list \<Rightarrow> Document \<Rightarrow> nat \<Rightarrow> nat \<Rightarrow> bool" where
  "found lc qs doc y x \<longleftrightarrow> y < doc_len doc \<and> match_at lc qs (row_chars (doc_rows doc ! y)) x"

text \<open>The order in which the search meets the positions: those at or after row \<open>y0\<close>, then those above it.\<close>

definition met_before :: "nat \<Rightarrow> nat \<times> nat \<Rightarrow> nat \<times> nat \<Rightarrow> bool" where
  "met_before y0 a b \<longleftrightarrow>
     (y0 \<le> fst a \<and> fst b < y0) \<or> ((y0 \<le> fst a \<longleftrightarrow> y0 \<le> fst b) \<and> (fst a < fst b \<or> fst a = fst b \<and> snd a < snd b))"

lemma find_rows_spec:
  assumes "\<And>y s. (y, s) \<in> set todo \<Longrightarrow> \<exists>res. row_find lower q s (rs ! y) = Some res \<and> P y s res"
  shows "\<exists>res. find_rows lower q rs todo = Some res \<and>
    (case res of None \<Rightarrow> \<forall>(y, s) \<in> set todo. P y s None
     | Some p \<Rightarrow> \<exists>a s b. todo = a @ (pos_y p, s) # b \<and> P (pos_y p) s (Some (pos_x p)) \<and> (\<forall>(y, s) \<in> set a. P y s None))"
  using assms
proof (induction todo)
  case (Cons t todo)
  obtain y s where t: "t = (y, s)" by fastforce
  obtain r where r: "row_find lower q s (rs ! y) = Some r" "P y s r" using Cons.prems [of y s] t by auto
  obtain res where res: "find_rows lower q rs todo = Some res"
    "case res of None \<Rightarrow> \<forall>(y, s) \<in> set todo. P y s None
     | Some p \<Rightarrow> \<exists>a s b. todo = a @ (pos_y p, s) # b \<and> P (pos_y p) s (Some (pos_x p)) \<and> (\<forall>(y, s) \<in> set a. P y s None)"
    using Cons.IH Cons.prems by auto
  show ?case
  proof (cases r)
    case None
    then show ?thesis
    proof (cases res)
      case (Some p)
      then obtain a s' b where "todo = a @ (pos_y p, s') # b" "P (pos_y p) s' (Some (pos_x p))" "\<forall>(y, s) \<in> set a. P y s None"
        using res(2) by auto
      then have "t # todo = (t # a) @ (pos_y p, s') # b \<and> P (pos_y p) s' (Some (pos_x p)) \<and> (\<forall>(y, s) \<in> set (t # a). P y s None)"
        using None r t by simp
      moreover have "find_rows lower q rs (t # todo) = Some (Some p)" using None Some r res(1) t by simp
      ultimately show ?thesis
        by (intro exI [of _ "Some p"] conjI) (simp, subst option.case(2), intro exI, assumption)
    qed (use None r res t in auto)
  next
    case (Some x)
    then have "find_rows lower q rs (t # todo) = Some (Some \<lparr>pos_x = x, pos_y = y\<rparr>)" using r t by simp
    moreover have "t # todo = [] @ (y, s) # todo" using t by simp
    ultimately show ?thesis using r Some by fastforce
  qed
qed simp

definition search_order :: "Position \<Rightarrow> nat \<Rightarrow> (nat \<times> nat) list" where
  "search_order p n = map (\<lambda>y. (y, if y = pos_y p then pos_x p else 0)) [pos_y p..<n] @ map (\<lambda>y. (y, 0)) [0..<min (pos_y p) n]"

lemma search_order_mem: "(y, s) \<in> set (search_order p n) \<longleftrightarrow> y < n \<and> s = (if y = pos_y p then pos_x p else 0)"
  by (cases "pos_y p \<le> y") (auto simp: search_order_def image_iff)

lemma search_order_sorted:
  "sorted_wrt (\<lambda>a b. (pos_y p \<le> fst a \<and> fst b < pos_y p) \<or> ((pos_y p \<le> fst a \<longleftrightarrow> pos_y p \<le> fst b) \<and> fst a < fst b))
    (search_order p n)"
proof -
  have "sorted_wrt (<) [pos_y p..<n]" "sorted_wrt (<) [0..<min (pos_y p) n]" by simp_all
  then show ?thesis
    unfolding search_order_def sorted_wrt_append sorted_wrt_map by (auto simp: sorted_wrt_iff_nth_less)
qed

lemma search_order_before:
  assumes "search_order p n = a @ (yq, s) # b" and "(y, k) \<in> set (search_order p n)" and "met_before (pos_y p) (y, x) (yq, xq)"
  shows "(y, k) \<in> set a \<or> (y, k) = (yq, s)"
proof -
  have "(y, k) \<notin> set b"
    using search_order_sorted [of p n] assms(3) unfolding assms(1) by (fastforce simp: sorted_wrt_append met_before_def)
  then show ?thesis using assms(2) unfolding assms(1) by auto
qed

lemma doc_find_search:
  assumes "charwise lower lc S" and "\<forall>r \<in> set (doc_rows doc). set (row_chars r) \<subseteq> S" and "set qs \<subseteq> S" and "qs \<noteq> []"
  shows "\<exists>res. doc_find lower (concat qs) p doc = Some res \<and>
    (case res of
       None \<Rightarrow> \<forall>(y, s) \<in> set (search_order p (doc_len doc)). first_match lc qs (row_chars (doc_rows doc ! y)) s None
     | Some q \<Rightarrow> \<exists>a s b. search_order p (doc_len doc) = a @ (pos_y q, s) # b \<and>
         first_match lc qs (row_chars (doc_rows doc ! pos_y q)) s (Some (pos_x q)) \<and>
         (\<forall>(y, s) \<in> set a. first_match lc qs (row_chars (doc_rows doc ! y)) s None))"
proof -
  have ne: "concat qs \<noteq> []" using assms by (cases qs) (auto simp: charwise_def char_ok_def)
  have "\<exists>res. row_find lower (concat qs) s (doc_rows doc ! y) = Some res \<and> first_match lc qs (row_chars (doc_rows doc ! y)) s res"
    if "(y, s) \<in> set (search_order p (doc_len doc))" for y s
  proof -
    have "set (row_chars (doc_rows doc ! y)) \<subseteq> S" using that assms(2) by (auto simp: search_order_mem doc_len_def)
    then show ?thesis using row_find_first assms by blast
  qed
  from find_rows_spec [OF this, of "search_order p (doc_len doc)"] show ?thesis
    using ne by (simp add: doc_find_def search_order_def doc_len_def Let_def del: concat_eq_Nil_conv)
qed

text \<open>Property: On a document and a query over characters that lower-casing maps one by one (ASCII text, for example) the search does not
  panic; it answers with the first place, from the cursor on to the end and then from the top down to the row above the cursor's,
  where the query stands up to case, and with nothing exactly if it stands nowhere but before the cursor in the cursor's own row, which the search leaves out.\<close>

theorem doc_find_correct:
  assumes "charwise lower lc S" and "\<forall>r \<in> set (doc_rows doc). set (row_chars r) \<subseteq> S" and "set qs \<subseteq> S" and "qs \<noteq> []"
  shows "\<exists>res. doc_find lower (concat qs) p doc = Some res \<and>
    (case res of
       None \<Rightarrow> \<forall>y x. found lc qs doc y x \<longrightarrow> y = pos_y p \<and> x < pos_x p
     | Some r \<Rightarrow> found lc qs doc (pos_y r) (pos_x r) \<and> \<not> (pos_y r = pos_y p \<and> pos_x r < pos_x p) \<and>
         (\<forall>y x. found lc qs doc y x \<longrightarrow> met_before (pos_y p) (y, x) (pos_y r, pos_x r) \<longrightarrow> y = pos_y p \<and> x < pos_x p))"
proof -
  let ?rs = "doc_rows doc" and ?y = "pos_y p"
  let ?P = "\<lambda>y s res. first_match lc qs (row_chars (?rs ! y)) s res"
  obtain res where e: "doc_find lower (concat qs) p doc = Some res" and
    c: "case res of None \<Rightarrow> \<forall>(y, s) \<in> set (search_order p (doc_len doc)). ?P y s None
     | Some q \<Rightarrow> \<exists>a s b. search_order p (doc_len doc) = a @ (pos_y q, s) # b \<and> ?P (pos_y q) s (Some (pos_x q)) \<and>
         (\<forall>(y, s) \<in> set a. ?P y s None)"
    using doc_find_search [OF assms] by blast
  have row: "(y, if y = ?y then pos_x p else 0) \<in> set (search_order p (doc_len doc))" if "found lc qs doc y x" for y x
    using that by (simp add: search_order_mem found_def doc_len_def)
  have miss: "y = ?y \<and> x < pos_x p" if "found lc qs doc y x" "?P y (if y = ?y then pos_x p else 0) None" for y x
    using that by (auto simp: found_def first_match_def split: if_splits) (meson linorder_not_le)
  show ?thesis
  proof (cases res)
    case None
    have "?P y (if y = ?y then pos_x p else 0) None" if "found lc qs doc y x" for y x
      using c row [OF that] None by auto
    then have "\<forall>y x. found lc qs doc y x \<longrightarrow> y = ?y \<and> x < pos_x p" using miss by blast
    then show ?thesis using e None by simp
  next
    case (Some q)
    then obtain a s b where ab: "search_order p (doc_len doc) = a @ (pos_y q, s) # b" "?P (pos_y q) s (Some (pos_x q))"
      "\<forall>(y, s) \<in> set a. ?P y s None" using c by auto
    have "(pos_y q, s) \<in> set (search_order p (doc_len doc))" using ab(1) by simp
    then have s: "pos_y q < doc_len doc" "s = (if pos_y q = ?y then pos_x p else 0)" by (simp_all add: search_order_mem)
    have fq: "found lc qs doc (pos_y q) (pos_x q)" using ab(2) s(1) by (simp add: found_def first_match_def doc_len_def)
    have "\<not> (pos_y q = ?y \<and> pos_x q < pos_x p)" using ab(2) s(2) by (auto simp: first_match_def)
    moreover have "y = ?y \<and> x < pos_x p" if y: "found lc qs doc y x" "met_before ?y (y, x) (pos_y q, pos_x q)" for y x
    proof -
      consider "(y, if y = ?y then pos_x p else 0) \<in> set a" | "(y, if y = ?y then pos_x p else 0) = (pos_y q, s)"
        using search_order_before [OF ab(1) row [OF y(1)] y(2)] by blast
      then show ?thesis
      proof cases
        case 1
        then have "?P y (if y = ?y then pos_x p else 0) None" using ab(3) by auto
        then show ?thesis using miss y(1) by blast
      next
        case 2
        then have "x < pos_x q" "match_at lc qs (row_chars (?rs ! pos_y q)) x" using y by (auto simp: met_before_def found_def)
        then have "x < s" using ab(2) by (auto simp: first_match_def) (meson linorder_not_le)
        then show ?thesis using 2 s(2) by (auto split: if_splits)
      qed
    qed
    ultimately show ?thesis using e Some fq by simp
  qed
qed

theorem doc_find_correct_witness:
  "doc_find to_ascii_lowercase ''A'' \<lparr>pos_x = 1, pos_y = 0\<rparr> \<lparr>doc_rows = [row_from ''ab''], file_name = None, dirty = False\<rparr> = Some None"
proof -
  let ?doc = "\<lparr>doc_rows = [row_from ''ab''], file_name = None, dirty = False\<rparr>" and ?p = "\<lparr>pos_x = 1, pos_y = 0\<rparr>"
  have ab: "row_chars (row_from ''ab'') = [''a'', ''b'']" by (simp add: Let_def)
  obtain res where res: "doc_find to_ascii_lowercase (concat [''A'']) ?p ?doc = Some res"
    "case res of
       None \<Rightarrow> \<forall>y x. found (map ascii_lower) [''A''] ?doc y x \<longrightarrow> y = pos_y ?p \<and> x < pos_x ?p
     | Some r \<Rightarrow> found (map ascii_lower) [''A''] ?doc (pos_y r) (pos_x r) \<and> \<not> (pos_y r = pos_y ?p \<and> pos_x r < pos_x ?p) \<and>
         (\<forall>y x. found (map ascii_lower) [''A''] ?doc y x \<longrightarrow> met_before (pos_y ?p) (y, x) (pos_y r, pos_x r) \<longrightarrow>
            y = pos_y ?p \<and> x < pos_x ?p)"
    using doc_find_correct [OF charwise_ascii, of ?doc "[''A'']" ?p] ab by auto
  have low: "ascii_lower (CHR ''A'') = CHR ''a''" "ascii_lower (CHR ''b'') = CHR ''b''"
    by (simp_all add: ascii_lower_def char_of_nat_eq)
  have "found (map ascii_lower) [''A''] ?doc y x \<Longrightarrow> y = 0 \<and> x = 0" for y x
    by (auto simp: found_def doc_len_def match_at_def ab take_Cons' drop_Cons' low split: if_splits)
  then have "res = None" using res(2) by (cases res) fastforce+
  then show ?thesis using res(1) by simp
qed

section \<open>Edits and files\<close>







section \<open>The contract of a contents buffer\<close>

text \<open>Typing a character and erasing the one before the cursor, with the moves a client makes.\<close>

definition type_char :: "('p \<Rightarrow> 'c \<Rightarrow> 'd \<Rightarrow> 'd) \<Rightarrow> ('d \<Rightarrow> 'p \<Rightarrow> 'p) \<Rightarrow> 'c \<Rightarrow> 'd \<times> 'p \<Rightarrow> 'd \<times> 'p" where
  "type_char ins right c dp = (let (d, p) = dp; d' = ins p c d in (d', right d' p))"

definition erase_char :: "('p \<Rightarrow> 'd \<Rightarrow> 'd) \<Rightarrow> ('d \<Rightarrow> 'p \<Rightarrow> 'p) \<Rightarrow> 'd \<times> 'p \<Rightarrow> 'd \<times> 'p" where
  "erase_char del left dp = (let (d, p) = dp; p' = left d p in (del p' d, p'))"

text \<open>
  The laws: the places of positions in the text, the effect of an insertion and of a deletion, and where
  the cursor stands after them. The last place of the contents is its final newline, which cannot be deleted.
\<close>

locale text_buffer =
  fixes contents :: "'d \<Rightarrow> 'c list" and ok :: "'d \<Rightarrow> bool" and valid :: "'d \<Rightarrow> 'p \<Rightarrow> bool" and place_of :: "'d \<Rightarrow> 'p \<Rightarrow> nat"
    and cok :: "'c \<Rightarrow> bool" and ins :: "'p \<Rightarrow> 'c \<Rightarrow> 'd \<Rightarrow> 'd" and del :: "'p \<Rightarrow> 'd \<Rightarrow> 'd"
    and right :: "'d \<Rightarrow> 'p \<Rightarrow> 'p" and left :: "'d \<Rightarrow> 'p \<Rightarrow> 'p"
  assumes place_less: "valid d p \<Longrightarrow> place_of d p < length (contents d)"
    and ins_text: "ok d \<Longrightarrow> valid d p \<Longrightarrow> cok c \<Longrightarrow> contents (ins p c d) = take (place_of d p) (contents d) @ c # drop (place_of d p) (contents d)"
    and ins_ok: "ok d \<Longrightarrow> valid d p \<Longrightarrow> cok c \<Longrightarrow> ok (ins p c d)"
    and right_ins: "ok d \<Longrightarrow> valid d p \<Longrightarrow> cok c \<Longrightarrow>
      valid (ins p c d) (right (ins p c d) p) \<and> place_of (ins p c d) (right (ins p c d) p) = Suc (place_of d p)"
    and left_place: "valid d p \<Longrightarrow> 0 < place_of d p \<Longrightarrow> valid d (left d p) \<and> place_of d (left d p) = place_of d p - 1"
    and del_text: "ok d \<Longrightarrow> valid d p \<Longrightarrow> Suc (place_of d p) < length (contents d) \<Longrightarrow>
      contents (del p d) = take (place_of d p) (contents d) @ drop (Suc (place_of d p)) (contents d)"
    and del_ok: "ok d \<Longrightarrow> valid d p \<Longrightarrow> ok (del p d) \<and> valid (del p d) p \<and> place_of (del p d) p = place_of d p"
begin

lemma type_word:
  assumes "ok d" and "valid d p" and "\<forall>c \<in> set w. cok c" and "fold (type_char ins right) w (d, p) = (d', p')"
  shows "ok d' \<and> valid d' p' \<and> place_of d' p' = place_of d p + length w \<and>
    contents d' = take (place_of d p) (contents d) @ w @ drop (place_of d p) (contents d)"
  using assms
proof (induction w arbitrary: d p)
  case (Cons c w)
  let ?d = "ins p c d" and ?p = "right (ins p c d) p" and ?n = "place_of d p"
  have n: "?n \<le> length (contents d)" using place_less [OF Cons.prems(2)] by simp
  have 1: "ok ?d" "valid ?d ?p" "place_of ?d ?p = Suc ?n" "contents ?d = take ?n (contents d) @ c # drop ?n (contents d)"
    using ins_ok ins_text right_ins Cons.prems by auto
  then have "fold (type_char ins right) w (?d, ?p) = (d', p')" using Cons.prems(4) by (simp add: type_char_def [of _ _ c] Let_def)
  from Cons.IH [OF 1(1,2) _ this] show ?case using 1 n Cons.prems(3) by simp
qed simp

lemma erase_step:
  assumes "ok d" and "valid d p" and "0 < place_of d p" and "erase_char del left (d, p) = (d', p')"
  shows "ok d' \<and> valid d' p' \<and> place_of d' p' = place_of d p - 1 \<and>
    contents d' = take (place_of d p - 1) (contents d) @ drop (place_of d p) (contents d)"
  using assms left_place [OF assms(2,3)] place_less [OF assms(2)] del_text [of d p'] del_ok [of d p']
  by (auto simp: erase_char_def Let_def)

lemma erase_word:
  assumes "ok d" and "valid d p" and "contents d = u @ w @ v" and "place_of d p = length (u @ w)"
    and "(erase_char del left ^^ length w) (d, p) = (d', p')"
  shows "ok d' \<and> valid d' p' \<and> place_of d' p' = length u \<and> contents d' = u @ v"
  using assms
proof (induction w arbitrary: d p rule: rev_induct)
  case (snoc c w)
  obtain d1 p1 where e: "erase_char del left (d, p) = (d1, p1)" by fastforce
  have "ok d1 \<and> valid d1 p1 \<and> place_of d1 p1 = length (u @ w) \<and> contents d1 = u @ w @ v"
    using erase_step [OF snoc.prems(1,2) _ e] snoc.prems(3,4) by simp
  moreover have "(erase_char del left ^^ length w) (d1, p1) = (d', p')"
    using snoc.prems(5) e by (simp add: funpow_swap1)
  ultimately show ?case using snoc.IH by blast
qed simp

end

end
