(* ===== verification/Ed_Editor.thy ===== *)
theory Ed_Editor
  imports Ed_Document
begin

text \<open>
  The editor session, \<open>editor.rs\<close> and \<open>terminal.rs\<close> of \<open>2026-08-04-rust-text-editor/src\<close>. The terminal library is seen through
  what it delivers (a list of events, whose end is a failing read, and the results of flushing) and through the
  commands the editor sends to it. A session is the editor with its console and the file system. The outer \<open>None\<close> is a panic:
  \<open>String::truncate\<close> inside a character, or \<open>die\<close>.
\<close>

section \<open>The terminal\<close>

datatype Modifier = Shift | Control | Alt | Super | Hyper | Meta

datatype KeyCode =
  KChar rchar | Enter | Backspace | Delete | Esc | Up | Down | Left | Right | PageUp | PageDown | Home | End | Other_Key nat

record KeyEvent =
  code :: KeyCode
  modifiers :: "Modifier set"

datatype event = Key KeyEvent | Other_Event | Read_Error io_error

datatype Cmd = Hide | Show | MoveTo nat nat | ClearAll | ClearLine | Print string | SetBg "nat \<times> nat \<times> nat" | SetFg "nat \<times> nat \<times> nat" | ResetColor

record Console =
  events :: "event list"
  flushes :: "(unit, io_error) result list"
  size_report :: "(nat \<times> nat, io_error) result"
  raw_report :: "(unit, io_error) result"
  raw_mode :: bool
  screen :: "Cmd list"

record Terminal =
  term_size :: "nat \<times> nat"

definition terminal_new :: "Console \<Rightarrow> (Terminal, io_error) result \<times> Console" where
  "terminal_new c =
     (case size_report c of
        Err e \<Rightarrow> (Err e, c)
      | Ok (cols, rows) \<Rightarrow>
          (case raw_report c of
             Err e \<Rightarrow> (Err e, c)
           | Ok u \<Rightarrow> (Ok \<lparr>term_size = (cols, rows - 2)\<rparr>, c\<lparr>raw_mode := True\<rparr>)))"

definition terminal_drop :: "Console \<Rightarrow> Console" where
  "terminal_drop c = c\<lparr>raw_mode := False\<rparr>"

definition queue_cmd :: "Cmd \<Rightarrow> Console \<Rightarrow> Console" where
  "queue_cmd k c = c\<lparr>screen := screen c @ [k]\<rparr>"

definition clear_screen :: "Console \<Rightarrow> Console" where
  "clear_screen c = queue_cmd ClearAll c"

definition clear_current_line :: "Console \<Rightarrow> Console" where
  "clear_current_line c = queue_cmd ClearLine c"

definition put_cursor :: "Position \<Rightarrow> Console \<Rightarrow> Console" where
  "put_cursor p c = queue_cmd (MoveTo (min (pos_x p) 65535) (min (pos_y p) 65535)) c"

definition flush :: "Console \<Rightarrow> (unit, io_error) result \<times> Console" where
  "flush c = (case flushes c of [] \<Rightarrow> (Ok (), c) | r # rs \<Rightarrow> (r, c\<lparr>flushes := rs\<rparr>))"

definition cursor_hide :: "Console \<Rightarrow> Console" where
  "cursor_hide c = queue_cmd Hide c"

definition cursor_show :: "Console \<Rightarrow> Console" where
  "cursor_show c = queue_cmd Show c"

definition queue_print :: "string \<Rightarrow> Console \<Rightarrow> Console" where
  "queue_print t c = queue_cmd (Print t) c"

definition set_bg_color :: "nat \<times> nat \<times> nat \<Rightarrow> Console \<Rightarrow> Console" where
  "set_bg_color k c = queue_cmd (SetBg k) c"

definition set_fg_color :: "nat \<times> nat \<times> nat \<Rightarrow> Console \<Rightarrow> Console" where
  "set_fg_color k c = queue_cmd (SetFg k) c"

definition reset_color :: "Console \<Rightarrow> Console" where
  "reset_color c = queue_cmd ResetColor c"

fun next_key :: "event list \<Rightarrow> (KeyEvent, io_error) result \<times> event list" where
  "next_key [] = (Err Unexpected_Eof, [])"
| "next_key (Key k # es) = (Ok k, es)"
| "next_key (Other_Event # es) = next_key es"
| "next_key (Read_Error e # es) = (Err e, es)"

definition read_key :: "Console \<Rightarrow> (KeyEvent, io_error) result \<times> Console" where
  "read_key c = (let (r, es) = next_key (events c) in (r, c\<lparr>events := es\<rparr>))"

section \<open>The editor\<close>

definition QUIT_TIMES :: nat where
  "QUIT_TIMES = 3"

definition STATUS_BG :: "nat \<times> nat \<times> nat" where
  "STATUS_BG = (63, 63, 63)"

definition STATUS_FG :: "nat \<times> nat \<times> nat" where
  "STATUS_FG = (239, 239, 239)"

record Editor =
  should_quit :: bool
  terminal :: Terminal
  cursor_position :: Position
  offset :: Position
  document :: Document
  status_message :: string
  quit_times :: nat

record Session =
  ed :: Editor
  con :: Console
  disk :: Disk

abbreviation crnl :: string where
  "crnl \<equiv> [CHR 0x0D, CHR 0x0A]"

definition editor_new :: "string option \<Rightarrow> Console \<Rightarrow> Disk \<Rightarrow> (Editor, io_error) result \<times> Console" where
  "editor_new filename c d =
     (let (doc, msg) =
        (case filename of
           Some name \<Rightarrow>
             (case doc_open name d of
                Ok doc \<Rightarrow> (doc, [])
              | Err e \<Rightarrow> (doc_default, ''ERR: Could not open file: '' @ name))
         | None \<Rightarrow> (doc_default, ''HELP: Ctrl-S = save | Ctrl-F = find | Ctrl-Q = quit''))
      in case terminal_new c of
           (Err e, c1) \<Rightarrow> (Err e, c1)
         | (Ok t, c1) \<Rightarrow>
             (Ok \<lparr>should_quit = False, terminal = t, cursor_position = \<lparr>pos_x = 0, pos_y = 0\<rparr>, offset = \<lparr>pos_x = 0, pos_y = 0\<rparr>,
                document = doc, status_message = msg, quit_times = QUIT_TIMES\<rparr>, c1))"

subsection \<open>Drawing\<close>

definition draw_row :: "Editor \<Rightarrow> Row \<Rightarrow> Console \<Rightarrow> Console" where
  "draw_row e r c =
     (let width = fst (term_size (terminal e)); start = pos_x (offset e); stop = pos_x (offset e) + width
      in queue_print (render_slice start stop r) c)"

definition draw_welcome_message :: "Editor \<Rightarrow> Console \<Rightarrow> Console option" where
  "draw_welcome_message e c =
     (let welcome = ''Hecto editor -- version 0.1.0''; width = fst (term_size (terminal e)); len = length welcome;
          padding = (width - len) div 2; spaces = replicate (padding - 1) (CHR '' '')
      in case truncate_str width (''~'' @ spaces @ welcome) of None \<Rightarrow> None | Some t \<Rightarrow> Some (queue_print t c))"

definition draw_line :: "Editor \<Rightarrow> nat \<Rightarrow> Console \<Rightarrow> Console option" where
  "draw_line e terminal_row c =
     (let height = snd (term_size (terminal e)); c1 = clear_current_line c; file_row = terminal_row + pos_y (offset e)
      in map_option (queue_print crnl)
           (case doc_row file_row (document e) of
              Some r \<Rightarrow> Some (draw_row e r c1)
            | None \<Rightarrow>
                if doc_is_empty (document e) \<and> terminal_row = height div 3 then draw_welcome_message e c1
                else Some (queue_print ''~'' c1)))"

fun draw_lines :: "Editor \<Rightarrow> nat list \<Rightarrow> Console \<Rightarrow> Console option" where
  "draw_lines e [] c = Some c"
| "draw_lines e (r # rs) c = (case draw_line e r c of None \<Rightarrow> None | Some c1 \<Rightarrow> draw_lines e rs c1)"

definition draw_rows :: "Editor \<Rightarrow> Console \<Rightarrow> Console option" where
  "draw_rows e c = draw_lines e [0..<snd (term_size (terminal e))] c"

definition status_text :: "Editor \<Rightarrow> string" where
  "status_text e =
     (let width = fst (term_size (terminal e));
          modified = (if is_dirty (document e) then '' (modified)'' else []);
          name = (case file_name (document e) of Some n \<Rightarrow> n | None \<Rightarrow> ''[No Name]'');
          status = take_chars 20 name @ modified @ '' - '' @ show_nat (doc_len (document e)) @ '' lines'';
          line_indicator = show_nat (pos_y (cursor_position e) + 1) @ ''/'' @ show_nat (doc_len (document e));
          len = length status + length line_indicator
      in status @ replicate (width - len) (CHR '' '') @ line_indicator)"

definition draw_status_bar :: "Editor \<Rightarrow> Console \<Rightarrow> Console option" where
  "draw_status_bar e c =
     (case truncate_str (fst (term_size (terminal e))) (status_text e) of
        None \<Rightarrow> None
      | Some status \<Rightarrow>
          Some (queue_print crnl (reset_color (queue_print status (set_fg_color STATUS_FG (set_bg_color STATUS_BG c))))))"

definition draw_message_bar :: "Editor \<Rightarrow> Console \<Rightarrow> Console option" where
  "draw_message_bar e c =
     (let c1 = clear_current_line c
      in case truncate_str (fst (term_size (terminal e))) (status_message e) of
           None \<Rightarrow> None | Some t \<Rightarrow> Some (queue_print t c1))"

definition draw_frame :: "Editor \<Rightarrow> Console \<Rightarrow> Console option" where
  "draw_frame e c =
     (let c1 = put_cursor \<lparr>pos_x = 0, pos_y = 0\<rparr> (cursor_hide c) in
      map_option cursor_show
        (if should_quit e then Some (queue_print (''Goodbye.'' @ crnl) (clear_screen c1))
         else map_option (put_cursor \<lparr>pos_x = pos_x (cursor_position e) - pos_x (offset e),
                                      pos_y = pos_y (cursor_position e) - pos_y (offset e)\<rparr>)
                (Option.bind (draw_rows e c1) (\<lambda>c2. Option.bind (draw_status_bar e c2) (draw_message_bar e)))))"

definition refresh_screen :: "Session \<Rightarrow> ((unit, io_error) result \<times> Session) option" where
  "refresh_screen s =
     (case draw_frame (ed s) (con s) of
        None \<Rightarrow> None
      | Some c \<Rightarrow> (let (r, c1) = flush c in Some (r, s\<lparr>con := c1\<rparr>)))"

subsection \<open>Moving\<close>

definition row_width :: "nat \<Rightarrow> Document \<Rightarrow> nat" where
  "row_width y doc = (case doc_row y doc of None \<Rightarrow> 0 | Some r \<Rightarrow> row_len r)"

definition moved :: "KeyCode \<Rightarrow> nat \<Rightarrow> Document \<Rightarrow> nat \<times> nat \<Rightarrow> nat \<times> nat" where
  "moved key page doc xy =
     (let (x, y) = xy; height = doc_len doc; width = row_width y doc in
      case key of
        Up \<Rightarrow> (x, y - 1)
      | Down \<Rightarrow> if y < height then (x, y + 1) else (x, y)
      | Left \<Rightarrow> if x > 0 then (x - 1, y) else if y > 0 then (row_width (y - 1) doc, y - 1) else (x, y)
      | Right \<Rightarrow> if x < width then (x + 1, y) else if y < height then (0, y + 1) else (x, y)
      | PageUp \<Rightarrow> (x, y - page)
      | PageDown \<Rightarrow> (x, min (y + page) height)
      | Home \<Rightarrow> (0, y)
      | End \<Rightarrow> (width, y)
      | _ \<Rightarrow> (x, y))"

definition move_cursor :: "KeyCode \<Rightarrow> Editor \<Rightarrow> Editor" where
  "move_cursor key e =
     (let (x, y) = moved key (snd (term_size (terminal e))) (document e) (pos_x (cursor_position e), pos_y (cursor_position e))
      in e\<lparr>cursor_position := \<lparr>pos_x = min x (row_width y (document e)), pos_y = y\<rparr>\<rparr>)"

definition scroll_axis :: "nat \<Rightarrow> nat \<Rightarrow> nat \<Rightarrow> nat" where
  "scroll_axis v off n = (if v < off then v else if v \<ge> off + n then v - n + 1 else off)"

definition scroll :: "Editor \<Rightarrow> Editor" where
  "scroll e =
     (let (width, height) = term_size (terminal e); p = cursor_position e; off = offset e
      in e\<lparr>offset := \<lparr>pos_x = scroll_axis (pos_x p) (pos_x off) width, pos_y = scroll_axis (pos_y p) (pos_y off) height\<rparr>\<rparr>)"

subsection \<open>Prompts\<close>

definition pop_char :: "string \<Rightarrow> string" where
  "pop_char s = concat (butlast (chars s))"

definition prompt_edit :: "KeyEvent \<Rightarrow> string \<Rightarrow> string" where
  "prompt_edit key result =
     (case code key of
        Backspace \<Rightarrow> pop_char result
      | KChar c \<Rightarrow> if modifiers key = {} \<or> modifiers key = {Shift} then result @ c else result
      | _ \<Rightarrow> result)"

lemma next_key_shorter: "next_key es = (Ok k, es') \<Longrightarrow> length es' < length es"
  by (induction es rule: next_key.induct) auto

lemma queue_events [simp]: "events (queue_cmd k c) = events c"
  by (simp add: queue_cmd_def)

lemmas console_cmds = clear_screen_def clear_current_line_def put_cursor_def cursor_hide_def cursor_show_def
  queue_print_def set_bg_color_def set_fg_color_def reset_color_def

lemma draw_lines_events: "draw_lines e rs c = Some c' \<Longrightarrow> events c' = events c"
  by (induction rs arbitrary: c)
    (auto simp: draw_line_def Let_def console_cmds draw_row_def draw_welcome_message_def split: option.splits if_splits)

lemma draw_frame_events: "draw_frame e c = Some c' \<Longrightarrow> events c' = events c"
  by (auto simp: draw_frame_def draw_rows_def draw_status_bar_def draw_message_bar_def Let_def console_cmds
      dest!: draw_lines_events split: if_splits option.splits bind_splits)

lemma refresh_screen_frame:
  "refresh_screen s = Some (r, s') \<Longrightarrow> events (con s') = events (con s) \<and> ed s' = ed s \<and> disk s' = disk s"
  by (auto simp: refresh_screen_def flush_def draw_frame_events split: option.splits list.splits)

lemma read_key_shorter: "read_key c = (Ok k, c') \<Longrightarrow> length (events c') < length (events c)"
  by (auto simp: read_key_def next_key_shorter split: prod.splits)

function prompt_loop ::
  "(Editor \<Rightarrow> KeyEvent \<Rightarrow> string \<Rightarrow> Editor option) \<Rightarrow> string \<Rightarrow> string \<Rightarrow> Session \<Rightarrow>
     ((string option, io_error) result \<times> Session) option" where
  "prompt_loop callback msg result s =
     (case refresh_screen (s\<lparr>ed := (ed s)\<lparr>status_message := msg @ result\<rparr>\<rparr>) of
        None \<Rightarrow> None
      | Some (Err e, s1) \<Rightarrow> Some (Err e, s1)
      | Some (Ok u, s1) \<Rightarrow>
          (case read_key (con s1) of
             (Err e, c) \<Rightarrow> Some (Err e, s1\<lparr>con := c\<rparr>)
           | (Ok key, c) \<Rightarrow>
               if code key = Enter then Some (Ok (Some result), s1\<lparr>con := c, ed := (ed s1)\<lparr>status_message := []\<rparr>\<rparr>)
               else if code key = Esc
               then map_option (\<lambda>e. (Ok None, s1\<lparr>con := c, ed := e\<rparr>)) (callback (ed s1) key [])
               else (case callback (ed s1) key (prompt_edit key result) of
                       None \<Rightarrow> None
                     | Some e \<Rightarrow> prompt_loop callback msg (prompt_edit key result) (s1\<lparr>con := c, ed := e\<rparr>))))"
  by pat_completeness auto
termination
  by (relation "measure (\<lambda>(cb, msg, res, s). length (events (con s)))")
    (auto dest!: refresh_screen_frame read_key_shorter [OF sym])

declare prompt_loop.simps [simp del]

definition prompt where
  "prompt msg callback s = prompt_loop callback msg [] s"

definition write_out :: "Session \<Rightarrow> Session" where
  "write_out s =
     (let (r, doc, d) = doc_save (document (ed s)) (disk s);
          m = (if r = Ok () then ''File saved successfully.'' else ''Error writing file!'')
      in s\<lparr>disk := d, ed := (ed s)\<lparr>document := doc, status_message := m\<rparr>\<rparr>)"

definition editor_save :: "Session \<Rightarrow> Session option" where
  "editor_save s =
     (if file_name (document (ed s)) = None
      then (case prompt ''Save as: '' (\<lambda>e key q. Some e) s of
              None \<Rightarrow> None
            | Some (r, s1) \<Rightarrow>
                (case (case r of Ok name \<Rightarrow> name | Err e \<Rightarrow> None) of
                   None \<Rightarrow> Some (s1\<lparr>ed := (ed s1)\<lparr>status_message := ''Save aborted.''\<rparr>\<rparr>)
                 | Some name \<Rightarrow>
                     Some (write_out (s1\<lparr>ed := (ed s1)\<lparr>document := (document (ed s1))\<lparr>file_name := Some name\<rparr>\<rparr>\<rparr>))))
      else Some (write_out s))"

definition search_callback :: "(string \<Rightarrow> string) \<Rightarrow> Editor \<Rightarrow> KeyEvent \<Rightarrow> string \<Rightarrow> Editor option" where
  "search_callback lower e key query =
     (if code key \<noteq> Enter
      then (case doc_find lower query (cursor_position e) (document e) of
              None \<Rightarrow> None
            | Some None \<Rightarrow> Some e
            | Some (Some p) \<Rightarrow> Some (scroll (e\<lparr>cursor_position := p\<rparr>)))
      else Some e)"

definition editor_search :: "(string \<Rightarrow> string) \<Rightarrow> Session \<Rightarrow> Session option" where
  "editor_search lower s =
     (let old_position = cursor_position (ed s)
      in case prompt ''Search (ESC to cancel): '' (search_callback lower) s of
           None \<Rightarrow> None
         | Some (Ok (Some q), s1) \<Rightarrow> Some s1
         | Some (_, s1) \<Rightarrow> Some (s1\<lparr>ed := scroll ((ed s1)\<lparr>cursor_position := old_position\<rparr>)\<rparr>))"

subsection \<open>Keys\<close>

definition quit_warning :: "nat \<Rightarrow> string" where
  "quit_warning n = ''WARNING! File has unsaved changes. Press Ctrl-Q '' @ show_nat n @ '' more times to quit.''"

definition move_keys :: "KeyCode list" where
  "move_keys = [Up, Down, Left, Right, PageUp, PageDown, Home, End]"

definition is_ctrl :: "rchar \<Rightarrow> KeyEvent \<Rightarrow> bool" where
  "is_ctrl c key \<longleftrightarrow> code key = KChar c \<and> modifiers key = {Control}"

text \<open>The arms of the \<open>match\<close> that edit and move, then all but the quit key.\<close>

definition edit_key :: "KeyCode \<Rightarrow> Editor \<Rightarrow> Editor" where
  "edit_key k e =
     (let insert = (\<lambda>c. move_cursor Right (e\<lparr>document := doc_insert (cursor_position e) c (document e)\<rparr>))
      in case k of
           KChar c \<Rightarrow> insert c
         | Enter \<Rightarrow> insert newline
         | Delete \<Rightarrow> e\<lparr>document := doc_delete (cursor_position e) (document e)\<rparr>
         | Backspace \<Rightarrow>
             if pos_x (cursor_position e) > 0 \<or> pos_y (cursor_position e) > 0
             then (let e1 = move_cursor Left e in e1\<lparr>document := doc_delete (cursor_position e1) (document e1)\<rparr>)
             else e
         | _ \<Rightarrow> if k \<in> set move_keys then move_cursor k e else e)"

definition on_key :: "(string \<Rightarrow> string) \<Rightarrow> KeyEvent \<Rightarrow> Session \<Rightarrow> Session option" where
  "on_key lower key s =
     (if is_ctrl ''s'' key then editor_save s
      else if is_ctrl ''f'' key then editor_search lower s
      else Some (s\<lparr>ed := edit_key (code key) (ed s)\<rparr>))"

definition after_key :: "Editor \<Rightarrow> Editor" where
  "after_key e =
     (let e1 = scroll e
      in if quit_times e1 < QUIT_TIMES then e1\<lparr>quit_times := QUIT_TIMES, status_message := []\<rparr> else e1)"

definition handle_key :: "(string \<Rightarrow> string) \<Rightarrow> KeyEvent \<Rightarrow> Session \<Rightarrow> Session option" where
  "handle_key lower key s =
     (if is_ctrl ''q'' key
      then if is_dirty (document (ed s)) \<and> quit_times (ed s) > 0
           then Some (s\<lparr>ed := (ed s)\<lparr>status_message := quit_warning (quit_times (ed s)), quit_times := quit_times (ed s) - 1\<rparr>\<rparr>)
           else Some (s\<lparr>ed := after_key ((ed s)\<lparr>should_quit := True\<rparr>)\<rparr>)
      else (case on_key lower key s of None \<Rightarrow> None | Some s1 \<Rightarrow> Some (s1\<lparr>ed := after_key (ed s1)\<rparr>)))"

definition process_keypress :: "(string \<Rightarrow> string) \<Rightarrow> Session \<Rightarrow> ((unit, io_error) result \<times> Session) option" where
  "process_keypress lower s =
     (case read_key (con s) of
        (Err e, c) \<Rightarrow> Some (Err e, s\<lparr>con := c\<rparr>)
      | (Ok key, c) \<Rightarrow> map_option (Pair (Ok ())) (handle_key lower key (s\<lparr>con := c\<rparr>)))"

text \<open>Every key that is read shortens the list of events, so the main loop ends.\<close>

lemma prompt_loop_cases:
  assumes "prompt_loop cb msg result s = Some (r, s')"
  obtains (flush_error) e where "refresh_screen (s\<lparr>ed := (ed s)\<lparr>status_message := msg @ result\<rparr>\<rparr>) = Some (Err e, s')" "r = Err e"
  | (read_error) u s1 e c where "refresh_screen (s\<lparr>ed := (ed s)\<lparr>status_message := msg @ result\<rparr>\<rparr>) = Some (Ok u, s1)"
      "read_key (con s1) = (Err e, c)" "r = Err e" "s' = s1\<lparr>con := c\<rparr>"
  | (confirm) u s1 key c where "refresh_screen (s\<lparr>ed := (ed s)\<lparr>status_message := msg @ result\<rparr>\<rparr>) = Some (Ok u, s1)"
      "read_key (con s1) = (Ok key, c)" "code key = Enter" "r = Ok (Some result)"
      "s' = s1\<lparr>con := c, ed := (ed s1)\<lparr>status_message := []\<rparr>\<rparr>"
  | (cancel) u s1 key c e where "refresh_screen (s\<lparr>ed := (ed s)\<lparr>status_message := msg @ result\<rparr>\<rparr>) = Some (Ok u, s1)"
      "read_key (con s1) = (Ok key, c)" "code key = Esc" "cb (ed s1) key [] = Some e" "r = Ok None" "s' = s1\<lparr>con := c, ed := e\<rparr>"
  | (go_on) u s1 key c e where "refresh_screen (s\<lparr>ed := (ed s)\<lparr>status_message := msg @ result\<rparr>\<rparr>) = Some (Ok u, s1)"
      "read_key (con s1) = (Ok key, c)" "code key \<noteq> Enter" "code key \<noteq> Esc" "cb (ed s1) key (prompt_edit key result) = Some e"
      "prompt_loop cb msg (prompt_edit key result) (s1\<lparr>con := c, ed := e\<rparr>) = Some (r, s')"
  using assms
  by (subst (asm) prompt_loop.simps) (auto split: option.splits prod.splits result.splits if_splits)

text \<open>What holds of the sessions at every point of a prompt.\<close>

lemma prompt_loop_invariant:
  assumes "prompt_loop cb msg result s = Some (r, s')" and "P s"
    and status: "\<And>s m. P s \<Longrightarrow> P (s\<lparr>ed := (ed s)\<lparr>status_message := m\<rparr>\<rparr>)"
    and refresh: "\<And>s r s1. P s \<Longrightarrow> refresh_screen s = Some (r, s1) \<Longrightarrow> P s1"
    and "read": "\<And>s r c. P s \<Longrightarrow> read_key (con s) = (r, c) \<Longrightarrow> P (s\<lparr>con := c\<rparr>)"
    and callback: "\<And>s key q e. P s \<Longrightarrow> cb (ed s) key q = Some e \<Longrightarrow> P (s\<lparr>ed := e\<rparr>)"
  shows "P s'"
  using assms(1,2)
proof (induction "length (events (con s))" arbitrary: s result rule: less_induct)
  case less
  have start: "P s1" if "refresh_screen (s\<lparr>ed := (ed s)\<lparr>status_message := msg @ result\<rparr>\<rparr>) = Some (x, s1)" for x s1
    using refresh [OF status [OF less.prems(2)] that] .
  from less.prems(1) show ?case
  proof (cases rule: prompt_loop_cases)
    case (confirm u s1 key c)
    then show ?thesis using status [OF "read" [OF start]] by simp
  next
    case (cancel u s1 key c e)
    then show ?thesis using callback [OF "read" [OF start], of "Ok u" s1 "Ok key" c key "[]" e] by simp
  next
    case (go_on u s1 key c e)
    have "events (con s1) = events (con s)" using refresh_screen_frame [OF go_on(1)] by simp
    then have "length (events (con (s1\<lparr>con := c, ed := e\<rparr>))) < length (events (con s))"
      using read_key_shorter [OF go_on(2)] by simp
    moreover have "P (s1\<lparr>con := c, ed := e\<rparr>)"
      using callback [OF "read" [OF start], of "Ok u" s1 "Ok key" c key "prompt_edit key result" e] go_on by simp
    ultimately show ?thesis using less.hyps go_on(6) by blast
  qed (use start "read" in auto)
qed

lemma next_key_le: "next_key es = (r, es') \<Longrightarrow> length es' \<le> length es"
  by (induction es rule: next_key.induct) auto

lemma read_key_le: "read_key c = (r, c') \<Longrightarrow> length (events c') \<le> length (events c)"
  by (auto simp: read_key_def next_key_le split: prod.splits)

lemma prompt_loop_events:
  "prompt_loop cb msg res s = Some (r, s') \<Longrightarrow> length (events (con s')) \<le> length (events (con s))"
  by (erule prompt_loop_invariant [where P = "\<lambda>x. length (events (con x)) \<le> length (events (con s))"])
    (auto dest: refresh_screen_frame read_key_le order_trans)

lemma editor_save_events: "editor_save s = Some s' \<Longrightarrow> length (events (con s')) \<le> length (events (con s))"
  by (auto simp: editor_save_def write_out_def prompt_def Let_def dest!: prompt_loop_events split: option.splits prod.splits if_splits result.splits)

lemma editor_search_events: "editor_search lower s = Some s' \<Longrightarrow> length (events (con s')) \<le> length (events (con s))"
  by (auto simp: editor_search_def prompt_def Let_def dest!: prompt_loop_events split: option.splits prod.splits if_splits result.splits)

lemma on_key_events: "on_key lower key s = Some s' \<Longrightarrow> length (events (con s')) \<le> length (events (con s))"
  by (auto simp: on_key_def Let_def dest: editor_save_events editor_search_events split: if_splits)

lemma process_keypress_events:
  "process_keypress lower s = Some (Ok u, s') \<Longrightarrow> length (events (con s')) < length (events (con s))"
  by (auto simp: process_keypress_def handle_key_def dest!: read_key_shorter on_key_events
      split: prod.splits result.splits if_splits option.splits)

function run_editor :: "(string \<Rightarrow> string) \<Rightarrow> Session \<Rightarrow> Session option" where
  "run_editor lower s =
     (case refresh_screen s of
        None \<Rightarrow> None
      | Some (Err e, s1) \<Rightarrow> None
      | Some (Ok u, s1) \<Rightarrow>
          if should_quit (ed s1) then Some s1
          else (case process_keypress lower s1 of
                  None \<Rightarrow> None
                | Some (Err e, s2) \<Rightarrow> None
                | Some (Ok u, s2) \<Rightarrow> run_editor lower s2))"
  by pat_completeness auto
termination
  by (relation "measure (\<lambda>(lower, s). length (events (con s)))")
    (auto dest!: refresh_screen_frame process_keypress_events)

declare run_editor.simps [simp del]

section \<open>The cursor in the text\<close>

definition goto :: "KeyCode \<Rightarrow> Document \<Rightarrow> Position \<Rightarrow> Position" where
  "goto key doc p = cursor_position (move_cursor key
     \<lparr>should_quit = False, terminal = \<lparr>term_size = (0, 0)\<rparr>, cursor_position = p, offset = p, document = doc,
      status_message = [], quit_times = 0\<rparr>)"

lemma row_width_at: "doc_rows doc = A @ r # B \<Longrightarrow> length A = y \<Longrightarrow> row_width y doc = length (row_chars r)"
  by (auto simp: row_width_def doc_row_def row_len_def nth_append)

lemma goto_eq:
  "goto Right doc p =
     (if pos_x p < row_width (pos_y p) doc then \<lparr>pos_x = pos_x p + 1, pos_y = pos_y p\<rparr>
      else if pos_y p < doc_len doc then \<lparr>pos_x = 0, pos_y = pos_y p + 1\<rparr>
      else \<lparr>pos_x = min (pos_x p) (row_width (pos_y p) doc), pos_y = pos_y p\<rparr>)"
  "goto Left doc p =
     (if pos_x p > 0 then \<lparr>pos_x = min (pos_x p - 1) (row_width (pos_y p) doc), pos_y = pos_y p\<rparr>
      else if pos_y p > 0 then \<lparr>pos_x = row_width (pos_y p - 1) doc, pos_y = pos_y p - 1\<rparr>
      else \<lparr>pos_x = 0, pos_y = 0\<rparr>)"
  by (simp_all add: goto_def move_cursor_def moved_def Let_def)

lemma place_at: "doc_rows doc = A @ r # B \<Longrightarrow> length A = y \<Longrightarrow> place doc \<lparr>pos_x = x, pos_y = y\<rparr> = length (rows_text A) + x"
  by (simp add: place_def)

lemma in_text_at: "doc_rows doc = A @ r # B \<Longrightarrow> length A = y \<Longrightarrow> x \<le> length (row_chars r) \<Longrightarrow> in_text doc \<lparr>pos_x = x, pos_y = y\<rparr>"
  by (auto simp: in_text_def doc_len_def row_len_def nth_append)

lemma right_insert:
  assumes "doc_ok doc" and "in_text doc p"
  shows "in_text (doc_insert p c doc) (goto Right (doc_insert p c doc) p) \<and>
    place (doc_insert p c doc) (goto Right (doc_insert p c doc) p) = Suc (place doc p)"
proof -
  obtain A r B where d: "doc_rows doc = A @ r # B" "length A = pos_y p" "pos_x p \<le> length (row_chars r)"
    "place doc p = length (rows_text A) + pos_x p" using assms(2) by (rule in_textE)
  let ?d = "doc_insert p c doc"
  show ?thesis
  proof (cases "c = newline")
    case True
    let ?h = "fst (row_split (pos_x p) r)" and ?t = "snd (row_split (pos_x p) r)"
    have r: "doc_rows ?d = A @ ?h # ?t # B" "doc_rows ?d = (A @ [?h]) @ ?t # B" using True by (simp_all add: doc_insert_split [OF d(1,2)])
    have "goto Right ?d p = \<lparr>pos_x = 0, pos_y = Suc (pos_y p)\<rparr>"
      using row_width_at [OF r(1) d(2)] r(1) d by (simp add: goto_eq doc_len_def)
    then show ?thesis using in_text_at [OF r(2), of "Suc (pos_y p)" 0] place_at [OF r(2), of "Suc (pos_y p)" 0] d by simp
  next
    case False
    then have r: "doc_rows ?d = A @ row_insert (pos_x p) c r # B" by (simp add: doc_insert_split [OF d(1,2)])
    have "goto Right ?d p = \<lparr>pos_x = Suc (pos_x p), pos_y = pos_y p\<rparr>"
      using row_width_at [OF r d(2)] d(3) by (simp add: goto_eq)
    then show ?thesis using in_text_at [OF r d(2)] place_at [OF r d(2)] d by simp
  qed
qed

lemma left_back:
  assumes "in_text doc p" and "0 < place doc p"
  shows "in_text doc (goto Left doc p) \<and> place doc (goto Left doc p) = place doc p - 1"
proof -
  obtain A r B where d: "doc_rows doc = A @ r # B" "length A = pos_y p" "pos_x p \<le> length (row_chars r)"
    "place doc p = length (rows_text A) + pos_x p" using assms(1) by (rule in_textE)
  show ?thesis
  proof (cases "pos_x p > 0")
    case True
    then have "goto Left doc p = \<lparr>pos_x = pos_x p - 1, pos_y = pos_y p\<rparr>"
      using row_width_at [OF d(1,2)] d(3) by (simp add: goto_eq)
    then show ?thesis using in_text_at [OF d(1,2)] place_at [OF d(1,2)] d True by simp
  next
    case False
    then have "A \<noteq> []" using assms(2) d by auto
    then obtain A' q where A: "A = A' @ [q]" by (metis rev_exhaust)
    have r: "doc_rows doc = A' @ q # r # B" using d(1) A by simp
    have y: "length A' = pos_y p - 1" "pos_y p > 0" using d(2) A by auto
    have "goto Left doc p = \<lparr>pos_x = length (row_chars q), pos_y = pos_y p - 1\<rparr>"
      using row_width_at [OF r y(1)] y(2) False by (simp add: goto_eq)
    then show ?thesis using in_text_at [OF r y(1)] place_at [OF r y(1)] d A False by simp
  qed
qed

lemma delete_stays:
  assumes "in_text doc p"
  shows "in_text (doc_delete p doc) p \<and> place (doc_delete p doc) p = place doc p"
proof -
  obtain A r B where d: "doc_rows doc = A @ r # B" "length A = pos_y p" "pos_x p \<le> length (row_chars r)"
    "place doc p = length (rows_text A) + pos_x p" using assms by (rule in_textE)
  obtain r' B' where r: "doc_rows (doc_delete p doc) = A @ r' # B'" "pos_x p \<le> length (row_chars r')"
    using d(3) by (cases B; cases "pos_x p = length (row_chars r)") (auto simp: doc_delete_split [OF d(1,2)] row_len_def)
  show ?thesis using in_text_at [OF r(1) d(2) r(2)] place_at [OF r(1) d(2)] d by (cases p) simp
qed

lemma place_less_text: "in_text doc p \<Longrightarrow> place doc p < length (doc_text doc)"
  by (erule in_textE) (auto simp: doc_text_def)

interpretation buf: text_buffer doc_text doc_ok in_text place char_ok doc_insert doc_delete "goto Right" "goto Left"
proof
  fix d :: Document and p :: Position and c :: rchar
  show "in_text d p \<Longrightarrow> place d p < length (doc_text d)" by (rule place_less_text)
  show "doc_ok d \<Longrightarrow> in_text d p \<Longrightarrow> char_ok c \<Longrightarrow>
    doc_text (doc_insert p c d) = take (place d p) (doc_text d) @ c # drop (place d p) (doc_text d)" by (rule doc_insert_text)
  show "doc_ok d \<Longrightarrow> in_text d p \<Longrightarrow> char_ok c \<Longrightarrow> doc_ok (doc_insert p c d)" by (rule doc_insert_ok)
  show "doc_ok d \<Longrightarrow> in_text d p \<Longrightarrow> char_ok c \<Longrightarrow> in_text (doc_insert p c d) (goto Right (doc_insert p c d) p) \<and>
    place (doc_insert p c d) (goto Right (doc_insert p c d) p) = Suc (place d p)" by (rule right_insert)
  show "in_text d p \<Longrightarrow> 0 < place d p \<Longrightarrow> in_text d (goto Left d p) \<and> place d (goto Left d p) = place d p - 1" by (rule left_back)
  show "doc_ok d \<Longrightarrow> in_text d p \<Longrightarrow> Suc (place d p) < length (doc_text d) \<Longrightarrow>
    doc_text (doc_delete p d) = take (place d p) (doc_text d) @ drop (Suc (place d p)) (doc_text d)"
    by (simp add: doc_delete_text)
  show "doc_ok d \<Longrightarrow> in_text d p \<Longrightarrow> doc_ok (doc_delete p d) \<and> in_text (doc_delete p d) p \<and> place (doc_delete p d) p = place d p"
    using delete_stays doc_delete_ok by blast
qed

section \<open>Key presses\<close>

fun press :: "(string \<Rightarrow> string) \<Rightarrow> KeyEvent list \<Rightarrow> Session \<Rightarrow> Session option" where
  "press lower [] s = Some s"
| "press lower (k # ks) s = (case handle_key lower k s of None \<Rightarrow> None | Some s1 \<Rightarrow> press lower ks s1)"

definition plain_key :: "KeyCode \<Rightarrow> KeyEvent" where
  "plain_key k = \<lparr>code = k, modifiers = {}\<rparr>"

definition buffer :: "Session \<Rightarrow> Document \<times> Position" where
  "buffer s = (document (ed s), cursor_position (ed s))"

lemma press_append: "press lower (ks @ ls) s = Option.bind (press lower ks s) (press lower ls)"
  by (induction ks arbitrary: s) (auto split: option.split)

lemma plain_not_ctrl: "\<not> is_ctrl c (plain_key k)"
  by (simp add: is_ctrl_def plain_key_def)

lemma handle_plain: "handle_key lower (plain_key k) s = Some (s\<lparr>ed := after_key (edit_key k (ed s))\<rparr>)"
  by (simp add: handle_key_def on_key_def plain_not_ctrl) (simp add: plain_key_def)

lemma after_key_frame [simp]: "document (after_key e) = document e" "cursor_position (after_key e) = cursor_position e"
  "terminal (after_key e) = terminal e" "should_quit (after_key e) = should_quit e"
  by (simp_all add: after_key_def scroll_def Let_def split: prod.split)

lemma move_cursor_frame [simp]: "document (move_cursor k e) = document e"
  by (simp add: move_cursor_def split: prod.split)

lemma move_cursor_goto: "k = Left \<or> k = Right \<Longrightarrow> cursor_position (move_cursor k e) = goto k (document e) (cursor_position e)"
  by (auto simp: goto_def move_cursor_def moved_def Let_def)

lemma press_char: "buffer (s\<lparr>ed := after_key (edit_key (KChar c) (ed s))\<rparr>) = type_char doc_insert (goto Right) c (buffer s)"
  by (simp add: buffer_def edit_key_def type_char_def Let_def move_cursor_goto)

lemma press_backspace:
  assumes "in_text (document (ed s)) (cursor_position (ed s))" and "0 < place (document (ed s)) (cursor_position (ed s))"
  shows "buffer (s\<lparr>ed := after_key (edit_key Backspace (ed s))\<rparr>) = erase_char doc_delete (goto Left) (buffer s)"
proof -
  have "pos_x (cursor_position (ed s)) > 0 \<or> pos_y (cursor_position (ed s)) > 0"
    using assms(2) by (auto simp: place_def) 
  then show ?thesis by (simp add: buffer_def edit_key_def erase_char_def Let_def move_cursor_goto)
qed

lemma press_word:
  "\<exists>s'. press lower (map (\<lambda>c. plain_key (KChar c)) w) s = Some s' \<and>
    buffer s' = fold (type_char doc_insert (goto Right)) w (buffer s)"
proof (induction w arbitrary: s)
  case (Cons c w)
  let ?s = "s\<lparr>ed := after_key (edit_key (KChar c) (ed s))\<rparr>"
  show ?case using Cons [of ?s] by (simp add: handle_plain press_char del: Session.simps)
qed simp

lemma press_erase:
  assumes "doc_ok (document (ed s))" and "in_text (document (ed s)) (cursor_position (ed s))"
    and "n \<le> place (document (ed s)) (cursor_position (ed s))"
  shows "\<exists>s'. press lower (replicate n (plain_key Backspace)) s = Some s' \<and>
    buffer s' = (erase_char doc_delete (goto Left) ^^ n) (buffer s)"
  using assms
proof (induction n arbitrary: s)
  case (Suc n)
  let ?s = "s\<lparr>ed := after_key (edit_key Backspace (ed s))\<rparr>"
  have b: "buffer ?s = erase_char doc_delete (goto Left) (buffer s)" using Suc.prems by (intro press_backspace) simp_all
  then have e: "erase_char doc_delete (goto Left) (document (ed s), cursor_position (ed s)) = (document (ed ?s), cursor_position (ed ?s))"
    unfolding buffer_def by metis
  have "doc_ok (document (ed ?s)) \<and> in_text (document (ed ?s)) (cursor_position (ed ?s)) \<and>
      place (document (ed ?s)) (cursor_position (ed ?s)) = place (document (ed s)) (cursor_position (ed s)) - 1"
    using buf.erase_step [OF Suc.prems(1,2) _ e] Suc.prems(3) by simp
  then obtain s' where "press lower (replicate n (plain_key Backspace)) ?s = Some s'"
    "buffer s' = (erase_char doc_delete (goto Left) ^^ n) (buffer ?s)"
    using Suc.IH [of ?s] Suc.prems(3) by fastforce
  then show ?case using b by (simp add: handle_plain funpow_swap1 del: Session.simps)
qed simp

text \<open>Property: With the cursor in a row, typing any word (newlines included) inserts it into the text at the cursor and leaves the cursor
  behind it; as many backspaces then restore the text and the cursor's place. No key press panics.\<close>

theorem type_and_erase:
  assumes "doc_ok (document (ed s))" and "in_text (document (ed s)) (cursor_position (ed s))" and "\<forall>c \<in> set w. char_ok c"
  defines "T \<equiv> doc_text (document (ed s))" and "n \<equiv> place (document (ed s)) (cursor_position (ed s))"
  shows "\<exists>s1 s2. press lower (map (\<lambda>c. plain_key (KChar c)) w) s = Some s1 \<and>
    doc_text (document (ed s1)) = take n T @ w @ drop n T \<and> place (document (ed s1)) (cursor_position (ed s1)) = n + length w \<and>
    press lower (replicate (length w) (plain_key Backspace)) s1 = Some s2 \<and>
    doc_text (document (ed s2)) = T \<and> place (document (ed s2)) (cursor_position (ed s2)) = n"
proof -
  obtain s1 where s1: "press lower (map (\<lambda>c. plain_key (KChar c)) w) s = Some s1"
    "fold (type_char doc_insert (goto Right)) w (document (ed s), cursor_position (ed s)) = (document (ed s1), cursor_position (ed s1))"
    using press_word [of lower w s] by (auto simp: buffer_def)
  have 1: "doc_ok (document (ed s1))" "in_text (document (ed s1)) (cursor_position (ed s1))"
    "place (document (ed s1)) (cursor_position (ed s1)) = n + length w" "doc_text (document (ed s1)) = take n T @ w @ drop n T"
    using buf.type_word [OF assms(1-3) s1(2)] by (simp_all add: T_def n_def)
  have n: "n < length T" unfolding n_def T_def using assms(2) by (rule place_less_text)
  obtain s2 where s2: "press lower (replicate (length w) (plain_key Backspace)) s1 = Some s2"
    "(erase_char doc_delete (goto Left) ^^ length w) (document (ed s1), cursor_position (ed s1)) = (document (ed s2), cursor_position (ed s2))"
    using press_erase [OF 1(1,2), of "length w" lower] 1(3) by (auto simp: buffer_def)
  have "place (document (ed s1)) (cursor_position (ed s1)) = length (take n T @ w)" using 1(3) n by simp
  from buf.erase_word [OF 1(1,2,4) this s2(2)]
  show ?thesis using s1(1) s2(1) 1 n by auto
qed

definition demo_session :: "Document \<Rightarrow> Session" where
  "demo_session doc = \<lparr>ed = \<lparr>should_quit = False, terminal = \<lparr>term_size = (80, 24)\<rparr>, cursor_position = \<lparr>pos_x = 0, pos_y = 0\<rparr>,
       offset = \<lparr>pos_x = 0, pos_y = 0\<rparr>, document = doc, status_message = [], quit_times = 3\<rparr>,
     con = \<lparr>events = [], flushes = [], size_report = Ok (80, 26), raw_report = Ok (), raw_mode = True, screen = []\<rparr>,
     disk = \<lparr>files = \<lambda>_. None, can_read = \<lambda>_. True, can_create = \<lambda>_. False, space_left = None\<rparr>\<rparr>"

theorem type_and_erase_witness:
  "\<exists>s1. press id [plain_key (KChar ''h''), plain_key (KChar newline)]
      (demo_session \<lparr>doc_rows = [row_from ''ab''], file_name = None, dirty = False\<rparr>) = Some s1 \<and>
    doc_text (document (ed s1)) = [''h'', newline, ''a'', ''b'', newline]"
  using type_and_erase [of "demo_session \<lparr>doc_rows = [row_from ''ab''], file_name = None, dirty = False\<rparr>" "[''h'', newline]" id]
    row_from_ok [of "''ab''"]
  by (auto simp: demo_session_def doc_ok_def in_text_def doc_len_def place_def doc_text_def Let_def)

section \<open>Quitting\<close>

definition ctrl :: "rchar \<Rightarrow> KeyEvent" where
  "ctrl c = \<lparr>code = KChar c, modifiers = {Control}\<rparr>"

lemma ctrl_simps [simp]: "is_ctrl a (ctrl b) \<longleftrightarrow> a = b"
  by (auto simp: is_ctrl_def ctrl_def)

lemma quit_dirty: "is_dirty (document (ed s)) \<Longrightarrow> 0 < quit_times (ed s) \<Longrightarrow> handle_key lower (ctrl ''q'') s =
    Some (s\<lparr>ed := (ed s)\<lparr>status_message := quit_warning (quit_times (ed s)), quit_times := quit_times (ed s) - 1\<rparr>\<rparr>)"
  by (simp add: handle_key_def)

lemma quit_now: "\<not> is_dirty (document (ed s)) \<or> quit_times (ed s) = 0 \<Longrightarrow>
    handle_key lower (ctrl ''q'') s = Some (s\<lparr>ed := after_key ((ed s)\<lparr>should_quit := True\<rparr>)\<rparr>)"
  by (auto simp add: handle_key_def)

lemma press_quits:
  assumes "is_dirty (document (ed s))" and "n \<le> quit_times (ed s)"
  shows "press lower (replicate n (ctrl ''q'')) s =
    Some (s\<lparr>ed := (ed s)\<lparr>status_message := (if n = 0 then status_message (ed s) else quit_warning (quit_times (ed s) - n + 1)),
      quit_times := quit_times (ed s) - n\<rparr>\<rparr>)"
  using assms(2)
proof (induction n)
  case (Suc n)
  let ?e = "(ed s)\<lparr>status_message := (if n = 0 then status_message (ed s) else quit_warning (quit_times (ed s) - n + 1)),
      quit_times := quit_times (ed s) - n\<rparr>"
  have "press lower (replicate n (ctrl ''q'')) s = Some (s\<lparr>ed := ?e\<rparr>)" using Suc by simp
  moreover have "handle_key lower (ctrl ''q'') (s\<lparr>ed := ?e\<rparr>) =
      Some (s\<lparr>ed := (ed s)\<lparr>status_message := quit_warning (quit_times (ed s) - n), quit_times := quit_times (ed s) - Suc n\<rparr>\<rparr>)"
    using quit_dirty [of "s\<lparr>ed := ?e\<rparr>" lower] assms(1) Suc.prems by simp
  moreover have "quit_times (ed s) - n = quit_times (ed s) - Suc n + 1" using Suc.prems by simp
  moreover have "replicate (Suc n) (ctrl ''q'') = replicate n (ctrl ''q'') @ [ctrl ''q'']" by (simp add: replicate_append_same)
  ultimately show ?case by (simp add: press_append del: replicate_Suc)
qed simp

lemma scroll_frame [simp]: "quit_times (scroll e) = quit_times e" "document (scroll e) = document e"
  "cursor_position (scroll e) = cursor_position e" "terminal (scroll e) = terminal e" "should_quit (scroll e) = should_quit e"
  by (simp_all add: scroll_def Let_def split: prod.split)

lemma move_cursor_more [simp]: "quit_times (move_cursor k e) = quit_times e" "terminal (move_cursor k e) = terminal e"
  by (simp_all add: move_cursor_def split: prod.split)

lemma edit_key_quit [simp]: "quit_times (edit_key k e) = quit_times e"
  by (cases k) (simp_all add: edit_key_def Let_def)

lemma search_callback_quit: "search_callback lower e k q = Some e' \<Longrightarrow> quit_times e' = quit_times e"
  by (auto simp: search_callback_def split: if_splits option.splits)

lemma prompt_keeps:
  assumes "prompt_loop cb msg res s = Some (r, s')" and "\<And>e m. f (e\<lparr>status_message := m\<rparr>) = f e"
    and "\<And>e k q e'. cb e k q = Some e' \<Longrightarrow> f e' = f e"
  shows "f (ed s') = f (ed s)"
  using assms(1)
  by (rule prompt_loop_invariant [where P = "\<lambda>x. f (ed x) = f (ed s)"]) (auto simp: assms(2) dest: refresh_screen_frame assms(3))

lemma write_out_frame [simp]: "quit_times (ed (write_out s)) = quit_times (ed s)" "cursor_position (ed (write_out s)) = cursor_position (ed s)"
  by (simp_all add: write_out_def Let_def split: prod.split)

lemma save_prompt_keeps:
  "prompt_loop (\<lambda>e key q. Some e) msg res s = Some (r, s') \<Longrightarrow> (\<And>e m. f (e\<lparr>status_message := m\<rparr>) = f e) \<Longrightarrow> f (ed s') = f (ed s)"
  by (erule prompt_keeps) auto

lemma on_key_quit: "on_key lower k s = Some s' \<Longrightarrow> quit_times (ed s') = quit_times (ed s)"
  by (auto simp: on_key_def editor_save_def editor_search_def prompt_def Let_def
      dest!: prompt_keeps [where f = quit_times and cb = "search_callback lower", OF _ _ search_callback_quit]
        save_prompt_keeps [where f = quit_times]
      split: if_splits option.splits prod.splits result.splits)

lemma other_key_resets:
  assumes "\<not> is_ctrl ''q'' k" and "quit_times (ed s) \<le> QUIT_TIMES" and "handle_key lower k s = Some s'"
  shows "quit_times (ed s') = QUIT_TIMES"
proof -
  obtain s1 where s1: "on_key lower k s = Some s1" "s' = s1\<lparr>ed := after_key (ed s1)\<rparr>"
    using assms(1,3) by (auto simp: handle_key_def split: option.splits)
  then have "quit_times (ed s1) \<le> QUIT_TIMES" using on_key_quit assms(2) by simp
  then show ?thesis using s1(2) by (simp add: after_key_def Let_def)
qed



text \<open>Property: After a warning the outcome of Ctrl-S is not shown: whether the file was written or not, the message is cleared.\<close>

theorem save_message_lost:
  assumes "quit_times (ed s) < QUIT_TIMES" and "file_name (document (ed s)) = Some name"
  shows "\<exists>s'. handle_key lower (ctrl ''s'') s = Some s' \<and> status_message (ed s') = [] \<and>
    (dirty (document (ed s')) \<longleftrightarrow> fst (doc_save (document (ed s)) (disk s)) \<noteq> Ok () \<and> dirty (document (ed s)))"
proof -
  obtain r doc d where sv: "doc_save (document (ed s)) (disk s) = (r, doc, d)" by (cases "doc_save (document (ed s)) (disk s)") auto
  have "r = Ok () \<Longrightarrow> doc = (document (ed s))\<lparr>dirty := False\<rparr>" "r \<noteq> Ok () \<Longrightarrow> doc = document (ed s)"
    using doc_save_cases [OF assms(2) sv] by blast+
  then have "dirty doc \<longleftrightarrow> r \<noteq> Ok () \<and> dirty (document (ed s))" by (cases "r = Ok ()") simp_all
  then show ?thesis
    using assms sv by (simp add: handle_key_def on_key_def editor_save_def write_out_def Let_def after_key_def)
qed

theorem save_message_lost_witness:
  "\<exists>s1 s2. press id [ctrl ''q''] (demo_session \<lparr>doc_rows = [], file_name = Some ''f'', dirty = True\<rparr>) = Some s1 \<and>
    handle_key id (ctrl ''s'') s1 = Some s2 \<and> status_message (ed s2) = [] \<and> dirty (document (ed s2))"
proof -
  let ?s = "demo_session \<lparr>doc_rows = [], file_name = Some ''f'', dirty = True\<rparr>"
  let ?s1 = "?s\<lparr>ed := (ed ?s)\<lparr>status_message := quit_warning 3, quit_times := 2\<rparr>\<rparr>"
  have "press id [ctrl ''q''] ?s = Some ?s1"
    using press_quits [of ?s 1 id] by (simp add: demo_session_def is_dirty_def)
  moreover have "fst (doc_save (document (ed ?s1)) (disk ?s1)) \<noteq> Ok ()"
    by (simp add: demo_session_def doc_save_def create_file_def)
  moreover have "quit_times (ed ?s1) < QUIT_TIMES" "file_name (document (ed ?s1)) = Some ''f''" "dirty (document (ed ?s1))"
    by (simp_all add: demo_session_def QUIT_TIMES_def)
  ultimately show ?thesis using save_message_lost [of ?s1 "''f''" id] by blast
qed

section \<open>What every session keeps\<close>

lemma lines_gen_valid:
  "utf8_valid s \<Longrightarrow> l \<in> set (lines_gen (CHR 0x0A) (CHR 0x0D) s) \<Longrightarrow> utf8_valid l"
proof (induction "CHR 0x0A" "CHR 0x0D" s rule: lines_gen.induct)
  case (1 s)
  show ?case
  proof (cases "split_once (CHR 0x0A) s")
    case None
    then show ?thesis using "1.prems" by (cases "s = []") (auto simp: lines_gen.simps [of _ _ s])
  next
    case (Some ab)
    obtain a b where ab: "ab = (a, b)" by fastforce
    have s: "s = a @ CHR 0x0A # b" using Some ab by (auto dest: split_once_SomeD)
    have ne: "s \<noteq> []" using s by simp
    have a: "utf8_valid a" using "1.prems"(1) utf8_valid_cut [of a "CHR 0x0A # b"] by (simp add: s)
    have b: "utf8_valid b" using utf8_valid_rest [of "a @ [CHR 0x0A]" b] "1.prems"(1) utf8_valid_append [OF a, of "[CHR 0x0A]"] by (simp add: s)
    have "utf8_valid (strip_last (CHR 0x0D) a)"
      using a utf8_valid_cut [of "butlast a" "[CHR 0x0D]"] append_butlast_last_id [of a]
      by (cases "a \<noteq> [] \<and> last a = CHR 0x0D") (auto simp: strip_last_def)
    moreover have "l = strip_last (CHR 0x0D) a \<or> l \<in> set (lines_gen (CHR 0x0A) (CHR 0x0D) b)"
      using "1.prems"(2) Some ab ne by (simp add: lines_gen.simps [of _ _ s])
    ultimately show ?thesis using "1.hyps" [OF ne Some ab [symmetric]] b by auto
  qed
qed

lemma doc_open_ok: "doc_open name d = Ok doc \<Longrightarrow> doc_ok doc"
  by (auto simp: doc_open_def read_to_string_def doc_ok_def lines_def split: result.splits option.splits if_splits
      intro!: row_from_ok intro: lines_gen_valid dest: lines_gen_no_newline)

text \<open>Lower-casing that keeps the number of characters.\<close>

definition keeps_count :: "(string \<Rightarrow> string) \<Rightarrow> bool" where
  "keeps_count lower \<longleftrightarrow> (\<forall>cs. (\<forall>c \<in> set cs. char_ok c) \<longrightarrow>
     utf8_valid (lower (concat cs)) \<and> length (chars (lower (concat cs))) = length cs)"

lemma count_prefix:
  assumes "utf8_valid s" and "is_char_boundary s i" and "i \<le> length s"
  shows "length (chars (take i s)) \<le> length (chars s)"
proof -
  have "drop i s = [] \<or> code_of (hd (drop i s)) < 0x80 \<or> 0xBF < code_of (hd (drop i s)) \<or> i = 0"
    using assms(2,3) by (auto simp: is_char_boundary_def is_cont_def hd_drop_conv_nth)
  then have "utf8_valid (take i s)" using utf8_valid_cut [of "take i s" "drop i s"] assms(1) by auto
  then have "chars (concat (chars (take i s)) @ drop i s) = chars (take i s) @ chars (drop i s)"
    by (intro chars_append chars_ok)
  then show ?thesis by (metis append_take_drop_id concat_chars le_add1 length_append)
qed

lemma row_find_inside:
  assumes "keeps_count lower" and "row_ok r" and "row_find lower q start r = Some (Some x)"
  shows "x \<le> row_len r"
proof -
  let ?h = "lower (concat (drop start (row_chars r)))"
  obtain i where i: "find_sub (lower q) ?h = Some i" "is_char_boundary ?h i" "x = start + length (chars (take i ?h))" "start \<le> row_len r"
    using assms(3) by (auto simp: row_find_def Let_def row_len_def split: if_splits option.splits)
  have "\<forall>c \<in> set (drop start (row_chars r)). char_ok c" using row_ok_typable [OF assms(2)] by (auto simp: typable_def dest: in_set_dropD)
  then have h: "utf8_valid ?h" "length (chars ?h) = length (drop start (row_chars r))" using assms(1) by (auto simp: keeps_count_def)
  have "i \<le> length ?h" using i(1) by (rule find_sub_bound)
  then show ?thesis using count_prefix [OF h(1) i(2)] i h(2) by (simp add: row_len_def)
qed

lemma find_rows_found:
  "find_rows lower q rs todo = Some (Some p) \<Longrightarrow> \<exists>s. (pos_y p, s) \<in> set todo \<and> row_find lower q s (rs ! pos_y p) = Some (Some (pos_x p))"
  by (induction lower q rs todo rule: find_rows.induct) (fastforce split: option.splits)+

definition cursor_ok :: "bool \<Rightarrow> Document \<Rightarrow> Position \<Rightarrow> bool" where
  "cursor_ok strict doc p \<longleftrightarrow> pos_y p \<le> doc_len doc \<and> (strict \<longrightarrow> pos_x p \<le> row_width (pos_y p) doc)"

lemma doc_find_order:
  "doc_find lower q p doc = (if q = [] then Some None else find_rows lower q (doc_rows doc) (search_order p (length (doc_rows doc))))"
  by (simp add: doc_find_def search_order_def Let_def)

lemma doc_find_cursor:
  assumes "doc_ok doc" and "doc_find lower q p doc = Some (Some r)"
  shows "cursor_ok (keeps_count lower) doc r"
proof -
  obtain s where s: "(pos_y r, s) \<in> set (search_order p (length (doc_rows doc)))" "row_find lower q s (doc_rows doc ! pos_y r) = Some (Some (pos_x r))"
    using assms(2) find_rows_found [of lower q "doc_rows doc" "search_order p (length (doc_rows doc))" r]
    by (auto simp: doc_find_order split: if_splits)
  have y: "pos_y r < length (doc_rows doc)" using s(1) by (simp add: search_order_mem)
  then have "keeps_count lower \<Longrightarrow> pos_x r \<le> row_len (doc_rows doc ! pos_y r)"
    using row_find_inside [OF _ _ s(2)] assms(1) by (simp add: doc_ok_def)
  then show ?thesis using y by (simp add: cursor_ok_def doc_len_def row_width_def doc_row_def)
qed

lemma move_cursor_ok:
  assumes "pos_y (cursor_position e) \<le> doc_len (document e)"
  shows "cursor_ok strict (document e) (cursor_position (move_cursor k e))"
proof -
  obtain x y where m: "moved k (snd (term_size (terminal e))) (document e) (pos_x (cursor_position e), pos_y (cursor_position e)) = (x, y)"
    by fastforce
  then have "y \<le> doc_len (document e)" using assms by (auto simp: moved_def Let_def split: KeyCode.splits if_splits)
  then show ?thesis by (simp add: move_cursor_def m cursor_ok_def)
qed

lemma in_text_cursor: "in_text doc p \<Longrightarrow> cursor_ok strict doc p"
  by (simp add: in_text_def cursor_ok_def row_width_def doc_row_def doc_len_def)

lemma doc_insert_len: "doc_len doc \<le> doc_len (doc_insert p c doc)"
  by (auto simp: doc_len_def doc_insert_def insert_newline_def Let_def split: prod.split)

lemma doc_delete_cursor:
  assumes "cursor_ok strict doc p"
  shows "cursor_ok strict (doc_delete p doc) p"
proof (cases "pos_y p < length (doc_rows doc)")
  case True
  then obtain A r B where d: "doc_rows doc = A @ r # B" "length A = pos_y p" by (rule row_atE)
  show ?thesis
  proof (cases "pos_x p \<le> length (row_chars r)")
    case True
    have "in_text doc p" using in_text_at [OF d True] by (cases p) simp
    then show ?thesis using delete_stays in_text_cursor by blast
  next
    case False
    then have "\<not> strict" using assms row_width_at [OF d] by (auto simp: cursor_ok_def)
    moreover have "pos_y p < doc_len (doc_delete p doc)"
      using d by (cases B) (auto simp: doc_delete_split [OF d] doc_len_def)
    ultimately show ?thesis by (simp add: cursor_ok_def)
  qed
qed (use assms in \<open>simp add: doc_delete_def\<close>)

definition ed_ok :: "bool \<Rightarrow> Editor \<Rightarrow> bool" where
  "ed_ok strict e \<longleftrightarrow> doc_ok (document e) \<and> cursor_ok strict (document e) (cursor_position e)"

lemma edit_key_ok:
  assumes "ed_ok strict e" and "\<And>c. k = KChar c \<Longrightarrow> char_ok c"
  shows "ed_ok strict (edit_key k e)"
proof -
  let ?p = "cursor_position e"
  have d: "doc_ok (document e)" and y: "pos_y ?p \<le> doc_len (document e)" and c: "cursor_ok strict (document e) ?p"
    using assms(1) by (simp_all add: ed_ok_def cursor_ok_def)
  have move: "ed_ok strict (move_cursor m e)" for m
    using d move_cursor_ok [OF y] by (simp add: ed_ok_def)
  have insert: "ed_ok strict (move_cursor Right (e\<lparr>document := doc_insert ?p c (document e)\<rparr>))" if "char_ok c" for c
    using doc_insert_ok [OF d that] move_cursor_ok [of "e\<lparr>document := doc_insert ?p c (document e)\<rparr>" strict Right]
      order_trans [OF y doc_insert_len] by (simp add: ed_ok_def)
  have delete: "ed_ok strict (e'\<lparr>document := doc_delete (cursor_position e') (document e')\<rparr>)" if "ed_ok strict e'" for e'
    using that doc_delete_ok doc_delete_cursor by (simp add: ed_ok_def)
  show ?thesis
    using assms move insert delete [OF assms(1)] delete [OF move [of Left]] by (cases k) (simp_all add: edit_key_def Let_def)
qed

lemma search_callback_ok:
  assumes "ed_ok (keeps_count lower) e" and "search_callback lower e k q = Some e'"
  shows "ed_ok (keeps_count lower) e'"
  using assms doc_find_cursor [of "document e" lower q "cursor_position e"]
  by (auto simp: search_callback_def ed_ok_def split: if_splits option.splits)

lemma ed_ok_cong: "doc_rows (document e') = doc_rows (document e) \<Longrightarrow> cursor_position e' = cursor_position e \<Longrightarrow> ed_ok strict e' = ed_ok strict e"
  by (simp add: ed_ok_def doc_ok_def cursor_ok_def doc_len_def row_width_def doc_row_def)

lemma prompt_ok:
  assumes "prompt_loop cb msg res s = Some (r, s')" and "ed_ok strict (ed s)"
    and cb: "\<And>e k q e'. ed_ok strict e \<Longrightarrow> cb e k q = Some e' \<Longrightarrow> ed_ok strict e'"
  shows "ed_ok strict (ed s')"
  using assms(1,2)
proof (rule prompt_loop_invariant [where P = "\<lambda>x. ed_ok strict (ed x)"])
  show "ed_ok strict (ed (x\<lparr>ed := (ed x)\<lparr>status_message := m\<rparr>\<rparr>))" if "ed_ok strict (ed x)" for x m
    using that ed_ok_cong [of "(ed x)\<lparr>status_message := m\<rparr>" "ed x"] by simp
  show "ed_ok strict (ed x1)" if "ed_ok strict (ed x)" "refresh_screen x = Some (y, x1)" for x y x1
    using that refresh_screen_frame by metis
qed (use cb in simp_all)

lemma doc_save_rows: "doc_save doc d = (r, doc', d') \<Longrightarrow> doc_rows doc' = doc_rows doc"
  by (auto simp: doc_save_def split: option.splits prod.splits result.splits)

lemma write_out_ok: "ed_ok b (ed (write_out s)) = ed_ok b (ed s)"
proof (rule ed_ok_cong)
  obtain r doc d where sv: "doc_save (document (ed s)) (disk s) = (r, doc, d)" by (cases "doc_save (document (ed s)) (disk s)") auto
  show "doc_rows (document (ed (write_out s))) = doc_rows (document (ed s))"
    using doc_save_rows [OF sv] sv by (simp add: write_out_def)
qed simp

lemma editor_save_ok:
  assumes "editor_save s = Some s'" and "ed_ok b (ed s)"
  shows "ed_ok b (ed s')"
proof (cases "file_name (document (ed s))")
  case None
  then obtain r s1 where p: "prompt_loop (\<lambda>e key q. Some e) ''Save as: '' [] s = Some (r, s1)"
    using assms(1) by (auto simp: editor_save_def prompt_def split: option.splits)
  have 1: "ed_ok b (ed s1)" using prompt_ok [OF p assms(2)] by simp
  show ?thesis
  proof (cases "case r of Ok name \<Rightarrow> name | Err e \<Rightarrow> None")
    case none: None
    then have "s' = s1\<lparr>ed := (ed s1)\<lparr>status_message := ''Save aborted.''\<rparr>\<rparr>" using assms(1) None p by (simp add: editor_save_def prompt_def)
    then show ?thesis using 1 ed_ok_cong [of "ed s'" "ed s1" b] by simp
  next
    case (Some name)
    let ?s = "s1\<lparr>ed := (ed s1)\<lparr>document := (document (ed s1))\<lparr>file_name := Some name\<rparr>\<rparr>\<rparr>"
    have "s' = write_out ?s" using assms(1) None p Some by (simp add: editor_save_def prompt_def)
    then show ?thesis using 1 ed_ok_cong [of "ed ?s" "ed s1" b] by (simp add: write_out_ok)
  qed
next
  case (Some name)
  then show ?thesis using assms write_out_ok by (auto simp: editor_save_def)
qed

lemma search_callback_document: "search_callback lower e k q = Some e' \<Longrightarrow> document e' = document e"
  by (auto simp: search_callback_def split: if_splits option.splits)

lemma editor_search_ok:
  assumes "editor_search lower s = Some s'" and "ed_ok (keeps_count lower) (ed s)"
  shows "ed_ok (keeps_count lower) (ed s')"
proof -
  obtain r s1 where p: "prompt_loop (search_callback lower) ''Search (ESC to cancel): '' [] s = Some (r, s1)"
    and s': "s' = s1 \<or> s' = s1\<lparr>ed := scroll ((ed s1)\<lparr>cursor_position := cursor_position (ed s)\<rparr>)\<rparr>"
    using assms(1) by (auto simp: editor_search_def prompt_def Let_def split: option.splits result.splits)
  have "document (ed s1) = document (ed s)"
    using prompt_keeps [OF p, of document] search_callback_document by simp
  moreover have "ed_ok (keeps_count lower) (ed s1)" using prompt_ok [OF p assms(2)] search_callback_ok by blast
  ultimately show ?thesis using s' assms(2) by (auto simp: ed_ok_def)
qed

lemma on_key_ok:
  assumes "on_key lower k s = Some s'" and "ed_ok (keeps_count lower) (ed s)" and "\<And>c. code k = KChar c \<Longrightarrow> char_ok c"
  shows "ed_ok (keeps_count lower) (ed s')"
proof -
  show ?thesis using assms edit_key_ok editor_save_ok editor_search_ok by (auto simp: on_key_def split: if_splits)
qed

text \<open>After a key the cursor is on the screen.\<close>

definition visible_cursor :: "Editor \<Rightarrow> bool" where
  "visible_cursor e \<longleftrightarrow>
     (0 < fst (term_size (terminal e)) \<longrightarrow>
        pos_x (offset e) \<le> pos_x (cursor_position e) \<and> pos_x (cursor_position e) < pos_x (offset e) + fst (term_size (terminal e))) \<and>
     (0 < snd (term_size (terminal e)) \<longrightarrow>
        pos_y (offset e) \<le> pos_y (cursor_position e) \<and> pos_y (cursor_position e) < pos_y (offset e) + snd (term_size (terminal e)))"

lemma scroll_axis_visible: "0 < n \<Longrightarrow> scroll_axis v off n \<le> v \<and> v < scroll_axis v off n + n"
  by (auto simp: scroll_axis_def)

lemma after_key_visible: "visible_cursor (after_key e)"
  using scroll_axis_visible by (auto simp: visible_cursor_def after_key_def scroll_def Let_def split: prod.split)

text \<open>The sessions that can be reached: any keys are pressed, the terminal delivers any events and other programs change the files.\<close>

definition key_ok :: "KeyEvent \<Rightarrow> bool" where
  "key_ok k \<longleftrightarrow> (case code k of KChar c \<Rightarrow> char_ok c | _ \<Rightarrow> True)"

inductive reaches :: "(string \<Rightarrow> string) \<Rightarrow> Session \<Rightarrow> bool" for lower where
  opened: "editor_new f c d = (Ok e, c1) \<Longrightarrow> reaches lower \<lparr>ed = e, con = c1, disk = d\<rparr>"
| pressed: "reaches lower s \<Longrightarrow> key_ok k \<Longrightarrow> handle_key lower k s = Some s' \<Longrightarrow> reaches lower s'"
| environment: "reaches lower s \<Longrightarrow> reaches lower (s\<lparr>con := c, disk := d\<rparr>)"

lemma editor_new_ok:
  assumes "editor_new f c d = (Ok e, c1)"
  shows "ed_ok b e \<and> visible_cursor e \<and> quit_times e = QUIT_TIMES"
proof -
  have "doc_ok doc_default" by (simp add: doc_ok_def doc_default_def)
  then show ?thesis
    using assms doc_open_ok
    by (auto simp: editor_new_def Let_def ed_ok_def cursor_ok_def visible_cursor_def split: option.splits result.splits prod.splits)
qed

lemma handle_key_ok:
  assumes "handle_key lower k s = Some s'" and "key_ok k" and "ed_ok (keeps_count lower) (ed s)" and "visible_cursor (ed s)"
  shows "ed_ok (keeps_count lower) (ed s') \<and> visible_cursor (ed s')"
proof -
  have k: "char_ok c" if "code k = KChar c" for c using assms(2) that by (simp add: key_ok_def)
  have a: "ed_ok b (after_key e) = ed_ok b e" for b e by (rule ed_ok_cong) simp_all
  show ?thesis
  proof (cases "is_ctrl ''q'' k")
    case True
    let ?w = "(ed s)\<lparr>status_message := quit_warning (quit_times (ed s)), quit_times := quit_times (ed s) - 1\<rparr>"
    have "ed_ok b ?w = ed_ok b (ed s)" "ed_ok b ((ed s)\<lparr>should_quit := True\<rparr>) = ed_ok b (ed s)" for b by (rule ed_ok_cong; simp)+
    moreover have "visible_cursor ?w = visible_cursor (ed s)" by (simp add: visible_cursor_def)
    ultimately show ?thesis using True assms a after_key_visible by (auto simp: handle_key_def split: if_splits)
  next
    case False
    then obtain s1 where "on_key lower k s = Some s1" "s' = s1\<lparr>ed := after_key (ed s1)\<rparr>"
      using assms(1) by (auto simp: handle_key_def split: option.splits)
    then show ?thesis using on_key_ok [OF _ assms(3) k] a after_key_visible by auto
  qed
qed


lemma char_ok_ascii_lower: "char_ok c \<Longrightarrow> char_ok (map ascii_lower c)"
proof -
  assume c: "char_ok c"
  then obtain b bs where cb: "c = b # bs" "\<not> is_cont b" "\<forall>d \<in> set bs. is_cont d" by (rule char_ok_bytes)
  have st: "utf8_step b bs = (True, length bs)" using c cb by (simp add: char_ok_def)
  show ?thesis
  proof (cases "code_of b < 0x80")
    case True
    then have "bs = []" using st by simp
    then show ?thesis using True cb(1) by (auto simp: ascii_lower_def)
  next
    case False
    then have "map ascii_lower c = c" using cb by (auto simp: ascii_lower_def is_cont_def intro!: map_idI)
    then show ?thesis using c by simp
  qed
qed

lemma keeps_count_ascii: "keeps_count to_ascii_lowercase"
proof -
  have "to_ascii_lowercase (concat cs) = concat (map (map ascii_lower) cs)" for cs
    by (simp add: to_ascii_lowercase_def map_concat)
  moreover have "\<forall>c \<in> set (map (map ascii_lower) cs). char_ok c" if "\<forall>c \<in> set cs. char_ok c" for cs
    using that char_ok_ascii_lower by auto
  ultimately show ?thesis using chars_concat unfolding keeps_count_def by (metis length_map)
qed


section \<open>Drawing\<close>

lemma truncate_str_short: "length s < n \<Longrightarrow> truncate_str n s = Some s"
  by (simp add: truncate_str_def)

lemma truncate_str_ascii: "\<forall>b \<in> set s. code_of b < 0x80 \<Longrightarrow> truncate_str n s = Some (take n s)"
  by (auto simp: truncate_str_def is_char_boundary_def is_cont_def) (metis le_neq_implies_less linorder_not_le nth_mem)

lemma draw_lines_total: "\<exists>c'. draw_lines e rs c = Some c'"
proof (induction rs arbitrary: c)
  case (Cons r rs)
  have "\<exists>c'. draw_welcome_message e c = Some c'" for c
    by (simp add: draw_welcome_message_def Let_def truncate_str_ascii)
  then have "\<exists>c'. draw_line e r c = Some c'" for c
    by (auto simp: draw_line_def Let_def split: option.split)
  then show ?case using Cons by (metis draw_lines.simps(2) option.simps(5))
qed simp

lemma truncate_str_None: "truncate_str n t = None \<longleftrightarrow> 0 < n \<and> n < length t \<and> is_cont (t ! n)"
  by (auto simp: truncate_str_def is_char_boundary_def)

text \<open>Property: Drawing panics exactly when the editor is not quitting and the right edge of the terminal falls inside a multi-byte character
  of the status line (which holds the file name) or of the message line: \<open>String::truncate\<close> cuts bytes.\<close>

theorem frame_panics_iff:
  "draw_frame e c = None \<longleftrightarrow> \<not> should_quit e \<and> (let w = fst (term_size (terminal e)); s = status_text e; m = status_message e
     in (0 < w \<and> w < length s \<and> is_cont (s ! w)) \<or> (0 < w \<and> w < length m \<and> is_cont (m ! w)))"
proof -
  have rows: "\<exists>c'. draw_rows e c = Some c'" for c using draw_lines_total by (simp add: draw_rows_def)
  have status: "draw_status_bar e c = None \<longleftrightarrow> truncate_str (fst (term_size (terminal e))) (status_text e) = None" for c
    by (simp add: draw_status_bar_def split: option.split)
  have message: "draw_message_bar e c = None \<longleftrightarrow> truncate_str (fst (term_size (terminal e))) (status_message e) = None" for c
    by (simp add: draw_message_bar_def Let_def split: option.split)
  obtain c2 where c2: "draw_rows e (put_cursor \<lparr>pos_x = 0, pos_y = 0\<rparr> (cursor_hide c)) = Some c2" using rows by blast
  have "draw_frame e c = None \<longleftrightarrow> \<not> should_quit e \<and> Option.bind (draw_status_bar e c2) (draw_message_bar e) = None"
    by (simp add: draw_frame_def Let_def c2)
  also have "Option.bind (draw_status_bar e c2) (draw_message_bar e) = None \<longleftrightarrow>
      truncate_str (fst (term_size (terminal e))) (status_text e) = None \<or>
      truncate_str (fst (term_size (terminal e))) (status_message e) = None"
    using status [of c2] message by (cases "draw_status_bar e c2") auto
  finally show ?thesis unfolding truncate_str_None by (simp add: Let_def)
qed

lemma render_slice_window:
  assumes "row_ok r"
  shows "render_slice s (s + w) r = concat (take w (drop s (expand 0 (row_chars r))))"
proof -
  have "chars (row_render r) = expand 0 (row_chars r)"
    using assms chars_concat [OF expand_ok, of "row_chars r" 0] by (simp add: row_ok_def)
  then show ?thesis by (auto simp: render_slice_def Let_def min_def)
qed

definition screen_line :: "Editor \<Rightarrow> nat \<Rightarrow> rchar list" where
  "screen_line e i =
     (let y = i + pos_y (offset e) in
      if y < doc_len (document e)
      then take (fst (term_size (terminal e))) (drop (pos_x (offset e)) (expand 0 (row_chars (doc_rows (document e) ! y))))
      else [''~''])"

lemma draw_lines_screen:
  assumes "doc_ok (document e)" and "doc_rows (document e) \<noteq> []"
  shows "\<exists>c'. draw_lines e rs c = Some c' \<and>
    screen c' = screen c @ concat (map (\<lambda>i. [ClearLine, Print (concat (screen_line e i)), Print crnl]) rs)"
proof (induction rs arbitrary: c)
  case (Cons i rs)
  let ?y = "i + pos_y (offset e)"
  have "\<exists>c1. draw_line e i c = Some c1 \<and> screen c1 = screen c @ [ClearLine, Print (concat (screen_line e i)), Print crnl]"
  proof (cases "?y < length (doc_rows (document e))")
    case True
    then have "row_ok (doc_rows (document e) ! ?y)" using assms(1) by (simp add: doc_ok_def)
    then show ?thesis
      using True by (simp add: draw_line_def Let_def doc_row_def draw_row_def render_slice_window screen_line_def doc_len_def
          console_cmds queue_cmd_def)
  next
    case False
    then show ?thesis
      using assms(2) by (simp add: draw_line_def Let_def doc_row_def doc_is_empty_def screen_line_def doc_len_def console_cmds queue_cmd_def)
  qed
  then obtain c1 where c1: "draw_line e i c = Some c1" "screen c1 = screen c @ [ClearLine, Print (concat (screen_line e i)), Print crnl]"
    by blast
  then show ?case using Cons [of c1] by auto
qed simp

text \<open>Property: For a document with rows the text area shows the window of the document at the scroll offset: line \<open>i\<close> of the terminal is
  cleared and printed with the columns from the horizontal offset on, at most as many as the terminal is wide, of row
  \<open>i\<close> plus the vertical offset with its tabs expanded, and with a tilde below the last row.\<close>

theorem rows_drawn:
  assumes "doc_ok (document e)" and "doc_rows (document e) \<noteq> []"
  shows "\<exists>c'. draw_rows e c = Some c' \<and> screen c' = screen c @
    concat (map (\<lambda>i. [ClearLine, Print (concat (screen_line e i)), Print crnl]) [0..<snd (term_size (terminal e))])"
  using draw_lines_screen [OF assms] by (simp add: draw_rows_def)

theorem rows_drawn_witness:
  "\<exists>c'. draw_rows (ed (demo_session \<lparr>doc_rows = [row_from ''ab''], file_name = None, dirty = False\<rparr>)\<lparr>terminal := \<lparr>term_size = (1, 2)\<rparr>\<rparr>)
      (con (demo_session doc_default)) = Some c' \<and>
    screen c' = [ClearLine, Print ''a'', Print crnl, ClearLine, Print ''~'', Print crnl]"
  using rows_drawn [of "ed (demo_session \<lparr>doc_rows = [row_from ''ab''], file_name = None, dirty = False\<rparr>)\<lparr>terminal := \<lparr>term_size = (1, 2)\<rparr>\<rparr>"
      "con (demo_session doc_default)"] row_from_ok [of "''ab''"]
  by (simp add: demo_session_def doc_ok_def screen_line_def doc_len_def upt_rec Let_def)

end
