(* ===== verification/Ed_Main.thy ===== *)
theory Ed_Main
  imports Ed_Editor
begin

text \<open>
  \<open>main.rs\<close> of the text editor: it opens the editor on its first argument and runs the session. The editor is dropped when \<open>main\<close> ends, which
  restores the terminal. Printing an I/O error is a parameter.
\<close>

section \<open>The code\<close>

text \<open>The session at the end, or the message of an editor that did not start, with the console; \<open>None\<close> is a panic.\<close>

definition editor_main ::
  "(string \<Rightarrow> string) \<Rightarrow> (io_error \<Rightarrow> string) \<Rightarrow> string list \<Rightarrow> Console \<Rightarrow> Disk \<Rightarrow> ((Session, string) result \<times> Console) option" where
  "editor_main lower show_err args c d =
     (let filename = (if 1 < length args then Some (args ! 1) else None) in
      case editor_new filename c d of
        (Ok e, c1) \<Rightarrow> map_option (\<lambda>s. (Ok s, terminal_drop (con s))) (run_editor lower \<lparr>ed = e, con = c1, disk = d\<rparr>)
      | (Err e, c1) \<Rightarrow> Some (Err (''Could not start editor: '' @ show_err e @ [CHR 0x0A]), c1))"

section \<open>Properties\<close>

lemma run_editor_quits: "run_editor lower s = Some s' \<Longrightarrow> should_quit (ed s')"
proof (induction lower s rule: run_editor.induct)
  case (1 lower s)
  from "1.prems" show ?case unfolding run_editor.simps [of lower s]
    by (auto split: option.split_asm result.split_asm prod.split_asm if_split_asm intro: "1.IH")
qed

lemma editor_new_failure: "editor_new f c d = (Err e, c1) \<Longrightarrow> c1 = c"
  by (auto simp: editor_new_def terminal_new_def Let_def split: prod.splits result.splits option.splits if_splits)

text \<open>Property: When \<open>main\<close> ends without a panic, raw mode is off again if it was off before: either the editor did not start, or its session ended because the user quit.\<close>

theorem editor_main_restores:
  assumes "editor_main lower show_err args c d = Some (r, c')" and "\<not> raw_mode c"
  shows "\<not> raw_mode c' \<and> (case r of Ok s \<Rightarrow> should_quit (ed s) | Err msg \<Rightarrow> c' = c)"
proof (cases "editor_new (if 1 < length args then Some (args ! 1) else None) c d")
  case (Pair q c1)
  show ?thesis
  proof (cases q)
    case (Ok e)
    then show ?thesis using assms Pair run_editor_quits [of lower "\<lparr>ed = e, con = c1, disk = d\<rparr>"] by (auto simp: editor_main_def terminal_drop_def)
  next
    case (Err e)
    then have "c1 = c" using Pair editor_new_failure by blast
    then show ?thesis using assms Pair Err by (auto simp: editor_main_def)
  qed
qed

theorem editor_main_restores_witness:
  "\<exists>r c'. editor_main to_ascii_lowercase (\<lambda>e. []) [''hecto''] \<lparr>events = [], flushes = [], size_report = Err (Os_Error 25), raw_report = Ok (), raw_mode = False, screen = []\<rparr>
      \<lparr>files = \<lambda>_. None, can_read = \<lambda>_. True, can_create = \<lambda>_. True, space_left = None\<rparr> = Some (r, c') \<and> \<not> raw_mode c'"
proof -
  let ?c = "\<lparr>events = [], flushes = [], size_report = Err (Os_Error 25), raw_report = Ok (), raw_mode = False, screen = []\<rparr>"
  let ?d = "\<lparr>files = \<lambda>_. None, can_read = \<lambda>_. True, can_create = \<lambda>_. True, space_left = None\<rparr>"
  obtain r c' where m: "editor_main to_ascii_lowercase (\<lambda>e. []) [''hecto''] ?c ?d = Some (r, c')"
    by (auto simp: editor_main_def editor_new_def terminal_new_def)
  then show ?thesis using editor_main_restores [OF m] by simp
qed

end
