(* ===== verification/Br_Cursor.thy ===== *)
theory Br_Cursor
  imports Utf8_Chars
begin

text \<open>
  The cursor that both parsers of \<open>2026-08-26-rust-browser-engine/src\<close> are built on: a byte position in the source text.
  Slicing the text at the position panics inside a character (\<open>None\<close>), and so does asking for a character at the end. The theory
  shows what a cursor reads when it stands before well-formed text.
\<close>

section \<open>The code\<close>

record Parser =
  pos :: nat
  input :: string

definition parser_new :: "string \<Rightarrow> Parser" where
  "parser_new source = \<lparr>pos = 0, input = source\<rparr>"

text \<open>\<open>self.input[self.pos..]\<close>.\<close>

definition tail :: "Parser \<Rightarrow> string option" where
  "tail p = (if is_char_boundary (input p) (pos p) then Some (drop (pos p) (input p)) else None)"

definition next_char :: "Parser \<Rightarrow> rchar option" where
  "next_char p = Option.bind (tail p) (\<lambda>t. case chars t of [] \<Rightarrow> None | c # cs \<Rightarrow> Some c)"

definition looking_at :: "string \<Rightarrow> Parser \<Rightarrow> bool option" where
  "looking_at w p = map_option (starts_with w) (tail p)"

definition eof :: "Parser \<Rightarrow> bool" where
  "eof p \<longleftrightarrow> pos p \<ge> length (input p)"

text \<open>The position moves to the second character of the rest; when there is none it moves by one byte.\<close>

definition consume_char :: "Parser \<Rightarrow> (rchar \<times> Parser) option" where
  "consume_char p = Option.bind (tail p) (\<lambda>t.
     case chars t of
       [] \<Rightarrow> None
     | [c] \<Rightarrow> Some (c, p\<lparr>pos := pos p + 1\<rparr>)
     | c # d # cs \<Rightarrow> Some (c, p\<lparr>pos := pos p + length c\<rparr>))"

lemma chars_not_Nil: "c \<in> set (chars s) \<Longrightarrow> c \<noteq> []"
  by (induction s rule: chars.induct) (auto simp: Let_def)

lemma consume_char_moves: "consume_char p = Some (c, p') \<Longrightarrow> input p' = input p \<and> pos p < pos p'"
proof -
  assume a: "consume_char p = Some (c, p')"
  then obtain t where t: "tail p = Some t" by (cases "tail p") (auto simp: consume_char_def)
  then show ?thesis
    using a chars_not_Nil [of _ t] by (cases "chars t"; cases "tl (chars t)") (auto simp: consume_char_def)
qed

function consume_while :: "(rchar \<Rightarrow> bool) \<Rightarrow> Parser \<Rightarrow> (string \<times> Parser) option" where
  "consume_while test p =
     (if eof p then Some ([], p)
      else (case next_char p of
              None \<Rightarrow> None
            | Some c \<Rightarrow>
                if \<not> test c then Some ([], p)
                else (case consume_char p of
                        None \<Rightarrow> None
                      | Some (d, p1) \<Rightarrow>
                          (case consume_while test p1 of None \<Rightarrow> None | Some (r, p2) \<Rightarrow> Some (d @ r, p2)))))"
  by pat_completeness auto
termination
  by (relation "measure (\<lambda>(test, p). length (input p) - pos p)")
    (auto simp: eof_def dest!: consume_char_moves intro: diff_less_mono2)

declare consume_while.simps [simp del]

definition is_whitespace :: "rchar \<Rightarrow> bool" where
  "is_whitespace c \<longleftrightarrow> c \<in> set ws_seqs"

definition consume_whitespace :: "Parser \<Rightarrow> Parser option" where
  "consume_whitespace p = map_option snd (consume_while is_whitespace p)"

fun consume_chars :: "nat \<Rightarrow> Parser \<Rightarrow> Parser option" where
  "consume_chars 0 p = Some p"
| "consume_chars (Suc n) p = (case consume_char p of None \<Rightarrow> None | Some (c, p') \<Rightarrow> consume_chars n p')"

section \<open>Moving forward\<close>

text \<open>Every operation leaves the source text alone and never moves back.\<close>

definition forward :: "Parser \<Rightarrow> Parser \<Rightarrow> bool" where
  "forward p p' \<longleftrightarrow> input p' = input p \<and> pos p \<le> pos p'"

definition onward :: "Parser \<Rightarrow> Parser \<Rightarrow> bool" where
  "onward p p' \<longleftrightarrow> input p' = input p \<and> pos p < pos p'"

definition remaining :: "Parser \<Rightarrow> nat" where
  "remaining p = length (input p) - pos p"

named_theorems moves

lemma forward_refl [simp]: "forward p p"
  by (simp add: forward_def)

lemma forward_trans [trans]: "forward p q \<Longrightarrow> forward q r \<Longrightarrow> forward p r"
  by (simp add: forward_def)

lemma onward_trans [trans]: "onward p q \<Longrightarrow> forward q r \<Longrightarrow> onward p r" "forward p q \<Longrightarrow> onward q r \<Longrightarrow> onward p r"
  by (simp_all add: forward_def onward_def)

lemma onward_forward: "onward p q \<Longrightarrow> forward p q"
  by (simp add: forward_def onward_def)

lemma forward_remaining: "forward p q \<Longrightarrow> remaining q \<le> remaining p"
  by (auto simp: forward_def remaining_def)

lemma onward_remaining: "onward p q \<Longrightarrow> \<not> eof p \<Longrightarrow> remaining q < remaining p"
  by (auto simp: onward_def remaining_def eof_def)

lemma consume_char_onward [moves]: "consume_char p = Some (c, p') \<Longrightarrow> onward p p'"
  by (simp add: onward_def consume_char_moves)

lemma consume_char_eof: "eof p \<Longrightarrow> consume_char p = None"
  by (auto simp: consume_char_def eof_def tail_def is_char_boundary_def)

lemma consume_char_remaining: "consume_char p = Some (c, p') \<Longrightarrow> remaining p' < remaining p"
  using consume_char_eof [of p] onward_remaining [OF consume_char_onward, of p c p'] by (cases "eof p") auto

lemma consume_while_forward [moves]: "consume_while test p = Some (s, p') \<Longrightarrow> forward p p'"
proof (induction test p arbitrary: s rule: consume_while.induct)
  case (1 test p)
  show ?case
  proof (cases "eof p \<or> (\<exists>c. next_char p = Some c \<and> \<not> test c)")
    case True
    then show ?thesis using "1.prems" by (subst (asm) consume_while.simps) (auto split: if_splits)
  next
    case False
    then obtain c d p1 r where c: "next_char p = Some c" "test c" and d: "consume_char p = Some (d, p1)"
      and r: "consume_while test p1 = Some (r, p')"
      using "1.prems" by (subst (asm) consume_while.simps) (auto split: option.splits)
    have "forward p1 p'" using "1.IH" [of c "(d, p1)" d p1 r] False c d r by simp
    then show ?thesis using consume_char_onward [OF d] onward_trans(1) onward_forward by blast
  qed
qed

lemma consume_while_again: "consume_while test p = Some (s, p') \<Longrightarrow> consume_while test p' = Some ([], p')"
proof (induction test p arbitrary: s rule: consume_while.induct)
  case (1 test p)
  show ?case
  proof (cases "eof p \<or> (\<exists>c. next_char p = Some c \<and> \<not> test c)")
    case True
    then have "consume_while test p = Some ([], p)" by (subst consume_while.simps) auto
    then show ?thesis using "1.prems" by simp
  next
    case False
    then obtain c d p1 r where c: "next_char p = Some c" "test c" and d: "consume_char p = Some (d, p1)"
      and r: "consume_while test p1 = Some (r, p')"
      using "1.prems" by (subst (asm) consume_while.simps) (auto split: option.splits)
    then show ?thesis using "1.IH" [of c "(d, p1)" d p1 r] False by simp
  qed
qed

lemma consume_while_empty: "consume_while test p = Some (s, p') \<Longrightarrow> s = [] \<or> onward p p'"
proof (cases "eof p \<or> (\<exists>c. next_char p = Some c \<and> \<not> test c)")
  case True
  assume "consume_while test p = Some (s, p')"
  then show ?thesis using True by (subst (asm) consume_while.simps) (auto split: if_splits)
next
  case False
  assume "consume_while test p = Some (s, p')"
  then obtain d p1 r where "consume_char p = Some (d, p1)" "consume_while test p1 = Some (r, p')"
    using False by (subst (asm) consume_while.simps) (auto split: option.splits)
  then show ?thesis using consume_char_onward consume_while_forward onward_trans(1) by blast
qed

lemma consume_whitespace_again: "consume_whitespace p = Some p' \<Longrightarrow> consume_whitespace p' = Some p'"
  using consume_while_again by (auto simp: consume_whitespace_def)

lemma consume_whitespace_forward [moves]: "consume_whitespace p = Some p' \<Longrightarrow> forward p p'"
  using consume_while_forward by (auto simp: consume_whitespace_def)

lemma consume_chars_forward [moves]: "consume_chars n p = Some p' \<Longrightarrow> forward p p'"
proof (induction n arbitrary: p)
  case (Suc n)
  then obtain c p1 where "consume_char p = Some (c, p1)" "consume_chars n p1 = Some p'" by (auto split: option.splits)
  then show ?case using Suc.IH consume_char_onward onward_forward forward_trans by blast
qed simp

lemma consume_chars_onward: "consume_chars (Suc n) p = Some p' \<Longrightarrow> onward p p'"
  using onward_trans(1) consume_char_onward consume_chars_forward by (fastforce split: option.splits)

section \<open>Reading well-formed text\<close>

text \<open>The cursor stands between \<open>a\<close> and \<open>b\<close>.\<close>

definition between :: "string \<Rightarrow> string \<Rightarrow> Parser" where
  "between a b = \<lparr>pos = length a, input = a @ b\<rparr>"

lemma utf8_valid_hd: "utf8_valid (b # bs) \<Longrightarrow> \<not> is_cont b"
  by (auto simp: utf8_step_def utf8_lead_def is_cont_def split: if_splits option.splits prod.splits)

lemma between_simps [simp]: "pos (between a b) = length a" "input (between a b) = a @ b" "eof (between a b) \<longleftrightarrow> b = []"
  by (auto simp: between_def eof_def)

lemma tail_between: "utf8_valid b \<Longrightarrow> tail (between a b) = Some b"
  using utf8_valid_hd by (cases b) (auto simp: tail_def is_char_boundary_def)

lemma between_move: "(between a (b @ c))\<lparr>pos := length a + length b\<rparr> = between (a @ b) c"
  by (simp add: between_def)

lemma looking_at_between: "utf8_valid b \<Longrightarrow> looking_at w (between a b) = Some (starts_with w b)"
  by (simp add: looking_at_def tail_between)

lemma chars_Cons: "char_ok c \<Longrightarrow> chars (c @ b) = c # chars b"
  using chars_append [of "[c]" b] by simp

lemma next_char_between: "char_ok c \<Longrightarrow> utf8_valid b \<Longrightarrow> next_char (between a (c @ b)) = Some c"
proof -
  assume c: "char_ok c" and b: "utf8_valid b"
  have "utf8_valid (c @ b)" using chars_concat [of "[c]"] c b utf8_valid_append by simp
  then show ?thesis by (simp add: next_char_def tail_between chars_Cons [OF c])
qed

lemma chars_Nil: "chars b = [] \<longleftrightarrow> b = []"
  by (cases b) (simp_all add: Let_def)

lemma consume_char_between:
  assumes "char_ok c" and "utf8_valid b" and "b \<noteq> [] \<or> length c = 1"
  shows "consume_char (between a (c @ b)) = Some (c, between (a @ c) b)"
proof -
  have v: "utf8_valid (c @ b)" using chars_concat [of "[c]"] assms(1,2) utf8_valid_append by simp
  show ?thesis
  proof (cases "b = []")
    case True
    then show ?thesis using assms v between_move [of a c "[]"] chars_Cons [of c "[]"]
      by (simp add: consume_char_def tail_between)
  next
    case False
    then obtain d ds where "chars b = d # ds" using chars_Nil [of b] by (cases "chars b") auto
    then show ?thesis using v between_move [of a c b] by (simp add: consume_char_def tail_between chars_Cons [OF assms(1)])
  qed
qed

text \<open>Where a run of characters that pass the test ends.\<close>

definition stops :: "(rchar \<Rightarrow> bool) \<Rightarrow> rchar list \<Rightarrow> string \<Rightarrow> bool" where
  "stops test cs b \<longleftrightarrow> (if b = [] then cs = [] \<or> length (last cs) = 1 else \<not> test (hd (chars b)))"

lemma consume_while_between:
  assumes "\<forall>c \<in> set cs. char_ok c \<and> test c" and "utf8_valid b" and "stops test cs b"
  shows "consume_while test (between a (concat cs @ b)) = Some (concat cs, between (a @ concat cs) b)"
  using assms
proof (induction cs arbitrary: a)
  case Nil
  show ?case
  proof (cases "b = []")
    case True
    then show ?thesis by (subst consume_while.simps) simp
  next
    case False
    then obtain d ds where d: "chars b = d # ds" using chars_Nil [of b] by (cases "chars b") auto
    then have "next_char (between a b) = Some d" using Nil by (simp add: next_char_def tail_between)
    then show ?thesis using Nil False d by (subst consume_while.simps) (simp add: stops_def)
  qed
next
  case (Cons c cs)
  have ok: "\<forall>d \<in> set cs. char_ok d" using Cons.prems(1) by simp
  have v: "utf8_valid (concat cs @ b)" using chars_concat [OF ok] Cons.prems(2) utf8_valid_append by blast
  have ne: "concat cs @ b \<noteq> [] \<or> length c = 1"
  proof (cases "b = [] \<and> cs = []")
    case True
    then show ?thesis using Cons.prems(3) by (simp add: stops_def)
  next
    case False
    have "concat cs \<noteq> [] " if "cs \<noteq> []" using that ok by (cases cs) (auto simp: char_ok_def)
    then show ?thesis using False by auto
  qed
  have s: "stops test cs b" using Cons.prems(3) by (auto simp: stops_def split: if_splits)
  have 1: "next_char (between a (c @ concat cs @ b)) = Some c" using next_char_between [of c] Cons.prems(1) v by simp
  have 2: "consume_char (between a (c @ concat cs @ b)) = Some (c, between (a @ c) (concat cs @ b))"
    using consume_char_between [OF _ v ne] Cons.prems(1) by simp
  have 3: "consume_while test (between (a @ c) (concat cs @ b)) = Some (concat cs, between ((a @ c) @ concat cs) b)"
    using Cons.IH Cons.prems(1,2) s by simp
  have "c \<noteq> []" using Cons.prems(1) by (auto simp: char_ok_def)
  then show ?case using 1 2 3 Cons.prems(1) by (subst consume_while.simps) simp
qed

lemma consume_whitespace_none:
  "utf8_valid b \<Longrightarrow> b = [] \<or> \<not> is_whitespace (hd (chars b)) \<Longrightarrow> consume_whitespace (between a b) = Some (between a b)"
  using consume_while_between [of "[]" is_whitespace b a] by (cases "b = []") (auto simp: consume_whitespace_def stops_def)

lemma consume_whitespace_some:
  assumes "char_ok c" and "is_whitespace c" and "utf8_valid b" and "b \<noteq> []" and "\<not> is_whitespace (hd (chars b))"
  shows "consume_whitespace (between a (c @ b)) = Some (between (a @ c) b)"
  using consume_while_between [of "[c]" is_whitespace b a] assms by (simp add: consume_whitespace_def stops_def)

end
