(* ===== verification/Br_Html.thy ===== *)
theory Br_Html
  imports Br_Cursor
begin

text \<open>
  The document tree and the HTML parser of \<open>2026-08-26-rust-browser-engine\<close>: \<open>src/dom.rs\<close> and \<open>src/html_parser.rs\<close>.

  A run of the parser returns, panics, or goes on: the loops that read nodes and attributes take fuel, and \<open>Runs_On\<close> says that it
  was used up. The fuel that \<open>html_parse\<close> gives is computed from the length of the source, and the theory shows that more
  fuel never changes the outcome, so that \<open>Runs_On\<close> means that the program never returns.
\<close>

section \<open>The document tree\<close>

type_synonym AttrMap = "string \<rightharpoonup> string"

record ElementData =
  tag_name :: string
  attributes :: AttrMap

datatype NodeType = Text string | Element ElementData

datatype DomNode = DomNode (children: "DomNode list") (node_type: NodeType)

definition text_node :: "string \<Rightarrow> DomNode" where
  "text_node data = DomNode [] (Text data)"

definition elem_node :: "string \<Rightarrow> AttrMap \<Rightarrow> DomNode list \<Rightarrow> DomNode" where
  "elem_node name attrs ch = DomNode ch (Element \<lparr>tag_name = name, attributes = attrs\<rparr>)"

definition elem_id :: "ElementData \<Rightarrow> string option" where
  "elem_id e = attributes e ''id''"

definition classes :: "ElementData \<Rightarrow> string set" where
  "classes e = (case attributes e ''class'' of
     Some classlist \<Rightarrow> set (filter (\<lambda>s. s \<noteq> []) (split_on (CHR '' '') classlist))
   | None \<Rightarrow> {})"

fun pretty_print :: "DomNode \<Rightarrow> nat \<Rightarrow> string" where
  "pretty_print (DomNode ch (Text t)) indent =
     concat (replicate indent ''  '') @ [CHR 0x22] @ trim t @ [CHR 0x22, CHR 0x0A]"
| "pretty_print (DomNode ch (Element e)) indent =
     concat (replicate indent ''  '') @ ''<'' @ tag_name e @ ''>'' @ [CHR 0x0A] @
     concat (map (\<lambda>c. pretty_print c (indent + 1)) ch)"

definition is_void_element :: "string \<Rightarrow> bool" where
  "is_void_element tag \<longleftrightarrow> tag \<in> set [''area'', ''base'', ''br'', ''col'', ''embed'', ''hr'', ''img'', ''input'', ''link'',
     ''meta'', ''param'', ''source'', ''track'', ''wbr'']"

section \<open>The parser\<close>

datatype 'a run = Returns 'a | Panics | Runs_On

fun and_then :: "'a run \<Rightarrow> ('a \<Rightarrow> 'b run) \<Rightarrow> 'b run" where
  "and_then (Returns x) f = f x"
| "and_then Panics f = Panics"
| "and_then Runs_On f = Runs_On"

definition try_run :: "'a option \<Rightarrow> 'a run" where
  "try_run r = (case r of Some x \<Rightarrow> Returns x | None \<Rightarrow> Panics)"

definition is_ascii_alphanumeric :: "rchar \<Rightarrow> bool" where
  "is_ascii_alphanumeric c \<longleftrightarrow> (case c of
     [b] \<Rightarrow> (48 \<le> code_of b \<and> code_of b \<le> 57) \<or> (97 \<le> code_of b \<and> code_of b \<le> 122) \<or> (65 \<le> code_of b \<and> code_of b \<le> 90)
   | _ \<Rightarrow> False)"

definition parse_tag_name :: "Parser \<Rightarrow> (string \<times> Parser) option" where
  "parse_tag_name p = consume_while is_ascii_alphanumeric p"

function comment_loop :: "Parser \<Rightarrow> Parser option" where
  "comment_loop p =
     (if eof p then Some p
      else (case looking_at ''-->'' p of
              None \<Rightarrow> None
            | Some True \<Rightarrow> Some p
            | Some False \<Rightarrow> (case consume_char p of None \<Rightarrow> None | Some (c, p1) \<Rightarrow> comment_loop p1)))"
  by pat_completeness auto
termination
  by (relation "measure remaining") (auto dest: consume_char_remaining)

declare comment_loop.simps [simp del]

definition consume_comment :: "Parser \<Rightarrow> Parser option" where
  "consume_comment p =
     Option.bind (consume_chars 4 p) (\<lambda>p1. Option.bind (comment_loop p1) (\<lambda>p2.
     Option.bind (looking_at ''-->'' p2) (\<lambda>closed. if closed then consume_chars 3 p2 else Some p2)))"

definition parse_text :: "Parser \<Rightarrow> (DomNode \<times> Parser) option" where
  "parse_text p = map_option (map_prod text_node id) (consume_while (\<lambda>c. c \<noteq> ''<'') p)"

definition parse_attribute_value :: "Parser \<Rightarrow> (string \<times> Parser) option" where
  "parse_attribute_value p =
     Option.bind (looking_at [CHR 0x22] p) (\<lambda>dq. Option.bind (if dq then Some True else looking_at [CHR 0x27] p) (\<lambda>quoted.
     if quoted then
       Option.bind (consume_char p) (\<lambda>(open_quote, p1).
       Option.bind (consume_while (\<lambda>c. c \<noteq> open_quote) p1) (\<lambda>(value, p2).
       if eof p2 then Some (value, p2) else map_option (\<lambda>(c, p3). (value, p3)) (consume_char p2)))
     else consume_while (\<lambda>c. \<not> is_whitespace c \<and> c \<noteq> ''>'') p))"

definition parse_attribute :: "Parser \<Rightarrow> ((string \<times> string) \<times> Parser) option" where
  "parse_attribute p =
     Option.bind (consume_while (\<lambda>c. c \<noteq> ''='' \<and> c \<noteq> ''>'' \<and> c \<noteq> ''/'' \<and> \<not> is_whitespace c) p) (\<lambda>(name, p1).
     Option.bind (consume_whitespace p1) (\<lambda>p2.
     Option.bind (looking_at ''='' p2) (\<lambda>eq.
     if eq then
       Option.bind (consume_char p2) (\<lambda>(c, p3).
       Option.bind (consume_whitespace p3) (\<lambda>p4.
       map_option (\<lambda>(value, p5). ((name, value), p5)) (parse_attribute_value p4)))
     else Some ((name, []), p2))))"

text \<open>\<open>starts_with(">") || starts_with("/>") || eof()\<close>.\<close>

definition at_tag_end :: "Parser \<Rightarrow> bool option" where
  "at_tag_end p =
     Option.bind (looking_at ''>'' p) (\<lambda>b1. if b1 then Some True else
     Option.bind (looking_at ''/>'' p) (\<lambda>b2. if b2 then Some True else Some (eof p)))"

definition insert_attribute :: "string \<Rightarrow> string \<Rightarrow> AttrMap \<Rightarrow> AttrMap" where
  "insert_attribute name value attrs = (if name \<noteq> [] then attrs(name \<mapsto> value) else attrs)"

fun attributes_loop :: "nat \<Rightarrow> Parser \<Rightarrow> AttrMap \<Rightarrow> (AttrMap \<times> Parser) run" where
  "attributes_loop 0 p attrs = Runs_On"
| "attributes_loop (Suc n) p attrs =
     and_then (try_run (consume_whitespace p)) (\<lambda>p1.
     and_then (try_run (at_tag_end p1)) (\<lambda>stop.
     if stop then Returns (attrs, p1)
     else and_then (try_run (parse_attribute p1)) (\<lambda>((name, value), p2).
          attributes_loop n p2 (insert_attribute name value attrs))))"

definition parse_attributes :: "Parser \<Rightarrow> (AttrMap \<times> Parser) run" where
  "parse_attributes p = attributes_loop (remaining p + 1) p Map.empty"

text \<open>The tag up to its end: whether it was closed by \<open>/>\<close>, its name and its attributes.\<close>

definition parse_open_tag :: "Parser \<Rightarrow> ((string \<times> AttrMap \<times> bool) \<times> Parser) run" where
  "parse_open_tag p =
     and_then (try_run (consume_char p)) (\<lambda>(c, p1).
     if c \<noteq> ''<'' then Panics else
     and_then (try_run (parse_tag_name p1)) (\<lambda>(name, p2).
     and_then (parse_attributes p2) (\<lambda>(attrs, p3).
     and_then (try_run (consume_whitespace p3)) (\<lambda>p4.
     and_then (try_run (looking_at ''/>'' p4)) (\<lambda>self_closing.
     if self_closing then and_then (try_run (consume_chars 2 p4)) (\<lambda>p5. Returns ((name, attrs, True), p5))
     else and_then (try_run (consume_char p4)) (\<lambda>(d, p5).
          if d \<noteq> ''>'' then Panics else Returns ((name, attrs, is_void_element name), p5)))))))"

text \<open>The closing tag is consumed if its name matches; otherwise the cursor goes back.\<close>

definition parse_close_tag :: "string \<Rightarrow> Parser \<Rightarrow> Parser option" where
  "parse_close_tag name p =
     Option.bind (looking_at ''</'' p) (\<lambda>closing.
     if \<not> closing then Some p else
     Option.bind (consume_chars 2 p) (\<lambda>p1.
     Option.bind (parse_tag_name p1) (\<lambda>(close_name, p2).
     Option.bind (consume_whitespace p2) (\<lambda>p3.
     if close_name = name then
       Option.bind (looking_at ''>'' p3) (\<lambda>gt. if gt then map_option snd (consume_char p3) else Some p3)
     else Some (p3\<lparr>pos := pos p\<rparr>)))))"

fun parse_nodes :: "nat \<Rightarrow> Parser \<Rightarrow> (DomNode list \<times> Parser) run"
  and parse_node :: "nat \<Rightarrow> Parser \<Rightarrow> (DomNode \<times> Parser) run"
  and parse_element :: "nat \<Rightarrow> Parser \<Rightarrow> (DomNode \<times> Parser) run" where
  "parse_nodes 0 p = Runs_On"
| "parse_nodes (Suc n) p =
     and_then (try_run (consume_whitespace p)) (\<lambda>p1.
     and_then (if eof p1 then Returns True else try_run (looking_at ''</'' p1)) (\<lambda>stop.
     if stop then Returns ([], p1)
     else and_then (try_run (looking_at ''<!--'' p1)) (\<lambda>comment.
     if comment then and_then (try_run (consume_comment p1)) (\<lambda>p2. parse_nodes n p2)
     else and_then (parse_node n p1) (\<lambda>(x, p2).
          and_then (parse_nodes n p2) (\<lambda>(xs, p3). Returns (x # xs, p3))))))"
| "parse_node n p =
     and_then (try_run (looking_at ''<'' p)) (\<lambda>tag. if tag then parse_element n p else try_run (parse_text p))"
| "parse_element 0 p = Runs_On"
| "parse_element (Suc n) p =
     and_then (parse_open_tag p) (\<lambda>((name, attrs, leaf), p1).
     if leaf then Returns (elem_node name attrs [], p1)
     else and_then (parse_nodes n p1) (\<lambda>(ch, p2).
          and_then (try_run (parse_close_tag name p2)) (\<lambda>p3. Returns (elem_node name attrs ch, p3))))"

text \<open>The fuel: each character of the source is worth an element and a sequence of nodes.\<close>

definition html_fuel :: "Parser \<Rightarrow> nat" where
  "html_fuel p = 2 * remaining p + 2"

definition single_root :: "DomNode list \<Rightarrow> DomNode" where
  "single_root nodes = (if length nodes = 1 then nodes ! 0 else elem_node ''html'' Map.empty nodes)"

definition html_parse :: "string \<Rightarrow> DomNode run" where
  "html_parse source =
     and_then (parse_nodes (html_fuel (parser_new source)) (parser_new source)) (\<lambda>(nodes, p). Returns (single_root nodes))"

section \<open>Moving forward\<close>

lemma and_then_Returns [simp]: "and_then m f = Returns y \<longleftrightarrow> (\<exists>x. m = Returns x \<and> f x = Returns y)"
  by (cases m) simp_all

lemma try_run_Returns [simp]: "try_run r = Returns x \<longleftrightarrow> r = Some x" "try_run r = Runs_On \<longleftrightarrow> False"
  by (simp_all add: try_run_def split: option.splits)

lemma and_then_cong: "(\<And>x. m = Returns x \<Longrightarrow> f x = g x) \<Longrightarrow> and_then m f = and_then m g"
  by (cases m) simp_all

lemma comment_loop_forward [moves]: "comment_loop p = Some p' \<Longrightarrow> forward p p'"
proof (induction p rule: comment_loop.induct)
  case (1 p)
  show ?case
  proof (cases "eof p \<or> looking_at ''-->'' p = Some True")
    case True
    then show ?thesis using "1.prems" by (subst (asm) comment_loop.simps) (auto split: if_splits)
  next
    case False
    then obtain c p1 where l: "looking_at ''-->'' p = Some False" and c: "consume_char p = Some (c, p1)" and r: "comment_loop p1 = Some p'"
      using "1.prems" by (subst (asm) comment_loop.simps) (auto split: option.splits bool.splits)
    have "forward p1 p'" using "1.IH" [of False "(c, p1)" c p1] False l c r by simp
    then show ?thesis using consume_char_onward [OF c] onward_trans(1) onward_forward by blast
  qed
qed

lemma consume_comment_onward [moves]: "consume_comment p = Some p' \<Longrightarrow> onward p p'"
proof -
  assume "consume_comment p = Some p'"
  then obtain p1 p2 where c: "consume_chars (Suc 3) p = Some p1" "comment_loop p1 = Some p2" "p' = p2 \<or> consume_chars 3 p2 = Some p'"
    by (auto simp: consume_comment_def bind_eq_Some_conv numeral_eq_Suc split: if_splits)
  have "forward p2 p'" using c(3) consume_chars_forward by auto
  then show ?thesis using consume_chars_onward [OF c(1)] comment_loop_forward [OF c(2)] onward_trans(1) forward_trans by blast
qed

lemma parse_attribute_value_forward [moves]: "parse_attribute_value p = Some (v, p') \<Longrightarrow> forward p p'"
proof -
  assume "parse_attribute_value p = Some (v, p')"
  then consider q p1 p2 where "consume_char p = Some (q, p1)" "consume_while (\<lambda>c. c \<noteq> q) p1 = Some (v, p2)" "p' = p2 \<or> (\<exists>c. consume_char p2 = Some (c, p'))"
    | "consume_while (\<lambda>c. \<not> is_whitespace c \<and> c \<noteq> ''>'') p = Some (v, p')"
    by (auto simp: parse_attribute_value_def bind_eq_Some_conv split: if_splits)
  then show ?thesis
  proof cases
    case (1 q p1 p2)
    have "forward p2 p'" using 1(3) consume_char_onward onward_forward by auto
    then show ?thesis using consume_char_onward [OF 1(1)] consume_while_forward [OF 1(2)] onward_forward forward_trans by blast
  qed (rule consume_while_forward)
qed

lemma parse_attributeE:
  assumes "parse_attribute p = Some ((name, value), p')"
  obtains p1 p2 where "consume_while (\<lambda>c. c \<noteq> ''='' \<and> c \<noteq> ''>'' \<and> c \<noteq> ''/'' \<and> \<not> is_whitespace c) p = Some (name, p1)"
    and "consume_whitespace p1 = Some p2" and "value = [] \<and> p' = p2 \<or> onward p2 p'"
proof -
  obtain p1 p2 where 1: "consume_while (\<lambda>c. c \<noteq> ''='' \<and> c \<noteq> ''>'' \<and> c \<noteq> ''/'' \<and> \<not> is_whitespace c) p = Some (name, p1)"
    and 2: "consume_whitespace p1 = Some p2"
    and 3: "value = [] \<and> p' = p2 \<or> (\<exists>c p3 p4. consume_char p2 = Some (c, p3) \<and> consume_whitespace p3 = Some p4 \<and> parse_attribute_value p4 = Some (value, p'))"
    using assms by (auto simp: parse_attribute_def bind_eq_Some_conv split: if_splits)
  have "value = [] \<and> p' = p2 \<or> onward p2 p'"
    using 3 consume_char_onward consume_whitespace_forward parse_attribute_value_forward onward_trans(1) forward_trans by blast
  with 1 2 show ?thesis by (rule that)
qed

lemma parse_attribute_forward [moves]: "parse_attribute p = Some (nv, p') \<Longrightarrow> forward p p'"
proof -
  assume "parse_attribute p = Some (nv, p')"
  then have "parse_attribute p = Some ((fst nv, snd nv), p')" by simp
  then obtain p1 p2 where 1: "consume_while (\<lambda>c. c \<noteq> ''='' \<and> c \<noteq> ''>'' \<and> c \<noteq> ''/'' \<and> \<not> is_whitespace c) p = Some (fst nv, p1)"
    and 2: "consume_whitespace p1 = Some p2" and 3: "snd nv = [] \<and> p' = p2 \<or> onward p2 p'"
    by (rule parse_attributeE)
  have "forward p2 p'" using 3 onward_forward by auto
  then show ?thesis using consume_while_forward [OF 1] consume_whitespace_forward [OF 2] forward_trans by blast
qed

lemma parse_attribute_stuck:
  assumes "parse_attribute p = Some ((name, value), p')" and "\<not> onward p p'"
  shows "name = [] \<and> p' = p"
proof -
  obtain p1 p2 where 1: "consume_while (\<lambda>c. c \<noteq> ''='' \<and> c \<noteq> ''>'' \<and> c \<noteq> ''/'' \<and> \<not> is_whitespace c) p = Some (name, p1)"
    and 2: "consume_whitespace p1 = Some p2" and 3: "value = [] \<and> p' = p2 \<or> onward p2 p'"
    using assms(1) by (rule parse_attributeE)
  have 12: "forward p p1" "forward p1 p2" using 1 2 consume_while_forward consume_whitespace_forward by auto
  then have "p' = p2" using 3 assms(2) onward_trans(2) forward_trans by blast
  moreover have "name = []" using consume_while_empty [OF 1] assms(2) 12 onward_trans(1) calculation by blast
  moreover have "p2 = p" using assms(2) 12 calculation by (auto simp: forward_def onward_def intro: Parser.equality)
  ultimately show ?thesis by simp
qed

text \<open>An iteration of the attribute loop that makes no progress is repeated for ever.\<close>

lemma attributes_loop_stuck:
  assumes "consume_whitespace p = Some p" and "at_tag_end p = Some False" and "parse_attribute p = Some (([], v), p)"
  shows "attributes_loop n p attrs = Runs_On"
  by (induction n) (simp_all add: assms try_run_def insert_attribute_def)

lemma attributes_loop_fuel:
  "remaining p < n \<Longrightarrow> attributes_loop n p attrs = attributes_loop (Suc n) p attrs"
proof (induction n arbitrary: p attrs)
  case (Suc n)
  have "attributes_loop n p2 (insert_attribute name value attrs) = attributes_loop (Suc n) p2 (insert_attribute name value attrs)"
    if w: "consume_whitespace p = Some p1" and e: "at_tag_end p1 = Some False" and a: "parse_attribute p1 = Some ((name, value), p2)"
    for p1 name p2 "value"
  proof (cases "onward p1 p2")
    case True
    have "\<not> eof p1" using e by (auto simp: at_tag_end_def bind_eq_Some_conv split: if_splits)
    then have "remaining p2 < remaining p" using onward_remaining [OF True] forward_remaining consume_whitespace_forward [OF w] by (meson order_less_le_trans)
    then show ?thesis using Suc by simp
  next
    case False
    then have s: "name = []" "p2 = p1" using parse_attribute_stuck [OF a] by auto
    then show ?thesis using a attributes_loop_stuck [OF consume_whitespace_again [OF w] e] by metis
  qed
  note step = this
  show ?case unfolding attributes_loop.simps(2) [of n] attributes_loop.simps(2) [of "Suc n"]
  proof (intro and_then_cong if_cong refl, goal_cases)
    case (1 p1 stop r)
    then show ?case using step by (cases r; cases "fst r") simp
  qed
qed simp

lemma attributes_loop_forward: "attributes_loop n p attrs = Returns (a, p') \<Longrightarrow> forward p p'"
proof (induction n arbitrary: p attrs)
  case (Suc n)
  then obtain p1 stop where w: "consume_whitespace p = Some p1" and e: "at_tag_end p1 = Some stop"
    and r: "(if stop then Returns (attrs, p1) else and_then (try_run (parse_attribute p1)) (\<lambda>((name, value), p2).
          attributes_loop n p2 (insert_attribute name value attrs))) = Returns (a, p')" by auto
  show ?case
  proof (cases stop)
    case True
    then show ?thesis using r w consume_whitespace_forward by simp
  next
    case False
    then obtain name v p2 where "parse_attribute p1 = Some ((name, v), p2)" "attributes_loop n p2 (insert_attribute name v attrs) = Returns (a, p')"
      using r by auto
    then show ?thesis using Suc.IH w consume_whitespace_forward parse_attribute_forward forward_trans by blast
  qed
qed simp

lemma parse_open_tag_onward: "parse_open_tag p = Returns (t, p') \<Longrightarrow> onward p p'"
proof -
  assume "parse_open_tag p = Returns (t, p')"
  then obtain c p1 name p2 attrs p3 p4 where 1: "consume_char p = Some (c, p1)" and 2: "parse_tag_name p1 = Some (name, p2)"
    and 3: "parse_attributes p2 = Returns (attrs, p3)" and 4: "consume_whitespace p3 = Some p4"
    and 5: "consume_chars 2 p4 = Some p' \<or> (\<exists>d. consume_char p4 = Some (d, p'))"
    by (auto simp: parse_open_tag_def split: if_splits)
  have "forward p4 p'" using 5 consume_chars_forward consume_char_onward onward_forward by blast
  moreover have "forward p1 p2" using 2 consume_while_forward by (auto simp: parse_tag_name_def)
  moreover have "forward p2 p3" using 3 attributes_loop_forward unfolding parse_attributes_def by blast
  ultimately show ?thesis using consume_char_onward [OF 1] consume_whitespace_forward [OF 4] onward_trans(1) forward_trans by blast
qed

lemma parse_close_tag_forward [moves]: "parse_close_tag name p = Some p' \<Longrightarrow> forward p p'"
proof -
  assume "parse_close_tag name p = Some p'"
  then consider "p' = p" | p1 cn p2 p3 where "consume_chars 2 p = Some p1" and "parse_tag_name p1 = Some (cn, p2)" and "consume_whitespace p2 = Some p3"
      and "p' = p3 \<or> (\<exists>c. consume_char p3 = Some (c, p')) \<or> p' = p3\<lparr>pos := pos p\<rparr>"
    by (auto simp: parse_close_tag_def bind_eq_Some_conv split: if_splits)
  then show ?thesis
  proof cases
    case (2 p1 cn p2 p3)
    have "forward p1 p2" using 2(2) consume_while_forward by (simp add: parse_tag_name_def)
    then have "forward p p3" using consume_chars_forward [OF 2(1)] consume_whitespace_forward [OF 2(3)] forward_trans by blast
    moreover have "forward p3 p' \<or> p' = p3\<lparr>pos := pos p\<rparr>" using 2(4) consume_char_onward [of p3 _ p'] onward_forward [of p3 p'] by auto
    moreover have "forward p (p3\<lparr>pos := pos p\<rparr>)" using calculation(1) by (simp add: forward_def)
    ultimately show ?thesis using forward_trans by blast
  qed simp
qed

lemma parse_text_forward: "parse_text p = Some (x, p') \<Longrightarrow> forward p p'"
  using consume_while_forward by (auto simp: parse_text_def)

lemma parse_text_onward:
  assumes "parse_text p = Some (x, p')" and "looking_at ''<'' p = Some False" and "\<not> eof p"
  shows "onward p p'"
proof -
  obtain s where w: "consume_while (\<lambda>c. c \<noteq> ''<'') p = Some (s, p')" using assms(1) by (auto simp: parse_text_def)
  obtain c where c: "next_char p = Some c" using w assms(3) by (subst (asm) consume_while.simps) (auto split: option.splits)
  have "c \<noteq> ''<''"
  proof
    assume lt: "c = ''<''"
    obtain t cs where t: "tail p = Some t" "chars t = c # cs"
      using c by (cases "tail p"; cases "chars (the (tail p))") (auto simp: next_char_def)
    then have "t = ''<'' @ concat cs" using concat_chars [of t] lt by simp
    then show False using assms(2) t(1) by (simp add: looking_at_def starts_with_def)
  qed
  then obtain d p1 r where "consume_char p = Some (d, p1)" "consume_while (\<lambda>c. c \<noteq> ''<'') p1 = Some (r, p')"
    using w c assms(3) by (subst (asm) consume_while.simps) (auto split: option.splits)
  then show ?thesis using consume_char_onward [of p d p1] consume_while_forward [of _ p1 r p'] onward_trans(1) by blast
qed

text \<open>What a sequence of nodes and an element are made of.\<close>

lemma parse_nodesE:
  assumes "parse_nodes (Suc n) p = Returns (xs, p')"
  obtains "consume_whitespace p = Some p'" and "xs = []"
  | p1 p2 where "consume_whitespace p = Some p1" and "\<not> eof p1" and "consume_comment p1 = Some p2" and "parse_nodes n p2 = Returns (xs, p')"
  | p1 x p2 ys where "consume_whitespace p = Some p1" and "\<not> eof p1" and "parse_node n p1 = Returns (x, p2)" and "parse_nodes n p2 = Returns (ys, p')"
      and "xs = x # ys"
  using assms by (auto simp del: parse_node.simps split: if_splits)

lemma parse_elementE:
  assumes "parse_element (Suc n) p = Returns (x, p')"
  obtains name attrs where "parse_open_tag p = Returns ((name, attrs, True), p')" and "x = elem_node name attrs []"
  | name attrs p1 ch p2 where "parse_open_tag p = Returns ((name, attrs, False), p1)" and "parse_nodes n p1 = Returns (ch, p2)"
      and "parse_close_tag name p2 = Some p'" and "x = elem_node name attrs ch"
  using assms by (auto split: if_splits)

declare parse_nodes.simps(2) [simp del]
declare parse_element.simps(2) [simp del]

lemma nodes_forward:
  "(\<forall>p xs p'. parse_nodes n p = Returns (xs, p') \<longrightarrow> forward p p') \<and>
   (\<forall>p x p'. parse_element n p = Returns (x, p') \<longrightarrow> onward p p')"
proof (induction n)
  case (Suc n)
  have node: "forward p p'" if "parse_node n p = Returns (x, p')" for p x p'
    using that Suc.IH parse_text_forward onward_forward by (auto split: if_splits)
  have "forward p p'" if "parse_nodes (Suc n) p = Returns (xs, p')" for p xs p'
    using that
  proof (cases rule: parse_nodesE)
    case (2 p1 p2)
    then have "forward p2 p'" using Suc.IH by blast
    then show ?thesis using 2(1,3) consume_whitespace_forward consume_comment_onward onward_forward forward_trans by blast
  next
    case (3 p1 x p2 ys)
    then have "forward p2 p'" using Suc.IH by blast
    then show ?thesis using 3(1) node [OF 3(3)] consume_whitespace_forward forward_trans by blast
  qed (auto intro: consume_whitespace_forward)
  moreover have "onward p p'" if "parse_element (Suc n) p = Returns (x, p')" for p x p'
    using that
  proof (cases rule: parse_elementE)
    case (2 name attrs p1 ch p2)
    then have "forward p1 p2" using Suc.IH by blast
    then show ?thesis using parse_open_tag_onward [OF 2(1)] parse_close_tag_forward [OF 2(3)] onward_trans(1) by blast
  qed (auto intro: parse_open_tag_onward)
  ultimately show ?case by blast
qed simp

lemma parse_node_onward: "parse_node n p = Returns (x, p') \<Longrightarrow> \<not> eof p \<Longrightarrow> onward p p'"
  using nodes_forward [of n] parse_text_onward by (auto split: if_splits)

text \<open>With the fuel that the remaining length allows, more fuel changes nothing.\<close>

lemma nodes_fuel:
  "(\<forall>p. 2 * remaining p + 2 \<le> n \<longrightarrow> parse_nodes n p = parse_nodes (Suc n) p) \<and>
   (\<forall>p. 2 * remaining p + 1 \<le> n \<longrightarrow> parse_element n p = parse_element (Suc n) p)"
proof (induction n)
  case (Suc n)
  have "parse_nodes (Suc n) p = parse_nodes (Suc (Suc n)) p" if f: "2 * remaining p + 2 \<le> Suc n" for p
  proof -
    have r: "parse_nodes n q = parse_nodes (Suc n) q" if "onward p1 q" "\<not> eof p1" "consume_whitespace p = Some p1" for p1 q
      using Suc.IH f onward_remaining [OF that(1,2)] forward_remaining [OF consume_whitespace_forward [OF that(3)]] by simp
    have e: "parse_node n p1 = parse_node (Suc n) p1" if "consume_whitespace p = Some p1" for p1
    proof -
      have "2 * remaining p1 + 1 \<le> n" using f forward_remaining [OF consume_whitespace_forward [OF that]] by simp
      then have "parse_element n p1 = parse_element (Suc n) p1" using Suc.IH by blast
      then show ?thesis by (simp cong: if_cong)
    qed
    show ?thesis unfolding parse_nodes.simps(2) [of "Suc n"] parse_nodes.simps(2) [of n p]
    proof (intro and_then_cong if_cong refl, goal_cases)
      case (1 p1 stop cm p2)
      then show ?case using r [of p1 p2] consume_comment_onward [of p1 p2] by (auto split: if_splits)
    next
      case (2 p1 stop cm)
      then have w: "consume_whitespace p = Some p1" and ne: "\<not> eof p1" by (auto split: if_splits)
      show ?case unfolding e [OF w]
      proof (rule and_then_cong)
        fix xp assume "parse_node (Suc n) p1 = Returns xp"
        then have "onward p1 (snd xp)" using parse_node_onward [of "Suc n" p1 "fst xp" "snd xp"] ne by simp
        then show "(case xp of (x, p2) \<Rightarrow> and_then (parse_nodes n p2) (\<lambda>(xs, p3). Returns (x # xs, p3))) =
            (case xp of (x, p2) \<Rightarrow> and_then (parse_nodes (Suc n) p2) (\<lambda>(xs, p3). Returns (x # xs, p3)))"
          using r [of p1 "snd xp"] w ne by (simp add: case_prod_unfold)
      qed
    qed
  qed
  moreover have "parse_element (Suc n) p = parse_element (Suc (Suc n)) p" if f: "2 * remaining p + 1 \<le> Suc n" for p
  proof -
    have "parse_nodes n q = parse_nodes (Suc n) q" if "onward p q" "\<not> eof p" for q
      using Suc.IH f onward_remaining [OF that] by simp
    moreover have "\<not> eof p" if "parse_open_tag p = Returns t" for t
      using that consume_char_eof [of p] by (auto simp: parse_open_tag_def)
    ultimately show ?thesis unfolding parse_element.simps(2) [of "Suc n"] parse_element.simps(2) [of n p]
      using parse_open_tag_onward by (intro and_then_cong) (auto intro!: and_then_cong split: if_splits)
  qed
  ultimately show ?case by blast
qed simp

section \<open>Written pages\<close>

text \<open>A page as an author writes it: texts, elements, elements without content (void, or closed by \<open>/>\<close>), comments and space between them; attribute
  values are in quotes, bare or missing.\<close>

datatype quoting = Double_Quoted | Single_Quoted | Bare | No_Value

type_synonym written_attr = "string \<times> quoting \<times> string"

datatype written =
    W_Text string
  | W_Elem string "written_attr list" "written list"
  | W_Leaf string "written_attr list" bool
  | W_Comment string
  | W_Space string

definition write_value :: "quoting \<Rightarrow> string \<Rightarrow> string" where
  "write_value q v = (case q of
     Double_Quoted \<Rightarrow> ''='' @ [CHR 0x22] @ v @ [CHR 0x22]
   | Single_Quoted \<Rightarrow> ''='' @ [CHR 0x27] @ v @ [CHR 0x27]
   | Bare \<Rightarrow> ''='' @ v
   | No_Value \<Rightarrow> [])"

definition write_attrs :: "written_attr list \<Rightarrow> string" where
  "write_attrs as = concat (map (\<lambda>(n, q, v). '' '' @ n @ write_value q v) as)"

fun write_node :: "written \<Rightarrow> string" where
  "write_node (W_Text s) = s"
| "write_node (W_Elem t as ws) = ''<'' @ t @ write_attrs as @ ''>'' @ concat (map write_node ws) @ ''</'' @ t @ ''>''"
| "write_node (W_Leaf t as closed) = ''<'' @ t @ write_attrs as @ (if closed then '' />'' else ''>'')"
| "write_node (W_Comment s) = ''<!--'' @ s @ ''-->''"
| "write_node (W_Space s) = s"

abbreviation write_nodes :: "written list \<Rightarrow> string" where
  "write_nodes ws \<equiv> concat (map write_node ws)"

text \<open>What it means: later attributes of the same name win.\<close>

definition put_attr :: "AttrMap \<Rightarrow> written_attr \<Rightarrow> AttrMap" where
  "put_attr m a = (case a of (n, q, v) \<Rightarrow> m(n \<mapsto> v))"

definition attr_map :: "written_attr list \<Rightarrow> AttrMap" where
  "attr_map as = foldl put_attr Map.empty as"

fun meaning :: "written \<Rightarrow> DomNode list" where
  "meaning (W_Text s) = [text_node s]"
| "meaning (W_Elem t as ws) = [elem_node t (attr_map as) (concat (map meaning ws))]"
| "meaning (W_Leaf t as closed) = [elem_node t (attr_map as) []]"
| "meaning (W_Comment s) = []"
| "meaning (W_Space s) = []"

text \<open>When it is well formed.\<close>

definition name_char :: "rchar \<Rightarrow> bool" where
  "name_char c \<longleftrightarrow> c \<noteq> ''='' \<and> c \<noteq> ''>'' \<and> c \<noteq> ''/'' \<and> \<not> is_whitespace c"

definition attr_ok :: "written_attr \<Rightarrow> bool" where
  "attr_ok a = (case a of (n, q, v) \<Rightarrow> n \<noteq> [] \<and> utf8_valid n \<and> list_all name_char (chars n) \<and> utf8_valid v \<and>
     (case q of
        Double_Quoted \<Rightarrow> CHR 0x22 \<notin> set v
      | Single_Quoted \<Rightarrow> CHR 0x27 \<notin> set v
      | Bare \<Rightarrow> v \<noteq> [] \<and> hd v \<notin> {CHR 0x22, CHR 0x27} \<and> list_all (\<lambda>c. \<not> is_whitespace c \<and> c \<noteq> ''>'') (chars v)
      | No_Value \<Rightarrow> v = []))"

definition tag_ok :: "string \<Rightarrow> bool" where
  "tag_ok t \<longleftrightarrow> list_all (\<lambda>b. is_ascii_alphanumeric [b]) t"

definition comment_ok :: "string \<Rightarrow> bool" where
  "comment_ok s \<longleftrightarrow> utf8_valid s \<and> list_all (\<lambda>i. \<not> starts_with ''-->'' (drop i (s @ ''-->''))) [0..<length s]"

definition space_ok :: "string \<Rightarrow> bool" where
  "space_ok s \<longleftrightarrow> set s \<subseteq> {CHR 0x20, CHR 0x0A, CHR 0x0D, CHR 0x09}"

text \<open>Text ends at a tag or a comment; where it ends the page its last character has one byte.\<close>

fun after_text :: "bool \<Rightarrow> string \<Rightarrow> written list \<Rightarrow> bool" where
  "after_text inner s [] \<longleftrightarrow> inner \<or> length (last (chars s)) = 1"
| "after_text inner s (W_Text t # ws) \<longleftrightarrow> False"
| "after_text inner s (W_Space t # ws) \<longleftrightarrow> False"
| "after_text inner s (w # ws) \<longleftrightarrow> True"

fun node_ok :: "written \<Rightarrow> bool" and nodes_ok :: "bool \<Rightarrow> written list \<Rightarrow> bool" where
  "node_ok (W_Text s) \<longleftrightarrow> s \<noteq> [] \<and> utf8_valid s \<and> CHR ''<'' \<notin> set s \<and> \<not> is_whitespace (hd (chars s))"
| "node_ok (W_Elem t as ws) \<longleftrightarrow> tag_ok t \<and> list_all attr_ok as \<and> \<not> is_void_element t \<and> nodes_ok True ws"
| "node_ok (W_Leaf t as closed) \<longleftrightarrow> tag_ok t \<and> list_all attr_ok as \<and> (closed \<or> is_void_element t)"
| "node_ok (W_Comment s) \<longleftrightarrow> comment_ok s"
| "node_ok (W_Space s) \<longleftrightarrow> space_ok s"
| "nodes_ok inner [] \<longleftrightarrow> True"
| "nodes_ok inner (w # ws) \<longleftrightarrow> node_ok w \<and> nodes_ok inner ws \<and> (case w of W_Text s \<Rightarrow> after_text inner s ws | _ \<Rightarrow> True)"

section \<open>Reading a written page\<close>

lemma chars_ascii: "code_of x < 0x80 \<Longrightarrow> chars (x # b) = [x] # chars b"
  using chars_Cons [of "[x]" b] by simp

lemma utf8_valid_ascii_Cons: "code_of x < 0x80 \<Longrightarrow> utf8_valid (x # b) \<longleftrightarrow> utf8_valid b"
  by simp

lemma consume_ascii: "code_of x < 0x80 \<Longrightarrow> utf8_valid b \<Longrightarrow> consume_char (between a (x # b)) = Some ([x], between (a @ [x]) b)"
  using consume_char_between [of "[x]" b a] by simp

lemma consume_word:
  "list_all (\<lambda>x. code_of x < 0x80) w \<Longrightarrow> utf8_valid b \<Longrightarrow> consume_chars (length w) (between a (w @ b)) = Some (between (a @ w) b)"
proof (induction w arbitrary: a)
  case (Cons x w)
  have "utf8_valid (w @ b)" using Cons.prems utf8_valid_ascii [of w] utf8_valid_append by (simp add: list_all_iff)
  then show ?case using Cons consume_ascii [of x "w @ b" a] by simp
qed simp

lemma is_whitespace_ascii: "code_of x < 0x80 \<Longrightarrow> is_whitespace [x] \<longleftrightarrow> x \<in> {CHR 0x20, CHR 0x0A, CHR 0x0D, CHR 0x09, CHR 0x0B, CHR 0x0C}"
  by (auto simp: is_whitespace_def ws_seqs_def)

lemma starts_with_Cons [simp]: "starts_with (x # w) (y # s) \<longleftrightarrow> x = y \<and> starts_with w s" "starts_with [] s" "\<not> starts_with (x # w) []"
  by (auto simp: starts_with_def)

lemma consume_while_string:
  assumes "utf8_valid s" and "list_all test (chars s)" and "utf8_valid b" and "stops test (chars s) b"
  shows "consume_while test (between a (s @ b)) = Some (s, between (a @ s) b)"
  using consume_while_between [of "chars s" test b a] assms chars_ok [OF assms(1)] by (simp add: list_all_iff)

lemma stops_ascii: "code_of x < 0x80 \<Longrightarrow> \<not> test [x] \<Longrightarrow> stops test cs (x # b)"
  by (simp add: stops_def chars_ascii)

lemma ascii_in_chars: "utf8_valid s \<Longrightarrow> code_of x < 0x80 \<Longrightarrow> [x] \<in> set (chars s) \<longleftrightarrow> x \<in> set s"
proof
  assume v: "utf8_valid s" and x: "code_of x < 0x80"
  { assume "[x] \<in> set (chars s)"
    then show "x \<in> set s" using concat_chars [of s] by (metis UN_I list.set_intros(1) set_concat) }
  assume "x \<in> set s"
  then obtain c where c: "c \<in> set (chars s)" "x \<in> set c" using concat_chars [of s] by (metis UN_E set_concat)
  then have "char_ok c" using chars_ok [OF v] by blast
  then obtain h t where ht: "c = h # t" "\<forall>d \<in> set t. is_cont d" and hc: "\<not> is_cont h" by (rule char_ok_bytes)
  then have "x = h" using c x by (auto simp: is_cont_def)
  moreover have "t = []"
    using \<open>char_ok c\<close> ht x calculation by (simp add: char_ok_def)
  ultimately show "[x] \<in> set (chars s)" using c ht by simp
qed

lemma tail_head_ws: "consume_whitespace p = consume_whitespace q \<Longrightarrow> attributes_loop n p m = attributes_loop n q m"
  by (cases n) simp_all

lemma parse_nodes_ws: "consume_whitespace p = consume_whitespace q \<Longrightarrow> parse_nodes n p = parse_nodes n q"
  by (cases n) (simp_all add: parse_nodes.simps(2))

lemma code_ascii [simp]: "code_of (CHR 0x3E) = (62::nat)" "code_of (CHR 0x2F) = (47::nat)" "code_of (CHR 0x20) = (32::nat)" "code_of (CHR 0x3D) = (61::nat)"
  by simp_all

lemma space_consumed:
  "utf8_valid b \<Longrightarrow> b \<noteq> [] \<Longrightarrow> \<not> is_whitespace (hd (chars b)) \<Longrightarrow> consume_whitespace (between a (CHR 0x20 # b)) = Some (between (a @ '' '') b)"
  using consume_whitespace_some [of "'' ''" b a] by (simp add: is_whitespace_ascii)

lemma no_space: "code_of x < 0x80 \<Longrightarrow> \<not> is_whitespace [x] \<Longrightarrow> utf8_valid b \<Longrightarrow> consume_whitespace (between a (x # b)) = Some (between a (x # b))"
  using consume_whitespace_none [of "x # b" a] by (simp add: chars_ascii)

lemma hd_chars: "utf8_valid s \<Longrightarrow> s \<noteq> [] \<Longrightarrow> hd (chars (s @ b)) = hd (chars s) \<and> hd (chars s) \<in> set (chars s)"
proof -
  assume "utf8_valid s" and "s \<noteq> []"
  then have "chars (s @ b) = chars s @ chars b" "chars s \<noteq> []" using chars_append [of "chars s" b] chars_ok [of s] chars_Nil [of s] by simp_all
  then show ?thesis by simp
qed

text \<open>What follows an attribute: a space and more, or the end of the tag.\<close>

definition after_attr :: "string \<Rightarrow> bool" where
  "after_attr b \<longleftrightarrow> utf8_valid b \<and> (\<exists>c. b = CHR ''>'' # c \<or> b = CHR '' '' # c \<and> c \<noteq> [] \<and> \<not> is_whitespace (hd (chars c)) \<and> hd c \<noteq> CHR ''='')"

lemma value_read:
  assumes ok: "attr_ok (n, q, v)" and b: "after_attr b" and q: "q \<noteq> No_Value"
  shows "parse_attribute_value (between a (tl (write_value q v) @ b)) = Some (v, between (a @ tl (write_value q v)) b)"
proof -
  have vb: "utf8_valid b" using b by (simp add: after_attr_def)
  have vv: "utf8_valid v" using ok by (simp add: attr_ok_def)
  have quoted: "parse_attribute_value (between a (x # v @ x # b)) = Some (v, between (a @ x # v @ [x]) b)"
    if x: "x = CHR 0x22 \<or> x = CHR 0x27" and nx: "x \<notin> set v" for x
  proof -
    have c: "code_of x < 0x80" using x by auto
    have v1: "utf8_valid (x # b)" "utf8_valid (v @ x # b)" "utf8_valid (x # v @ x # b)"
      using c vb vv utf8_valid_append by simp_all
    have l: "looking_at [CHR 0x22] (between a (x # v @ x # b)) = Some (x = CHR 0x22)" "looking_at [CHR 0x27] (between a (x # v @ x # b)) = Some (x = CHR 0x27)"
      using v1 by (auto simp: looking_at_between)
    have w: "consume_while (\<lambda>c. c \<noteq> [x]) (between (a @ [x]) (v @ x # b)) = Some (v, between ((a @ [x]) @ v) (x # b))"
      by (rule consume_while_string) (use vv v1 nx c ascii_in_chars [OF vv c] in \<open>auto simp: list_all_iff intro!: stops_ascii\<close>)
    have "consume_char (between ((a @ [x]) @ v) (x # b)) = Some ([x], between (((a @ [x]) @ v) @ [x]) b)"
      using consume_ascii [OF c vb] by simp
    then show ?thesis using x l w consume_ascii [OF c v1(2), of a] by (auto simp: parse_attribute_value_def)
  qed
  show ?thesis
  proof (cases q)
    case Bare
    have o: "v \<noteq> []" "hd v \<noteq> CHR 0x22" "hd v \<noteq> CHR 0x27" "list_all (\<lambda>c. \<not> is_whitespace c \<and> c \<noteq> ''>'') (chars v)"
      using ok Bare by (auto simp: attr_ok_def)
    have u: "utf8_valid (v @ b)" using vb vv utf8_valid_append by simp
    then have l: "looking_at [CHR 0x22] (between a (v @ b)) = Some False" "looking_at [CHR 0x27] (between a (v @ b)) = Some False"
      using o(1-3) by (cases v; simp add: looking_at_between)+
    have "stops (\<lambda>c. \<not> is_whitespace c \<and> c \<noteq> ''>'') (chars v) b"
      using b by (auto simp: after_attr_def is_whitespace_ascii intro!: stops_ascii)
    then have "consume_while (\<lambda>c. \<not> is_whitespace c \<and> c \<noteq> ''>'') (between a (v @ b)) = Some (v, between (a @ v) b)"
      by (rule consume_while_string [OF vv o(4) vb])
    then show ?thesis using Bare l by (simp add: parse_attribute_value_def write_value_def)
  qed (use ok quoted [of "CHR 0x22"] quoted [of "CHR 0x27"] q in \<open>auto simp: write_value_def attr_ok_def\<close>)
qed

lemma name_read:
  assumes "attr_ok (n, q, v)" and "utf8_valid b" and "\<exists>x c. b = x # c \<and> x \<in> {CHR ''='', CHR ''>'', CHR '' ''}"
  shows "consume_while (\<lambda>c. c \<noteq> ''='' \<and> c \<noteq> ''>'' \<and> c \<noteq> ''/'' \<and> \<not> is_whitespace c) (between a (n @ b)) = Some (n, between (a @ n) b)"
proof (rule consume_while_string)
  show "stops (\<lambda>c. c \<noteq> ''='' \<and> c \<noteq> ''>'' \<and> c \<noteq> ''/'' \<and> \<not> is_whitespace c) (chars n) b"
    using assms(3) by (auto simp: is_whitespace_ascii intro!: stops_ascii)
qed (use assms in \<open>auto simp: attr_ok_def list_all_iff name_char_def\<close>)

text \<open>One attribute, read after the space in front of it; if it has no value the space behind it may be gone too.\<close>

lemma attribute_read:
  assumes ok: "attr_ok (n, q, v)" and b: "after_attr b"
  shows "\<exists>p'. parse_attribute (between a (n @ write_value q v @ b)) = Some ((n, v), p') \<and>
    consume_whitespace p' = consume_whitespace (between (a @ n @ write_value q v) b)"
proof (cases "q = No_Value")
  case False
  obtain w where w: "write_value q v = CHR ''='' # w" using False by (cases q) (simp_all add: write_value_def)
  have vb: "utf8_valid b" using b by (simp add: after_attr_def)
  have u: "utf8_valid (w @ b)"
    using ok vb w utf8_valid_append [of v b] False by (cases q) (auto simp: attr_ok_def write_value_def utf8_valid_append)
  have h: "w @ b \<noteq> [] \<and> \<not> is_whitespace (hd (chars (w @ b)))"
  proof (cases q)
    case Bare
    then have "v \<noteq> []" "utf8_valid v" "\<forall>c \<in> set (chars v). \<not> is_whitespace c" "w = v" using ok w by (auto simp: attr_ok_def list_all_iff write_value_def)
    then show ?thesis using hd_chars [of v b] by simp
  qed (use False w in \<open>auto simp: write_value_def chars_ascii is_whitespace_ascii\<close>)
  have "parse_attribute (between a (n @ CHR ''='' # w @ b)) = Some ((n, v), between (((a @ n) @ ''='') @ w) b)"
    using name_read [OF ok, of "CHR ''='' # w @ b" a] no_space [of "CHR ''=''" "w @ b" "a @ n"] u w
      consume_ascii [of "CHR ''=''" "w @ b" "a @ n"] consume_whitespace_none [OF u, of "(a @ n) @ ''=''"] h value_read [OF ok b False]
    by (simp add: parse_attribute_def is_whitespace_ascii looking_at_between)
  then show ?thesis unfolding w by simp
next
  case True
  then have w: "write_value q v = []" and v: "v = []" using ok by (simp_all add: write_value_def attr_ok_def)
  have vb: "utf8_valid b" using b by (simp add: after_attr_def)
  obtain c where c: "b = CHR ''>'' # c \<or> b = CHR '' '' # c \<and> c \<noteq> [] \<and> \<not> is_whitespace (hd (chars c)) \<and> hd c \<noteq> CHR ''=''"
    using b by (auto simp: after_attr_def)
  then have n: "consume_while (\<lambda>c. c \<noteq> ''='' \<and> c \<noteq> ''>'' \<and> c \<noteq> ''/'' \<and> \<not> is_whitespace c) (between a (n @ b)) = Some (n, between (a @ n) b)"
    using name_read [OF ok vb, of a] by auto
  have uc: "utf8_valid c" using c vb by auto
  show ?thesis
  proof (cases "b = CHR ''>'' # c")
    case True
    then show ?thesis using n no_space [of "CHR ''>''" c "a @ n"] uc w v
      by (simp add: parse_attribute_def is_whitespace_ascii looking_at_between)
  next
    case False
    then have c': "b = CHR '' '' # c" "c \<noteq> []" "\<not> is_whitespace (hd (chars c))" "hd c \<noteq> CHR ''=''" using c by auto
    have "looking_at ''='' (between ((a @ n) @ '' '') c) = Some False"
      using c'(2,4) uc by (cases c) (simp_all add: looking_at_between)
    then have "parse_attribute (between a (n @ b)) = Some ((n, v), between ((a @ n) @ '' '') c)"
      using n space_consumed [OF uc c'(2,3), of "a @ n"] v c'(1) by (simp add: parse_attribute_def)
    moreover have "consume_whitespace (between ((a @ n) @ '' '') c) = consume_whitespace (between (a @ n) b)"
      using space_consumed [OF uc c'(2,3), of "a @ n"] consume_whitespace_none [OF uc, of "(a @ n) @ '' ''"] c' by simp
    ultimately show ?thesis using w by auto
  qed
qed

text \<open>The end of a tag: \<open>>\<close>, or a space and \<open>/>\<close>.\<close>

definition tag_gap :: "bool \<Rightarrow> string" where
  "tag_gap closed = (if closed then '' '' else [])"

definition tag_close :: "bool \<Rightarrow> string" where
  "tag_close closed = (if closed then ''/>'' else ''>'')"

lemmas tag_end = tag_gap_def tag_close_def

lemma after_attr_attrs:
  assumes "list_all attr_ok as" and "utf8_valid b"
  shows "after_attr (write_attrs as @ tag_gap cl @ tag_close cl @ b)"
proof -
  have vs: "utf8_valid (write_attrs as @ tag_gap cl @ tag_close cl @ b)"
    using assms(1)
  proof (induction as)
    case Nil
    then show ?case using assms by (auto simp: tag_end write_attrs_def)
  next
    case (Cons x as)
    obtain n q v where x: "x = (n, q, v)" by (cases x)
    have "utf8_valid (n @ write_value q v)" using Cons.prems x
      by (cases q) (auto simp: attr_ok_def write_value_def intro!: utf8_valid_append)
    moreover have "utf8_valid (write_attrs as @ tag_gap cl @ tag_close cl @ b)" using Cons by simp
    ultimately have "utf8_valid ((n @ write_value q v) @ write_attrs as @ tag_gap cl @ tag_close cl @ b)" by (rule utf8_valid_append)
    then show ?case using x by (simp add: write_attrs_def)
  qed
  show ?thesis
  proof (cases as)
    case Nil
    then show ?thesis using assms vs by (auto simp: after_attr_def tag_end write_attrs_def chars_ascii is_whitespace_ascii)
  next
    case (Cons x as')
    obtain n q v where x: "x = (n, q, v)" by (cases x)
    have n: "n \<noteq> []" "utf8_valid n" "list_all name_char (chars n)" using assms(1) Cons x by (simp_all add: attr_ok_def)
    have h: "name_char (hd (chars n))" using hd_chars [OF n(2,1)] n(3) by (simp add: list_all_iff)
    have "hd n \<noteq> CHR ''=''" using h n(1) by (cases n) (auto simp: name_char_def chars_ascii)
    moreover define r where "r = n @ write_value q v @ write_attrs as' @ tag_gap cl @ tag_close cl @ b"
    ultimately have "hd r \<noteq> CHR ''=''" "r \<noteq> []" "\<not> is_whitespace (hd (chars r))" using n(1) h hd_chars [OF n(2,1)] by (auto simp: name_char_def)
    moreover have "write_attrs as @ tag_gap cl @ tag_close cl @ b = CHR '' '' # r" using Cons x by (simp add: r_def write_attrs_def)
    ultimately show ?thesis using vs by (auto simp: after_attr_def)
  qed
qed

lemma attributes_read:
  assumes "list_all attr_ok as" and b: "utf8_valid b" and "length as < n"
  shows "attributes_loop n (between a (write_attrs as @ tag_gap cl @ tag_close cl @ b)) m =
    Returns (foldl put_attr m as, between (a @ write_attrs as @ tag_gap cl) (tag_close cl @ b))"
  using assms(1,3)
proof (induction as arbitrary: a n m)
  case Nil
  then obtain k where n: "n = Suc k" by (cases n) auto
  have v: "utf8_valid (tag_close cl @ b)" using b by (simp add: tag_close_def)
  have "consume_whitespace (between a (tag_gap cl @ tag_close cl @ b)) = Some (between (a @ tag_gap cl) (tag_close cl @ b))"
    using b space_consumed [of "''/>'' @ b" a] no_space [of "CHR ''>''" b a] by (simp add: tag_end chars_ascii is_whitespace_ascii)
  moreover have "at_tag_end (between (a @ tag_gap cl) (tag_close cl @ b)) = Some True"
    using v by (simp add: at_tag_end_def looking_at_between) (simp add: tag_close_def)
  ultimately show ?case by (simp add: n write_attrs_def try_run_def)
next
  case (Cons x as)
  obtain nm q v where x: "x = (nm, q, v)" by (cases x)
  obtain k where n: "n = Suc k" using Cons.prems(2) by (cases n) auto
  let ?rest = "write_attrs as @ tag_gap cl @ tag_close cl @ b"
  have ok: "attr_ok (nm, q, v)" and as: "list_all attr_ok as" using Cons.prems(1) x by simp_all
  have r: "after_attr ?rest" using after_attr_attrs [OF as b] .
  have "after_attr (write_attrs (x # as) @ tag_gap cl @ tag_close cl @ b)" using after_attr_attrs [OF Cons.prems(1) b] .
  then have c: "utf8_valid (nm @ write_value q v @ ?rest)" "nm @ write_value q v @ ?rest \<noteq> []" "\<not> is_whitespace (hd (chars (nm @ write_value q v @ ?rest)))"
    by (auto simp: after_attr_def write_attrs_def x)
  have w: "consume_whitespace (between a (CHR '' '' # nm @ write_value q v @ ?rest)) = Some (between (a @ '' '') (nm @ write_value q v @ ?rest))"
    by (rule space_consumed [OF c])
  have nm: "nm \<noteq> []" "utf8_valid nm" "list_all name_char (chars nm)" using ok by (simp_all add: attr_ok_def)
  then have "name_char (hd (chars nm))" using hd_chars [of nm] by (simp add: list_all_iff)
  then have "hd nm \<noteq> CHR ''>''" "hd nm \<noteq> CHR ''/''" using nm(1) by (cases nm; auto simp: name_char_def chars_ascii)+
  then have e: "at_tag_end (between (a @ '' '') (nm @ write_value q v @ ?rest)) = Some False"
    using nm(1) c(1) by (cases nm) (simp_all add: at_tag_end_def looking_at_between)
  obtain p' where p: "parse_attribute (between (a @ '' '') (nm @ write_value q v @ ?rest)) = Some ((nm, v), p')"
    and ws: "consume_whitespace p' = consume_whitespace (between ((a @ '' '') @ nm @ write_value q v) ?rest)"
    using attribute_read [OF ok r] by blast
  have "attributes_loop n (between a (CHR '' '' # nm @ write_value q v @ ?rest)) m = attributes_loop k p' (put_attr m x)"
    using w e p nm(1) by (simp add: n x try_run_def insert_attribute_def put_attr_def)
  also have "\<dots> = attributes_loop k (between ((a @ '' '') @ nm @ write_value q v) ?rest) (put_attr m x)"
    by (rule tail_head_ws [OF ws])
  also have "\<dots> = Returns (foldl put_attr (put_attr m x) as, between (((a @ '' '') @ nm @ write_value q v) @ write_attrs as @ tag_gap cl) (tag_close cl @ b))"
    by (rule Cons.IH) (use as Cons.prems(2) n in simp_all)
  finally show ?case by (simp add: write_attrs_def x)
qed

lemma tag_valid: "tag_ok t \<Longrightarrow> utf8_valid t \<and> list_all is_ascii_alphanumeric (chars t)"
proof (induction t)
  case (Cons x t)
  then have "code_of x < 0x80" "tag_ok t" by (auto simp: tag_ok_def is_ascii_alphanumeric_def)
  then show ?case using Cons by (simp add: chars_ascii tag_ok_def del: chars.simps)
qed simp

lemma tag_read:
  assumes "tag_ok t" and "utf8_valid b" and "\<exists>x c. b = x # c \<and> x \<in> {CHR ''>'', CHR '' '', CHR ''/''}"
  shows "parse_tag_name (between a (t @ b)) = Some (t, between (a @ t) b)"
  unfolding parse_tag_name_def
proof (rule consume_while_string)
  show "stops is_ascii_alphanumeric (chars t) b"
    using assms(3) by (auto simp: is_ascii_alphanumeric_def intro!: stops_ascii)
qed (use assms tag_valid in auto)

definition open_tag :: "string \<Rightarrow> written_attr list \<Rightarrow> bool \<Rightarrow> string" where
  "open_tag t as cl = ''<'' @ t @ write_attrs as @ tag_gap cl @ tag_close cl"

lemma attrs_length: "length as \<le> length (write_attrs as)"
  by (induction as) (auto simp: write_attrs_def)

lemma after_attr_head: "after_attr b \<Longrightarrow> \<exists>x c. b = x # c \<and> x \<in> {CHR ''>'', CHR '' '', CHR ''/''}"
  by (auto simp: after_attr_def)

lemma open_tag_read:
  assumes t: "tag_ok t" and as: "list_all attr_ok as" and b: "utf8_valid b"
  shows "parse_open_tag (between a (open_tag t as cl @ b)) =
    Returns ((t, attr_map as, cl \<or> is_void_element t), between (a @ open_tag t as cl) b)"
proof -
  let ?r = "write_attrs as @ tag_gap cl @ tag_close cl @ b"
  let ?p = "between (((a @ ''<'') @ t) @ write_attrs as @ tag_gap cl) (tag_close cl @ b)"
  have r: "after_attr ?r" by (rule after_attr_attrs [OF as b])
  then have vr: "utf8_valid ?r" by (simp add: after_attr_def)
  then have v: "utf8_valid (t @ ?r)" using tag_valid [OF t] utf8_valid_append by blast
  have "remaining (between ((a @ ''<'') @ t) ?r) + 1 > length as" using attrs_length [of as] by (simp add: remaining_def)
  then have at: "parse_attributes (between ((a @ ''<'') @ t) ?r) = Returns (attr_map as, ?p)"
    unfolding parse_attributes_def attr_map_def by (intro attributes_read [OF as b])
  have w: "consume_whitespace ?p = Some ?p"
    using b no_space [of "CHR ''>''" b] no_space [of "CHR ''/''" "CHR ''>'' # b"] by (simp add: tag_close_def is_whitespace_ascii)
  have l: "looking_at ''/>'' ?p = Some cl" using b by (simp add: looking_at_between tag_close_def)
  have 1: "consume_char (between a (open_tag t as cl @ b)) = Some (''<'', between (a @ ''<'') (t @ ?r))"
    using consume_ascii [of "CHR ''<''" "t @ ?r" a] v by (simp add: open_tag_def)
  have 2: "parse_tag_name (between (a @ ''<'') (t @ ?r)) = Some (t, between ((a @ ''<'') @ t) ?r)"
    by (rule tag_read [OF t vr after_attr_head [OF r]])
  have 3: "consume_chars 2 ?p = Some (between (a @ open_tag t as cl) b)" if cl
    using that b consume_word [of "''/>''" b] by (simp add: tag_close_def open_tag_def numeral_2_eq_2)
  have 4: "consume_char ?p = Some (''>'', between (a @ open_tag t as cl) b)" if "\<not> cl"
    using that b consume_ascii [of "CHR ''>''" b] by (simp add: tag_end open_tag_def)
  show ?thesis using 1 2 at w l 3 4 by (cases cl) (simp_all add: parse_open_tag_def try_run_def)
qed

lemma close_tag_read:
  assumes "tag_ok t" and "utf8_valid b"
  shows "parse_close_tag t (between a (''</'' @ t @ ''>'' @ b)) = Some (between (a @ ''</'' @ t @ ''>'') b)"
proof -
  have v: "utf8_valid (t @ ''>'' @ b)" using assms tag_valid [OF assms(1)] by (intro utf8_valid_append) simp_all
  have 1: "consume_chars 2 (between a (''</'' @ t @ ''>'' @ b)) = Some (between (a @ ''</'') (t @ ''>'' @ b))"
    using consume_word [of "''</''" "t @ ''>'' @ b" a] v by (simp add: numeral_2_eq_2)
  have 2: "parse_tag_name (between (a @ ''</'') (t @ ''>'' @ b)) = Some (t, between ((a @ ''</'') @ t) (''>'' @ b))"
    by (rule tag_read) (use assms in simp_all)
  have 3: "consume_whitespace (between ((a @ ''</'') @ t) (''>'' @ b)) = Some (between ((a @ ''</'') @ t) (''>'' @ b))"
    using no_space [of "CHR ''>''" b] assms by (simp add: is_whitespace_ascii)
  have 4: "consume_char (between ((a @ ''</'') @ t) (''>'' @ b)) = Some (''>'', between (((a @ ''</'') @ t) @ ''>'') b)"
    using consume_ascii [of "CHR ''>''" b] assms by simp
  have "looking_at ''</'' (between a (''</'' @ t @ ''>'' @ b)) = Some True" "looking_at ''>'' (between ((a @ ''</'') @ t) (''>'' @ b)) = Some True"
    using v assms by (simp_all add: looking_at_between)
  then show ?thesis using 1 2 3 4 by (simp add: parse_close_tag_def)
qed

lemma starts_with_longer: "length w \<le> length s \<Longrightarrow> starts_with w (s @ t) \<longleftrightarrow> starts_with w s"
  by (simp add: starts_with_def)

lemma comment_loop_read:
  assumes "\<forall>c \<in> set cs. char_ok c" and "utf8_valid b" and "\<forall>i < length (concat cs). \<not> starts_with ''-->'' (drop i (concat cs @ ''-->''))"
  shows "comment_loop (between a (concat cs @ ''-->'' @ b)) = Some (between (a @ concat cs) (''-->'' @ b))"
  using assms(1,3)
proof (induction cs arbitrary: a)
  case Nil
  then show ?case using assms(2) by (subst comment_loop.simps) (simp add: looking_at_between)
next
  case (Cons c cs)
  have v1: "utf8_valid (concat cs @ ''-->'' @ b)"
    using chars_concat [of cs] Cons.prems(1) assms(2) utf8_valid_append by simp
  moreover have "utf8_valid c" using chars_concat [of "[c]"] Cons.prems(1) by simp
  ultimately have v: "utf8_valid (concat cs @ ''-->'' @ b)" "utf8_valid (c @ concat cs @ ''-->'' @ b)" using utf8_valid_append by blast+
  have c: "c \<noteq> []" using Cons.prems(1) by (auto simp: char_ok_def)
  have "\<not> starts_with ''-->'' (c @ concat cs @ ''-->'' @ b)"
  proof -
    have "\<not> starts_with ''-->'' (c @ concat cs @ ''-->'')" using Cons.prems(2) c by (auto dest: spec [of _ 0])
    moreover have "length ''-->'' \<le> length (c @ concat cs @ ''-->'')" by simp
    ultimately show ?thesis using starts_with_longer [of "''-->''" "c @ concat cs @ ''-->''" b] by simp
  qed
  then have l: "looking_at ''-->'' (between a (c @ concat cs @ ''-->'' @ b)) = Some False" using v(2) by (simp add: looking_at_between)
  have 1: "consume_char (between a (c @ concat cs @ ''-->'' @ b)) = Some (c, between (a @ c) (concat cs @ ''-->'' @ b))"
    using consume_char_between [of c "concat cs @ ''-->'' @ b" a] Cons.prems(1) v(1) by simp
  have "\<not> starts_with ''-->'' (drop i (concat cs @ ''-->''))" if "i < length (concat cs)" for i
    using Cons.prems(2) [rule_format, of "length c + i"] that by simp
  then have "comment_loop (between (a @ c) (concat cs @ ''-->'' @ b)) = Some (between ((a @ c) @ concat cs) (''-->'' @ b))"
    using Cons by simp
  then show ?case using l 1 c by (subst comment_loop.simps) simp
qed

lemma comment_read:
  assumes "comment_ok s" and "utf8_valid b"
  shows "consume_comment (between a (''<!--'' @ s @ ''-->'' @ b)) = Some (between (a @ ''<!--'' @ s @ ''-->'') b)"
proof -
  have s: "utf8_valid s" "\<forall>i < length s. \<not> starts_with ''-->'' (drop i (s @ ''-->''))"
    using assms(1) by (auto simp: comment_ok_def list_all_iff)
  have v: "utf8_valid (s @ ''-->'' @ b)" using s(1) assms(2) by (intro utf8_valid_append) simp_all
  have 1: "consume_chars 4 (between a (''<!--'' @ s @ ''-->'' @ b)) = Some (between (a @ ''<!--'') (s @ ''-->'' @ b))"
    using consume_word [of "''<!--''" "s @ ''-->'' @ b" a] v by (simp add: numeral_eq_Suc)
  have 2: "comment_loop (between (a @ ''<!--'') (s @ ''-->'' @ b)) = Some (between ((a @ ''<!--'') @ s) (''-->'' @ b))"
    using comment_loop_read [of "chars s" b "a @ ''<!--''"] chars_ok [OF s(1)] s(2) assms(2) by simp
  have 3: "consume_chars 3 (between ((a @ ''<!--'') @ s) (''-->'' @ b)) = Some (between (((a @ ''<!--'') @ s) @ ''-->'') b)"
    using consume_word [of "''-->''" b "(a @ ''<!--'') @ s"] assms(2) by (simp add: numeral_eq_Suc)
  show ?thesis using 1 2 3 assms(2) by (simp add: consume_comment_def looking_at_between)
qed

lemma written_valid: "node_ok w \<Longrightarrow> utf8_valid (write_node w)" "nodes_ok inner ws \<Longrightarrow> utf8_valid (write_nodes ws)"
proof (induction w and inner ws rule: node_ok_nodes_ok.induct)
  case (2 t as ws)
  have "utf8_valid (write_attrs as @ tag_gap False @ tag_close False @ [])"
    using after_attr_attrs [of as "[]" False] 2 by (simp add: after_attr_def)
  then show ?case using 2 tag_valid [of t] utf8_valid_append [of "write_attrs as @ ''>''" "write_nodes ws @ ''</'' @ t @ ''>''"]
    by (simp add: tag_end utf8_valid_append)
next
  case (3 t as cl)
  have "utf8_valid (write_attrs as @ tag_gap cl @ tag_close cl @ [])"
    using after_attr_attrs [of as "[]" cl] 3 by (simp add: after_attr_def)
  then show ?case using 3 tag_valid [of t] by (auto simp: tag_end utf8_valid_append)
next
  case (4 s)
  then show ?case by (auto simp: comment_ok_def intro!: utf8_valid_append)
next
  case (5 s)
  then show ?case by (intro utf8_valid_ascii) (auto simp: space_ok_def)
qed (auto intro: utf8_valid_append)

definition is_tag :: "written \<Rightarrow> bool" where
  "is_tag w \<longleftrightarrow> (case w of W_Elem t as ws \<Rightarrow> True | W_Leaf t as cl \<Rightarrow> True | _ \<Rightarrow> False)"

lemma open_tag_head: "tag_ok t \<Longrightarrow> \<exists>y c. open_tag t as cl = CHR ''<'' # y # c \<and> y \<noteq> CHR ''/'' \<and> y \<noteq> CHR ''!''"
proof (cases t)
  case Nil
  then show ?thesis by (cases as) (auto simp: open_tag_def write_attrs_def tag_end)
next
  case (Cons y t')
  assume "tag_ok t"
  then show ?thesis using Cons by (auto simp: open_tag_def tag_ok_def is_ascii_alphanumeric_def)
qed

lemma tag_head:
  assumes "node_ok w" and "is_tag w"
  shows "\<exists>y c. write_node w = CHR ''<'' # y # c \<and> y \<noteq> CHR ''/'' \<and> y \<noteq> CHR ''!''"
proof (cases w)
  case (W_Elem t as ws)
  then have "write_node w = open_tag t as False @ write_nodes ws @ ''</'' @ t @ ''>''" by (simp add: open_tag_def tag_end)
  moreover obtain y c where "open_tag t as False = CHR ''<'' # y # c" "y \<noteq> CHR ''/''" "y \<noteq> CHR ''!''"
    using open_tag_head [of t as False] assms W_Elem by auto
  ultimately show ?thesis by (simp del: write_node.simps)
next
  case (W_Leaf t as cl)
  then have "write_node w = open_tag t as cl" by (simp add: open_tag_def tag_end)
  then show ?thesis using open_tag_head [of t as cl] assms W_Leaf by auto
qed (use assms in \<open>simp_all add: is_tag_def\<close>)

text \<open>What may follow a sequence of nodes.\<close>

definition ends :: "bool \<Rightarrow> string \<Rightarrow> bool" where
  "ends inner b \<longleftrightarrow> utf8_valid b \<and> (\<not> inner \<and> b = [] \<or> starts_with ''</'' b)"

lemma after_text_head:
  assumes "nodes_ok inner ws" and "after_text inner s ws" and "ends inner b"
  shows "write_nodes ws @ b = [] \<and> length (last (chars s)) = 1 \<or> (\<exists>c. write_nodes ws @ b = CHR ''<'' # c)"
proof (cases ws)
  case Nil
  then show ?thesis using assms(2,3) by (cases b) (auto simp: ends_def)
next
  case (Cons w ws')
  then show ?thesis using assms(1,2) by (cases w) auto
qed

lemma space_read:
  assumes "space_ok s" and "utf8_valid b" and "b = [] \<or> \<not> is_whitespace (hd (chars b))"
  shows "consume_whitespace (between a (s @ b)) = Some (between (a @ s) b)"
proof -
  have "chars s = map (\<lambda>x. [x]) s" using assms(1)
  proof (induction s)
    case (Cons x s)
    then show ?case using chars_ascii [of x s] by (auto simp: space_ok_def)
  qed simp
  then have cs: "list_all is_whitespace (chars s)" "s \<noteq> [] \<longrightarrow> length (last (chars s)) = 1"
    using assms(1) by (auto simp: list_all_iff space_ok_def is_whitespace_ascii last_map)
  have "utf8_valid s" using assms(1) by (intro utf8_valid_ascii) (auto simp: space_ok_def)
  moreover have "stops is_whitespace (chars s) b" using cs(2) assms(3) by (auto simp: stops_def)
  ultimately show ?thesis using consume_while_string [OF _ cs(1) assms(2)] by (simp add: consume_whitespace_def)
qed

text \<open>White space in front of white space: the cursor may be moved over it first.\<close>

lemma space_skipped:
  assumes "space_ok s" and "utf8_valid b"
  shows "consume_whitespace (between a (s @ b)) = consume_whitespace (between (a @ s) b)"
  using assms(1)
proof (induction s arbitrary: a)
  case (Cons x s)
  have x: "code_of x < 0x80" "is_whitespace [x]" and s: "space_ok s" using Cons.prems by (auto simp: space_ok_def is_whitespace_ascii)
  have "utf8_valid s" using s by (intro utf8_valid_ascii) (auto simp: space_ok_def)
  then have v: "utf8_valid (s @ b)" using assms(2) by (rule utf8_valid_append)
  have "consume_while is_whitespace (between a (x # s @ b)) =
      (case consume_while is_whitespace (between (a @ [x]) (s @ b)) of None \<Rightarrow> None | Some (r, p) \<Rightarrow> Some ([x] @ r, p))"
    using x consume_ascii [OF x(1) v, of a] next_char_between [of "[x]" "s @ b" a] v by (subst consume_while.simps) simp
  then have "consume_whitespace (between a (x # s @ b)) = consume_whitespace (between (a @ [x]) (s @ b))"
    by (simp add: consume_whitespace_def split: option.splits)
  then show ?case using Cons.IH [OF s, of "a @ [x]"] by simp
qed simp

lemma nodes_tag_step:
  assumes "write_node w = CHR ''<'' # y # c" and "y \<noteq> CHR ''/''" and "y \<noteq> CHR ''!''" and "utf8_valid (write_node w @ r)"
    and "parse_element n (between a (write_node w @ r)) = Returns (x, p2)" and "parse_nodes n p2 = Returns (xs, p3)"
  shows "parse_nodes (Suc n) (between a (write_node w @ r)) = Returns (x # xs, p3)"
proof -
  let ?p = "between a (write_node w @ r)"
  have "consume_whitespace ?p = Some ?p"
    using no_space [of "CHR ''<''" "y # c @ r" a] assms(1,4) by (simp add: is_whitespace_ascii)
  moreover have "\<not> eof ?p" "looking_at ''</'' ?p = Some False" "looking_at ''<!--'' ?p = Some False" "looking_at ''<'' ?p = Some True"
    using assms(1-4) by (simp_all add: looking_at_between)
  ultimately show ?thesis using assms(5,6) by (auto simp: parse_nodes.simps(2) try_run_def)
qed

lemma nodes_text_step:
  assumes "node_ok (W_Text s)" and "utf8_valid r" and "r = [] \<and> length (last (chars s)) = 1 \<or> (\<exists>c. r = CHR ''<'' # c)"
    and "parse_nodes n (between (a @ s) r) = Returns (xs, p3)"
  shows "parse_nodes (Suc n) (between a (s @ r)) = Returns (text_node s # xs, p3)"
proof -
  let ?p = "between a (s @ r)"
  have s: "s \<noteq> []" "utf8_valid s" "CHR ''<'' \<notin> set s" "\<not> is_whitespace (hd (chars s))" using assms(1) by simp_all
  have v: "utf8_valid (s @ r)" using s(2) assms(2) by (rule utf8_valid_append)
  have "consume_whitespace ?p = Some ?p"
    using consume_whitespace_none [OF v, of a] s hd_chars [OF s(2,1)] by simp
  moreover have "\<not> eof ?p" "looking_at ''</'' ?p = Some False" "looking_at ''<!--'' ?p = Some False" "looking_at ''<'' ?p = Some False"
    using s(1,3) looking_at_between [OF v] by (cases s; auto)+
  moreover have "''<'' \<notin> set (chars s)" using ascii_in_chars [OF s(2), of "CHR ''<''"] s(3) by simp
  then have "consume_while (\<lambda>c. c \<noteq> ''<'') ?p = Some (s, between (a @ s) r)"
    using assms(3) by (intro consume_while_string [OF s(2) _ assms(2)]) (auto simp: list_all_iff stops_def chars_ascii)
  ultimately show ?thesis using assms(4) by (auto simp: parse_nodes.simps(2) parse_text_def try_run_def)
qed

lemma nodes_comment_step:
  assumes "comment_ok s" and "utf8_valid r"
  shows "parse_nodes (Suc n) (between a (write_node (W_Comment s) @ r)) = parse_nodes n (between (a @ write_node (W_Comment s)) r)"
proof -
  let ?p = "between a (write_node (W_Comment s) @ r)"
  have v: "utf8_valid (s @ ''-->'' @ r)" using assms by (intro utf8_valid_append) (simp_all add: comment_ok_def)
  have "consume_whitespace ?p = Some ?p"
    using no_space [of "CHR ''<''" "''!--'' @ s @ ''-->'' @ r" a] v by (simp add: is_whitespace_ascii)
  moreover have "\<not> eof ?p" "looking_at ''</'' ?p = Some False" "looking_at ''<!--'' ?p = Some True"
    using v by (simp_all add: looking_at_between)
  ultimately show ?thesis using comment_read [OF assms, of a] by (simp add: parse_nodes.simps(2) try_run_def)
qed

lemma nodes_end:
  assumes "ends inner b"
  shows "parse_nodes (Suc n) (between a b) = Returns ([], between a b)"
proof (cases "b = []")
  case True
  then show ?thesis using consume_whitespace_none [of "[]" a] by (simp add: parse_nodes.simps(2) try_run_def)
next
  case False
  then obtain c where b: "b = CHR ''<'' # CHR ''/'' # c" and v: "utf8_valid b"
    using assms by (cases b; cases "tl b") (auto simp: ends_def)
  then have "consume_whitespace (between a b) = Some (between a b)"
    using no_space [of "CHR ''<''" "CHR ''/'' # c" a] by (simp add: is_whitespace_ascii)
  then show ?thesis using v b by (simp add: parse_nodes.simps(2) try_run_def looking_at_between)
qed

text \<open>A written page is read back, with enough fuel.\<close>

lemma written_read:
  "node_ok w \<Longrightarrow> is_tag w \<Longrightarrow> utf8_valid r \<Longrightarrow>
     \<exists>m x. meaning w = [x] \<and> (\<forall>n \<ge> m. parse_element n (between a (write_node w @ r)) = Returns (x, between (a @ write_node w) r))"
  "nodes_ok inner ws \<Longrightarrow> ends inner r \<Longrightarrow>
     \<exists>m. \<forall>n \<ge> m. parse_nodes n (between a (write_nodes ws @ r)) = Returns (concat (map meaning ws), between (a @ write_nodes ws) r)"
proof (induction w and inner ws arbitrary: a r and a r rule: node_ok_nodes_ok.induct)
  case (2 t as ws)
  let ?o = "open_tag t as False"
  let ?c = "''</'' @ t @ ''>''"
  have ok: "tag_ok t" "list_all attr_ok as" "\<not> is_void_element t" "nodes_ok True ws" using "2.prems" by simp_all
  have w: "write_node (W_Elem t as ws) = ?o @ write_nodes ws @ ?c" by (simp add: open_tag_def tag_end)
  have vc: "utf8_valid (?c @ r)" using tag_valid [OF ok(1)] "2.prems"(3) by (simp add: utf8_valid_append)
  then have "ends True (?c @ r)" by (simp add: ends_def)
  then obtain m where m: "\<forall>n \<ge> m. parse_nodes n (between (a @ ?o) (write_nodes ws @ ?c @ r)) =
      Returns (concat (map meaning ws), between ((a @ ?o) @ write_nodes ws) (?c @ r))"
    using "2.IH" ok(4) by blast
  have o: "parse_open_tag (between a (?o @ write_nodes ws @ ?c @ r)) = Returns ((t, attr_map as, False), between (a @ ?o) (write_nodes ws @ ?c @ r))"
    using open_tag_read [OF ok(1,2), of "write_nodes ws @ ?c @ r" a False] ok(3) vc written_valid(2) [OF ok(4)] utf8_valid_append by simp
  have c: "parse_close_tag t (between ((a @ ?o) @ write_nodes ws) (?c @ r)) = Some (between (((a @ ?o) @ write_nodes ws) @ ?c) r)"
    using close_tag_read [OF ok(1) "2.prems"(3), of "(a @ ?o) @ write_nodes ws"] by simp
  have "parse_element n (between a (write_node (W_Elem t as ws) @ r)) =
      Returns (elem_node t (attr_map as) (concat (map meaning ws)), between (a @ write_node (W_Elem t as ws)) r)" if le: "Suc m \<le> n" for n
  proof -
    obtain k where "n = Suc k" "m \<le> k" using le by (cases n) auto
    then show ?thesis unfolding w using o c m by (simp add: parse_element.simps(2) try_run_def)
  qed
  then show ?case by (intro exI [of _ "Suc m"] exI [of _ "elem_node t (attr_map as) (concat (map meaning ws))"]) simp
next
  case (3 t as cl)
  have w: "write_node (W_Leaf t as cl) = open_tag t as cl" by (simp add: open_tag_def tag_end)
  have "parse_element n (between a (write_node (W_Leaf t as cl) @ r)) =
      Returns (elem_node t (attr_map as) [], between (a @ write_node (W_Leaf t as cl)) r)" if "1 \<le> n" for n
    using that open_tag_read [of t as r a cl] "3.prems" unfolding w by (cases n) (auto simp: parse_element.simps(2))
  then show ?case by (intro exI [of _ 1] exI [of _ "elem_node t (attr_map as) []"]) simp
next
  case (6 inner)
  then show ?case using nodes_end [of inner r] by (intro exI [of _ 1]) (auto simp: Suc_le_eq gr0_conv_Suc)
next
  case (7 inner w ws)
  have ok: "node_ok w" "nodes_ok inner ws" using "7.prems" by simp_all
  let ?r = "write_nodes ws @ r"
  have vr: "utf8_valid ?r" using written_valid(2) [OF ok(2)] "7.prems"(2) by (simp add: ends_def utf8_valid_append)
  obtain m where m: "\<forall>n \<ge> m. parse_nodes n (between (a @ write_node w) ?r) =
      Returns (concat (map meaning ws), between ((a @ write_node w) @ write_nodes ws) r)"
    using "7.IH"(2) [OF ok(2) "7.prems"(2)] by blast
  show ?case
  proof (cases "is_tag w")
    case True
    obtain k x where x: "meaning w = [x]" "\<forall>n \<ge> k. parse_element n (between a (write_node w @ ?r)) = Returns (x, between (a @ write_node w) ?r)"
      using "7.IH"(1) [OF ok(1) True vr] by blast
    obtain y c where y: "write_node w = CHR ''<'' # y # c" "y \<noteq> CHR ''/''" "y \<noteq> CHR ''!''" using tag_head [OF ok(1) True] by blast
    have v: "utf8_valid (write_node w @ ?r)" using written_valid(1) [OF ok(1)] vr by (rule utf8_valid_append)
    have "parse_nodes n (between a (write_nodes (w # ws) @ r)) = Returns (concat (map meaning (w # ws)), between (a @ write_nodes (w # ws)) r)"
      if le: "Suc (max k m) \<le> n" for n
    proof -
      obtain j where "n = Suc j" "k \<le> j" "m \<le> j" using le by (cases n) auto
      then show ?thesis using nodes_tag_step [OF y v] x m by simp
    qed
    then show ?thesis by blast
  next
    case False
    have step: "parse_nodes n (between a (write_nodes (w # ws) @ r)) = Returns (concat (map meaning (w # ws)), between (a @ write_nodes (w # ws)) r)"
      if le: "Suc m \<le> n" for n
    proof -
      obtain j where n: "n = Suc j" "m \<le> j" using le by (cases n) auto
      show ?thesis
      proof (cases w)
        case (W_Text s)
        then show ?thesis using nodes_text_step [of s ?r j a] after_text_head [of inner ws s r] ok vr m n "7.prems" by simp
      next
        case (W_Comment s)
        then show ?thesis using nodes_comment_step [of s ?r j a] ok vr m n by simp
      next
        case (W_Space s)
        then show ?thesis using parse_nodes_ws [OF space_skipped [of s ?r a], of n] ok vr m n by simp
      qed (use False in \<open>simp_all add: is_tag_def\<close>)
    qed
    then show ?thesis by blast
  qed
qed (simp_all add: is_tag_def)

section \<open>Properties of the parser\<close>

lemma fuel_enough: "html_fuel p \<le> n \<Longrightarrow> parse_nodes n p = parse_nodes (html_fuel p) p"
proof (induction n rule: nat_induct_at_least)
  case (Suc n)
  then show ?case using nodes_fuel [of n] by (simp add: html_fuel_def)
qed simp

lemma attributes_fuel_enough: "remaining p < n \<Longrightarrow> attributes_loop n p Map.empty = parse_attributes p"
proof (induction n rule: less_induct)
  case (less n)
  then obtain k where n: "n = Suc k" by (cases n) auto
  show ?case
  proof (cases "remaining p = k")
    case True
    then show ?thesis by (simp add: parse_attributes_def n)
  next
    case False
    then have "remaining p < k" using less.prems n by simp
    then have "attributes_loop k p Map.empty = attributes_loop (Suc k) p Map.empty" "attributes_loop k p Map.empty = parse_attributes p"
      using attributes_loop_fuel less.IH [of k] n by auto
    then show ?thesis using n by (simp only:)
  qed
qed

lemma parser_new_between: "parser_new s = between [] s"
  by (simp add: parser_new_def between_def)

lemma parse_written:
  assumes "nodes_ok False ws" and "ends False r"
  shows "html_parse (write_nodes ws @ r) = Returns (single_root (concat (map meaning ws)))"
proof -
  let ?p = "parser_new (write_nodes ws @ r)"
  obtain m where m: "\<forall>n \<ge> m. parse_nodes n (between [] (write_nodes ws @ r)) = Returns (concat (map meaning ws), between ([] @ write_nodes ws) r)"
    using written_read(2) [OF assms, of "[]"] by blast
  have "parse_nodes (html_fuel ?p) ?p = parse_nodes (max m (html_fuel ?p)) ?p" by (rule fuel_enough [symmetric]) simp
  then show ?thesis using m by (simp add: html_parse_def parser_new_between)
qed


lemma demo_page_ok:
  "nodes_ok False [W_Elem ''a'' [(''x'', Single_Quoted, ''1''), (''x'', Bare, ''2'')] [W_Text ''hi'', W_Comment ''-'', W_Leaf ''br'' [] False], W_Space '' '']"
  by (simp add: tag_ok_def is_ascii_alphanumeric_def attr_ok_def name_char_def is_whitespace_def ws_seqs_def is_void_element_def comment_ok_def
      space_ok_def upt_rec)




text \<open>Property: A closing tag that matches no open element ends the page: what follows it is not read (the parser's documentation says that such a tag
  is ignored).\<close>

theorem stray_closing_tag_ends:
  assumes "nodes_ok False ws" and "utf8_valid rest"
  shows "html_parse (write_nodes ws @ ''</'' @ rest) = html_parse (write_nodes ws)"
  using parse_written [OF assms(1), of "''</'' @ rest"] parse_written [OF assms(1), of "[]"] assms(2) by (simp add: ends_def)

theorem stray_closing_tag_ends_witness: "html_parse ''<br></p><hr>'' = html_parse ''<br>''"
  using stray_closing_tag_ends [of "[W_Leaf ''br'' [] False]" "''p><hr>''"]
  by (simp add: tag_ok_def is_ascii_alphanumeric_def is_void_element_def write_attrs_def utf8_valid_ascii)

lemma slash_stuck:
  assumes "utf8_valid r" and "\<not> starts_with ''>'' r"
  shows "attributes_loop n (between a (CHR ''/'' # r)) m = Runs_On"
proof (rule attributes_loop_stuck)
  let ?p = "between a (CHR ''/'' # r)"
  show w: "consume_whitespace ?p = Some ?p" using no_space [of "CHR ''/''" r a] assms(1) by (simp add: is_whitespace_ascii)
  show "at_tag_end ?p = Some False" using assms by (simp add: at_tag_end_def looking_at_between)
  have "consume_while (\<lambda>c. c \<noteq> ''='' \<and> c \<noteq> ''>'' \<and> c \<noteq> ''/'' \<and> \<not> is_whitespace c) (between a ([] @ CHR ''/'' # r)) =
      Some ([], between (a @ []) (CHR ''/'' # r))"
    by (rule consume_while_string) (use assms in \<open>auto intro!: stops_ascii\<close>)
  then show "parse_attribute ?p = Some (([], []), ?p)" using w assms(1) by (simp add: parse_attribute_def looking_at_between)
qed

text \<open>Property: A slash inside a tag that is not followed by \<open>>\<close> hangs the parser: reading such a page never returns, whatever the
  fuel (the attribute loop reads an empty name there and stays where it is).\<close>

theorem slash_in_tag_hangs:
  assumes "tag_ok t" and "utf8_valid r" and "\<not> starts_with ''>'' r"
  shows "html_parse (''<'' @ t @ '' /'' @ r) = Runs_On \<and> parse_nodes n (parser_new (''<'' @ t @ '' /'' @ r)) = Runs_On"
proof -
  let ?b = "t @ '' /'' @ r"
  let ?p = "between [] (CHR ''<'' # ?b)"
  have vb: "utf8_valid ?b" using tag_valid [OF assms(1)] assms(2) by (simp add: utf8_valid_append)
  have w: "consume_whitespace ?p = Some ?p" using no_space [of "CHR ''<''" ?b "[]"] vb by (simp add: is_whitespace_ascii)
  have y: "\<exists>y c. ?b = y # c \<and> y \<noteq> CHR ''/'' \<and> y \<noteq> CHR ''!''"
    using assms(1) by (cases t) (auto simp: tag_ok_def is_ascii_alphanumeric_def)
  then have l: "\<not> eof ?p" "looking_at ''</'' ?p = Some False" "looking_at ''<!--'' ?p = Some False" "looking_at ''<'' ?p = Some True"
    using vb by (auto simp: looking_at_between)
  have 1: "consume_char ?p = Some (''<'', between ''<'' ?b)" using consume_ascii [of "CHR ''<''" ?b "[]"] vb by simp
  have 2: "parse_tag_name (between ''<'' ?b) = Some (t, between (''<'' @ t) ('' /'' @ r))"
    by (rule tag_read [OF assms(1)]) (use assms(2) in simp_all)
  have "consume_whitespace (between (''<'' @ t) ('' /'' @ r)) = consume_whitespace (between ((''<'' @ t) @ '' '') (CHR ''/'' # r))"
    using space_skipped [of "'' ''" "CHR ''/'' # r" "''<'' @ t"] assms(2) by (simp add: space_ok_def)
  from tail_head_ws [OF this] have "parse_attributes (between (''<'' @ t) ('' /'' @ r)) = Runs_On"
    using slash_stuck [OF assms(2,3)] by (simp only: parse_attributes_def)
  then have "parse_open_tag ?p = Runs_On" using 1 2 by (simp add: parse_open_tag_def try_run_def)
  then have "parse_element n ?p = Runs_On" for n by (cases n) (simp_all add: parse_element.simps(2))
  then have "parse_nodes n ?p = Runs_On" for n
    using w l by (cases n) (auto simp: parse_nodes.simps(2) try_run_def)
  then show ?thesis by (simp add: html_parse_def parser_new_between)
qed

theorem slash_in_tag_hangs_witness: "html_parse ''<a /b>'' = Runs_On"
  using slash_in_tag_hangs [of "''a''" "''b>''"] by (simp add: tag_ok_def is_ascii_alphanumeric_def)

lemma inside_char:
  assumes "char_ok c" and "1 < length c"
  shows "consume_char (between a c) = Some (c, \<lparr>pos = length a + 1, input = a @ c\<rparr>)" and "tail \<lparr>pos = length a + 1, input = a @ c\<rparr> = None"
proof -
  have v: "utf8_valid c" and ch: "chars c = [c]" using chars_concat [of "[c]"] assms(1) by simp_all
  then show "consume_char (between a c) = Some (c, \<lparr>pos = length a + 1, input = a @ c\<rparr>)"
    by (simp add: consume_char_def tail_between)
  obtain b bs where "c = b # bs" "\<forall>d \<in> set bs. is_cont d" using char_ok_bytes [OF assms(1)] by metis
  then show "tail \<lparr>pos = length a + 1, input = a @ c\<rparr> = None" using assms(2)
    by (auto simp: tail_def is_char_boundary_def nth_append neq_Nil_conv)
qed

lemma consume_while_cut:
  assumes "\<forall>c \<in> set (cs @ [d]). char_ok c \<and> test c" and "1 < length d"
  shows "consume_while test (between a (concat cs @ d)) = None"
  using assms(1)
proof (induction cs arbitrary: a)
  case Nil
  have v: "utf8_valid d" "chars d = [d]" using chars_concat [of "[d]"] Nil by simp_all
  then have "next_char (between a d) = Some d" by (simp add: next_char_def tail_between)
  moreover have "consume_while test \<lparr>pos = length a + 1, input = a @ d\<rparr> = None"
    using inside_char(2) [of d a] Nil assms(2) by (subst consume_while.simps) (simp add: eof_def next_char_def)
  moreover have "d \<noteq> []" using assms(2) by auto
  ultimately show ?case using inside_char(1) [of d a] Nil assms(2) by (subst consume_while.simps) simp
next
  case (Cons c cs)
  have ok: "\<forall>e \<in> set (cs @ [d]). char_ok e" using Cons.prems by simp
  have v: "utf8_valid (concat cs @ d)" using chars_concat [OF ok] by simp
  have d: "d \<noteq> []" using assms(2) by auto
  have 1: "next_char (between a (c @ concat cs @ d)) = Some c" "consume_char (between a (c @ concat cs @ d)) = Some (c, between (a @ c) (concat cs @ d))"
    using next_char_between [OF _ v] consume_char_between [OF _ v] Cons.prems d by simp_all
  then show ?case using Cons d by (subst consume_while.simps) simp
qed

text \<open>Property: A page that ends in a text whose last character has more than one byte makes the parser panic: the cursor moves by one byte at the last character
  and is sliced inside it.\<close>

theorem multibyte_end_panics:
  assumes "node_ok (W_Text s)" and "1 < length (last (chars s))"
  shows "html_parse s = Panics"
proof -
  have s: "s \<noteq> []" "utf8_valid s" "CHR ''<'' \<notin> set s" "\<not> is_whitespace (hd (chars s))" using assms(1) by simp_all
  let ?p = "between [] s"
  have cs: "concat (butlast (chars s)) @ last (chars s) = s" "set (butlast (chars s) @ [last (chars s)]) = set (chars s)"
    using append_butlast_last_id [of "chars s"] concat_chars [of s] chars_Nil [of s] s(1)
    by (metis concat.simps(1,2) concat_append append_Nil2)+
  have "''<'' \<notin> set (chars s)" using ascii_in_chars [OF s(2), of "CHR ''<''"] s(3) by simp
  then have "consume_while (\<lambda>c. c \<noteq> ''<'') (between [] (concat (butlast (chars s)) @ last (chars s))) = None"
    by (intro consume_while_cut) (use assms(2) cs chars_ok [OF s(2)] in auto)
  then have "parse_text ?p = None" using cs by (simp add: parse_text_def)
  moreover have "consume_whitespace ?p = Some ?p" using consume_whitespace_none [OF s(2), of "[]"] s by simp
  moreover have "\<not> eof ?p" "looking_at ''</'' ?p = Some False" "looking_at ''<!--'' ?p = Some False" "looking_at ''<'' ?p = Some False"
    using s(1,3) looking_at_between [OF s(2)] by (cases s; auto)+
  ultimately have "parse_nodes (Suc n) ?p = Panics" for n by (auto simp: parse_nodes.simps(2) try_run_def)
  then show ?thesis by (simp add: html_parse_def html_fuel_def parser_new_between)
qed

theorem multibyte_end_panics_witness: "html_parse [CHR ''a'', CHR 0xC3, CHR 0xA9] = Panics"
  using multibyte_end_panics [of "[CHR ''a'', CHR 0xC3, CHR 0xA9]"]
  by (simp add: utf8_step_def utf8_lead_def cont_in_def Let_def is_whitespace_def ws_seqs_def)

end
