(* ===== verification/Br_Css.thy ===== *)
theory Br_Css
  imports Br_Html "HOL-Library.Product_Lexorder"
begin

text \<open>
  The style sheets of \<open>2026-08-26-rust-browser-engine/src/css.rs\<close>: selectors and their specificity, values, and the parser, which
  works on the same cursor as the HTML parser (the file has a copy of its methods). Panics are \<open>None\<close>. Numbers of type \<open>f32\<close> are values of
  a type parameter \<open>'f\<close>; reading one from text (\<open>str::parse\<close>) is the parameter \<open>parse_f32\<close>.
\<close>

section \<open>Style sheets\<close>

record SimpleSelector =
  sel_tag_name :: "string option"
  sel_id :: "string option"
  sel_class :: "string list"

datatype Selector = Simple SimpleSelector

datatype Unit = Px

record Color =
  col_r :: u8
  col_g :: u8
  col_b :: u8
  col_a :: u8

definition color_rgb :: "u8 \<Rightarrow> u8 \<Rightarrow> u8 \<Rightarrow> Color" where
  "color_rgb r g b = \<lparr>col_r = r, col_g = g, col_b = b, col_a = 255\<rparr>"

datatype 'f Value = Keyword string | Length 'f Unit | ColorValue Color

record 'f Declaration =
  decl_name :: string
  decl_value :: "'f Value"

record 'f Rule =
  selectors :: "Selector list"
  declarations :: "'f Declaration list"

record 'f Stylesheet =
  rules :: "'f Rule list"

type_synonym Specificity = "nat \<times> nat \<times> nat"

fun specificity :: "Selector \<Rightarrow> Specificity" where
  "specificity (Simple s) =
     (if sel_id s = None then 0 else 1, length (sel_class s), if sel_tag_name s = None then 0 else 1)"

fun to_px :: "'f \<Rightarrow> 'f Value \<Rightarrow> 'f" where
  "to_px zero (Length f Px) = f"
| "to_px zero v = zero"

text \<open>\<open>{:02x}\<close> of a byte, and the text of a value; \<open>show_f32\<close> is the text of a number.\<close>

definition hex_digit :: "nat \<Rightarrow> char" where
  "hex_digit d = (if d < 10 then char_of (48 + d) else char_of (87 + d))"

definition hex_byte :: "u8 \<Rightarrow> string" where
  "hex_byte b = [hex_digit (unat b div 16), hex_digit (unat b mod 16)]"

fun show_value :: "('f \<Rightarrow> string) \<Rightarrow> 'f Value \<Rightarrow> string" where
  "show_value show_f32 (Keyword k) = k"
| "show_value show_f32 (Length f Px) = show_f32 f @ ''px''"
| "show_value show_f32 (ColorValue c) = ''#'' @ hex_byte (col_r c) @ hex_byte (col_g c) @ hex_byte (col_b c)"

section \<open>The parser\<close>

definition valid_identifier_char :: "rchar \<Rightarrow> bool" where
  "valid_identifier_char c \<longleftrightarrow> is_ascii_alphanumeric c \<or> c = ''-'' \<or> c = ''_''"

definition parse_identifier :: "Parser \<Rightarrow> (string \<times> Parser) option" where
  "parse_identifier p = consume_while valid_identifier_char p"

text \<open>An iteration of the loop of \<open>parse_simple_selector\<close>; \<open>Some None\<close> leaves it.\<close>

definition selector_part :: "SimpleSelector \<Rightarrow> Parser \<Rightarrow> (SimpleSelector \<times> Parser) option option" where
  "selector_part sel p =
     Option.bind (next_char p) (\<lambda>c.
     if c = ''#'' then
       Option.bind (consume_char p) (\<lambda>(d, p1). Option.bind (parse_identifier p1) (\<lambda>(i, p2). Some (Some (sel\<lparr>sel_id := Some i\<rparr>, p2))))
     else if c = ''.'' then
       Option.bind (consume_char p) (\<lambda>(d, p1). Option.bind (parse_identifier p1) (\<lambda>(i, p2). Some (Some (sel\<lparr>sel_class := sel_class sel @ [i]\<rparr>, p2))))
     else if c = ''*'' then
       Option.bind (consume_char p) (\<lambda>(d, p1). Some (Some (sel, p1)))
     else if valid_identifier_char c then
       Option.bind (parse_identifier p) (\<lambda>(i, p1). Some (Some (sel\<lparr>sel_tag_name := Some i\<rparr>, p1)))
     else Some None)"

lemma consume_while_onward: "consume_while test p = Some (s, p') \<Longrightarrow> \<not> eof p \<Longrightarrow> next_char p = Some c \<Longrightarrow> test c \<Longrightarrow> onward p p'"
  by (subst (asm) consume_while.simps)
    (auto split: option.splits dest!: consume_char_onward consume_while_forward dest: onward_trans)

lemma parse_identifier_forward: "parse_identifier p = Some (i, p') \<Longrightarrow> forward p p'"
  unfolding parse_identifier_def by (rule consume_while_forward)

lemma selector_part_onward:
  assumes "selector_part sel p = Some (Some (sel', p'))" and "\<not> eof p"
  shows "onward p p'"
  using assms(1) consume_while_onward [of valid_identifier_char p _ p'] assms(2)
  by (auto simp: selector_part_def bind_eq_Some_conv parse_identifier_def split: if_splits
      dest!: consume_char_onward dest: consume_while_forward onward_trans)

function simple_selector_loop :: "SimpleSelector \<Rightarrow> Parser \<Rightarrow> (SimpleSelector \<times> Parser) option" where
  "simple_selector_loop sel p =
     (if eof p then Some (sel, p)
      else (case selector_part sel p of
              None \<Rightarrow> None
            | Some None \<Rightarrow> Some (sel, p)
            | Some (Some (sel', p')) \<Rightarrow> simple_selector_loop sel' p'))"
  by pat_completeness auto
termination
  by (relation "measure (\<lambda>(sel, p). remaining p)") (auto dest: selector_part_onward intro: onward_remaining)

declare simple_selector_loop.simps [simp del]

definition parse_simple_selector :: "Parser \<Rightarrow> (SimpleSelector \<times> Parser) option" where
  "parse_simple_selector p = simple_selector_loop \<lparr>sel_tag_name = None, sel_id = None, sel_class = []\<rparr> p"

lemma simple_selector_loop_forward: "simple_selector_loop sel p = Some (s, p') \<Longrightarrow> forward p p'"
proof (induction sel p rule: simple_selector_loop.induct)
  case (1 sel p)
  show ?case
  proof (cases "eof p \<or> selector_part sel p = Some None")
    case True
    then show ?thesis using "1.prems" by (subst (asm) simple_selector_loop.simps) (auto split: if_splits)
  next
    case False
    then obtain sel' p1 where s: "selector_part sel p = Some (Some (sel', p1))" "simple_selector_loop sel' p1 = Some (s, p')"
      using "1.prems" by (subst (asm) simple_selector_loop.simps) (auto split: option.splits)
    have "forward p1 p'" using "1.IH" [of "Some (sel', p1)" "(sel', p1)" sel' p1] False s by simp
    then show ?thesis using selector_part_onward [OF s(1)] False onward_trans(1) onward_forward by blast
  qed
qed

function selectors_loop :: "Selector list \<Rightarrow> Parser \<Rightarrow> (Selector list \<times> Parser) option" where
  "selectors_loop acc p =
     (case parse_simple_selector p of
        None \<Rightarrow> None
      | Some (s, p1) \<Rightarrow>
          (case consume_whitespace p1 of
             None \<Rightarrow> None
           | Some p2 \<Rightarrow>
               (case next_char p2 of
                  None \<Rightarrow> None
                | Some c \<Rightarrow>
                    if c = '','' then
                      (case consume_char p2 of
                         None \<Rightarrow> None
                       | Some (d, p3) \<Rightarrow>
                           (case consume_whitespace p3 of None \<Rightarrow> None | Some p4 \<Rightarrow> selectors_loop (acc @ [Simple s]) p4))
                    else if c = ''{'' then Some (acc @ [Simple s], p2)
                    else None)))"
  by pat_completeness auto
termination
proof (relation "measure (\<lambda>(acc, p). remaining p)", goal_cases)
  case (2 acc p sp s p1 p2 c dp d p3 p4)
  have "forward p p1" using 2 simple_selector_loop_forward by (auto simp: parse_simple_selector_def)
  then have "remaining p2 \<le> remaining p" using 2 consume_whitespace_forward forward_remaining forward_trans by blast
  moreover have "remaining p3 < remaining p2" using 2 consume_char_remaining by metis
  moreover have "remaining p4 \<le> remaining p3" using 2 consume_whitespace_forward forward_remaining by blast
  ultimately show ?case by simp
qed simp

declare selectors_loop.simps [simp del]

text \<open>\<open>sort_by_key\<close> is stable, and the key is reversed: the most specific selectors come first.\<close>

definition reversed_specificity :: "Selector \<Rightarrow> int \<times> int \<times> int" where
  "reversed_specificity s = (case specificity s of (a, b, c) \<Rightarrow> (- int a, - int b, - int c))"

definition parse_selectors :: "Parser \<Rightarrow> (Selector list \<times> Parser) option" where
  "parse_selectors p = map_option (map_prod (sort_key reversed_specificity) id) (selectors_loop [] p)"


text \<open>\<open>u8::from_str_radix(s, 16)\<close>.\<close>

definition hex_value :: "char \<Rightarrow> nat option" where
  "hex_value c = (let n = code_of c in
     if 48 \<le> n \<and> n \<le> 57 then Some (n - 48) else if 97 \<le> n \<and> n \<le> 102 then Some (n - 87)
     else if 65 \<le> n \<and> n \<le> 70 then Some (n - 55) else None)"

fun hex_digits :: "nat \<Rightarrow> string \<Rightarrow> nat option" where
  "hex_digits acc [] = Some acc"
| "hex_digits acc (c # cs) = (case hex_value c of
     None \<Rightarrow> None
   | Some d \<Rightarrow> if 16 * acc + d > 255 then None else hex_digits (16 * acc + d) cs)"

definition from_str_radix_16 :: "string \<Rightarrow> u8 option" where
  "from_str_radix_16 s = map_option of_nat
     (case s of
        [] \<Rightarrow> None
      | c # cs \<Rightarrow> if c = CHR ''+'' then (if cs = [] then None else hex_digits 0 cs) else hex_digits 0 s)"

definition hex_pair :: "string \<Rightarrow> nat \<Rightarrow> u8 option" where
  "hex_pair h index = from_str_radix_16 (take 2 (drop index h))"

text \<open>\<open>v * 16 + v\<close> would panic on overflow.\<close>

definition hex_nibble :: "string \<Rightarrow> nat \<Rightarrow> u8 option" where
  "hex_nibble h index = Option.bind (from_str_radix_16 (take 1 (drop index h)))
     (\<lambda>v. if 255 < unat v * 16 + unat v then None else Some (v * 16 + v))"

definition is_ascii_hexdigit :: "rchar \<Rightarrow> bool" where
  "is_ascii_hexdigit c = (case c of [b] \<Rightarrow> hex_value b \<noteq> None | _ \<Rightarrow> False)"

definition hex_color :: "string \<Rightarrow> Color option" where
  "hex_color h =
     (if length h = 6 \<or> length h = 8 then
        Option.bind (hex_pair h 0) (\<lambda>r. Option.bind (hex_pair h 2) (\<lambda>g. Option.bind (hex_pair h 4) (\<lambda>b.
        Option.bind (if length h = 6 then Some 255 else hex_pair h 6) (\<lambda>a.
        Some \<lparr>col_r = r, col_g = g, col_b = b, col_a = a\<rparr>))))
      else if length h = 3 then
        Option.bind (hex_nibble h 0) (\<lambda>r. Option.bind (hex_nibble h 1) (\<lambda>g. Option.bind (hex_nibble h 2) (\<lambda>b.
        Some \<lparr>col_r = r, col_g = g, col_b = b, col_a = 255\<rparr>)))
      else None)"

definition parse_color :: "Parser \<Rightarrow> ('f Value \<times> Parser) option" where
  "parse_color p =
     Option.bind (consume_char p) (\<lambda>(c, p1).
     if c \<noteq> ''#'' then None else
     Option.bind (consume_while is_ascii_hexdigit p1) (\<lambda>(h, p2).
     Option.bind (hex_color h) (\<lambda>color. Some (ColorValue color, p2))))"

definition float_char :: "rchar \<Rightarrow> bool" where
  "float_char c \<longleftrightarrow> (case c of [b] \<Rightarrow> digit_val b \<noteq> None | _ \<Rightarrow> False) \<or> c = ''.''"

definition parse_float :: "(string \<Rightarrow> 'f option) \<Rightarrow> Parser \<Rightarrow> ('f \<times> Parser) option" where
  "parse_float parse_f32 p =
     Option.bind (consume_while float_char p) (\<lambda>(s, p1). Option.bind (parse_f32 s) (\<lambda>f. Some (f, p1)))"

definition parse_length :: "(string \<Rightarrow> 'f option) \<Rightarrow> Parser \<Rightarrow> ('f Value \<times> Parser) option" where
  "parse_length parse_f32 p =
     Option.bind (parse_float parse_f32 p) (\<lambda>(num, p1).
     Option.bind (parse_identifier p1) (\<lambda>(u, p2).
     let unit = (if u = [] then ''px'' else u) in
     if to_ascii_lowercase unit = ''px'' then Some (Length num Px, p2) else None))"

definition parse_value :: "(string \<Rightarrow> 'f option) \<Rightarrow> Parser \<Rightarrow> ('f Value \<times> Parser) option" where
  "parse_value parse_f32 p =
     Option.bind (next_char p) (\<lambda>c.
     if float_char c then parse_length parse_f32 p
     else if c = ''#'' then parse_color p
     else map_option (map_prod Keyword id) (parse_identifier p))"

definition parse_declaration :: "(string \<Rightarrow> 'f option) \<Rightarrow> Parser \<Rightarrow> ('f Declaration \<times> Parser) option" where
  "parse_declaration parse_f32 p =
     Option.bind (parse_identifier p) (\<lambda>(name, p1).
     Option.bind (consume_whitespace p1) (\<lambda>p2.
     Option.bind (consume_char p2) (\<lambda>(c, p3).
     if c \<noteq> '':'' then None else
     Option.bind (consume_whitespace p3) (\<lambda>p4.
     Option.bind (parse_value parse_f32 p4) (\<lambda>(v, p5).
     Option.bind (consume_whitespace p5) (\<lambda>p6.
     Option.bind (if eof p6 then Some False else map_option (\<lambda>c. c = '';'') (next_char p6)) (\<lambda>semi.
     Option.bind (if semi then map_option snd (consume_char p6) else Some p6) (\<lambda>p7.
     Some (\<lparr>decl_name = name, decl_value = v\<rparr>, p7)))))))))"

lemma parse_value_forward: "parse_value parse_f32 p = Some (v, p') \<Longrightarrow> forward p p'"
proof -
  assume "parse_value parse_f32 p = Some (v, p')"
  then consider f p1 where "parse_float parse_f32 p = Some (f, p1)" "\<exists>u. parse_identifier p1 = Some (u, p')"
    | c p1 h where "consume_char p = Some (c, p1)" "consume_while is_ascii_hexdigit p1 = Some (h, p')"
    | k where "parse_identifier p = Some (k, p')"
    by (auto simp: parse_value_def parse_length_def parse_color_def bind_eq_Some_conv Let_def split: if_splits)
  then show ?thesis
  proof cases
    case (1 f p1)
    have "forward p p1" using 1(1) consume_while_forward [of float_char p _ p1] by (auto simp: parse_float_def bind_eq_Some_conv)
    then show ?thesis using 1(2) parse_identifier_forward forward_trans by blast
  next
    case (2 c p1 h)
    then show ?thesis using consume_char_onward consume_while_forward [OF 2(2)] onward_forward forward_trans by blast
  qed (rule parse_identifier_forward)
qed

lemma parse_declaration_remaining: "parse_declaration parse_f32 p = Some (d, p') \<Longrightarrow> remaining p' < remaining p"
proof -
  assume "parse_declaration parse_f32 p = Some (d, p')"
  then obtain n p1 p2 c p3 p4 v p5 p6 where s: "parse_identifier p = Some (n, p1)" "consume_whitespace p1 = Some p2" "consume_char p2 = Some (c, p3)"
    "consume_whitespace p3 = Some p4" "parse_value parse_f32 p4 = Some (v, p5)" "consume_whitespace p5 = Some p6"
    "p' = p6 \<or> (\<exists>e. consume_char p6 = Some (e, p'))"
    by (auto simp: parse_declaration_def bind_eq_Some_conv split: if_splits)
  have "remaining p2 \<le> remaining p" using parse_identifier_forward [OF s(1)] consume_whitespace_forward [OF s(2)] forward_trans forward_remaining by blast
  moreover have "remaining p3 < remaining p2" using consume_char_remaining [OF s(3)] .
  moreover have "remaining p6 \<le> remaining p3"
    using consume_whitespace_forward [OF s(4)] parse_value_forward [OF s(5)] consume_whitespace_forward [OF s(6)] forward_trans forward_remaining by blast
  moreover have "remaining p' \<le> remaining p6" using s(7) consume_char_remaining by fastforce
  ultimately show ?thesis by simp
qed

function declarations_loop :: "(string \<Rightarrow> 'f option) \<Rightarrow> Parser \<Rightarrow> ('f Declaration list \<times> Parser) option" where
  "declarations_loop parse_f32 p =
     (case consume_whitespace p of
        None \<Rightarrow> None
      | Some p1 \<Rightarrow>
          (case next_char p1 of
             None \<Rightarrow> None
           | Some c \<Rightarrow>
               if c = ''}'' then map_option (\<lambda>(d, p2). ([], p2)) (consume_char p1)
               else (case parse_declaration parse_f32 p1 of
                       None \<Rightarrow> None
                     | Some (d, p2) \<Rightarrow>
                         (case declarations_loop parse_f32 p2 of None \<Rightarrow> None | Some (ds, p3) \<Rightarrow> Some (d # ds, p3)))))"
  by pat_completeness auto
termination
proof (relation "measure (\<lambda>(f, p). remaining p)", goal_cases)
  case (2 parse_f32 p p1 c dp d p2)
  then have "remaining p2 < remaining p1" using parse_declaration_remaining by metis
  then show ?case using 2 forward_remaining [OF consume_whitespace_forward, of p p1] by simp
qed simp

declare declarations_loop.simps [simp del]

definition parse_declarations :: "(string \<Rightarrow> 'f option) \<Rightarrow> Parser \<Rightarrow> ('f Declaration list \<times> Parser) option" where
  "parse_declarations parse_f32 p =
     Option.bind (consume_char p) (\<lambda>(c, p1). if c \<noteq> ''{'' then None else declarations_loop parse_f32 p1)"

definition parse_rule :: "(string \<Rightarrow> 'f option) \<Rightarrow> Parser \<Rightarrow> ('f Rule \<times> Parser) option" where
  "parse_rule parse_f32 p =
     Option.bind (parse_selectors p) (\<lambda>(sels, p1).
     Option.bind (parse_declarations parse_f32 p1) (\<lambda>(decls, p2). Some (\<lparr>selectors = sels, declarations = decls\<rparr>, p2)))"

lemma selectors_loop_remaining: "selectors_loop acc p = Some (sels, p') \<Longrightarrow> remaining p' \<le> remaining p"
proof (induction acc p rule: selectors_loop.induct)
  case (1 acc p)
  then obtain s p1 p2 c where s: "parse_simple_selector p = Some (s, p1)" "consume_whitespace p1 = Some p2" "next_char p2 = Some c"
    by (subst (asm) selectors_loop.simps) (auto split: option.splits)
  have "forward p p1" using s(1) simple_selector_loop_forward by (simp add: parse_simple_selector_def)
  then have r: "remaining p2 \<le> remaining p" using consume_whitespace_forward [OF s(2)] forward_trans forward_remaining by blast
  show ?case
  proof (cases "c = '',''")
    case True
    then obtain d p3 p4 where t: "consume_char p2 = Some (d, p3)" "consume_whitespace p3 = Some p4" "selectors_loop (acc @ [Simple s]) p4 = Some (sels, p')"
      using "1.prems" s by (subst (asm) selectors_loop.simps) (auto split: option.splits)
    have "remaining p' \<le> remaining p4" using "1.IH" [OF s(1) refl s(2,3) True t(1) refl t(2,3)] .
    then show ?thesis using r consume_char_remaining [OF t(1)] forward_remaining [OF consume_whitespace_forward [OF t(2)]] by simp
  next
    case False
    then show ?thesis using "1.prems" s r by (subst (asm) selectors_loop.simps) (auto split: if_splits)
  qed
qed

lemma declarations_loop_remaining: "declarations_loop parse_f32 p = Some (ds, p') \<Longrightarrow> remaining p' \<le> remaining p"
proof (induction parse_f32 p arbitrary: ds rule: declarations_loop.induct)
  case (1 parse_f32 p)
  then obtain p1 c where s: "consume_whitespace p = Some p1" "next_char p1 = Some c"
    by (subst (asm) declarations_loop.simps) (auto split: option.splits)
  have r: "remaining p1 \<le> remaining p" using consume_whitespace_forward [OF s(1)] by (rule forward_remaining)
  show ?case
  proof (cases "c = ''}''")
    case True
    then show ?thesis using "1.prems" s r consume_char_remaining [of p1]
      by (subst (asm) declarations_loop.simps) (force split: option.splits)
  next
    case False
    then obtain d p2 ds' where t: "parse_declaration parse_f32 p1 = Some (d, p2)" "declarations_loop parse_f32 p2 = Some (ds', p')"
      using "1.prems" s by (subst (asm) declarations_loop.simps) (auto split: option.splits)
    have "remaining p' \<le> remaining p2" using "1.IH" [OF s False t(1) refl t(2)] .
    then show ?thesis using r parse_declaration_remaining [OF t(1)] by simp
  qed
qed

lemma parse_rule_remaining: "parse_rule parse_f32 p = Some (r, p') \<Longrightarrow> remaining p' < remaining p"
proof -
  assume "parse_rule parse_f32 p = Some (r, p')"
  then obtain ss p1 c p2 ds where s: "selectors_loop [] p = Some (ss, p1)" "consume_char p1 = Some (c, p2)" "declarations_loop parse_f32 p2 = Some (ds, p')"
    by (auto simp: parse_rule_def parse_selectors_def parse_declarations_def bind_eq_Some_conv split: if_splits)
  then show ?thesis using selectors_loop_remaining [OF s(1)] consume_char_remaining [OF s(2)] declarations_loop_remaining [OF s(3)] by simp
qed

function rules_loop :: "(string \<Rightarrow> 'f option) \<Rightarrow> Parser \<Rightarrow> ('f Rule list \<times> Parser) option" where
  "rules_loop parse_f32 p =
     (case consume_whitespace p of
        None \<Rightarrow> None
      | Some p1 \<Rightarrow>
          if eof p1 then Some ([], p1)
          else (case parse_rule parse_f32 p1 of
                  None \<Rightarrow> None
                | Some (r, p2) \<Rightarrow>
                    (case rules_loop parse_f32 p2 of None \<Rightarrow> None | Some (rs, p3) \<Rightarrow> Some (r # rs, p3))))"
  by pat_completeness auto
termination
proof (relation "measure (\<lambda>(f, p). remaining p)", goal_cases)
  case (2 parse_f32 p p1 rp r p2)
  then have "remaining p2 < remaining p1" using parse_rule_remaining by metis
  then show ?case using 2 forward_remaining [OF consume_whitespace_forward, of p p1] by simp
qed simp

declare rules_loop.simps [simp del]

definition css_parse :: "(string \<Rightarrow> 'f option) \<Rightarrow> string \<Rightarrow> 'f Stylesheet option" where
  "css_parse parse_f32 source = map_option (\<lambda>(rs, p). \<lparr>rules = rs\<rparr>) (rules_loop parse_f32 (parser_new source))"

section \<open>Written style sheets\<close>

text \<open>A style sheet as an author writes it, in one style of spacing.\<close>

definition write_classes :: "string list \<Rightarrow> string" where
  "write_classes cs = concat (map (\<lambda>c. CHR ''.'' # c) cs)"

fun write_selector :: "Selector \<Rightarrow> string" where
  "write_selector (Simple s) =
     (case sel_tag_name s of None \<Rightarrow> ''*'' | Some t \<Rightarrow> t) @ (case sel_id s of None \<Rightarrow> [] | Some i \<Rightarrow> ''#'' @ i) @
     write_classes (sel_class s)"

definition write_declaration :: "('f \<Rightarrow> string) \<Rightarrow> 'f Declaration \<Rightarrow> string" where
  "write_declaration show_f32 d = decl_name d @ '': '' @ show_value show_f32 (decl_value d) @ '';''"

definition write_rule :: "('f \<Rightarrow> string) \<Rightarrow> 'f Rule \<Rightarrow> string" where
  "write_rule show_f32 r =
     join_with '', '' (map write_selector (selectors r)) @ '' { '' @
     concat (map (\<lambda>d. write_declaration show_f32 d @ '' '') (declarations r)) @ ''}'' @ [CHR 0x0A]"

definition write_sheet :: "('f \<Rightarrow> string) \<Rightarrow> 'f Rule list \<Rightarrow> string" where
  "write_sheet show_f32 rs = concat (map (write_rule show_f32) rs)"

definition ident_ok :: "string \<Rightarrow> bool" where
  "ident_ok s \<longleftrightarrow> list_all (\<lambda>b. valid_identifier_char [b]) s"

fun selector_ok :: "Selector \<Rightarrow> bool" where
  "selector_ok (Simple s) \<longleftrightarrow>
     (case sel_tag_name s of None \<Rightarrow> True | Some t \<Rightarrow> ident_ok t \<and> t \<noteq> []) \<and>
     (case sel_id s of None \<Rightarrow> True | Some i \<Rightarrow> ident_ok i) \<and> list_all ident_ok (sel_class s)"

text \<open>A number has to be written with digits and dots and to be read back; a colour is written without its opacity.\<close>

fun value_ok :: "(string \<Rightarrow> 'f option) \<Rightarrow> ('f \<Rightarrow> string) \<Rightarrow> 'f Value \<Rightarrow> bool" where
  "value_ok parse_f32 show_f32 (Keyword k) \<longleftrightarrow> ident_ok k \<and> (k = [] \<or> \<not> float_char [hd k])"
| "value_ok parse_f32 show_f32 (Length f Px) \<longleftrightarrow>
     show_f32 f \<noteq> [] \<and> list_all (\<lambda>b. float_char [b]) (show_f32 f) \<and> parse_f32 (show_f32 f) = Some f"
| "value_ok parse_f32 show_f32 (ColorValue c) \<longleftrightarrow> col_a c = 255"

definition rule_ok :: "(string \<Rightarrow> 'f option) \<Rightarrow> ('f \<Rightarrow> string) \<Rightarrow> 'f Rule \<Rightarrow> bool" where
  "rule_ok parse_f32 show_f32 r \<longleftrightarrow> selectors r \<noteq> [] \<and> list_all selector_ok (selectors r) \<and>
     list_all (\<lambda>d. ident_ok (decl_name d) \<and> value_ok parse_f32 show_f32 (decl_value d)) (declarations r)"

section \<open>Reading a written style sheet\<close>

lemma ascii_run:
  assumes "list_all (\<lambda>b. code_of b < 0x80 \<and> test [b]) s" and "utf8_valid b" and "b = [] \<or> \<not> test (hd (chars b))"
  shows "consume_while test (between a (s @ b)) = Some (s, between (a @ s) b)"
proof -
  have "chars s = map (\<lambda>x. [x]) s" using assms(1) by (induction s) (simp_all add: chars_ascii del: chars.simps(2))
  then have "list_all test (chars s)" "s \<noteq> [] \<longrightarrow> length (last (chars s)) = 1" using assms(1) by (auto simp: list_all_iff last_map)
  moreover have "utf8_valid s" using assms(1) by (intro utf8_valid_ascii) (auto simp: list_all_iff)
  moreover have "stops test (chars s) b" using assms(3) calculation(2) by (auto simp: stops_def)
  ultimately show ?thesis using consume_while_string assms(2) by blast
qed

text \<open>What cannot continue a run: the text is at its end, or a character of one byte that fails the test follows.\<close>

definition cut :: "(rchar \<Rightarrow> bool) \<Rightarrow> string \<Rightarrow> bool" where
  "cut test b \<longleftrightarrow> utf8_valid b \<and> (b = [] \<or> code_of (hd b) < 0x80 \<and> \<not> test [hd b])"

lemma cut_Nil [simp]: "cut test []"
  by (simp add: cut_def)

lemma cut_Cons [simp]: "code_of x < 0x80 \<Longrightarrow> cut test (x # b) \<longleftrightarrow> utf8_valid b \<and> \<not> test [x]"
  by (simp add: cut_def)

lemma cut_run:
  assumes "list_all (\<lambda>b. code_of b < 0x80 \<and> test [b]) s" and "cut test b"
  shows "consume_while test (between a (s @ b)) = Some (s, between (a @ s) b)"
  using assms ascii_run [of test s b a] by (cases b) (auto simp: cut_def chars_ascii simp del: chars.simps(2))

lemma identifier_ascii: "valid_identifier_char [b] \<Longrightarrow> code_of b < 0x80"
  by (auto simp: valid_identifier_char_def is_ascii_alphanumeric_def)

lemma identifier_read: "ident_ok i \<Longrightarrow> cut valid_identifier_char b \<Longrightarrow> parse_identifier (between a (i @ b)) = Some (i, between (a @ i) b)"
  unfolding parse_identifier_def by (rule cut_run) (auto simp: ident_ok_def list_all_iff identifier_ascii)

lemma ident_valid: "ident_ok i \<Longrightarrow> utf8_valid b \<Longrightarrow> utf8_valid (i @ b)"
proof -
  assume "ident_ok i" and b: "utf8_valid b"
  then have "utf8_valid i" by (intro utf8_valid_ascii) (auto simp: ident_ok_def list_all_iff identifier_ascii)
  then show ?thesis using b by (rule utf8_valid_append)
qed

subsection \<open>Colours\<close>

lemma hex_value_digit: "d < 16 \<Longrightarrow> hex_value (hex_digit d) = Some d"
  by (auto simp: hex_value_def hex_digit_def Let_def)

lemma hex_digit_ascii: "d < 16 \<Longrightarrow> code_of (hex_digit d) < (0x80::nat) \<and> hex_digit d \<noteq> CHR ''+''"
  by (auto simp: hex_digit_def char_of_nat_eq)

lemma unat_channel: "unat (b :: u8) < 256"
  using unsigned_less [of b, where ?'a = nat] by simp

lemma hex_byte_ascii: "list_all (\<lambda>b. code_of b < 0x80 \<and> is_ascii_hexdigit [b]) (hex_byte b)"
  using unat_channel [of b] hex_value_digit hex_digit_ascii by (auto simp: hex_byte_def is_ascii_hexdigit_def)

lemma hex_byte_read: "from_str_radix_16 (hex_byte b) = Some b"
proof -
  have u: "unat b < 256" by (rule unat_channel)
  then have d: "unat b div 16 < 16" "unat b mod 16 < 16" by auto
  then have "16 * (unat b div 16) + unat b mod 16 = unat b" by simp
  then show ?thesis using d u hex_digit_ascii [OF d(1)] by (simp add: from_str_radix_16_def hex_byte_def hex_value_digit)
qed

lemma hex_color_read:
  "hex_color (hex_byte r @ hex_byte g @ hex_byte b) = Some \<lparr>col_r = r, col_g = g, col_b = b, col_a = 255\<rparr>"
  "hex_color (hex_byte r @ hex_byte g @ hex_byte b @ hex_byte a) = Some \<lparr>col_r = r, col_g = g, col_b = b, col_a = a\<rparr>"
proof -
  have l: "length (hex_byte x) = 2" for x by (simp add: hex_byte_def)
  show "hex_color (hex_byte r @ hex_byte g @ hex_byte b) = Some \<lparr>col_r = r, col_g = g, col_b = b, col_a = 255\<rparr>"
    by (simp add: hex_color_def l hex_pair_def hex_byte_read)
  show "hex_color (hex_byte r @ hex_byte g @ hex_byte b @ hex_byte a) = Some \<lparr>col_r = r, col_g = g, col_b = b, col_a = a\<rparr>"
    by (simp add: hex_color_def l hex_pair_def hex_byte_read)
qed

lemma color_read:
  assumes "list_all (\<lambda>b. code_of b < 0x80 \<and> is_ascii_hexdigit [b]) h" and "hex_color h = Some c" and "cut is_ascii_hexdigit b"
  shows "parse_value parse_f32 (between a (CHR ''#'' # h @ b)) = Some (ColorValue c, between (a @ CHR ''#'' # h) b)"
proof -
  have "utf8_valid h" using assms(1) by (intro utf8_valid_ascii) (auto simp: list_all_iff)
  then have v: "utf8_valid (h @ b)" using assms(3) by (simp add: cut_def utf8_valid_append)
  have "next_char (between a (CHR ''#'' # h @ b)) = Some ''#''" using next_char_between [of "''#''" "h @ b" a] v by simp
  moreover have "consume_char (between a (CHR ''#'' # h @ b)) = Some (''#'', between (a @ ''#'') (h @ b))"
    using consume_ascii [of "CHR ''#''" "h @ b" a] v by simp
  moreover have "consume_while is_ascii_hexdigit (between (a @ ''#'') (h @ b)) = Some (h, between ((a @ ''#'') @ h) b)"
    by (rule cut_run [OF assms(1,3)])
  moreover have "\<not> float_char ''#''" by (simp add: float_char_def digit_val_def)
  ultimately show ?thesis using assms(2) by (simp add: parse_value_def parse_color_def)
qed

subsection \<open>Selectors\<close>

lemma next_ascii: "code_of x < 0x80 \<Longrightarrow> utf8_valid b \<Longrightarrow> next_char (between a (x # b)) = Some [x]"
  using next_char_between [of "[x]" b a] by simp

lemma punctuation_no_identifier [simp]:
  "\<not> valid_identifier_char ''#''" "\<not> valid_identifier_char ''.''" "\<not> valid_identifier_char ''*''" "\<not> valid_identifier_char '',''"
  "\<not> valid_identifier_char '' ''" "\<not> valid_identifier_char ''{''" "\<not> valid_identifier_char ''}''" "\<not> valid_identifier_char '':''" "\<not> valid_identifier_char '';''"
  by (simp_all add: valid_identifier_char_def is_ascii_alphanumeric_def)

lemma selector_part_read:
  assumes "cut valid_identifier_char r" and "ident_ok i"
  shows "selector_part sel (between a (CHR ''#'' # i @ r)) = Some (Some (sel\<lparr>sel_id := Some i\<rparr>, between (a @ CHR ''#'' # i) r))"
    and "selector_part sel (between a (CHR ''.'' # i @ r)) = Some (Some (sel\<lparr>sel_class := sel_class sel @ [i]\<rparr>, between (a @ CHR ''.'' # i) r))"
    and "i \<noteq> [] \<Longrightarrow> selector_part sel (between a (i @ r)) = Some (Some (sel\<lparr>sel_tag_name := Some i\<rparr>, between (a @ i) r))"
    and "selector_part sel (between a (CHR ''*'' # r)) = Some (Some (sel, between (a @ ''*'') r))"
proof -
  have vr: "utf8_valid r" "utf8_valid (i @ r)" using assms ident_valid by (auto simp: cut_def)
  show "selector_part sel (between a (CHR ''#'' # i @ r)) = Some (Some (sel\<lparr>sel_id := Some i\<rparr>, between (a @ CHR ''#'' # i) r))"
    using next_ascii [OF _ vr(2), of "CHR ''#''" a] consume_ascii [OF _ vr(2), of "CHR ''#''" a] identifier_read [OF assms(2,1), of "a @ ''#''"]
    by (simp add: selector_part_def)
  show "selector_part sel (between a (CHR ''.'' # i @ r)) = Some (Some (sel\<lparr>sel_class := sel_class sel @ [i]\<rparr>, between (a @ CHR ''.'' # i) r))"
    using next_ascii [OF _ vr(2), of "CHR ''.''" a] consume_ascii [OF _ vr(2), of "CHR ''.''" a] identifier_read [OF assms(2,1), of "a @ ''.''"]
    by (simp add: selector_part_def)
  show "selector_part sel (between a (CHR ''*'' # r)) = Some (Some (sel, between (a @ ''*'') r))"
    using next_ascii [OF _ vr(1), of "CHR ''*''" a] consume_ascii [OF _ vr(1), of "CHR ''*''" a] by (simp add: selector_part_def)
  assume "i \<noteq> []"
  then obtain x xs where i: "i = x # xs" by (cases i) auto
  then have x: "code_of x < 0x80" "valid_identifier_char [x]" using assms(2) identifier_ascii by (auto simp: ident_ok_def)
  moreover have "[x] \<noteq> ''#''" "[x] \<noteq> ''.''" "[x] \<noteq> ''*''" using x(2) punctuation_no_identifier by metis+
  moreover have "utf8_valid (xs @ r)" using vr(2) x(1) i by simp
  ultimately show "selector_part sel (between a (i @ r)) = Some (Some (sel\<lparr>sel_tag_name := Some i\<rparr>, between (a @ i) r))"
    using next_ascii [OF x(1), of "xs @ r" a] identifier_read [OF assms(2,1), of a] i by (simp add: selector_part_def)
qed

text \<open>What ends a selector.\<close>

definition selector_end :: "string \<Rightarrow> bool" where
  "selector_end b \<longleftrightarrow> (\<exists>x c. b = x # c \<and> utf8_valid c \<and> x \<in> {CHR '','', CHR '' '', CHR ''{''})"

lemma selector_end_stop:
  assumes "selector_end b"
  shows "simple_selector_loop sel (between a b) = Some (sel, between a b)" and "cut valid_identifier_char b"
proof -
  obtain x c where b: "b = x # c" "utf8_valid c" "x \<in> {CHR '','', CHR '' '', CHR ''{''}" using assms by (auto simp: selector_end_def)
  then have x: "code_of x < 0x80" by auto
  show "cut valid_identifier_char b" using b by auto
  have "selector_part sel (between a b) = Some None" using b next_ascii [OF x b(2), of a] by (auto simp: selector_part_def)
  then show "simple_selector_loop sel (between a b) = Some (sel, between a b)" using b(1) by (subst simple_selector_loop.simps) simp
qed

lemma selector_loop_step:
  "selector_part sel (between a b) = Some (Some (sel', p')) \<Longrightarrow> b \<noteq> [] \<Longrightarrow> simple_selector_loop sel (between a b) = simple_selector_loop sel' p'"
  by (subst simple_selector_loop.simps) simp

lemma classes_cut: "selector_end b \<Longrightarrow> list_all ident_ok cs \<Longrightarrow> cut valid_identifier_char (write_classes cs @ b)"
proof (induction cs)
  case (Cons c cs)
  then have "utf8_valid (c @ write_classes cs @ b)" using ident_valid by (simp add: cut_def)
  then show ?case by (simp add: write_classes_def)
qed (simp add: write_classes_def selector_end_stop)

lemma classes_read:
  assumes "selector_end b" and "list_all ident_ok cs"
  shows "simple_selector_loop sel (between a (write_classes cs @ b)) = Some (sel\<lparr>sel_class := sel_class sel @ cs\<rparr>, between (a @ write_classes cs) b)"
  using assms(2)
proof (induction cs arbitrary: sel a)
  case Nil
  then show ?case using selector_end_stop(1) [OF assms(1)] by (simp add: write_classes_def)
next
  case (Cons c cs)
  have "simple_selector_loop sel (between a (CHR ''.'' # c @ write_classes cs @ b)) =
      simple_selector_loop (sel\<lparr>sel_class := sel_class sel @ [c]\<rparr>) (between (a @ CHR ''.'' # c) (write_classes cs @ b))"
    by (rule selector_loop_step [OF selector_part_read(2)]) (use Cons.prems classes_cut [OF assms(1)] in simp_all)
  then show ?case using Cons by (simp add: write_classes_def)
qed

lemma selector_read:
  assumes ok: "selector_ok (Simple s)" and b: "selector_end b"
  shows "parse_simple_selector (between a (write_selector (Simple s) @ b)) = Some (s, between (a @ write_selector (Simple s)) b)"
proof -
  let ?init = "\<lparr>sel_tag_name = None, sel_id = None, sel_class = []\<rparr>"
  let ?c = "write_classes (sel_class s) @ b"
  define w where "w = (case sel_id s of None \<Rightarrow> [] | Some i \<Rightarrow> CHR ''#'' # i)"
  have cs: "list_all ident_ok (sel_class s)" using ok by simp
  have c: "cut valid_identifier_char ?c" by (rule classes_cut [OF b cs])
  have wc: "cut valid_identifier_char (w @ ?c)"
    using c ok ident_valid [of _ ?c] by (cases "sel_id s") (auto simp: w_def cut_def)
  have id: "simple_selector_loop sel (between a' (w @ ?c)) =
      Some (\<lparr>sel_tag_name = sel_tag_name sel, sel_id = sel_id s, sel_class = sel_class s\<rparr>, between (a' @ w @ write_classes (sel_class s)) b)"
    if "sel_id sel = None" "sel_class sel = []" for sel :: SimpleSelector and a'
  proof (cases "sel_id s")
    case None
    then show ?thesis using that classes_read [OF b cs, of sel a'] by (simp add: w_def)
  next
    case (Some i)
    have "simple_selector_loop sel (between a' (CHR ''#'' # i @ ?c)) = simple_selector_loop (sel\<lparr>sel_id := Some i\<rparr>) (between (a' @ CHR ''#'' # i) ?c)"
      by (rule selector_loop_step [OF selector_part_read(1) [OF c]]) (use ok Some in simp_all)
    then show ?thesis using that classes_read [OF b cs, of "sel\<lparr>sel_id := Some i\<rparr>" "a' @ CHR ''#'' # i"] Some by (simp add: w_def)
  qed
  define t where "t = (case sel_tag_name s of None \<Rightarrow> ''*'' | Some t \<Rightarrow> t)"
  have t: "simple_selector_loop ?init (between a (t @ w @ ?c)) = simple_selector_loop (?init\<lparr>sel_tag_name := sel_tag_name s\<rparr>) (between (a @ t) (w @ ?c))"
  proof (rule selector_loop_step)
    show "selector_part ?init (between a (t @ w @ ?c)) = Some (Some (?init\<lparr>sel_tag_name := sel_tag_name s\<rparr>, between (a @ t) (w @ ?c)))"
    proof (cases "sel_tag_name s")
      case None
      then show ?thesis using selector_part_read(4) [OF wc, of "[]" ?init a] by (simp add: t_def ident_ok_def)
    next
      case (Some n)
      then show ?thesis using selector_part_read(3) [OF wc, of n ?init a] ok by (simp add: t_def)
    qed
  qed (use b in \<open>auto simp: selector_end_def\<close>)
  have "write_selector (Simple s) = t @ w @ write_classes (sel_class s)" by (simp add: t_def w_def split: option.splits)
  then show ?thesis using t id [of "?init\<lparr>sel_tag_name := sel_tag_name s\<rparr>" "a @ t"] by (simp add: parse_simple_selector_def del: write_selector.simps)
qed

lemma selector_valid: "selector_ok s \<Longrightarrow> utf8_valid b \<Longrightarrow> utf8_valid (write_selector s @ b)"
proof (cases s)
  case (Simple s')
  assume "selector_ok s" "utf8_valid b"
  moreover have "list_all ident_ok cs \<Longrightarrow> utf8_valid (write_classes cs @ b)" for cs
    using \<open>utf8_valid b\<close> by (induction cs) (simp_all add: ident_valid write_classes_def)
  ultimately show ?thesis using Simple by (auto simp: ident_valid split: option.splits)
qed

lemma selectors_valid:
  "list_all selector_ok ss \<Longrightarrow> utf8_valid b \<Longrightarrow> utf8_valid (join_with '', '' (map write_selector ss) @ b)"
proof (induction ss rule: induct_list012)
  case (3 x y zs)
  then show ?case using selector_valid [of x] by simp
qed (simp_all add: selector_valid)

lemma selectors_read:
  assumes "ss \<noteq> []" and "list_all selector_ok ss" and b: "utf8_valid b"
  shows "selectors_loop acc (between a (join_with '', '' (map write_selector ss) @ '' {'' @ b)) =
    Some (acc @ ss, between (a @ join_with '', '' (map write_selector ss) @ '' '') (CHR ''{'' # b))"
  using assms(1,2)
proof (induction ss arbitrary: acc a rule: induct_list012)
  case (2 x)
  obtain s where x: "x = Simple s" by (cases x)
  have "selector_end ('' {'' @ b)" using b by (simp add: selector_end_def)
  then have 1: "parse_simple_selector (between a (write_selector x @ '' {'' @ b)) = Some (s, between (a @ write_selector x) ('' {'' @ b))"
    using selector_read [of s "'' {'' @ b" a] 2 x by (simp del: write_selector.simps)
  have 2: "consume_whitespace (between (a @ write_selector x) ('' {'' @ b)) = Some (between ((a @ write_selector x) @ '' '') (CHR ''{'' # b))"
    using space_consumed [of "CHR ''{'' # b" "a @ write_selector x"] b by (simp add: chars_ascii is_whitespace_ascii)
  show ?case using 1 2 next_ascii [of "CHR ''{''" b] b x by (subst selectors_loop.simps) (simp del: write_selector.simps)
next
  case (3 x y zs)
  obtain s where x: "x = Simple s" by (cases x)
  let ?r = "join_with '', '' (map write_selector (y # zs)) @ '' {'' @ b"
  have vr: "utf8_valid ?r" using selectors_valid [of "y # zs" "'' {'' @ b"] 3 b by simp
  have h: "?r \<noteq> [] \<and> \<not> is_whitespace (hd (chars ?r))"
  proof -
    obtain s' where y: "y = Simple s'" by (cases y)
    have "\<exists>z c. write_selector y = z # c \<and> code_of z < 0x80 \<and> (z = CHR ''*'' \<or> valid_identifier_char [z])"
      using "3.prems"(2) y identifier_ascii by (cases "sel_tag_name s'"; cases "the (sel_tag_name s')") (auto simp: ident_ok_def)
    then obtain z c where z: "write_selector y = z # c" "code_of z < 0x80" "z = CHR ''*'' \<or> valid_identifier_char [z]" by blast
    then obtain d where "?r = z # d" by (cases zs) auto
    moreover have "\<not> is_whitespace [z]" using z by (auto simp: is_whitespace_ascii valid_identifier_char_def is_ascii_alphanumeric_def)
    ultimately show ?thesis using z(2) by (simp add: chars_ascii del: chars.simps)
  qed
  have "selector_end ('', '' @ ?r)" using vr by (simp add: selector_end_def)
  then have 1: "parse_simple_selector (between a (write_selector x @ '', '' @ ?r)) = Some (s, between (a @ write_selector x) ('', '' @ ?r))"
    using selector_read [of s "'', '' @ ?r" a] 3 x by (simp del: write_selector.simps)
  have 2: "consume_whitespace (between (a @ write_selector x) ('', '' @ ?r)) = Some (between (a @ write_selector x) ('', '' @ ?r))"
    using no_space [of "CHR '',''" "CHR '' '' # ?r" "a @ write_selector x"] vr by (simp add: is_whitespace_ascii)
  have 3: "consume_char (between (a @ write_selector x) ('', '' @ ?r)) = Some ('','', between ((a @ write_selector x) @ '','') (CHR '' '' # ?r))"
    using consume_ascii [of "CHR '',''" "CHR '' '' # ?r" "a @ write_selector x"] vr by simp
  have 4: "consume_whitespace (between ((a @ write_selector x) @ '','') (CHR '' '' # ?r)) = Some (between (((a @ write_selector x) @ '','') @ '' '') ?r)"
    using space_consumed [of ?r "(a @ write_selector x) @ '',''"] vr h by simp
  have 5: "next_char (between (a @ write_selector x) ('', '' @ ?r)) = Some '',''"
    using next_ascii [of "CHR '',''" "CHR '' '' # ?r" "a @ write_selector x"] vr by simp
  have j: "join_with '', '' (map write_selector (x # y # zs)) @ '' {'' @ b = write_selector x @ '', '' @ ?r" by (simp del: write_selector.simps)
  have "selectors_loop acc (between a (write_selector x @ '', '' @ ?r)) = selectors_loop (acc @ [x]) (between (((a @ write_selector x) @ '','') @ '' '') ?r)"
    using 1 2 3 4 5 x by (subst selectors_loop.simps) (simp del: write_selector.simps)
  then show ?case unfolding j using "3.IH"(2) [of "acc @ [x]" "((a @ write_selector x) @ '','') @ '' ''"] "3.prems" by (simp del: write_selector.simps)
qed simp

subsection \<open>Declarations\<close>

lemma value_read_back:
  assumes "value_ok parse_f32 show_f32 v" and b: "utf8_valid b"
  shows "parse_value parse_f32 (between a (show_value show_f32 v @ CHR '';'' # b)) = Some (v, between (a @ show_value show_f32 v) (CHR '';'' # b))"
proof (cases v)
  case (Keyword k)
  have k: "ident_ok k" "k = [] \<or> \<not> float_char [hd k]" using assms(1) Keyword by auto
  have i: "parse_identifier (between a (k @ CHR '';'' # b)) = Some (k, between (a @ k) (CHR '';'' # b))"
    by (rule identifier_read) (use k b in simp_all)
  have "\<exists>x c. k @ CHR '';'' # b = x # c \<and> code_of x < 0x80 \<and> utf8_valid c \<and> \<not> float_char [x] \<and> x \<noteq> CHR ''#''"
  proof (cases k)
    case Nil
    then show ?thesis using b by (simp add: float_char_def digit_val_def)
  next
    case (Cons x xs)
    then have "valid_identifier_char [x]" "ident_ok xs" using k(1) by (simp_all add: ident_ok_def)
    moreover have "utf8_valid (xs @ CHR '';'' # b)" using ident_valid [of xs] calculation b by simp
    moreover have "x \<noteq> CHR ''#''" using calculation(1) punctuation_no_identifier(1) by metis
    ultimately show ?thesis using k(2) Cons identifier_ascii by simp
  qed
  then obtain x c where x: "k @ CHR '';'' # b = x # c" "code_of x < 0x80" "utf8_valid c" "\<not> float_char [x]" "x \<noteq> CHR ''#''" by blast
  then show ?thesis using i next_ascii [OF x(2,3), of a] Keyword by (simp add: parse_value_def)
next
  case (Length f u)
  have u: "u = Px" by (cases u)
  have f: "show_f32 f \<noteq> []" "list_all (\<lambda>b. float_char [b]) (show_f32 f)" "parse_f32 (show_f32 f) = Some f"
    using assms(1) Length u by simp_all
  have as: "code_of x < 0x80" if "float_char [x]" for x using that by (auto simp: float_char_def digit_val_def split: if_splits)
  have r: "list_all (\<lambda>b. code_of b < 0x80 \<and> float_char [b]) (show_f32 f)" using f(2) as by (auto simp: list_all_iff)
  have 1: "consume_while float_char (between a (show_f32 f @ ''px;'' @ b)) = Some (show_f32 f, between (a @ show_f32 f) (''px;'' @ b))"
    by (rule cut_run [OF r]) (use b in \<open>simp add: float_char_def digit_val_def\<close>)
  have 2: "parse_identifier (between (a @ show_f32 f) (''px'' @ CHR '';'' # b)) = Some (''px'', between ((a @ show_f32 f) @ ''px'') (CHR '';'' # b))"
    by (rule identifier_read) (use b in \<open>simp_all add: ident_ok_def valid_identifier_char_def is_ascii_alphanumeric_def\<close>)
  obtain x xs where x: "show_f32 f = x # xs" using f(1) by (cases "show_f32 f") auto
  have "utf8_valid xs" by (rule utf8_valid_ascii) (use r x in \<open>auto simp: list_all_iff\<close>)
  then have "utf8_valid (xs @ ''px;'' @ b)" using b by (simp add: utf8_valid_append)
  then have n: "next_char (between a (show_f32 f @ ''px;'' @ b)) = Some [x]" "float_char [x]"
    using next_ascii [of x "xs @ ''px;'' @ b" a] r x by simp_all
  have lo: "to_ascii_lowercase ''px'' = ''px''" by (simp add: to_ascii_lowercase_def ascii_lower_def)
  then show ?thesis using 1 2 n f(3) Length u by (simp add: parse_value_def parse_length_def parse_float_def Let_def)
next
  case (ColorValue c)
  let ?h = "hex_byte (col_r c) @ hex_byte (col_g c) @ hex_byte (col_b c)"
  have "hex_color ?h = Some c" using hex_color_read(1) [of "col_r c" "col_g c" "col_b c"] assms(1) ColorValue by (cases c) simp
  moreover have "list_all (\<lambda>b. code_of b < 0x80 \<and> is_ascii_hexdigit [b]) ?h" using hex_byte_ascii by simp
  moreover have "cut is_ascii_hexdigit (CHR '';'' # b)" using b by (simp add: is_ascii_hexdigit_def hex_value_def)
  ultimately show ?thesis using color_read [of ?h c "CHR '';'' # b" parse_f32 a] ColorValue by simp
qed

lemma value_text:
  assumes "value_ok parse_f32 show_f32 v" and "utf8_valid b"
  shows "utf8_valid (show_value show_f32 v @ CHR '';'' # b)"
    and "\<exists>x c. show_value show_f32 v @ CHR '';'' # b = x # c \<and> code_of x < 0x80 \<and> \<not> is_whitespace [x]"
proof -
  have as: "code_of x < 0x80 \<and> \<not> is_whitespace [x]" if "float_char [x] \<or> valid_identifier_char [x] \<or> x = CHR ''#'' \<or> x = CHR '';''" for x
    using that by (auto simp: float_char_def digit_val_def is_whitespace_ascii valid_identifier_char_def is_ascii_alphanumeric_def split: if_splits)
  have hv: "utf8_valid (hex_byte x)" for x
    using hex_byte_ascii [of x] by (intro utf8_valid_ascii) (auto simp: list_all_iff)
  have fv: "utf8_valid s" if "list_all (\<lambda>b. float_char [b]) s" for s
    using that as by (intro utf8_valid_ascii) (auto simp: list_all_iff)
  show "utf8_valid (show_value show_f32 v @ CHR '';'' # b)"
  proof (cases v)
    case (Length f u)
    then show ?thesis using assms fv [of "show_f32 f"] by (cases u) (simp add: utf8_valid_append)
  qed (use assms hv ident_valid in \<open>simp_all add: utf8_valid_append\<close>)
  show "\<exists>x c. show_value show_f32 v @ CHR '';'' # b = x # c \<and> code_of x < 0x80 \<and> \<not> is_whitespace [x]"
  proof (cases v)
    case (Keyword k)
    then show ?thesis using assms as by (cases k) (auto simp: ident_ok_def)
  next
    case (Length f u)
    then show ?thesis using assms as by (cases u; cases "show_f32 f") auto
  qed (simp add: is_whitespace_ascii)
qed

lemma declaration_read:
  assumes "ident_ok (decl_name d)" and v: "value_ok parse_f32 show_f32 (decl_value d)" and b: "utf8_valid b"
  shows "parse_declaration parse_f32 (between a (write_declaration show_f32 d @ b)) = Some (d, between (a @ write_declaration show_f32 d) b)"
proof -
  let ?n = "decl_name d"
  let ?v = "show_value show_f32 (decl_value d)"
  let ?r = "?v @ CHR '';'' # b"
  have vr: "utf8_valid ?r" and h: "?r \<noteq> [] \<and> \<not> is_whitespace (hd (chars ?r))"
    using value_text [OF v b] chars_ascii by auto
  have 1: "parse_identifier (between a (?n @ '': '' @ ?r)) = Some (?n, between (a @ ?n) ('': '' @ ?r))"
    by (rule identifier_read [OF assms(1)]) (use vr in simp)
  have 2: "consume_whitespace (between (a @ ?n) ('': '' @ ?r)) = Some (between (a @ ?n) ('': '' @ ?r))"
    using no_space [of "CHR '':''" "CHR '' '' # ?r" "a @ ?n"] vr by (simp add: is_whitespace_ascii)
  have 3: "consume_char (between (a @ ?n) ('': '' @ ?r)) = Some ('':'', between ((a @ ?n) @ '':'') (CHR '' '' # ?r))"
    using consume_ascii [of "CHR '':''" "CHR '' '' # ?r" "a @ ?n"] vr by simp
  have 4: "consume_whitespace (between ((a @ ?n) @ '':'') (CHR '' '' # ?r)) = Some (between (((a @ ?n) @ '':'') @ '' '') ?r)"
    using space_consumed [of ?r "(a @ ?n) @ '':''"] vr h by simp
  let ?a = "(((a @ ?n) @ '':'') @ '' '') @ ?v"
  have 5: "parse_value parse_f32 (between (((a @ ?n) @ '':'') @ '' '') ?r) = Some (decl_value d, between ?a (CHR '';'' # b))"
    by (rule value_read_back [OF v b])
  have 6: "consume_whitespace (between ?a (CHR '';'' # b)) = Some (between ?a (CHR '';'' # b))"
    using no_space [of "CHR '';''" b ?a] b by (simp add: is_whitespace_ascii)
  have 7: "next_char (between ?a (CHR '';'' # b)) = Some '';''" "consume_char (between ?a (CHR '';'' # b)) = Some ('';'', between (?a @ '';'') b)"
    using next_ascii [of "CHR '';''" b ?a] consume_ascii [of "CHR '';''" b ?a] b by simp_all
  have "parse_declaration parse_f32 (between a (?n @ '': '' @ ?r)) = Some (d, between (?a @ '';'') b)"
    using 1 2 3 4 5 6 7 by (simp add: parse_declaration_def)
  then show ?thesis by (simp add: write_declaration_def)
qed

lemma declaration_head:
  assumes "ident_ok (decl_name d)"
  shows "\<exists>x c. write_declaration show_f32 d @ b = x # c \<and> code_of x < 0x80 \<and> \<not> is_whitespace [x] \<and> x \<noteq> CHR ''}''"
proof (cases "decl_name d")
  case Nil
  then show ?thesis by (simp add: write_declaration_def is_whitespace_ascii)
next
  case (Cons x xs)
  then have v: "valid_identifier_char [x]" using assms by (simp add: ident_ok_def)
  then have "x \<noteq> CHR ''}''" using punctuation_no_identifier(7) by metis
  moreover have "\<not> is_whitespace [x]" using v by (auto simp: is_whitespace_ascii valid_identifier_char_def is_ascii_alphanumeric_def)
  ultimately show ?thesis using Cons identifier_ascii [OF v] by (simp add: write_declaration_def)
qed

definition write_declarations :: "('f \<Rightarrow> string) \<Rightarrow> 'f Declaration list \<Rightarrow> string" where
  "write_declarations show_f32 ds = concat (map (\<lambda>d. write_declaration show_f32 d @ '' '') ds)"

lemma declaration_valid:
  "ident_ok (decl_name d) \<Longrightarrow> value_ok parse_f32 show_f32 (decl_value d) \<Longrightarrow> utf8_valid b \<Longrightarrow> utf8_valid (write_declaration show_f32 d @ b)"
  using value_text(1) [of parse_f32 show_f32 "decl_value d" b] ident_valid by (simp add: write_declaration_def)

lemma declarations_read:
  assumes "list_all (\<lambda>d. ident_ok (decl_name d) \<and> value_ok parse_f32 show_f32 (decl_value d)) ds" and b: "utf8_valid b"
  shows "declarations_loop parse_f32 (between a (CHR '' '' # write_declarations show_f32 ds @ CHR ''}'' # b)) =
      Some (ds, between (a @ '' '' @ write_declarations show_f32 ds @ ''}'') b) \<and> utf8_valid (write_declarations show_f32 ds @ CHR ''}'' # b)"
  using assms(1)
proof (induction ds arbitrary: a)
  case Nil
  have "consume_whitespace (between a (CHR '' '' # CHR ''}'' # b)) = Some (between (a @ '' '') (CHR ''}'' # b))"
    using space_consumed [of "CHR ''}'' # b" a] b by (simp add: chars_ascii is_whitespace_ascii)
  then show ?case using b next_ascii [of "CHR ''}''" b "a @ '' ''"] consume_ascii [of "CHR ''}''" b "a @ '' ''"]
    by (subst declarations_loop.simps) (simp add: write_declarations_def)
next
  case (Cons d ds)
  let ?r = "CHR '' '' # write_declarations show_f32 ds @ CHR ''}'' # b"
  let ?w = "write_declaration show_f32 d"
  have d: "ident_ok (decl_name d)" "value_ok parse_f32 show_f32 (decl_value d)" using Cons.prems by simp_all
  have vr: "utf8_valid ?r" using Cons by simp
  have vd: "utf8_valid (?w @ ?r)" by (rule declaration_valid [OF d vr])
  obtain x c where x: "?w @ ?r = x # c" "code_of x < 0x80" "\<not> is_whitespace [x]" "x \<noteq> CHR ''}''" using declaration_head [OF d(1)] by blast
  have 1: "consume_whitespace (between a (CHR '' '' # ?w @ ?r)) = Some (between (a @ '' '') (?w @ ?r))"
    using space_consumed [of "?w @ ?r" a] vd x by (simp add: chars_ascii del: chars.simps utf8_valid.simps)
  have "utf8_valid c" using vd x(1,2) by simp
  then have 2: "next_char (between (a @ '' '') (?w @ ?r)) = Some [x]" using next_ascii [OF x(2), of c] x(1) by simp
  have 3: "parse_declaration parse_f32 (between (a @ '' '') (?w @ ?r)) = Some (d, between ((a @ '' '') @ ?w) ?r)"
    by (rule declaration_read [OF d vr])
  have j: "CHR '' '' # write_declarations show_f32 (d # ds) @ CHR ''}'' # b = CHR '' '' # ?w @ ?r"
    "a @ '' '' @ write_declarations show_f32 (d # ds) @ ''}'' = ((a @ '' '') @ ?w) @ '' '' @ write_declarations show_f32 ds @ ''}''"
    by (simp_all add: write_declarations_def)
  have "declarations_loop parse_f32 (between a (CHR '' '' # ?w @ ?r)) =
      Some (d # ds, between (((a @ '' '') @ ?w) @ '' '' @ write_declarations show_f32 ds @ ''}'') b)"
    using 1 2 3 x(4) Cons.IH [of "(a @ '' '') @ ?w"] Cons.prems by (subst declarations_loop.simps) simp
  moreover have "utf8_valid (write_declarations show_f32 (d # ds) @ CHR ''}'' # b)" using j(1) vd by simp
  ultimately show ?case unfolding j by blast
qed

subsection \<open>Rules\<close>

definition sorted_rule :: "'f Rule \<Rightarrow> 'f Rule" where
  "sorted_rule r = r\<lparr>selectors := sort_key reversed_specificity (selectors r)\<rparr>"

lemma write_rule_split:
  "write_rule show_f32 r = join_with '', '' (map write_selector (selectors r)) @ '' {'' @ CHR '' '' # write_declarations show_f32 (declarations r) @
    CHR ''}'' # [CHR 0x0A]"
  by (simp add: write_rule_def write_declarations_def)

lemma rule_read:
  assumes "rule_ok parse_f32 show_f32 r" and b: "utf8_valid b"
  shows "parse_rule parse_f32 (between a (write_rule show_f32 r @ b)) =
      Some (sorted_rule r, between (a @ butlast (write_rule show_f32 r)) (CHR 0x0A # b)) \<and> utf8_valid (write_rule show_f32 r @ b)"
proof -
  let ?ds = "write_declarations show_f32 (declarations r)"
  let ?d = "CHR '' '' # ?ds @ CHR ''}'' # CHR 0x0A # b"
  let ?j = "join_with '', '' (map write_selector (selectors r))"
  have ok: "selectors r \<noteq> []" "list_all selector_ok (selectors r)"
    "list_all (\<lambda>d. ident_ok (decl_name d) \<and> value_ok parse_f32 show_f32 (decl_value d)) (declarations r)"
    using assms(1) by (simp_all add: rule_ok_def)
  have dr: "declarations_loop parse_f32 (between a' ?d) = Some (declarations r, between (a' @ '' '' @ ?ds @ ''}'') (CHR 0x0A # b))" "utf8_valid ?d" for a'
    using declarations_read [OF ok(3), of "CHR 0x0A # b" a'] b by simp_all
  have 1: "selectors_loop [] (between a (?j @ '' {'' @ ?d)) = Some (selectors r, between (a @ ?j @ '' '') (CHR ''{'' # ?d))"
    using selectors_read [OF ok(1,2) dr(2), of "[]" a] by simp
  have 2: "consume_char (between (a @ ?j @ '' '') (CHR ''{'' # ?d)) = Some (''{'', between ((a @ ?j @ '' '') @ ''{'') ?d)"
    using consume_ascii [of "CHR ''{''" ?d "a @ ?j @ '' ''"] dr(2) by simp
  have w: "write_rule show_f32 r @ b = ?j @ '' {'' @ ?d" by (simp add: write_rule_split)
  have bl: "a @ butlast (write_rule show_f32 r) = ((a @ ?j @ '' '') @ ''{'') @ '' '' @ ?ds @ ''}''"
    by (simp add: write_rule_split butlast_append)
  have "utf8_valid (?j @ '' {'' @ ?d)" by (rule selectors_valid [OF ok(2)]) (use dr(2) in simp)
  then show ?thesis unfolding w bl using 1 2 dr(1) by (simp add: parse_rule_def parse_selectors_def parse_declarations_def sorted_rule_def)
qed

lemma rule_head:
  assumes "rule_ok parse_f32 show_f32 r"
  shows "\<exists>x c. write_rule show_f32 r = x # c \<and> code_of x < 0x80 \<and> \<not> is_whitespace [x]"
proof -
  obtain s ss where s: "selectors r = Simple s # ss" using assms by (cases "selectors r"; cases "hd (selectors r)") (auto simp: rule_ok_def)
  then have ok: "selector_ok (Simple s)" using assms by (simp add: rule_ok_def)
  have "\<exists>x c. write_selector (Simple s) = x # c \<and> code_of x < 0x80 \<and> (x = CHR ''*'' \<or> valid_identifier_char [x])"
    using ok identifier_ascii by (cases "sel_tag_name s"; cases "the (sel_tag_name s)") (auto simp: ident_ok_def)
  then obtain x c where x: "write_selector (Simple s) = x # c" "code_of x < 0x80" "x = CHR ''*'' \<or> valid_identifier_char [x]" by blast
  then have "\<not> is_whitespace [x]" by (auto simp: is_whitespace_ascii valid_identifier_char_def is_ascii_alphanumeric_def)
  moreover have "\<exists>d. write_rule show_f32 r = x # d" using x(1) s by (cases ss) (auto simp: write_rule_split)
  ultimately show ?thesis using x(2) by blast
qed

lemma rules_loop_ws: "consume_whitespace p = consume_whitespace q \<Longrightarrow> rules_loop parse_f32 p = rules_loop parse_f32 q"
  by (subst (1 2) rules_loop.simps) simp

lemma sheet_read:
  assumes "list_all (rule_ok parse_f32 show_f32) rs"
  shows "(\<exists>p. rules_loop parse_f32 (between a (write_sheet show_f32 rs)) = Some (map sorted_rule rs, p)) \<and> utf8_valid (write_sheet show_f32 rs)"
  using assms
proof (induction rs arbitrary: a)
  case Nil
  then show ?case using consume_whitespace_none [of "[]" a] by (subst rules_loop.simps) (simp add: write_sheet_def)
next
  case (Cons r rs)
  let ?b = "write_sheet show_f32 rs"
  let ?w = "write_rule show_f32 r"
  have vb: "utf8_valid ?b" using Cons by simp
  have r: "rule_ok parse_f32 show_f32 r" using Cons.prems by simp
  note rr = rule_read [OF r vb, of a]
  obtain x c where x: "?w = x # c" "code_of x < 0x80" "\<not> is_whitespace [x]" using rule_head [OF r] by blast
  have 1: "consume_whitespace (between a (?w @ ?b)) = Some (between a (?w @ ?b))"
    using no_space [OF x(2,3), of "c @ ?b" a] rr x(1,2) by simp
  have "rules_loop parse_f32 (between (a @ butlast ?w) (CHR 0x0A # ?b)) = rules_loop parse_f32 (between ((a @ butlast ?w) @ [CHR 0x0A]) ?b)"
    using rules_loop_ws [OF space_skipped [of "[CHR 0x0A]" ?b "a @ butlast ?w"], of parse_f32] vb by (simp add: space_ok_def)
  then obtain p where p: "rules_loop parse_f32 (between (a @ butlast ?w) (CHR 0x0A # ?b)) = Some (map sorted_rule rs, p)"
    using Cons.IH [of "(a @ butlast ?w) @ [CHR 0x0A]"] Cons.prems by auto
  have "rules_loop parse_f32 (between a (?w @ ?b)) = Some (map sorted_rule (r # rs), p)"
    using 1 rr p x(1) by (subst rules_loop.simps) simp
  then show ?case using rr by (simp add: write_sheet_def)
qed

section \<open>Properties of the parser\<close>

lemma css_parse_sheet:
  assumes "list_all (rule_ok parse_f32 show_f32) rs"
  shows "css_parse parse_f32 (write_sheet show_f32 rs) = Some \<lparr>rules = map sorted_rule rs\<rparr>"
  using sheet_read [OF assms, of "[]"] by (auto simp: css_parse_def parser_new_between)


lemma demo_sheet_ok:
  "list_all (rule_ok (parse_uint 1000) show_nat)
     [\<lparr>selectors = [Simple \<lparr>sel_tag_name = None, sel_id = None, sel_class = [''x'']\<rparr>, Simple \<lparr>sel_tag_name = Some ''p'', sel_id = Some ''i'', sel_class = []\<rparr>],
       declarations = [\<lparr>decl_name = ''width'', decl_value = Length 12 Px\<rparr>, \<lparr>decl_name = ''color'', decl_value = ColorValue (color_rgb 1 2 255)\<rparr>]\<rparr>]"
  by (simp add: rule_ok_def ident_ok_def valid_identifier_char_def is_ascii_alphanumeric_def show_nat.simps float_char_def digit_val_def parse_uint_def
      char_of_nat_eq color_rgb_def digit_def)



text \<open>Property: A colour printed by the program and read again is the same colour, but opaque: \<open>Display\<close> prints no alpha channel. The eight-digit form carries
  every channel.\<close>

theorem color_round_trip:
  "\<exists>p q. parse_value parse_f32 (parser_new (show_value show_f32 (ColorValue c))) = Some (ColorValue (c\<lparr>col_a := 255\<rparr>), p) \<and> eof p \<and>
    parse_value parse_f32 (parser_new (''#'' @ hex_byte (col_r c) @ hex_byte (col_g c) @ hex_byte (col_b c) @ hex_byte (col_a c))) = Some (ColorValue c, q) \<and> eof q"
proof -
  let ?h = "hex_byte (col_r c) @ hex_byte (col_g c) @ hex_byte (col_b c)"
  have "hex_color ?h = Some (c\<lparr>col_a := 255\<rparr>)" "hex_color (?h @ hex_byte (col_a c)) = Some c"
    using hex_color_read [of "col_r c" "col_g c" "col_b c"] by (cases c; simp)+
  moreover have "list_all (\<lambda>b. code_of b < 0x80 \<and> is_ascii_hexdigit [b]) (?h @ hex_byte (col_a c))" using hex_byte_ascii by simp
  ultimately show ?thesis
    using color_read [of ?h "c\<lparr>col_a := 255\<rparr>" "[]" parse_f32 "[]"] color_read [of "?h @ hex_byte (col_a c)" c "[]" parse_f32 "[]"]
    by (simp add: parser_new_between)
qed

text \<open>Every rule that the parser returns has a selector, and its selectors come in descending order of specificity.\<close>

definition sorted_selectors :: "'f Rule \<Rightarrow> bool" where
  "sorted_selectors r \<longleftrightarrow> selectors r \<noteq> [] \<and> sorted_wrt (\<lambda>s t. specificity t \<le> specificity s) (selectors r)"

lemma reversed_specificity_le: "reversed_specificity s \<le> reversed_specificity t \<longleftrightarrow> specificity t \<le> specificity s"
  by (cases "specificity s"; cases "specificity t") (auto simp: reversed_specificity_def less_eq_prod_simp)

lemma selectors_loop_nonempty: "selectors_loop acc p = Some (ss, p') \<Longrightarrow> ss \<noteq> []"
proof (induction acc p rule: selectors_loop.induct)
  case (1 acc p)
  show ?case
  proof
    assume "ss = []"
    then obtain s p1 p2 d p3 p4 where s: "parse_simple_selector p = Some (s, p1)" "consume_whitespace p1 = Some p2" "next_char p2 = Some '',''"
      "consume_char p2 = Some (d, p3)" "consume_whitespace p3 = Some p4" "selectors_loop (acc @ [Simple s]) p4 = Some (ss, p')"
      using "1.prems" by (subst (asm) selectors_loop.simps) (auto split: option.splits if_splits)
    then show False using "1.IH" [OF s(1) refl s(2,3) refl s(4) refl s(5,6)] \<open>ss = []\<close> by simp
  qed
qed

lemma parse_rule_sorted: "parse_rule parse_f32 p = Some (r, p') \<Longrightarrow> sorted_selectors r"
proof -
  assume "parse_rule parse_f32 p = Some (r, p')"
  then obtain ss p1 where s: "selectors_loop [] p = Some (ss, p1)" "selectors r = sort_key reversed_specificity ss"
    by (auto simp: parse_rule_def parse_selectors_def bind_eq_Some_conv)
  have "sorted (map reversed_specificity (selectors r))" using s(2) by simp
  then have "sorted_wrt (\<lambda>s t. specificity t \<le> specificity s) (selectors r)" by (simp add: sorted_wrt_map reversed_specificity_le)
  then show ?thesis using s selectors_loop_nonempty [OF s(1)] by (simp add: sorted_selectors_def) (metis length_0_conv length_sort)
qed

lemma rules_loop_sorted: "rules_loop parse_f32 p = Some (rs, p') \<Longrightarrow> list_all sorted_selectors rs"
proof (induction parse_f32 p arbitrary: rs rule: rules_loop.induct)
  case (1 parse_f32 p)
  show ?case
  proof (cases rs)
    case (Cons r rs')
    then obtain p1 p2 where s: "consume_whitespace p = Some p1" "\<not> eof p1" "parse_rule parse_f32 p1 = Some (r, p2)" "rules_loop parse_f32 p2 = Some (rs', p')"
      using "1.prems" by (subst (asm) rules_loop.simps) (auto split: option.splits if_splits)
    then show ?thesis using "1.IH" [OF s(1,2,3) refl s(4)] parse_rule_sorted [OF s(3)] Cons by simp
  qed simp
qed

lemma css_parse_sorted: "css_parse parse_f32 source = Some sheet \<Longrightarrow> list_all sorted_selectors (rules sheet)"
  using rules_loop_sorted by (auto simp: css_parse_def)

end
