(* ===== verification/Br_Style.thy ===== *)
theory Br_Style
  imports Br_Css
begin

text \<open>
  Style resolution of \<open>2026-08-26-rust-browser-engine/src/style.rs\<close>: which rules match an element, the cascade that turns their declarations into the specified
  values of the element, and the styled tree. The theory shows that the sorting and overwriting of the program compute the cascade: the value of a property is
  the one of the matching rule with the highest specificity, and of the last such rule in the source.
\<close>

section \<open>The code\<close>

type_synonym 'f PropertyMap = "string \<rightharpoonup> 'f Value"

datatype 'f StyledNode = StyledNode (styled_dom: DomNode) (specified: "'f PropertyMap") (styled_children: "'f StyledNode list")

datatype Display = Inline | Block | Display_None

definition style_value :: "'f StyledNode \<Rightarrow> string \<Rightarrow> 'f Value option" where
  "style_value n name = specified n name"

definition style_lookup :: "'f StyledNode \<Rightarrow> string \<Rightarrow> string \<Rightarrow> 'f Value \<Rightarrow> 'f Value" where
  "style_lookup n name fallback_name dflt =
     (case style_value n name of
        Some v \<Rightarrow> v
      | None \<Rightarrow> (case style_value n fallback_name of Some v \<Rightarrow> v | None \<Rightarrow> dflt))"

definition display :: "'f StyledNode \<Rightarrow> Display" where
  "display n = (case style_value n ''display'' of
     Some (Keyword s) \<Rightarrow> if s = ''block'' then Block else if s = ''none'' then Display_None else Inline
   | _ \<Rightarrow> Inline)"

definition matches_simple_selector :: "ElementData \<Rightarrow> SimpleSelector \<Rightarrow> bool" where
  "matches_simple_selector e s =
     (if (\<exists>name \<in> set_option (sel_tag_name s). tag_name e \<noteq> name) then False
      else if (\<exists>i \<in> set_option (sel_id s). elem_id e \<noteq> Some i) then False
      else if list_ex (\<lambda>c. c \<notin> classes e) (sel_class s) then False
      else True)"

fun matches :: "ElementData \<Rightarrow> Selector \<Rightarrow> bool" where
  "matches e (Simple s) = matches_simple_selector e s"

definition match_rule :: "ElementData \<Rightarrow> 'f Rule \<Rightarrow> (Specificity \<times> 'f Rule) option" where
  "match_rule e r = map_option (\<lambda>s. (specificity s, r)) (find (matches e) (selectors r))"

definition matching_rules :: "ElementData \<Rightarrow> 'f Stylesheet \<Rightarrow> (Specificity \<times> 'f Rule) list" where
  "matching_rules e sheet = List.map_filter (match_rule e) (rules sheet)"

definition insert_declaration :: "'f PropertyMap \<Rightarrow> 'f Declaration \<Rightarrow> 'f PropertyMap" where
  "insert_declaration m d = m(decl_name d \<mapsto> decl_value d)"

definition specified_values :: "ElementData \<Rightarrow> 'f Stylesheet \<Rightarrow> 'f PropertyMap" where
  "specified_values e sheet =
     foldl (\<lambda>m (k, r). foldl insert_declaration m (declarations r)) Map.empty (sort_key fst (matching_rules e sheet))"

fun style_tree :: "DomNode \<Rightarrow> 'f Stylesheet \<Rightarrow> 'f StyledNode" where
  "style_tree (DomNode ch ty) sheet =
     StyledNode (DomNode ch ty) (case ty of Element e \<Rightarrow> specified_values e sheet | Text t \<Rightarrow> Map.empty) (map (\<lambda>c. style_tree c sheet) ch)"

section \<open>The cascade\<close>

text \<open>The weight of a rule for an element: the greatest specificity of the selectors that match. What a rule says of a property: its last declaration.\<close>

definition weight :: "ElementData \<Rightarrow> 'f Rule \<Rightarrow> Specificity option" where
  "weight e r = (case filter (matches e) (selectors r) of [] \<Rightarrow> None | s # ss \<Rightarrow> Some (Max (set (map specificity (s # ss)))))"

definition last_declared :: "'f Rule \<Rightarrow> 'f PropertyMap" where
  "last_declared r = map_of (rev (map (\<lambda>d. (decl_name d, decl_value d)) (declarations r)))"

lemma insert_declarations: "foldl insert_declaration m ds = m ++ map_of (rev (map (\<lambda>d. (decl_name d, decl_value d)) ds))"
proof (induction ds rule: rev_induct)
  case (snoc d ds)
  then show ?case by (simp add: insert_declaration_def map_add_def fun_eq_iff)
qed simp

lemma fold_last:
  "foldl (\<lambda>m r. m ++ D r) m rs x = (if filter (\<lambda>r. D r x \<noteq> None) rs = [] then m x else D (last (filter (\<lambda>r. D r x \<noteq> None) rs)) x)"
  by (induction rs rule: rev_induct) (auto simp: map_add_def split: option.splits)

lemma insort_lex:
  assumes "sorted_wrt (\<lambda>i j. f i < f j \<or> f i = f j \<and> i < j) xs" and "\<forall>y \<in> set xs. x < y"
  shows "sorted_wrt (\<lambda>i j. f i < f j \<or> f i = f j \<and> i < j) (insort_key f x xs)"
  using assms
proof (induction xs)
  case (Cons y ys)
  have "f y \<le> f z" if "z \<in> set ys" for z using Cons.prems(1) that by auto
  then have "f x \<le> f z" if "z \<in> set ys" "f x \<le> f y" for z using that order_trans by blast
  then show ?case using Cons by (auto simp: set_insort_key order.order_iff_strict)
qed simp

lemma sort_lex: "sorted_wrt (<) xs \<Longrightarrow> sorted_wrt (\<lambda>i j. f i < f j \<or> f i = f j \<and> i < j) (sort_key f xs)" for xs :: "nat list" and f :: "nat \<Rightarrow> Specificity"
  by (induction xs) (auto intro!: insort_lex)

lemma sort_key_map: "sort_key f (map g xs) = map g (sort_key (\<lambda>x. f (g x)) xs)"
proof -
  have i: "insort_key f (g x) (map g ys) = map g (insort_key (\<lambda>x. f (g x)) x ys)" for x ys by (induction ys) auto
  show ?thesis by (induction xs) (simp_all add: i)
qed

lemma sorted_wrt_last: "sorted_wrt P xs \<Longrightarrow> j \<in> set xs \<Longrightarrow> P j (last xs) \<or> j = last xs"
  by (cases xs rule: rev_cases) (auto simp: sorted_wrt_append)

lemma last_sorted_lex:
  fixes f :: "nat \<Rightarrow> Specificity"
  assumes "sorted_wrt (<) xs" and "xs \<noteq> []"
  shows "last (sort_key f xs) \<in> set xs" and "\<forall>j \<in> set xs. (f j, j) \<le> (f (last (sort_key f xs)), last (sort_key f xs))"
proof -
  let ?s = "sort_key f xs"
  have ne: "?s \<noteq> []" using assms(2) by (metis length_0_conv length_sort)
  show "last ?s \<in> set xs" using last_in_set [OF ne] by simp
  show "\<forall>j \<in> set xs. (f j, j) \<le> (f (last ?s), last ?s)"
    using sorted_wrt_last [OF sort_lex [OF assms(1), of f]] by (fastforce simp: less_eq_prod_simp)
qed

lemma map_filter_indices:
  "List.map_filter f xs = map (\<lambda>i. the (f (xs ! i))) (filter (\<lambda>i. f (xs ! i) \<noteq> None) [0..<length xs])"
proof (induction xs rule: rev_induct)
  case (snoc x xs)
  have "filter (\<lambda>i. f ((xs @ [x]) ! i) \<noteq> None) [0..<length xs] = filter (\<lambda>i. f (xs ! i) \<noteq> None) [0..<length xs]"
    by (rule filter_cong) (auto simp: nth_append)
  moreover have "map (\<lambda>i. the (f ((xs @ [x]) ! i))) (filter (\<lambda>i. f (xs ! i) \<noteq> None) [0..<length xs]) =
      map (\<lambda>i. the (f (xs ! i))) (filter (\<lambda>i. f (xs ! i) \<noteq> None) [0..<length xs])"
    by (rule map_cong) (auto simp: nth_append)
  ultimately show ?case using snoc by (simp add: List.map_filter_def)
qed (simp add: List.map_filter_def)

lemma match_rule_weight:
  assumes "sorted_selectors r"
  shows "match_rule e r = map_option (\<lambda>k. (k, r)) (weight e r)"
proof (cases "filter (matches e) (selectors r)")
  case Nil
  then have "find (matches e) (selectors r) = None" by (auto simp: find_None_iff filter_empty_conv)
  then show ?thesis using Nil by (simp add: match_rule_def weight_def)
next
  case (Cons s ss)
  have f: "find (matches e) xs = Some s" if "filter (matches e) xs = s # ss" for xs
    using that by (induction xs) (auto split: if_splits)
  have "sorted_wrt (\<lambda>s t. specificity t \<le> specificity s) (filter (matches e) (selectors r))"
    using assms sorted_wrt_filter by (auto simp: sorted_selectors_def)
  then have "Max (set (map specificity (s # ss))) = specificity s" using Cons by (intro Max_eqI) auto
  then show ?thesis using f [OF Cons] Cons by (simp add: match_rule_def weight_def)
qed

definition rule_weight :: "ElementData \<Rightarrow> 'f Stylesheet \<Rightarrow> nat \<Rightarrow> Specificity" where
  "rule_weight e sheet i = the (weight e (rules sheet ! i))"

text \<open>The rules, by their position, that match an element and declare a property.\<close>

definition deciding :: "ElementData \<Rightarrow> 'f Stylesheet \<Rightarrow> string \<Rightarrow> nat list" where
  "deciding e sheet x = filter (\<lambda>i. weight e (rules sheet ! i) \<noteq> None \<and> last_declared (rules sheet ! i) x \<noteq> None) [0..<length (rules sheet)]"

lemma specified_last:
  assumes "list_all sorted_selectors (rules sheet)"
  shows "specified_values e sheet x = (if deciding e sheet x = [] then None
    else last_declared (rules sheet ! last (sort_key (rule_weight e sheet) (deciding e sheet x))) x)"
proof -
  let ?rs = "rules sheet"
  let ?J = "filter (\<lambda>i. weight e (?rs ! i) \<noteq> None) [0..<length ?rs]"
  let ?g = "\<lambda>i. (rule_weight e sheet i, ?rs ! i)"
  have w: "match_rule e (?rs ! i) = map_option (\<lambda>k. (k, ?rs ! i)) (weight e (?rs ! i))" if "i < length ?rs" for i
    using assms that by (intro match_rule_weight) (simp add: list_all_length)
  have "matching_rules e sheet = map (\<lambda>i. the (match_rule e (?rs ! i))) (filter (\<lambda>i. match_rule e (?rs ! i) \<noteq> None) [0..<length ?rs])"
    unfolding matching_rules_def by (rule map_filter_indices)
  also have "filter (\<lambda>i. match_rule e (?rs ! i) \<noteq> None) [0..<length ?rs] = ?J"
    using w by (intro filter_cong) auto
  also have "map (\<lambda>i. the (match_rule e (?rs ! i))) ?J = map ?g ?J"
    using w by (intro map_cong) (auto simp: rule_weight_def)
  finally have s: "sort_key fst (matching_rules e sheet) = map ?g (sort_key (rule_weight e sheet) ?J)"
    by (simp add: sort_key_map)
  have d: "(\<lambda>m (k, r). foldl insert_declaration m (declarations r)) = (\<lambda>m kr. m ++ last_declared (snd kr))"
    by (auto simp: fun_eq_iff insert_declarations last_declared_def)
  have f: "filter (\<lambda>kr. last_declared (snd kr) x \<noteq> None) (map ?g (sort_key (rule_weight e sheet) ?J)) =
      map ?g (sort_key (rule_weight e sheet) (deciding e sheet x))"
    by (simp add: filter_map filter_sort o_def deciding_def conj_commute)
  show ?thesis unfolding specified_values_def d s fold_last f
    by (auto simp: last_map) (metis length_0_conv length_sort last_map map_is_Nil_conv snd_conv)+
qed

lemma deciding_sorted: "sorted_wrt (<) (deciding e sheet x)"
  unfolding deciding_def by (intro sorted_wrt_filter) simp

text \<open>The rule at position \<open>i\<close> decides a property: it matches, declares the property, and no other matching rule that declares it is heavier, or as heavy and later.\<close>

definition decides :: "ElementData \<Rightarrow> 'f Stylesheet \<Rightarrow> string \<Rightarrow> nat \<Rightarrow> bool" where
  "decides e sheet x i \<longleftrightarrow> i < length (rules sheet) \<and> weight e (rules sheet ! i) \<noteq> None \<and> last_declared (rules sheet ! i) x \<noteq> None \<and>
     (\<forall>j < length (rules sheet). weight e (rules sheet ! j) \<noteq> None \<and> last_declared (rules sheet ! j) x \<noteq> None \<longrightarrow>
        (the (weight e (rules sheet ! j)), j) \<le> (the (weight e (rules sheet ! i)), i))"

lemma decides_deciding:
  "decides e sheet x i \<longleftrightarrow> i \<in> set (deciding e sheet x) \<and> (\<forall>j \<in> set (deciding e sheet x). (rule_weight e sheet j, j) \<le> (rule_weight e sheet i, i))"
  unfolding decides_def deciding_def rule_weight_def by (simp only: set_filter set_upt mem_Collect_eq atLeastLessThan_iff) blast

lemma decides_last:
  assumes "deciding e sheet x \<noteq> []"
  shows "decides e sheet x (last (sort_key (rule_weight e sheet) (deciding e sheet x)))"
  using last_sorted_lex [OF deciding_sorted assms] by (simp only: decides_deciding) blast

lemma decides_unique:
  assumes i: "decides e sheet x i" and j: "decides e sheet x j"
  shows "i = j"
proof -
  have "(rule_weight e sheet j, j) \<le> (rule_weight e sheet i, i)" "(rule_weight e sheet i, i) \<le> (rule_weight e sheet j, j)"
    using i j unfolding decides_deciding by blast+
  then show ?thesis using antisym by blast
qed

lemma weight_None: "weight e r \<noteq> None \<longleftrightarrow> (\<exists>s \<in> set (selectors r). matches e s)"
proof -
  have "weight e r = None \<longleftrightarrow> filter (matches e) (selectors r) = []" by (simp add: weight_def split: list.splits)
  then show ?thesis by (auto simp: filter_empty_conv)
qed

lemma last_declared_None: "last_declared r x \<noteq> None \<longleftrightarrow> (\<exists>d \<in> set (declarations r). decl_name d = x)"
  by (auto simp: last_declared_def map_of_eq_None_iff image_image)

lemma filter_indices_Nil: "filter (\<lambda>i. P (xs ! i)) [0..<length xs] = [] \<longleftrightarrow> \<not> (\<exists>r \<in> set xs. P r)"
  by (fastforce simp: filter_empty_conv in_set_conv_nth)

lemma deciding_Nil: "deciding e sheet x = [] \<longleftrightarrow> \<not> (\<exists>r \<in> set (rules sheet). weight e r \<noteq> None \<and> last_declared r x \<noteq> None)"
  unfolding deciding_def by (rule filter_indices_Nil)

text \<open>C14: The cascade. For a style sheet that the parser returned, an element's specified value of a property is the last declaration of it in the rule that decides:
  the rule whose best matching selector has the greatest specificity, and among equals the last in the source. The property has no value exactly when no rule that matches declares it.\<close>

theorem cascade_correct:
  assumes "css_parse parse_f32 source = Some sheet"
  shows "(specified_values e sheet x = Some v \<longleftrightarrow> (\<exists>i. decides e sheet x i \<and> last_declared (rules sheet ! i) x = Some v)) \<and>
    (specified_values e sheet x = None \<longleftrightarrow>
      \<not> (\<exists>r \<in> set (rules sheet). (\<exists>s \<in> set (selectors r). matches e s) \<and> (\<exists>d \<in> set (declarations r). decl_name d = x)))"
proof -
  have s: "specified_values e sheet x = (if deciding e sheet x = [] then None
      else last_declared (rules sheet ! last (sort_key (rule_weight e sheet) (deciding e sheet x))) x)"
    by (rule specified_last [OF css_parse_sorted [OF assms]])
  have "specified_values e sheet x = Some v \<longleftrightarrow> (\<exists>i. decides e sheet x i \<and> last_declared (rules sheet ! i) x = Some v)"
  proof (cases "deciding e sheet x = []")
    case True
    then show ?thesis using s by (simp add: decides_deciding)
  next
    case False
    then show ?thesis using s decides_last [OF False] decides_unique by (metis (no_types, lifting))
  qed
  moreover have "specified_values e sheet x = None \<longleftrightarrow> deciding e sheet x = []"
  proof (cases "deciding e sheet x = []")
    case False
    then show ?thesis using s decides_last [OF False] by (simp add: decides_def)
  qed (simp add: s)
  ultimately show ?thesis by (simp only: deciding_Nil weight_None last_declared_None)
qed

lemma demo_cascade:
  "css_parse (\<lambda>s. None :: nat option) (write_sheet (\<lambda>f :: nat. [])
     [\<lparr>selectors = [Simple \<lparr>sel_tag_name = None, sel_id = None, sel_class = [''c'']\<rparr>], declarations = [\<lparr>decl_name = ''x'', decl_value = Keyword ''b''\<rparr>]\<rparr>,
      \<lparr>selectors = [Simple \<lparr>sel_tag_name = Some ''p'', sel_id = None, sel_class = []\<rparr>], declarations = [\<lparr>decl_name = ''x'', decl_value = Keyword ''a''\<rparr>]\<rparr>]) =
   Some \<lparr>rules =
     [\<lparr>selectors = [Simple \<lparr>sel_tag_name = None, sel_id = None, sel_class = [''c'']\<rparr>], declarations = [\<lparr>decl_name = ''x'', decl_value = Keyword ''b''\<rparr>]\<rparr>,
      \<lparr>selectors = [Simple \<lparr>sel_tag_name = Some ''p'', sel_id = None, sel_class = []\<rparr>], declarations = [\<lparr>decl_name = ''x'', decl_value = Keyword ''a''\<rparr>]\<rparr>]\<rparr>"
  by (subst css_parse_sheet)
    (simp_all add: rule_ok_def ident_ok_def valid_identifier_char_def is_ascii_alphanumeric_def float_char_def digit_val_def sorted_rule_def)

theorem cascade_correct_witness:
  "specified_values \<lparr>tag_name = ''p'', attributes = [''class'' \<mapsto> ''d c'']\<rparr> \<lparr>rules =
     [\<lparr>selectors = [Simple \<lparr>sel_tag_name = None, sel_id = None, sel_class = [''c'']\<rparr>], declarations = [\<lparr>decl_name = ''x'', decl_value = Keyword ''b'' :: nat Value\<rparr>]\<rparr>,
      \<lparr>selectors = [Simple \<lparr>sel_tag_name = Some ''p'', sel_id = None, sel_class = []\<rparr>], declarations = [\<lparr>decl_name = ''x'', decl_value = Keyword ''a''\<rparr>]\<rparr>]\<rparr> ''x'' =
   Some (Keyword ''b'')"
proof (subst cascade_correct [OF demo_cascade, THEN conjunct1], intro exI [of _ 0] conjI)
qed (simp_all add: decides_def weight_def last_declared_def matches_simple_selector_def classes_def nth_Cons' less_Suc_eq all_conj_distrib)

section \<open>The styled tree\<close>

fun node_at :: "DomNode \<Rightarrow> nat list \<Rightarrow> DomNode option" where
  "node_at n [] = Some n"
| "node_at (DomNode ch ty) (i # p) = (if i < length ch then node_at (ch ! i) p else None)"

fun styled_at :: "'f StyledNode \<Rightarrow> nat list \<Rightarrow> 'f StyledNode option" where
  "styled_at n [] = Some n"
| "styled_at (StyledNode d m ch) (i # p) = (if i < length ch then styled_at (ch ! i) p else None)"

text \<open>Property: The styled tree has the shape of the document: at every path it holds the document's node there with the values the cascade gives that node, and no values
  at a text; a path that leaves the document leaves the styled tree.\<close>

theorem style_tree_nodes:
  "styled_at (style_tree root sheet) path = map_option (\<lambda>n. style_tree n sheet) (node_at root path) \<and>
   (\<forall>n. node_at root path = Some n \<longrightarrow> (\<exists>m ch. styled_at (style_tree root sheet) path = Some (StyledNode n m ch) \<and>
      m = (case node_type n of Element e \<Rightarrow> specified_values e sheet | Text t \<Rightarrow> Map.empty)))"
proof -
  have 1: "styled_at (style_tree root sheet) path = map_option (\<lambda>n. style_tree n sheet) (node_at root path)"
    by (induction root path rule: node_at.induct) simp_all
  moreover have "\<exists>m ch. style_tree n sheet = StyledNode n m ch \<and> m = (case node_type n of Element e \<Rightarrow> specified_values e sheet | Text t \<Rightarrow> Map.empty)" for n
    by (cases n) simp
  ultimately show ?thesis by simp
qed

theorem style_tree_nodes_witness:
  "\<exists>m ch. styled_at (style_tree (elem_node ''p'' Map.empty [text_node ''t'']) \<lparr>rules = [] :: nat Rule list\<rparr>) [0] = Some (StyledNode (text_node ''t'') m ch) \<and> m = Map.empty"
  using style_tree_nodes [of "elem_node ''p'' Map.empty [text_node ''t'']" "\<lparr>rules = [] :: nat Rule list\<rparr>" "[0]"]
  by (simp add: elem_node_def text_node_def)

end
