(* ===== verification/F32.thy ===== *)
theory F32
  imports Complex_Main "HOL-Library.Log_Nat" Rust_Prelude
begin

text \<open>
  The type \<open>f32\<close> of the language: IEEE 754 binary32 with rounding to nearest, ties to even. A finite number is the rational it denotes. The sign of
  zero is not kept: no code of the repository divides by a zero, prints a negative number that may be one, or takes the angle of a vector
  whose ordinate could be a negative zero (a difference of equal numbers is the positive one). The theory shows on which rationals rounding is
  exact, that rounding stays between representable bounds and yields representable numbers, and from that the ranges of the operations.
\<close>

section \<open>Rounding\<close>

datatype f32 = Fin rat | Pos_Inf | Neg_Inf | Not_A_Number

definition pow2 :: "int \<Rightarrow> rat" where
  "pow2 e = 2 powi e"

text \<open>The exponent of a positive number: the greatest power of two below it.\<close>

definition ilog2 :: "rat \<Rightarrow> int" where
  "ilog2 x = (case quotient_of x of (a, b) \<Rightarrow>
     let g = bitlen a - bitlen b in if pow2 g \<le> x then g else g - 1)"

definition half_even :: "rat \<Rightarrow> int" where
  "half_even x =
     (let f = \<lfloor>x\<rfloor>; d = x - of_int f in
      if d < 1 / 2 then f else if 1 / 2 < d then f + 1 else if even f then f else f + 1)"

definition round32 :: "rat \<Rightarrow> f32" where
  "round32 x =
     (if x = 0 then Fin 0
      else let u = pow2 (max (ilog2 \<bar>x\<bar>) (- 126) - 23); r = of_int (half_even (x / u)) * u in
           if 2 ^ 128 \<le> r then Pos_Inf else if r \<le> - (2 ^ 128) then Neg_Inf else Fin r)"

section \<open>Operations\<close>

fun f_neg :: "f32 \<Rightarrow> f32" where
  "f_neg (Fin a) = Fin (- a)"
| "f_neg Pos_Inf = Neg_Inf"
| "f_neg Neg_Inf = Pos_Inf"
| "f_neg Not_A_Number = Not_A_Number"

fun f_add :: "f32 \<Rightarrow> f32 \<Rightarrow> f32" where
  "f_add (Fin a) (Fin b) = round32 (a + b)"
| "f_add Not_A_Number y = Not_A_Number"
| "f_add x Not_A_Number = Not_A_Number"
| "f_add Pos_Inf Neg_Inf = Not_A_Number"
| "f_add Neg_Inf Pos_Inf = Not_A_Number"
| "f_add Pos_Inf y = Pos_Inf"
| "f_add x Pos_Inf = Pos_Inf"
| "f_add Neg_Inf y = Neg_Inf"
| "f_add x Neg_Inf = Neg_Inf"

definition f_sub :: "f32 \<Rightarrow> f32 \<Rightarrow> f32" where
  "f_sub x y = f_add x (f_neg y)"

text \<open>An infinity with the sign of a number; zero has none.\<close>

definition signed_inf :: "rat \<Rightarrow> f32" where
  "signed_inf a = (if a = 0 then Not_A_Number else if 0 < a then Pos_Inf else Neg_Inf)"

fun f_mul :: "f32 \<Rightarrow> f32 \<Rightarrow> f32" where
  "f_mul (Fin a) (Fin b) = round32 (a * b)"
| "f_mul Not_A_Number y = Not_A_Number"
| "f_mul x Not_A_Number = Not_A_Number"
| "f_mul (Fin a) Pos_Inf = signed_inf a"
| "f_mul (Fin a) Neg_Inf = signed_inf (- a)"
| "f_mul Pos_Inf (Fin b) = signed_inf b"
| "f_mul Neg_Inf (Fin b) = signed_inf (- b)"
| "f_mul Pos_Inf Pos_Inf = Pos_Inf"
| "f_mul Neg_Inf Neg_Inf = Pos_Inf"
| "f_mul Pos_Inf Neg_Inf = Neg_Inf"
| "f_mul Neg_Inf Pos_Inf = Neg_Inf"

text \<open>Division; a zero divisor counts as positive.\<close>

fun f_div :: "f32 \<Rightarrow> f32 \<Rightarrow> f32" where
  "f_div (Fin a) (Fin b) = (if b = 0 then signed_inf a else round32 (a / b))"
| "f_div Not_A_Number y = Not_A_Number"
| "f_div x Not_A_Number = Not_A_Number"
| "f_div (Fin a) y = Fin 0"
| "f_div Pos_Inf (Fin b) = (if b = 0 then Pos_Inf else signed_inf b)"
| "f_div Neg_Inf (Fin b) = (if b = 0 then Neg_Inf else signed_inf (- b))"
| "f_div x y = Not_A_Number"

fun f_lt :: "f32 \<Rightarrow> f32 \<Rightarrow> bool" where
  "f_lt (Fin a) (Fin b) \<longleftrightarrow> a < b"
| "f_lt Not_A_Number y \<longleftrightarrow> False"
| "f_lt x Not_A_Number \<longleftrightarrow> False"
| "f_lt Pos_Inf y \<longleftrightarrow> False"
| "f_lt x Neg_Inf \<longleftrightarrow> False"
| "f_lt x y \<longleftrightarrow> True"

definition f_eq :: "f32 \<Rightarrow> f32 \<Rightarrow> bool" where
  "f_eq x y \<longleftrightarrow> x = y \<and> x \<noteq> Not_A_Number"

definition f_le :: "f32 \<Rightarrow> f32 \<Rightarrow> bool" where
  "f_le x y \<longleftrightarrow> f_lt x y \<or> f_eq x y"

definition f_max :: "f32 \<Rightarrow> f32 \<Rightarrow> f32" where
  "f_max x y = (if x = Not_A_Number then y else if y = Not_A_Number then x else if f_lt x y then y else x)"

definition f_min :: "f32 \<Rightarrow> f32 \<Rightarrow> f32" where
  "f_min x y = (if x = Not_A_Number then y else if y = Not_A_Number then x else if f_lt y x then y else x)"

text \<open>\<open>f32::clamp\<close> panics unless the bounds are ordered, and keeps a NaN.\<close>

definition f_clamp :: "f32 \<Rightarrow> f32 \<Rightarrow> f32 \<Rightarrow> f32 option" where
  "f_clamp lo hi x = (if \<not> f_le lo hi then None else Some (if f_lt x lo then lo else if f_lt hi x then hi else x))"

text \<open>\<open>as usize\<close> truncates and saturates; \<open>as f32\<close> rounds.\<close>

fun f_as_usize :: "f32 \<Rightarrow> nat" where
  "f_as_usize (Fin a) = min usize_max (nat \<lfloor>a\<rfloor>)"
| "f_as_usize Pos_Inf = usize_max"
| "f_as_usize x = 0"

definition f_of_nat :: "nat \<Rightarrow> f32" where
  "f_of_nat n = round32 (of_nat n)"

text \<open>\<open>%\<close> (which is exact) and \<open>rem_euclid\<close>.\<close>

definition trunc_rat :: "rat \<Rightarrow> int" where
  "trunc_rat x = (if 0 \<le> x then \<lfloor>x\<rfloor> else \<lceil>x\<rceil>)"

fun f_rem :: "f32 \<Rightarrow> f32 \<Rightarrow> f32" where
  "f_rem (Fin a) (Fin b) = (if b = 0 then Not_A_Number else Fin (a - b * of_int (trunc_rat (a / b))))"
| "f_rem (Fin a) Pos_Inf = Fin a"
| "f_rem (Fin a) Neg_Inf = Fin a"
| "f_rem x y = Not_A_Number"

fun f_abs :: "f32 \<Rightarrow> f32" where
  "f_abs (Fin a) = Fin \<bar>a\<bar>"
| "f_abs Neg_Inf = Pos_Inf"
| "f_abs x = x"

definition f_rem_euclid :: "f32 \<Rightarrow> f32 \<Rightarrow> f32" where
  "f_rem_euclid x y = (let r = f_rem x y in if f_lt r (Fin 0) then f_add r (f_abs y) else r)"

text \<open>\<open>Iterator::sum\<close>.\<close>

definition f_sum :: "f32 list \<Rightarrow> f32" where
  "f_sum xs = foldl f_add (Fin 0) xs"

section \<open>Where rounding is exact\<close>

lemma pow2_pos [simp]: "0 < pow2 e"
  by (simp add: pow2_def)

lemma pow2_nonzero [simp]: "pow2 e \<noteq> 0"
  by (simp add: pow2_def)

lemma pow2_abs [simp]: "\<bar>pow2 e\<bar> = pow2 e"
  using pow2_pos [of e] by (simp add: abs_of_pos)

lemma pow2_add: "pow2 (a + b) = pow2 a * pow2 b"
  by (simp add: pow2_def power_int_add)

lemma pow2_mono: "a \<le> b \<Longrightarrow> pow2 a \<le> pow2 b"
  by (simp add: pow2_def power_int_increasing)

lemma pow2_of_nat: "pow2 (int n) = 2 ^ n"
  by (simp add: pow2_def)

lemma bitlen_bounds_rat: "0 < a \<Longrightarrow> pow2 (bitlen a - 1) \<le> of_int a \<and> of_int a < pow2 (bitlen a)"
proof
  assume a: "0 < a"
  have n: "bitlen a - 1 = int (nat (bitlen a - 1))" "bitlen a = int (nat (bitlen a))" using bitlen_nonneg [of a] a by (simp_all add: bitlen_eq_zero_iff order_less_le)
  have "2 ^ nat (bitlen a - 1) \<le> a" using bitlen_bounds [OF a] by simp
  then have "(of_int (2 ^ nat (bitlen a - 1)) :: rat) \<le> of_int a" by (simp only: of_int_le_iff)
  then show "pow2 (bitlen a - 1) \<le> of_int a" using n(1) pow2_of_nat [of "nat (bitlen a - 1)"] by simp
  have "a < 2 ^ nat (bitlen a)" using bitlen_bounds [OF a] by simp
  then have "(of_int a :: rat) < of_int (2 ^ nat (bitlen a))" by (simp only: of_int_less_iff)
  then show "of_int a < pow2 (bitlen a)" using n(2) pow2_of_nat [of "nat (bitlen a)"] by simp
qed

lemma ilog2_upper: "0 < x \<Longrightarrow> pow2 (ilog2 x) \<le> x"
proof -
  assume x: "0 < x"
  obtain a b where q: "quotient_of x = (a, b)" by fastforce
  have b: "0 < b" and x': "x = of_int a / of_int b" using quotient_of_denom_pos [OF q] quotient_of_div [OF q] by simp_all
  have a: "0 < a" using x x' b by (simp add: zero_less_divide_iff)
  have "pow2 (bitlen a - bitlen b - 1) * of_int b \<le> pow2 (bitlen a - bitlen b - 1) * pow2 (bitlen b)"
    using bitlen_bounds_rat [OF b] by (intro mult_left_mono) (simp_all add: less_imp_le)
  also have "\<dots> = pow2 (bitlen a - 1)" using pow2_add [of "bitlen a - bitlen b - 1" "bitlen b"] by simp
  also have "\<dots> \<le> of_int a" using bitlen_bounds_rat [OF a] by simp
  finally have "pow2 (bitlen a - bitlen b - 1) \<le> x" using b x' by (simp add: le_divide_eq)
  then show ?thesis using q by (simp add: ilog2_def Let_def)
qed

lemma half_even_of_int [simp]: "half_even (of_int n) = n"
  by (simp add: half_even_def)


text \<open>The numbers \<open>m * 2^k\<close> with a significand of 24 bits.\<close>

definition representable :: "rat \<Rightarrow> bool" where
  "representable x \<longleftrightarrow> (\<exists>m k. x = of_int m * pow2 k \<and> \<bar>m\<bar> < 2 ^ 24 \<and> - 149 \<le> k \<and> k \<le> 104)"

lemma round32_exact:
  assumes "representable x"
  shows "round32 x = Fin x"
proof (cases "x = 0")
  case False
  obtain m k where x: "x = of_int m * pow2 k" and m: "\<bar>m\<bar> < 2 ^ 24" and k: "- 149 \<le> k" "k \<le> 104" using assms by (auto simp: representable_def)
  have "(of_int \<bar>m\<bar> :: rat) < of_int (2 ^ 24)" using m by (simp only: of_int_less_iff)
  then have "\<bar>x\<bar> < pow2 24 * pow2 k" using pow2_of_nat [of 24] by (simp add: x abs_mult mult_strict_right_mono)
  then have ax: "\<bar>x\<bar> < pow2 (24 + k)" by (simp add: pow2_add)
  have "ilog2 \<bar>x\<bar> < 24 + k"
  proof (rule ccontr)
    assume "\<not> ilog2 \<bar>x\<bar> < 24 + k"
    then have "pow2 (24 + k) \<le> pow2 (ilog2 \<bar>x\<bar>)" by (intro pow2_mono) simp
    then show False using ilog2_upper [of "\<bar>x\<bar>"] ax False by simp
  qed
  moreover define e where "e = max (ilog2 \<bar>x\<bar>) (- 126) - 23"
  ultimately have e: "e \<le> k" using k by simp
  then have "pow2 k = of_int (2 ^ nat (k - e)) * pow2 e" using pow2_add [of "k - e" e] pow2_of_nat [of "nat (k - e)"] by simp
  then have d: "x / pow2 e = of_int (m * 2 ^ nat (k - e))" by (simp add: x)
  then have "half_even (x / pow2 e) = m * 2 ^ nat (k - e)" by (simp only: half_even_of_int)
  then have "of_int (half_even (x / pow2 e)) = x / pow2 e" by (simp only: d)
  then have r: "of_int (half_even (x / pow2 e)) * pow2 e = x" by simp
  have "\<bar>x\<bar> < pow2 128" using ax pow2_mono [of "24 + k" 128] k by simp
  then have "\<bar>x\<bar> < 2 ^ 128" using pow2_of_nat [of 128] by simp
  then show ?thesis using False r by (auto simp: round32_def Let_def e_def)
qed (simp add: round32_def)

lemma representable_int: "\<bar>n\<bar> < 2 ^ 24 \<Longrightarrow> representable (of_int n)"
  unfolding representable_def by (intro exI [of _ n] exI [of _ 0]) (simp add: pow2_def)

lemma representable_half: "\<bar>n\<bar> < 2 ^ 24 \<Longrightarrow> representable (of_int n / 2)"
  unfolding representable_def by (intro exI [of _ n] exI [of _ "- 1"]) (simp add: pow2_def)


lemma f_add_int: "\<bar>m + n\<bar> < 2 ^ 24 \<Longrightarrow> f_add (Fin (of_int m)) (Fin (of_int n)) = Fin (of_int (m + n))"
  using round32_exact [OF representable_int, of "m + n"] by simp

lemma f_sub_int: "\<bar>m - n\<bar> < 2 ^ 24 \<Longrightarrow> f_sub (Fin (of_int m)) (Fin (of_int n)) = Fin (of_int (m - n))"
  using round32_exact [OF representable_int, of "m - n"] by (simp add: f_sub_def)

lemma f_half_int: "\<bar>n\<bar> < 2 ^ 24 \<Longrightarrow> f_div (Fin (of_int n)) (Fin 2) = Fin (of_int n / 2)"
  using round32_exact [OF representable_half, of n] by simp

section \<open>Rounding stays within representable bounds\<close>

lemma half_even_le: "x \<le> of_int n \<Longrightarrow> half_even x \<le> n"
proof -
  assume x: "x \<le> of_int n"
  show ?thesis
  proof (cases "x = of_int n")
    case False
    then have "\<lfloor>x\<rfloor> < n" using x by (simp add: floor_less_iff)
    then show ?thesis by (simp add: half_even_def Let_def)
  qed simp
qed

lemma half_even_ge: "of_int n \<le> x \<Longrightarrow> n \<le> half_even x"
  by (auto simp: half_even_def Let_def le_floor_iff intro: order_trans [of n "\<lfloor>x\<rfloor>"])

text \<open>The unit of the last place of the numbers near \<open>x\<close>.\<close>

definition ulp_exp :: "rat \<Rightarrow> int" where
  "ulp_exp x = max (ilog2 \<bar>x\<bar>) (- 126) - 23"

definition round_ulp :: "rat \<Rightarrow> rat" where
  "round_ulp x = of_int (half_even (x / pow2 (ulp_exp x))) * pow2 (ulp_exp x)"

lemma round32_ulp:
  "x \<noteq> 0 \<Longrightarrow> round32 x =
     (if 2 ^ 128 \<le> round_ulp x then Pos_Inf else if round_ulp x \<le> - (2 ^ 128) then Neg_Inf else Fin (round_ulp x))"
  by (simp add: round32_def round_ulp_def ulp_exp_def Let_def)

lemma round_ulp_le_multiple: "x \<le> of_int n * pow2 (ulp_exp x) \<Longrightarrow> round_ulp x \<le> of_int n * pow2 (ulp_exp x)"
  unfolding round_ulp_def by (intro mult_right_mono) (simp_all add: half_even_le divide_le_eq less_imp_le)

lemma round_ulp_ge_multiple: "of_int n * pow2 (ulp_exp x) \<le> x \<Longrightarrow> of_int n * pow2 (ulp_exp x) \<le> round_ulp x"
  unfolding round_ulp_def by (intro mult_right_mono) (simp_all add: half_even_ge le_divide_eq less_imp_le)

text \<open>A representable number is a multiple of the unit at \<open>x\<close>, or strictly below the power of two under \<open>|x|\<close>.\<close>

lemma representable_multiple:
  assumes "representable b" "x \<noteq> 0"
  obtains n where "b = of_int n * pow2 (ulp_exp x)"
  | n where "\<bar>b\<bar> < of_int n * pow2 (ulp_exp x)" "of_int n * pow2 (ulp_exp x) \<le> \<bar>x\<bar>"
proof -
  obtain m k where b: "b = of_int m * pow2 k" and m: "\<bar>m\<bar> < 2 ^ 24" and k: "- 149 \<le> k" using assms(1) by (auto simp: representable_def)
  show thesis
  proof (cases "ulp_exp x \<le> k")
    case True
    then have "pow2 k = of_int (2 ^ nat (k - ulp_exp x)) * pow2 (ulp_exp x)"
      using pow2_add [of "k - ulp_exp x" "ulp_exp x"] pow2_of_nat [of "nat (k - ulp_exp x)"] by simp
    then have "b = of_int (m * 2 ^ nat (k - ulp_exp x)) * pow2 (ulp_exp x)" by (simp add: b)
    then show thesis by (rule that(1))
  next
    case False
    then have e: "ulp_exp x = ilog2 \<bar>x\<bar> - 23" using k by (simp add: ulp_exp_def max_def split: if_splits)
    have p: "of_int (2 ^ 23) * pow2 (ulp_exp x) = pow2 (ilog2 \<bar>x\<bar>)" using e pow2_add [of 23 "ilog2 \<bar>x\<bar> - 23"] pow2_of_nat [of 23] by simp
    have "(of_int \<bar>m\<bar> :: rat) < of_int (2 ^ 24)" using m by (simp only: of_int_less_iff)
    then have "\<bar>b\<bar> < pow2 24 * pow2 k" using pow2_of_nat [of 24] by (simp add: b abs_mult mult_strict_right_mono)
    also have "\<dots> \<le> pow2 (ilog2 \<bar>x\<bar>)" using pow2_add [of 24 k] pow2_mono [of "24 + k" "ilog2 \<bar>x\<bar>"] False e by simp
    finally have "\<bar>b\<bar> < of_int (2 ^ 23) * pow2 (ulp_exp x)" by (simp only: p)
    moreover have "of_int (2 ^ 23) * pow2 (ulp_exp x) \<le> \<bar>x\<bar>" using ilog2_upper [of "\<bar>x\<bar>"] assms(2) by (simp only: p)
    ultimately show thesis by (rule that(2))
  qed
qed

lemma round_ulp_le:
  assumes "representable b" "x \<noteq> 0" "x \<le> b"
  shows "round_ulp x \<le> b"
proof (rule representable_multiple [OF assms(1,2)])
  fix n assume "b = of_int n * pow2 (ulp_exp x)"
  then show ?thesis using round_ulp_le_multiple [of x n] assms(3) by simp
next
  fix n assume n: "\<bar>b\<bar> < of_int n * pow2 (ulp_exp x)" "of_int n * pow2 (ulp_exp x) \<le> \<bar>x\<bar>"
  then have "x \<le> of_int (- n) * pow2 (ulp_exp x)" using assms(3) by (auto simp: abs_if split: if_splits)
  then have "round_ulp x \<le> of_int (- n) * pow2 (ulp_exp x)" by (rule round_ulp_le_multiple)
  then show ?thesis using n(1) by (auto simp: abs_less_iff)
qed

lemma round_ulp_ge:
  assumes "representable b" "x \<noteq> 0" "b \<le> x"
  shows "b \<le> round_ulp x"
proof (rule representable_multiple [OF assms(1,2)])
  fix n assume "b = of_int n * pow2 (ulp_exp x)"
  then show ?thesis using round_ulp_ge_multiple [of n x] assms(3) by simp
next
  fix n assume n: "\<bar>b\<bar> < of_int n * pow2 (ulp_exp x)" "of_int n * pow2 (ulp_exp x) \<le> \<bar>x\<bar>"
  then have "of_int n * pow2 (ulp_exp x) \<le> x" using assms(3) by (auto simp: abs_if split: if_splits)
  then have "of_int n * pow2 (ulp_exp x) \<le> round_ulp x" by (rule round_ulp_ge_multiple)
  then show ?thesis using n(1) by (auto simp: abs_less_iff)
qed

lemma representable_bound: "representable b \<Longrightarrow> \<bar>b\<bar> < 2 ^ 128"
proof -
  assume "representable b"
  then obtain m k where b: "b = of_int m * pow2 k" and m: "\<bar>m\<bar> < 2 ^ 24" and k: "k \<le> 104" by (auto simp: representable_def)
  have "(of_int \<bar>m\<bar> :: rat) < of_int (2 ^ 24)" using m by (simp only: of_int_less_iff)
  then have "\<bar>b\<bar> < pow2 24 * pow2 k" using pow2_of_nat [of 24] by (simp add: b abs_mult mult_strict_right_mono)
  also have "\<dots> \<le> pow2 128" using pow2_add [of 24 k] pow2_mono [of "24 + k" 128] k by simp
  finally show ?thesis using pow2_of_nat [of 128] by simp
qed

lemma round32_between:
  assumes "representable a" "representable b" "a \<le> x" "x \<le> b"
  obtains r where "round32 x = Fin r" "a \<le> r" "r \<le> b"
proof (cases "x = 0")
  case True
  then show thesis using that [of 0] assms(3,4) by (simp add: round32_def)
next
  case False
  have r: "a \<le> round_ulp x" "round_ulp x \<le> b" using round_ulp_ge [OF assms(1) False assms(3)] round_ulp_le [OF assms(2) False assms(4)] by simp_all
  moreover have "\<not> 2 ^ 128 \<le> round_ulp x" "\<not> round_ulp x \<le> - (2 ^ 128)"
    using r order_le_less_trans [OF r(2) abs_less_iff [THEN iffD1, OF representable_bound [OF assms(2)], THEN conjunct1]]
      abs_less_iff [THEN iffD1, OF representable_bound [OF assms(1)], THEN conjunct2] by linarith+
  ultimately show thesis using that [of "round_ulp x"] False by (simp add: round32_ulp)
qed

lemma representable_0 [simp]: "representable 0"
  using representable_int [of 0] by simp

lemma representable_1 [simp]: "representable 1"
  using representable_int [of 1] by simp

lemma representable_uminus [simp]: "representable (- x) \<longleftrightarrow> representable x"
proof -
  have "representable y \<Longrightarrow> representable (- y)" for y
    unfolding representable_def by (elim exE conjE, rule_tac x = "- m" in exI, rule_tac x = k in exI) simp
  from this [of x] this [of "- x"] show ?thesis by auto
qed

lemma ilog2_lower: "0 < x \<Longrightarrow> x < pow2 (ilog2 x + 1)"
proof -
  assume x: "0 < x"
  obtain a b where q: "quotient_of x = (a, b)" by fastforce
  have b: "0 < b" and x': "x = of_int a / of_int b" using quotient_of_denom_pos [OF q] quotient_of_div [OF q] by simp_all
  have a: "0 < a" using x x' b by (simp add: zero_less_divide_iff)
  have "of_int a < pow2 (bitlen a)" using bitlen_bounds_rat [OF a] by simp
  also have "\<dots> = pow2 (bitlen a - bitlen b + 1) * pow2 (bitlen b - 1)" using pow2_add [of "bitlen a - bitlen b + 1" "bitlen b - 1"] by simp
  also have "\<dots> \<le> pow2 (bitlen a - bitlen b + 1) * of_int b"
    using bitlen_bounds_rat [OF b] by (intro mult_left_mono) (simp_all add: less_imp_le)
  finally have "x < pow2 (bitlen a - bitlen b + 1)" using b x' by (simp add: divide_less_eq)
  then show ?thesis using q by (simp add: ilog2_def Let_def)
qed

text \<open>A rounded number has a significand of 24 bits.\<close>

lemma round_ulp_significand: "x \<noteq> 0 \<Longrightarrow> \<bar>half_even (x / pow2 (ulp_exp x))\<bar> \<le> 2 ^ 24"
proof -
  assume x: "x \<noteq> 0"
  have "pow2 (ilog2 \<bar>x\<bar> + 1) \<le> pow2 (24 + ulp_exp x)" by (rule pow2_mono) (simp add: ulp_exp_def)
  then have "\<bar>x\<bar> \<le> 2 ^ 24 * pow2 (ulp_exp x)" using ilog2_lower [of "\<bar>x\<bar>"] x pow2_add [of 24 "ulp_exp x"] pow2_of_nat [of 24] by simp
  then have "x / pow2 (ulp_exp x) \<le> of_int (2 ^ 24)" "of_int (- (2 ^ 24)) \<le> x / pow2 (ulp_exp x)"
    by (simp_all add: divide_le_eq le_divide_eq abs_le_iff)
  then have "half_even (x / pow2 (ulp_exp x)) \<le> 2 ^ 24" "- (2 ^ 24) \<le> half_even (x / pow2 (ulp_exp x))"
    using half_even_le half_even_ge by blast+
  then show ?thesis by linarith
qed

lemma round_ulp_representable:
  assumes "x \<noteq> 0" "\<bar>round_ulp x\<bar> < 2 ^ 128"
  shows "representable (round_ulp x)"
proof -
  define h e where "h = half_even (x / pow2 (ulp_exp x))" and "e = ulp_exp x"
  have r: "round_ulp x = of_int h * pow2 e" by (simp add: round_ulp_def h_def e_def)
  have h: "\<bar>h\<bar> \<le> 2 ^ 24" using round_ulp_significand [OF assms(1)] by (simp add: h_def)
  have e: "- 149 \<le> e" by (simp add: e_def ulp_exp_def)
  have e104: "e \<le> 104"
  proof (rule ccontr)
    assume big: "\<not> e \<le> 104"
    then have n: "e = ilog2 \<bar>x\<bar> - 23" by (simp add: e_def ulp_exp_def max_def split: if_splits)
    then have p: "of_int (2 ^ 23) * pow2 e = pow2 (ilog2 \<bar>x\<bar>)" using pow2_add [of 23 "ilog2 \<bar>x\<bar> - 23"] pow2_of_nat [of 23] by simp
    have "of_int (2 ^ 23) * pow2 e \<le> \<bar>x\<bar>" using ilog2_upper [of "\<bar>x\<bar>"] assms(1) by (simp only: p)
    then have "of_int (2 ^ 23) * pow2 e \<le> \<bar>round_ulp x\<bar>"
    proof (cases "0 \<le> x")
      case True
      then have "of_int (2 ^ 23) * pow2 e \<le> round_ulp x" using \<open>of_int (2 ^ 23) * pow2 e \<le> \<bar>x\<bar>\<close> round_ulp_ge_multiple [of "2 ^ 23" x] by (simp only: e_def abs_of_nonneg)
      then show ?thesis by linarith
    next
      case False
      then have "x \<le> of_int (- (2 ^ 23)) * pow2 e" using \<open>of_int (2 ^ 23) * pow2 e \<le> \<bar>x\<bar>\<close> by (simp add: abs_if)
      then have "round_ulp x \<le> of_int (- (2 ^ 23)) * pow2 e" using round_ulp_le_multiple [of x "- (2 ^ 23)"] by (simp only: e_def)
      then show ?thesis by (simp add: abs_if)
    qed
    moreover have "pow2 128 \<le> of_int (2 ^ 23) * pow2 e" using pow2_mono [of 128 "23 + e"] pow2_add [of 23 e] pow2_of_nat [of 23] big by simp
    ultimately show False using assms(2) pow2_of_nat [of 128] by simp
  qed
  show ?thesis
  proof (cases "\<bar>h\<bar> = 2 ^ 24")
    case False
    then show ?thesis unfolding representable_def using r h e e104 by (intro exI [of _ h] exI [of _ e]) simp
  next
    case True
    have ne: "e \<noteq> 104"
    proof
      assume "e = 104"
      then have "\<bar>round_ulp x\<bar> = of_int \<bar>h\<bar> * pow2 104" by (simp add: r abs_mult)
      then have "\<bar>round_ulp x\<bar> = 2 ^ 24 * pow2 104" by (simp only: True) simp
      then show False using assms(2) pow2_of_nat [of 104] by simp
    qed
    have "even h" using True even_abs_add_iff [of h 0] by simp
    then obtain j where j: "h = 2 * j" by (elim evenE)
    have "round_ulp x = of_int j * pow2 (e + 1)" using r j pow2_add [of e 1] by (simp add: pow2_def)
    moreover have "\<bar>j\<bar> < 2 ^ 24" using True j by (simp add: abs_mult)
    ultimately show ?thesis unfolding representable_def using e e104 ne by (intro exI [of _ j] exI [of _ "e + 1"]) simp
  qed
qed

lemma round32_representable: "round32 x = Fin r \<Longrightarrow> representable r"
proof (cases "x = 0")
  case False
  assume r: "round32 x = Fin r"
  then have "\<bar>round_ulp x\<bar> < 2 ^ 128" "r = round_ulp x" using False by (auto simp: round32_ulp abs_less_iff split: if_splits)
  then show ?thesis using round_ulp_representable [OF False] by simp
qed (simp add: round32_def)

lemma round32_not_NaN [simp]: "round32 x \<noteq> Not_A_Number"
  by (cases "x = 0") (simp_all add: round32_ulp round32_def [of 0])

text \<open>Rounding keeps multiples of a power of two.\<close>

lemma round32_multiple:
  assumes "x = of_int n * pow2 k" "- 149 \<le> k" "round32 x = Fin r"
  obtains i where "r = of_int i * pow2 k"
proof (cases "x = 0")
  case True
  then show thesis using that [of 0] assms(3) by (simp add: round32_def)
next
  case False
  then have r: "r = of_int (half_even (x / pow2 (ulp_exp x))) * pow2 (ulp_exp x)" using assms(3) by (simp add: round32_ulp round_ulp_def split: if_splits)
  show thesis
  proof (cases "k \<le> ulp_exp x")
    case True
    then have "pow2 (ulp_exp x) = of_int (2 ^ nat (ulp_exp x - k)) * pow2 k" using pow2_add [of "ulp_exp x - k" k] pow2_of_nat [of "nat (ulp_exp x - k)"] by simp
    then show thesis using that [of "half_even (x / pow2 (ulp_exp x)) * 2 ^ nat (ulp_exp x - k)"] r by simp
  next
    case b: False
    then have "pow2 k = of_int (2 ^ nat (k - ulp_exp x)) * pow2 (ulp_exp x)" using pow2_add [of "k - ulp_exp x" "ulp_exp x"] pow2_of_nat [of "nat (k - ulp_exp x)"] by simp
    then have "x = of_int (n * 2 ^ nat (k - ulp_exp x)) * pow2 (ulp_exp x)" by (subst assms(1)) simp
    then have "x / pow2 (ulp_exp x) = of_int (n * 2 ^ nat (k - ulp_exp x))" by (subst nonzero_divide_eq_eq) simp_all
    then have "of_int (half_even (x / pow2 (ulp_exp x))) = x / pow2 (ulp_exp x)" by (simp only: half_even_of_int)
    then show thesis using that [of n] r assms(1) by simp
  qed
qed

section \<open>Bounds of the operations\<close>

text \<open>A finite number between two others.\<close>

definition fin_in :: "rat \<Rightarrow> rat \<Rightarrow> f32 \<Rightarrow> bool" where
  "fin_in lo hi x \<longleftrightarrow> (case x of Fin a \<Rightarrow> lo \<le> a \<and> a \<le> hi | _ \<Rightarrow> False)"

definition finite32 :: "f32 \<Rightarrow> bool" where
  "finite32 x \<longleftrightarrow> (case x of Fin a \<Rightarrow> representable a | _ \<Rightarrow> False)"

lemma fin_in_Fin [simp]: "fin_in lo hi (Fin a) \<longleftrightarrow> lo \<le> a \<and> a \<le> hi"
  by (simp add: fin_in_def)

lemma fin_inE: "fin_in lo hi x \<Longrightarrow> (\<And>a. x = Fin a \<Longrightarrow> lo \<le> a \<Longrightarrow> a \<le> hi \<Longrightarrow> thesis) \<Longrightarrow> thesis"
  by (cases x) (auto simp: fin_in_def)

lemma finite32_Fin [simp]: "finite32 (Fin a) \<longleftrightarrow> representable a"
  by (simp add: finite32_def)

lemma finite32E: "finite32 x \<Longrightarrow> (\<And>a. x = Fin a \<Longrightarrow> representable a \<Longrightarrow> thesis) \<Longrightarrow> thesis"
  by (cases x) (auto simp: finite32_def)

lemma round32_fin_in:
  "representable lo \<Longrightarrow> representable hi \<Longrightarrow> lo \<le> x \<Longrightarrow> x \<le> hi \<Longrightarrow> fin_in lo hi (round32 x) \<and> finite32 (round32 x)"
  by (rule round32_between [of lo hi x]) (auto dest: round32_representable)

lemma trunc_rat_error: "\<bar>x - of_int (trunc_rat x)\<bar> < 1 \<and> (0 \<le> x \<longrightarrow> of_int (trunc_rat x) \<le> x) \<and> (x \<le> 0 \<longrightarrow> x \<le> of_int (trunc_rat x))"
  unfolding trunc_rat_def by (auto simp: abs_less_iff) linarith+

lemma f_rem_pos:
  assumes "0 < b"
  obtains r t where "f_rem (Fin a) (Fin b) = Fin r" "r = a - b * of_int t" "\<bar>r\<bar> < b" "0 \<le> a \<Longrightarrow> 0 \<le> r" "a \<le> 0 \<Longrightarrow> r \<le> 0"
proof -
  define t r where "t = trunc_rat (a / b)" and "r = a - b * of_int t"
  have q: "r = b * (a / b - of_int t)" using assms by (simp add: r_def right_diff_distrib)
  note e = trunc_rat_error [of "a / b", folded t_def]
  have "\<bar>r\<bar> = b * \<bar>a / b - of_int t\<bar>" using assms by (simp add: q abs_mult)
  then have "\<bar>r\<bar> < b" using e assms mult_strict_left_mono [of "\<bar>a / b - of_int t\<bar>" 1 b] by simp
  moreover have "0 \<le> r" if "0 \<le> a" using e that assms by (simp add: q)
  moreover have "r \<le> 0" if "a \<le> 0" using e that assms by (simp add: q mult_le_0_iff divide_nonpos_pos)
  moreover have "f_rem (Fin a) (Fin b) = Fin r" using assms by (simp add: r_def t_def)
  ultimately show thesis using that [of r t] by (simp add: r_def)
qed

lemma f_rem_euclid_range:
  assumes "0 < b" "representable b"
  shows "fin_in 0 b (f_rem_euclid (Fin a) (Fin b))"
proof (rule f_rem_pos [OF assms(1), of a])
  fix r t assume r: "f_rem (Fin a) (Fin b) = Fin r" "\<bar>r\<bar> < b"
  show ?thesis
  proof (cases "r < 0")
    case True
    have "fin_in 0 b (round32 (r + b))" using True r(2) assms(2) round32_fin_in [of 0 b "r + b"] by simp
    then show ?thesis using True r assms(1) by (simp add: f_rem_euclid_def)
  qed (use r in \<open>simp add: f_rem_euclid_def\<close>)
qed

lemma f_clamp_range:
  assumes "lo \<le> hi" "x \<noteq> Not_A_Number"
  shows "\<exists>y. f_clamp (Fin lo) (Fin hi) x = Some (Fin y) \<and> lo \<le> y \<and> y \<le> hi"
proof (cases x)
  case (Fin a)
  then show ?thesis using assms(1) by (cases "a < lo"; cases "hi < a") (auto simp: f_clamp_def f_le_def f_eq_def)
qed (use assms in \<open>auto simp: f_clamp_def f_le_def f_eq_def\<close>)

lemma f_max_not_NaN: "y \<noteq> Not_A_Number \<Longrightarrow> f_max x y \<noteq> Not_A_Number"
  by (simp add: f_max_def)

lemma f_max_zero_nonneg: "f_le (Fin 0) (f_max x (Fin 0))"
  by (cases x) (auto simp: f_max_def f_le_def f_eq_def)

text \<open>\<open>f32::round\<close> goes away from zero at a half; \<open>as i64\<close> truncates and saturates, and a NaN gives zero.\<close>

fun f_round :: "f32 \<Rightarrow> f32" where
  "f_round (Fin a) = Fin (of_int (if 0 \<le> a then \<lfloor>a + 1 / 2\<rfloor> else \<lceil>a - 1 / 2\<rceil>))"
| "f_round x = x"

fun f_as_i64 :: "f32 \<Rightarrow> int" where
  "f_as_i64 (Fin a) = max (- (2 ^ 63)) (min (2 ^ 63 - 1) (trunc_rat a))"
| "f_as_i64 Pos_Inf = 2 ^ 63 - 1"
| "f_as_i64 Neg_Inf = - (2 ^ 63)"
| "f_as_i64 Not_A_Number = 0"

text \<open>\<open>f32::consts::PI\<close>.\<close>

definition pi32 :: rat where
  "pi32 = 13176795 / 2 ^ 22"

lemma representable_scaled: "\<bar>m\<bar> < 2 ^ 24 \<Longrightarrow> j \<le> 149 \<Longrightarrow> representable (of_int m / 2 ^ j)"
  unfolding representable_def by (intro exI [of _ m] exI [of _ "- int j"]) (simp add: pow2_def power_int_minus divide_inverse)

lemma representable_pi32 [simp]: "representable pi32"
  using representable_scaled [of 13176795 22] by (simp add: pi32_def)

lemma representable_2pi32 [simp]: "representable (2 * pi32)"
  using representable_scaled [of 13176795 21] by (simp add: pi32_def)

text \<open>Sums of non-negative terms stay below the number of terms times their bound.\<close>

lemma f_sum_append: "f_sum (xs @ [x]) = f_add (f_sum xs) x"
  by (simp add: f_sum_def)

lemma f_sum_range:
  assumes "\<forall>x \<in> set xs. fin_in 0 (2 ^ k) x" "length xs < 2 ^ 24" "k \<le> 104"
  shows "fin_in 0 (of_nat (length xs) * 2 ^ k) (f_sum xs)"
  using assms
proof (induction xs rule: rev_induct)
  case (snoc x xs)
  then have "fin_in 0 (of_nat (length xs) * 2 ^ k) (f_sum xs)" by simp
  then obtain s where s: "f_sum xs = Fin s" "0 \<le> s" "s \<le> of_nat (length xs) * 2 ^ k" by (elim fin_inE)
  obtain a where a: "x = Fin a" "0 \<le> a" "a \<le> 2 ^ k" using snoc.prems(1) by (auto elim: fin_inE)
  have "representable (of_int (int (length (xs @ [x]))) * 2 ^ k)"
    unfolding representable_def using snoc.prems(2,3) by (intro exI [of _ "int (length (xs @ [x]))"] exI [of _ "int k"]) (simp add: pow2_of_nat)
  then have "fin_in 0 (of_nat (length (xs @ [x])) * 2 ^ k) (round32 (s + a))"
    using s a round32_fin_in [of 0 "of_nat (length (xs @ [x])) * 2 ^ k" "s + a"] by (simp add: algebra_simps)
  then show ?case by (simp add: f_sum_append s a)
qed (simp add: f_sum_def)

lemma ilog2_eqI: "pow2 e \<le> x \<Longrightarrow> x < pow2 (e + 1) \<Longrightarrow> ilog2 x = e"
proof -
  assume x: "pow2 e \<le> x" "x < pow2 (e + 1)"
  then have pos: "0 < x" using pow2_pos [of e] by linarith
  have "\<not> e + 1 \<le> ilog2 x" using pow2_mono [of "e + 1" "ilog2 x"] ilog2_upper [OF pos] x(2) by linarith
  moreover have "\<not> ilog2 x + 1 \<le> e" using pow2_mono [of "ilog2 x + 1" e] ilog2_lower [OF pos] x(1) by linarith
  ultimately show ?thesis by linarith
qed

lemma finite32_round1 [simp]: "round32 1 = Fin 1"
  by (rule round32_exact) simp

lemma finite32_round0 [simp]: "round32 0 = Fin 0"
  by (rule round32_exact) simp

lemma round32_nonneg: "0 \<le> x \<Longrightarrow> f_le (Fin 0) (round32 x)"
  using round_ulp_ge [of 0 x] by (cases "x = 0") (auto simp: round32_ulp f_le_def f_eq_def)

lemma f_nonneg_cases: "f_le (Fin 0) x \<Longrightarrow> (\<And>a. x = Fin a \<Longrightarrow> 0 \<le> a \<Longrightarrow> thesis) \<Longrightarrow> (x = Pos_Inf \<Longrightarrow> thesis) \<Longrightarrow> thesis"
  by (cases x) (auto simp: f_le_def f_eq_def)

lemma f_add_nonneg: "f_le (Fin 0) x \<Longrightarrow> f_le (Fin 0) y \<Longrightarrow> f_le (Fin 0) (f_add x y)"
  by (elim f_nonneg_cases) (simp_all add: round32_nonneg f_le_def [of "Fin 0" Pos_Inf])

lemma f_mul_self_nonneg: "x \<noteq> Not_A_Number \<Longrightarrow> f_le (Fin 0) (f_mul x x)"
  by (cases x) (simp_all add: round32_nonneg f_le_def [of "Fin 0" Pos_Inf])

lemma f_sub_finite_not_NaN: "finite32 x \<Longrightarrow> finite32 y \<Longrightarrow> f_sub x y \<noteq> Not_A_Number"
  by (auto elim!: finite32E simp: f_sub_def)

lemma f_sub_0: "finite32 x \<Longrightarrow> f_sub x (Fin 0) = x"
  by (auto elim!: finite32E simp: f_sub_def round32_exact)

lemma f_of_nat_exact: "n < 2 ^ 24 \<Longrightarrow> f_of_nat n = Fin (of_nat n)"
  using round32_exact [OF representable_int, of "int n"] by (simp add: f_of_nat_def)

end
