(* ===== verification/Br_Layout.thy ===== *)
theory Br_Layout
  imports Br_Style F32
begin

text \<open>
  Block layout of \<open>2026-08-26-rust-browser-engine/src/layout.rs\<close>: the tree of boxes built from the styled tree, and the widths, positions and heights that the
  layout gives them. The theory shows how boxes are nested, that exactly the visible nodes have one, and that on whole pixels the widths of a block add up
  to the width of its container.
\<close>

section \<open>Boxes\<close>

record Rect =
  rect_x :: f32
  rect_y :: f32
  rect_width :: f32
  rect_height :: f32

record EdgeSizes =
  edge_left :: f32
  edge_right :: f32
  edge_top :: f32
  edge_bottom :: f32

record Dimensions =
  content :: Rect
  padding :: EdgeSizes
  border :: EdgeSizes
  margin :: EdgeSizes

definition rect_default :: Rect where
  "rect_default = \<lparr>rect_x = Fin 0, rect_y = Fin 0, rect_width = Fin 0, rect_height = Fin 0\<rparr>"

definition edge_default :: EdgeSizes where
  "edge_default = \<lparr>edge_left = Fin 0, edge_right = Fin 0, edge_top = Fin 0, edge_bottom = Fin 0\<rparr>"

definition dimensions_default :: Dimensions where
  "dimensions_default = \<lparr>content = rect_default, padding = edge_default, border = edge_default, margin = edge_default\<rparr>"

definition expanded_by :: "Rect \<Rightarrow> EdgeSizes \<Rightarrow> Rect" where
  "expanded_by r e = \<lparr>rect_x = f_sub (rect_x r) (edge_left e), rect_y = f_sub (rect_y r) (edge_top e),
     rect_width = f_add (f_add (rect_width r) (edge_left e)) (edge_right e),
     rect_height = f_add (f_add (rect_height r) (edge_top e)) (edge_bottom e)\<rparr>"

definition padding_box :: "Dimensions \<Rightarrow> Rect" where
  "padding_box d = expanded_by (content d) (padding d)"

definition border_box :: "Dimensions \<Rightarrow> Rect" where
  "border_box d = expanded_by (padding_box d) (border d)"

definition margin_box :: "Dimensions \<Rightarrow> Rect" where
  "margin_box d = expanded_by (border_box d) (margin d)"

datatype BoxType = BlockNode "f32 StyledNode" | InlineNode "f32 StyledNode" | AnonymousBlock

datatype LayoutBox = LayoutBox (dimensions: Dimensions) (box_type: BoxType) (box_children: "LayoutBox list")

definition layout_box_new :: "BoxType \<Rightarrow> LayoutBox" where
  "layout_box_new ty = LayoutBox dimensions_default ty []"

definition push_child :: "LayoutBox \<Rightarrow> LayoutBox \<Rightarrow> LayoutBox" where
  "push_child c b = LayoutBox (dimensions b) (box_type b) (box_children b @ [c])"

text \<open>The inline container is borrowed from the box: \<open>f\<close> is what is done to it.\<close>

definition get_inline_container :: "(LayoutBox \<Rightarrow> LayoutBox) \<Rightarrow> LayoutBox \<Rightarrow> LayoutBox" where
  "get_inline_container f b =
     (case box_type b of
        BlockNode s \<Rightarrow>
          (let ch = (if box_children b \<noteq> [] \<and> box_type (last (box_children b)) = AnonymousBlock then box_children b
                     else box_children b @ [layout_box_new AnonymousBlock])
           in LayoutBox (dimensions b) (box_type b) (butlast ch @ [f (last ch)]))
      | _ \<Rightarrow> f b)"

section \<open>Building the tree\<close>

fun build_layout_tree :: "f32 StyledNode \<Rightarrow> LayoutBox option" and build_children :: "LayoutBox \<Rightarrow> f32 StyledNode list \<Rightarrow> LayoutBox option" where
  "build_layout_tree (StyledNode n m ch) =
     (case display (StyledNode n m ch) of
        Block \<Rightarrow> build_children (layout_box_new (BlockNode (StyledNode n m ch))) ch
      | Inline \<Rightarrow> build_children (layout_box_new (InlineNode (StyledNode n m ch))) ch
      | Display_None \<Rightarrow> None)"
| "build_children box [] = Some box"
| "build_children box (c # cs) =
     (case display c of
        Block \<Rightarrow> (case build_layout_tree c of None \<Rightarrow> None | Some b \<Rightarrow> build_children (push_child b box) cs)
      | Inline \<Rightarrow> (case build_layout_tree c of None \<Rightarrow> None | Some b \<Rightarrow> build_children (get_inline_container (push_child b) box) cs)
      | Display_None \<Rightarrow> build_children box cs)"

section \<open>Layout\<close>

definition auto_value :: "f32 Value" where
  "auto_value = Keyword ''auto''"

definition px :: "f32 \<Rightarrow> f32 Value" where
  "px f = Length f Px"

abbreviation pixels_of :: "f32 Value \<Rightarrow> f32" where
  "pixels_of v \<equiv> to_px (Fin 0) v"

record BlockWidths =
  bw_width :: "f32 Value"
  bw_margin_left :: "f32 Value"
  bw_margin_right :: "f32 Value"

text \<open>The over-constrained case, then the distribution of the underflow.\<close>

definition reset_auto :: "f32 Value \<Rightarrow> f32 Value" where
  "reset_auto v = (if v = auto_value then px (Fin 0) else v)"

definition drop_auto_margins :: "f32 \<Rightarrow> f32 \<Rightarrow> BlockWidths \<Rightarrow> BlockWidths" where
  "drop_auto_margins total_px available w =
     (if bw_width w \<noteq> auto_value \<and> f_lt available total_px
      then w\<lparr>bw_margin_left := reset_auto (bw_margin_left w), bw_margin_right := reset_auto (bw_margin_right w)\<rparr> else w)"

definition distribute :: "f32 \<Rightarrow> BlockWidths \<Rightarrow> BlockWidths" where
  "distribute underflow w =
     (case (bw_width w = auto_value, bw_margin_left w = auto_value, bw_margin_right w = auto_value) of
        (False, False, False) \<Rightarrow> w\<lparr>bw_margin_right := px (f_add (pixels_of (bw_margin_right w)) underflow)\<rparr>
      | (False, False, True) \<Rightarrow> w\<lparr>bw_margin_right := px underflow\<rparr>
      | (False, True, False) \<Rightarrow> w\<lparr>bw_margin_left := px underflow\<rparr>
      | (True, l, r) \<Rightarrow>
          (let w' = w\<lparr>bw_margin_left := reset_auto (bw_margin_left w), bw_margin_right := reset_auto (bw_margin_right w)\<rparr> in
           if f_le (Fin 0) underflow then w'\<lparr>bw_width := px underflow\<rparr>
           else w'\<lparr>bw_width := px (Fin 0), bw_margin_right := px (f_add (pixels_of (bw_margin_right w')) underflow)\<rparr>)
      | (False, True, True) \<Rightarrow> w\<lparr>bw_margin_left := px (f_div underflow (Fin 2)), bw_margin_right := px (f_div underflow (Fin 2))\<rparr>)"

definition block_widths :: "f32 StyledNode \<Rightarrow> f32 \<Rightarrow> BlockWidths" where
  "block_widths style available =
     (let zero = px (Fin 0);
          width = (case style_value style ''width'' of Some v \<Rightarrow> v | None \<Rightarrow> auto_value);
          margin_left = style_lookup style ''margin-left'' ''margin'' zero;
          margin_right = style_lookup style ''margin-right'' ''margin'' zero;
          border_left = style_lookup style ''border-left-width'' ''border-width'' zero;
          border_right = style_lookup style ''border-right-width'' ''border-width'' zero;
          padding_left = style_lookup style ''padding-left'' ''padding'' zero;
          padding_right = style_lookup style ''padding-right'' ''padding'' zero;
          total_px = f_sum (map pixels_of [margin_left, margin_right, border_left, border_right, padding_left, padding_right, width])
      in distribute (f_sub available total_px) (drop_auto_margins total_px available
           \<lparr>bw_width = width, bw_margin_left = margin_left, bw_margin_right = margin_right\<rparr>))"

definition styled_block_width :: "f32 StyledNode \<Rightarrow> Dimensions \<Rightarrow> Dimensions \<Rightarrow> Dimensions" where
  "styled_block_width style d containing =
     (let zero = px (Fin 0); w = block_widths style (rect_width (content containing)) in
      d\<lparr>content := (content d)\<lparr>rect_width := pixels_of (bw_width w)\<rparr>,
        padding := (padding d)\<lparr>edge_left := pixels_of (style_lookup style ''padding-left'' ''padding'' zero),
                               edge_right := pixels_of (style_lookup style ''padding-right'' ''padding'' zero)\<rparr>,
        border := (border d)\<lparr>edge_left := pixels_of (style_lookup style ''border-left-width'' ''border-width'' zero),
                             edge_right := pixels_of (style_lookup style ''border-right-width'' ''border-width'' zero)\<rparr>,
        margin := (margin d)\<lparr>edge_left := pixels_of (bw_margin_left w), edge_right := pixels_of (bw_margin_right w)\<rparr>\<rparr>)"

definition calculate_block_width :: "BoxType \<Rightarrow> Dimensions \<Rightarrow> Dimensions \<Rightarrow> Dimensions" where
  "calculate_block_width ty d containing =
     (case ty of
        AnonymousBlock \<Rightarrow> d\<lparr>content := (content d)\<lparr>rect_width := rect_width (content containing)\<rparr>\<rparr>
      | BlockNode style \<Rightarrow> styled_block_width style d containing
      | InlineNode style \<Rightarrow> styled_block_width style d containing)"

definition vertical_edges :: "f32 StyledNode \<Rightarrow> Dimensions \<Rightarrow> Dimensions" where
  "vertical_edges style d =
     (let zero = px (Fin 0) in
      d\<lparr>margin := (margin d)\<lparr>edge_top := pixels_of (style_lookup style ''margin-top'' ''margin'' zero),
                             edge_bottom := pixels_of (style_lookup style ''margin-bottom'' ''margin'' zero)\<rparr>,
        border := (border d)\<lparr>edge_top := pixels_of (style_lookup style ''border-top-width'' ''border-width'' zero),
                             edge_bottom := pixels_of (style_lookup style ''border-bottom-width'' ''border-width'' zero)\<rparr>,
        padding := (padding d)\<lparr>edge_top := pixels_of (style_lookup style ''padding-top'' ''padding'' zero),
                               edge_bottom := pixels_of (style_lookup style ''padding-bottom'' ''padding'' zero)\<rparr>\<rparr>)"

definition calculate_block_position :: "BoxType \<Rightarrow> Dimensions \<Rightarrow> Dimensions \<Rightarrow> Dimensions" where
  "calculate_block_position ty d containing =
     (let d1 = (case ty of
           AnonymousBlock \<Rightarrow> d\<lparr>margin := (margin d)\<lparr>edge_top := Fin 0\<rparr>, border := (border d)\<lparr>edge_top := Fin 0\<rparr>, padding := (padding d)\<lparr>edge_top := Fin 0\<rparr>\<rparr>
         | BlockNode style \<Rightarrow> vertical_edges style d
         | InlineNode style \<Rightarrow> vertical_edges style d);
         c = content containing
      in d1\<lparr>content := (content d1)\<lparr>
           rect_x := f_add (f_add (f_add (rect_x c) (edge_left (margin d1))) (edge_left (border d1))) (edge_left (padding d1)),
           rect_y := f_add (f_add (f_add (f_add (rect_height c) (rect_y c)) (edge_top (margin d1))) (edge_top (border d1))) (edge_top (padding d1))\<rparr>\<rparr>)"

definition calculate_block_height :: "BoxType \<Rightarrow> Dimensions \<Rightarrow> Dimensions" where
  "calculate_block_height ty d =
     (case (case ty of AnonymousBlock \<Rightarrow> None | BlockNode style \<Rightarrow> style_value style ''height'' | InlineNode style \<Rightarrow> style_value style ''height'') of
        Some (Length h Px) \<Rightarrow> d\<lparr>content := (content d)\<lparr>rect_height := h\<rparr>\<rparr>
      | _ \<Rightarrow> d)"

definition add_height :: "f32 \<Rightarrow> Dimensions \<Rightarrow> Dimensions" where
  "add_height h d = d\<lparr>content := (content d)\<lparr>rect_height := f_add (rect_height (content d)) h\<rparr>\<rparr>"

fun layout :: "LayoutBox \<Rightarrow> Dimensions \<Rightarrow> LayoutBox" and layout_block_children :: "LayoutBox list \<Rightarrow> Dimensions \<Rightarrow> LayoutBox list \<times> Dimensions" where
  "layout (LayoutBox d ty ch) containing =
     (case ty of
        InlineNode s \<Rightarrow> LayoutBox d ty ch
      | _ \<Rightarrow>
          (let d1 = calculate_block_width ty d containing;
               d2 = calculate_block_position ty d1 containing;
               (ch', d3) = layout_block_children ch d2
           in LayoutBox (calculate_block_height ty d3) ty ch'))"
| "layout_block_children [] d = ([], d)"
| "layout_block_children (c # cs) d =
     (let c' = layout c d;
          (cs', d') = layout_block_children cs (add_height (rect_height (margin_box (dimensions c'))) d)
      in (c' # cs', d'))"

definition layout_tree :: "f32 StyledNode \<Rightarrow> Dimensions \<Rightarrow> LayoutBox option" where
  "layout_tree n containing =
     map_option (\<lambda>b. layout b (containing\<lparr>content := (content containing)\<lparr>rect_height := Fin 0\<rparr>\<rparr>)) (build_layout_tree n)"

definition background_color :: "LayoutBox \<Rightarrow> Color option" where
  "background_color b =
     (case box_type b of
        AnonymousBlock \<Rightarrow> None
      | BlockNode style \<Rightarrow> (case style_value style ''background'' of Some (ColorValue c) \<Rightarrow> Some c | _ \<Rightarrow> None)
      | InlineNode style \<Rightarrow> (case style_value style ''background'' of Some (ColorValue c) \<Rightarrow> Some c | _ \<Rightarrow> None))"

section \<open>The boxes of a page\<close>

text \<open>The nodes that are shown, in document order, and the nodes that have a box.\<close>

fun visible_nodes :: "f32 StyledNode \<Rightarrow> f32 StyledNode list" where
  "visible_nodes (StyledNode n m ch) =
     (if display (StyledNode n m ch) = Display_None then [] else StyledNode n m ch # concat (map visible_nodes ch))"

definition box_owner :: "BoxType \<Rightarrow> f32 StyledNode list" where
  "box_owner ty = (case ty of BlockNode s \<Rightarrow> [s] | InlineNode s \<Rightarrow> [s] | AnonymousBlock \<Rightarrow> [])"

fun box_nodes :: "LayoutBox \<Rightarrow> f32 StyledNode list" where
  "box_nodes (LayoutBox d ty ch) = box_owner ty @ concat (map box_nodes ch)"

text \<open>How boxes nest: a block holds blocks and anonymous blocks, no two of the latter in a row; an anonymous block holds inline boxes, at least one; a
  box is a block or inline as its node is displayed.\<close>

fun is_anonymous :: "LayoutBox \<Rightarrow> bool" where
  "is_anonymous (LayoutBox d AnonymousBlock ch) \<longleftrightarrow> True"
| "is_anonymous b \<longleftrightarrow> False"

fun is_inline :: "LayoutBox \<Rightarrow> bool" where
  "is_inline (LayoutBox d (InlineNode s) ch) \<longleftrightarrow> True"
| "is_inline b \<longleftrightarrow> False"

definition nests :: "BoxType \<Rightarrow> LayoutBox list \<Rightarrow> bool" where
  "nests ty ch = (case ty of
     BlockNode s \<Rightarrow> display s = Block \<and> list_all (\<lambda>c. \<not> is_inline c) ch \<and> successively (\<lambda>c c'. \<not> (is_anonymous c \<and> is_anonymous c')) ch
   | InlineNode s \<Rightarrow> display s = Inline \<and> list_all (\<lambda>c. \<not> is_anonymous c) ch
   | AnonymousBlock \<Rightarrow> ch \<noteq> [] \<and> list_all is_inline ch)"

fun box_ok :: "LayoutBox \<Rightarrow> bool" where
  "box_ok (LayoutBox d ty ch) \<longleftrightarrow> nests ty ch \<and> list_all box_ok ch"

lemma is_anonymous_iff: "is_anonymous b \<longleftrightarrow> box_type b = AnonymousBlock"
  by (cases b; cases "box_type b") auto

lemma box_owner_Nil: "box_owner ty = [] \<longleftrightarrow> ty = AnonymousBlock"
  by (cases ty) (auto simp: box_owner_def)

lemma push_child_simps:
  "box_nodes (push_child c b) = box_nodes b @ box_nodes c" "box_type (push_child c b) = box_type b"
  by (cases b; simp add: push_child_def)+

lemma push_child_ok:
  assumes "box_ok b" and "box_ok c" and "\<not> is_anonymous c" and "\<not> is_anonymous b" and "is_inline c \<longrightarrow> is_inline b"
  shows "box_ok (push_child c b)"
  using assms by (cases b; cases "box_type b"; cases c; cases "box_type c") (auto simp: push_child_def nests_def successively_append_iff)

lemma inline_push_ok:
  assumes b: "box_ok b" and c: "box_ok c" "is_inline c" and "\<not> is_anonymous b"
  shows "box_ok (get_inline_container (push_child c) b)" and "box_nodes (get_inline_container (push_child c) b) = box_nodes b @ box_nodes c"
    and "box_type (get_inline_container (push_child c) b) = box_type b"
proof -
  obtain d ty ch where bb: "b = LayoutBox d ty ch" by (cases b)
  have ca: "\<not> is_anonymous c" using c(2) by (cases c; cases "box_type c") auto
  have g: "box_ok (get_inline_container (push_child c) b) \<and> box_nodes (get_inline_container (push_child c) b) = box_nodes b @ box_nodes c \<and>
      box_type (get_inline_container (push_child c) b) = box_type b"
  proof (cases ty)
    case (InlineNode s)
    then have "get_inline_container (push_child c) b = push_child c b" "is_inline b" by (simp_all add: get_inline_container_def bb)
    then show ?thesis using push_child_ok [OF b c(1) ca assms(4)] push_child_simps by simp
  next
    case AnonymousBlock
    then show ?thesis using assms(4) bb by simp
  next
    case (BlockNode s)
    have ok: "display s = Block" "list_all (\<lambda>c. \<not> is_inline c) ch" "successively (\<lambda>c c'. \<not> (is_anonymous c \<and> is_anonymous c')) ch" "list_all box_ok ch"
      using b bb BlockNode by (simp_all add: nests_def)
    show ?thesis
    proof (cases "ch \<noteq> [] \<and> is_anonymous (last ch)")
      case True
      then obtain ch' a where ch: "ch = ch' @ [a]" and a: "is_anonymous a" by (cases ch rule: rev_cases) auto
      obtain d' as where a': "a = LayoutBox d' AnonymousBlock as" using a by (cases a; cases "box_type a") auto
      have e: "get_inline_container (push_child c) b = LayoutBox d ty (ch' @ [push_child c a])"
        using BlockNode a' by (simp add: get_inline_container_def bb ch)
      have "box_ok (push_child c a)" "is_anonymous (push_child c a)" "\<not> is_inline (push_child c a)"
        using ok(4) c ch a' by (simp_all add: push_child_def nests_def)
      then show ?thesis unfolding e using ok ch a BlockNode push_child_simps(1) [of c a]
        by (simp add: bb nests_def successively_append_iff)
    next
      case False
      have n: "push_child c (layout_box_new AnonymousBlock) = LayoutBox dimensions_default AnonymousBlock [c]"
        by (simp add: push_child_def layout_box_new_def)
      have e: "get_inline_container (push_child c) b = LayoutBox d ty (ch @ [LayoutBox dimensions_default AnonymousBlock [c]])"
        using BlockNode False n by (auto simp: get_inline_container_def bb is_anonymous_iff)
      show ?thesis unfolding e using ok c False BlockNode by (auto simp: bb nests_def successively_append_iff box_owner_def)
    qed
  qed
  then show "box_ok (get_inline_container (push_child c) b)" "box_nodes (get_inline_container (push_child c) b) = box_nodes b @ box_nodes c"
    "box_type (get_inline_container (push_child c) b) = box_type b" by blast+
qed

definition box_type_for :: "f32 StyledNode \<Rightarrow> BoxType" where
  "box_type_for s = (if display s = Block then BlockNode s else InlineNode s)"

lemma visible_none: "display s = Display_None \<Longrightarrow> visible_nodes s = []"
  by (cases s) simp

lemma build_ok:
  "display s \<noteq> Display_None \<Longrightarrow> \<exists>b. build_layout_tree s = Some b \<and> box_nodes b = visible_nodes s \<and> box_ok b \<and> box_type b = box_type_for s"
  "box_ok b \<Longrightarrow> \<not> is_anonymous b \<Longrightarrow> \<exists>b'. build_children b cs = Some b' \<and> box_nodes b' = box_nodes b @ concat (map visible_nodes cs) \<and> box_ok b' \<and> box_type b' = box_type b"
proof (induction s and b cs rule: build_layout_tree_build_children.induct)
  case (1 n m ch)
  let ?s = "StyledNode n m ch"
  have new: "box_ok (layout_box_new (box_type_for ?s))" "\<not> is_anonymous (layout_box_new (box_type_for ?s))"
    using "1.prems" by (cases "display ?s"; simp add: box_type_for_def layout_box_new_def nests_def)+
  have bn: "box_nodes (layout_box_new (box_type_for ?s)) = [?s]" by (simp add: box_type_for_def layout_box_new_def box_owner_def)
  show ?case
  proof (cases "display ?s")
    case Inline
    then show ?thesis using "1.IH"(1) [OF Inline] new bn by (auto simp: box_type_for_def layout_box_new_def)
  next
    case Block
    then show ?thesis using "1.IH"(2) [OF Block] new bn by (auto simp: box_type_for_def layout_box_new_def)
  qed (use "1.prems" in simp)
next
  case (3 b c cs)
  show ?case
  proof (cases "display c")
    case Display_None
    then show ?thesis using 3 visible_none by simp
  next
    case Block
    obtain bc where bc: "build_layout_tree c = Some bc" "box_nodes bc = visible_nodes c" "box_ok bc" "box_type bc = BlockNode c"
      using "3.IH"(3) [OF Block] Block by (auto simp: box_type_for_def)
    have "\<not> is_anonymous bc" "\<not> is_inline bc" using bc(4) by (cases bc; simp)+
    then have p: "box_ok (push_child bc b)" "\<not> is_anonymous (push_child bc b)"
      using push_child_ok [of b bc] "3.prems" bc(3) push_child_simps(2) by (simp_all add: is_anonymous_iff)
    show ?thesis using "3.IH"(4) [OF Block bc(1) p] Block bc(1,2) push_child_simps by auto
  next
    case Inline
    obtain bc where bc: "build_layout_tree c = Some bc" "box_nodes bc = visible_nodes c" "box_ok bc" "box_type bc = InlineNode c"
      using "3.IH"(1) [OF Inline] Inline by (auto simp: box_type_for_def)
    have "is_inline bc" using bc(4) by (cases bc) simp
    note p = inline_push_ok [OF "3.prems"(1) bc(3) this "3.prems"(2)]
    have "\<not> is_anonymous (get_inline_container (push_child bc) b)" using p(3) "3.prems"(2) by (simp add: is_anonymous_iff)
    then show ?thesis using "3.IH"(2) [OF Inline bc(1) p(1)] Inline bc(1,2) p(2,3) by auto
  qed
qed simp

definition inline_type :: "BoxType \<Rightarrow> bool" where
  "inline_type ty \<longleftrightarrow> (\<exists>s. ty = InlineNode s)"

lemma is_inline_iff: "is_inline b \<longleftrightarrow> inline_type (box_type b)"
  by (cases b; cases "box_type b") (auto simp: inline_type_def)

lemma nests_types:
  assumes "map box_type ch = map box_type ch'"
  shows "nests ty ch = nests ty ch'"
proof -
  have l: "list_all (\<lambda>c. Q (box_type c)) xs = list_all Q (map box_type xs)" for Q xs by (simp add: list.pred_map o_def)
  have s: "successively (\<lambda>c c'. R (box_type c) (box_type c')) xs = successively R (map box_type xs)" for R xs by (simp add: successively_map)
  have q: "list_all (\<lambda>c. Q (box_type c)) ch = list_all (\<lambda>c. Q (box_type c)) ch'" for Q using assms l by metis
  have r: "successively (\<lambda>c c'. R (box_type c) (box_type c')) ch = successively (\<lambda>c c'. R (box_type c) (box_type c')) ch'" for R using assms s by metis
  have e: "ch = [] \<longleftrightarrow> ch' = []" using assms by (metis map_is_Nil_conv)
  show ?thesis unfolding nests_def is_anonymous_iff is_inline_iff
    by (simp only: q [of "\<lambda>t. \<not> inline_type t"] q [of "\<lambda>t. t \<noteq> AnonymousBlock"] q [of inline_type]
        r [of "\<lambda>t t'. \<not> (t = AnonymousBlock \<and> t' = AnonymousBlock)"] e)
qed

text \<open>Layout changes dimensions only.\<close>

lemma layout_keeps:
  "box_nodes (layout b containing) = box_nodes b \<and> (box_ok b \<longrightarrow> box_ok (layout b containing)) \<and> box_type (layout b containing) = box_type b"
  "map box_nodes (fst (layout_block_children cs d)) = map box_nodes cs \<and> map box_type (fst (layout_block_children cs d)) = map box_type cs \<and>
     (list_all box_ok cs \<longrightarrow> list_all box_ok (fst (layout_block_children cs d)))"
proof (induction b containing and cs d rule: layout_layout_block_children.induct)
  case (1 d ty ch containing)
  let ?d = "calculate_block_position ty (calculate_block_width ty d containing) containing"
  obtain ch' d3 where c: "layout_block_children ch ?d = (ch', d3)" by fastforce
  show ?case
  proof (cases "inline_type ty")
    case True
    then show ?thesis by (auto simp: inline_type_def)
  next
    case False
    then have ih: "map box_nodes (fst (layout_block_children ch ?d)) = map box_nodes ch \<and> map box_type (fst (layout_block_children ch ?d)) = map box_type ch \<and>
      (list_all box_ok ch \<longrightarrow> list_all box_ok (fst (layout_block_children ch ?d)))"
      using "1"(1) [OF _ refl refl] "1"(2) [OF _ refl refl] by (cases ty) (simp_all add: inline_type_def)
    have e: "layout (LayoutBox d ty ch) containing = LayoutBox (calculate_block_height ty d3) ty ch'"
      using c False by (cases ty) (simp_all add: inline_type_def)
    have "map box_nodes ch' = map box_nodes ch" "map box_type ch' = map box_type ch" "list_all box_ok ch \<longrightarrow> list_all box_ok ch'"
      using ih c by simp_all
    then show ?thesis unfolding e using nests_types [of ch' ch ty] by simp
  qed
next
  case (3 c cs d)
  then show ?case by (simp add: Let_def case_prod_unfold)
qed simp

lemma layout_tree_spec:
  "(layout_tree s containing = None \<longleftrightarrow> display s = Display_None) \<and>
   (\<forall>b. layout_tree s containing = Some b \<longrightarrow> box_nodes b = visible_nodes s \<and> box_ok b \<and> box_type b = box_type_for s)"
proof (cases "display s = Display_None")
  case True
  then have "build_layout_tree s = None" by (cases s) simp
  then show ?thesis using True by (simp add: layout_tree_def)
next
  case False
  then obtain b where "build_layout_tree s = Some b" "box_nodes b = visible_nodes s" "box_ok b" "box_type b = box_type_for s" using build_ok(1) by blast
  then show ?thesis using False layout_keeps(1) [of b] by (auto simp: layout_tree_def)
qed

text \<open>C34: Laying out a page gives a box to exactly the visible nodes, in document order, and never panics unless the root itself is hidden. Boxes
  nest as the formatting model wants: inline boxes inside a block are wrapped in anonymous blocks, one for each run of them, and layout changes no nesting.\<close>

theorem layout_tree_boxes:
  "(layout_tree s containing = None \<longleftrightarrow> display s = Display_None) \<and>
   (\<forall>b. layout_tree s containing = Some b \<longrightarrow> box_nodes b = visible_nodes s \<and> box_ok b \<and> box_type b = box_type_for s)"
  by (rule layout_tree_spec)

theorem layout_tree_boxes_witness:
  "\<exists>b. layout_tree (StyledNode (text_node ''t'') Map.empty []) dimensions_default = Some b \<and> box_nodes b = [StyledNode (text_node ''t'') Map.empty []]"
  using layout_tree_boxes [of "StyledNode (text_node ''t'') Map.empty []" dimensions_default]
  by (cases "layout_tree (StyledNode (text_node ''t'') Map.empty []) dimensions_default") (auto simp: display_def style_value_def)

section \<open>Widths\<close>

text \<open>The seven values that the width of a block is computed from, and values of whole pixels (anything but a length counts as none).\<close>

definition horizontal_values :: "f32 StyledNode \<Rightarrow> f32 Value list" where
  "horizontal_values style =
     [style_lookup style ''margin-left'' ''margin'' (px (Fin 0)), style_lookup style ''margin-right'' ''margin'' (px (Fin 0)),
      style_lookup style ''border-left-width'' ''border-width'' (px (Fin 0)), style_lookup style ''border-right-width'' ''border-width'' (px (Fin 0)),
      style_lookup style ''padding-left'' ''padding'' (px (Fin 0)), style_lookup style ''padding-right'' ''padding'' (px (Fin 0)),
      case style_value style ''width'' of Some v \<Rightarrow> v | None \<Rightarrow> auto_value]"

definition whole_pixels :: "f32 \<Rightarrow> bool" where
  "whole_pixels f \<longleftrightarrow> (\<exists>n. f = Fin (of_int n) \<and> \<bar>n\<bar> \<le> 2 ^ 20)"

lemma pixels_auto [simp]: "pixels_of auto_value = Fin 0" "pixels_of (px f) = f" "px f \<noteq> auto_value"
  by (simp_all add: auto_value_def px_def)

lemma f_sum_7:
  assumes "list_all (\<lambda>n. \<bar>n\<bar> \<le> 2 ^ 20) [a, b, c, d, e, f, g]"
  shows "f_sum (map (\<lambda>n. Fin (of_int n)) [a, b, c, d, e, f, g]) = Fin (of_int (a + b + c + d + e + f + g))"
proof -
  have z: "f_add (Fin 0) (Fin (of_int a)) = Fin (of_int a)" using f_add_int [of 0 a] assms by (simp add: abs_le_iff abs_less_iff)
  have "f_add (Fin (of_int a)) (Fin (of_int b)) = Fin (of_int (a + b))"
    "f_add (Fin (of_int (a + b))) (Fin (of_int c)) = Fin (of_int (a + b + c))"
    "f_add (Fin (of_int (a + b + c))) (Fin (of_int d)) = Fin (of_int (a + b + c + d))"
    "f_add (Fin (of_int (a + b + c + d))) (Fin (of_int e)) = Fin (of_int (a + b + c + d + e))"
    "f_add (Fin (of_int (a + b + c + d + e))) (Fin (of_int f)) = Fin (of_int (a + b + c + d + e + f))"
    "f_add (Fin (of_int (a + b + c + d + e + f))) (Fin (of_int g)) = Fin (of_int (a + b + c + d + e + f + g))"
    by (rule f_add_int; use assms in \<open>simp add: abs_le_iff abs_less_iff\<close>)+
  then show ?thesis using z by (simp only: f_sum_def list.map foldl.simps)
qed

text \<open>Distributing the underflow balances the widths, in every case of the code.\<close>

lemma distribute_balance:
  assumes "pixels_of (bw_margin_left w) = Fin (of_int l)" and "pixels_of (bw_margin_right w) = Fin (of_int r)" and "pixels_of (bw_width w) = Fin (of_int x)"
    and u: "\<bar>u\<bar> < 2 ^ 24" "\<bar>r + u\<bar> < 2 ^ 24"
  shows "\<exists>l' r' x'. pixels_of (bw_margin_left (distribute (Fin (of_int u)) w)) = Fin l' \<and> pixels_of (bw_margin_right (distribute (Fin (of_int u)) w)) = Fin r' \<and>
    pixels_of (bw_width (distribute (Fin (of_int u)) w)) = Fin x' \<and> l' + r' + x' = of_int (l + r + x + u) \<and> (bw_width w = auto_value \<longrightarrow> 0 \<le> x')"
proof -
  have z: "v = auto_value \<Longrightarrow> pixels_of v = Fin (of_int n) \<Longrightarrow> n = 0" for v n by simp
  have ru: "f_add (Fin (of_int r)) (Fin (of_int u)) = Fin (of_int (r + u))" by (rule f_add_int [OF u(2)])
  have r: "pixels_of (reset_auto v) = pixels_of v" for v by (simp add: reset_auto_def)
  have hu: "f_div (Fin (of_int u)) (Fin 2) = Fin (of_int u / 2)" by (rule f_half_int [OF u(1)])
  have le: "f_le (Fin 0) (Fin (of_int u)) \<longleftrightarrow> 0 \<le> u" by (auto simp: f_le_def f_eq_def)
  consider "bw_width w = auto_value" | "bw_width w \<noteq> auto_value" "bw_margin_left w = auto_value" "bw_margin_right w = auto_value"
    | "bw_width w \<noteq> auto_value" "bw_margin_left w = auto_value" "bw_margin_right w \<noteq> auto_value"
    | "bw_width w \<noteq> auto_value" "bw_margin_left w \<noteq> auto_value" "bw_margin_right w = auto_value"
    | "bw_width w \<noteq> auto_value" "bw_margin_left w \<noteq> auto_value" "bw_margin_right w \<noteq> auto_value" by blast
  then show ?thesis
  proof cases
    case 1
    then have "x = 0" using assms(3) by simp
    then show ?thesis using 1 assms(1,2) ru le by (simp add: distribute_def r Let_def)
  next
    case 2
    then have "l = 0" "r = 0" using assms(1,2) by simp_all
    then show ?thesis using 2 assms(3) hu
      by (intro exI [of _ "of_int u / 2"] exI [of _ "of_int x"]) (simp add: distribute_def del: f_div.simps)
  next
    case 3
    then have "l = 0" using assms(1) by simp
    then show ?thesis using 3 assms(2,3) by (simp add: distribute_def)
  next
    case 4
    then have "r = 0" using assms(2) by simp
    then show ?thesis using 4 assms(1,3) by (simp add: distribute_def)
  next
    case 5
    then show ?thesis using assms(1-3) ru by (simp add: distribute_def)
  qed
qed

text \<open>C33: On whole pixels (up to a million or so) the widths of a block balance exactly, in every case of the algorithm: the margins, borders, paddings and content width
  that the layout gives a block add up to the width of its container, whether the width or margins are automatic and whether the values fit or not; and an automatic
  width is never negative.\<close>

theorem block_widths_balance:
  assumes "list_all (\<lambda>v. whole_pixels (pixels_of v)) (horizontal_values style)" and "whole_pixels (rect_width (content containing))"
  shows "\<exists>ml bl pl w pr br mr a. let d' = calculate_block_width (BlockNode style) d containing in
    edge_left (margin d') = Fin ml \<and> edge_left (border d') = Fin bl \<and> edge_left (padding d') = Fin pl \<and> rect_width (content d') = Fin w \<and>
    edge_right (padding d') = Fin pr \<and> edge_right (border d') = Fin br \<and> edge_right (margin d') = Fin mr \<and> rect_width (content containing) = Fin a \<and>
    ml + bl + pl + w + pr + br + mr = a \<and> (style_value style ''width'' = None \<longrightarrow> 0 \<le> w)"
proof -
  let ?L = "\<lambda>x y. style_lookup style x y (px (Fin 0))"
  let ?W = "case style_value style ''width'' of Some v \<Rightarrow> v | None \<Rightarrow> auto_value"
  obtain ml mr bl br pl pr w a where v:
    "pixels_of (?L ''margin-left'' ''margin'') = Fin (of_int ml)" "pixels_of (?L ''margin-right'' ''margin'') = Fin (of_int mr)"
    "pixels_of (?L ''border-left-width'' ''border-width'') = Fin (of_int bl)" "pixels_of (?L ''border-right-width'' ''border-width'') = Fin (of_int br)"
    "pixels_of (?L ''padding-left'' ''padding'') = Fin (of_int pl)" "pixels_of (?L ''padding-right'' ''padding'') = Fin (of_int pr)"
    "pixels_of ?W = Fin (of_int w)" "rect_width (content containing) = Fin (of_int a)"
    and b: "list_all (\<lambda>n. \<bar>n\<bar> \<le> 2 ^ 20) [ml, mr, bl, br, pl, pr, w]" "\<bar>a\<bar> \<le> 2 ^ 20"
    using assms by (simp add: horizontal_values_def whole_pixels_def) blast
  define t where "t = ml + mr + bl + br + pl + pr + w"
  have t: "f_sum (map pixels_of [?L ''margin-left'' ''margin'', ?L ''margin-right'' ''margin'', ?L ''border-left-width'' ''border-width'',
      ?L ''border-right-width'' ''border-width'', ?L ''padding-left'' ''padding'', ?L ''padding-right'' ''padding'', ?W]) = Fin (of_int t)"
    using f_sum_7 [OF b(1)] v(1-7) by (simp add: t_def)
  have u: "f_sub (Fin (of_int a)) (Fin (of_int t)) = Fin (of_int (a - t))" by (rule f_sub_int) (use b in \<open>simp add: t_def abs_le_iff abs_less_iff\<close>)
  let ?w = "drop_auto_margins (Fin (of_int t)) (Fin (of_int a)) \<lparr>bw_width = ?W, bw_margin_left = ?L ''margin-left'' ''margin'', bw_margin_right = ?L ''margin-right'' ''margin''\<rparr>"
  have r: "pixels_of (reset_auto v) = pixels_of v" for v by (simp add: reset_auto_def)
  have bw: "block_widths style (Fin (of_int a)) = distribute (Fin (of_int (a - t))) ?w"
    unfolding block_widths_def Let_def t u ..
  have "pixels_of (bw_margin_left ?w) = Fin (of_int ml)" "pixels_of (bw_margin_right ?w) = Fin (of_int mr)" "pixels_of (bw_width ?w) = Fin (of_int w)" "bw_width ?w = ?W"
    using v by (simp_all add: drop_auto_margins_def r)
  then obtain l' r' x' where d: "pixels_of (bw_margin_left (block_widths style (Fin (of_int a)))) = Fin l'"
    "pixels_of (bw_margin_right (block_widths style (Fin (of_int a)))) = Fin r'" "pixels_of (bw_width (block_widths style (Fin (of_int a)))) = Fin x'"
    "l' + r' + x' = of_int (ml + mr + w + (a - t))" "?W = auto_value \<longrightarrow> 0 \<le> x'"
    unfolding bw using distribute_balance [of ?w ml mr w "a - t"] b by (auto simp: t_def abs_le_iff abs_less_iff)
  have "l' + of_int bl + of_int pl + x' + of_int pr + of_int br + r' = of_int a" using d(4) by (simp add: t_def algebra_simps)
  moreover have "style_value style ''width'' = None \<longrightarrow> 0 \<le> x'" using d(5) by auto
  ultimately show ?thesis using d(1-3) v by (simp add: calculate_block_width_def styled_block_width_def Let_def)
qed


theorem block_widths_balance_witness:
  "\<exists>ml w mr. let d' = calculate_block_width (BlockNode (StyledNode (text_node []) [''width'' \<mapsto> px (Fin 100), ''margin'' \<mapsto> auto_value] []))
      dimensions_default (dimensions_default\<lparr>content := rect_default\<lparr>rect_width := Fin 501\<rparr>\<rparr>) in
    edge_left (margin d') = Fin ml \<and> rect_width (content d') = Fin w \<and> edge_right (margin d') = Fin mr \<and> ml + w + mr = 501"
proof -
  let ?s = "StyledNode (text_node []) [''width'' \<mapsto> px (Fin 100), ''margin'' \<mapsto> auto_value] [] :: f32 StyledNode"
  have w: "whole_pixels (Fin 0)" "whole_pixels (Fin 100)" "whole_pixels (Fin 501)"
    unfolding whole_pixels_def by (intro exI [of _ 0] conjI, simp, simp) (intro exI [of _ 100] conjI, simp, simp, intro exI [of _ 501] conjI, simp, simp)
  have v: "list_all (\<lambda>v. whole_pixels (pixels_of v)) (horizontal_values ?s)"
    using w by (simp add: horizontal_values_def style_lookup_def style_value_def)
  show ?thesis
    using block_widths_balance [OF v, of "dimensions_default\<lparr>content := rect_default\<lparr>rect_width := Fin 501\<rparr>\<rparr>" dimensions_default] w(3)
    by (simp add: Let_def calculate_block_width_def styled_block_width_def style_lookup_def style_value_def)
qed

end
