(* ===== verification/Br_Heights.thy ===== *)
theory Br_Heights
  imports Br_Layout
begin

text \<open>
  The vertical half of the block layout of \<open>2026-08-26-rust-browser-engine/src/layout.rs\<close>: positions and heights against a reference layout over the integers. The code
  computes with \<open>f32\<close> and accumulates heights while it lays out the children; the reference first adds up heights and then stacks the boxes. On whole pixels whose sizes sum
  to less than \<open>2^24\<close> both agree on every box of the page.
\<close>

section \<open>The reference layout\<close>

text \<open>The vertical values of a box: its edges, which an anonymous block does not have, and the height it is given, if any; and that they are whole pixels.\<close>

definition edge_px :: "BoxType \<Rightarrow> string \<Rightarrow> string \<Rightarrow> f32" where
  "edge_px ty name short = (case box_owner ty of [] \<Rightarrow> Fin 0 | s # _ \<Rightarrow> pixels_of (style_lookup s name short (px (Fin 0))))"

definition given_height :: "BoxType \<Rightarrow> f32 option" where
  "given_height ty = (case box_owner ty of [] \<Rightarrow> None | s # _ \<Rightarrow> (case style_value s ''height'' of Some (Length h Px) \<Rightarrow> Some h | _ \<Rightarrow> None))"

definition int_of :: "f32 \<Rightarrow> int" where
  "int_of f = (case f of Fin r \<Rightarrow> \<lfloor>r\<rfloor> | _ \<Rightarrow> 0)"

definition is_whole :: "f32 \<Rightarrow> bool" where
  "is_whole f \<longleftrightarrow> f = Fin (of_int (int_of f))"

abbreviation margin_top :: "BoxType \<Rightarrow> f32" where "margin_top ty \<equiv> edge_px ty ''margin-top'' ''margin''"
abbreviation margin_bottom :: "BoxType \<Rightarrow> f32" where "margin_bottom ty \<equiv> edge_px ty ''margin-bottom'' ''margin''"
abbreviation border_top :: "BoxType \<Rightarrow> f32" where "border_top ty \<equiv> edge_px ty ''border-top-width'' ''border-width''"
abbreviation border_bottom :: "BoxType \<Rightarrow> f32" where "border_bottom ty \<equiv> edge_px ty ''border-bottom-width'' ''border-width''"
abbreviation padding_top :: "BoxType \<Rightarrow> f32" where "padding_top ty \<equiv> edge_px ty ''padding-top'' ''padding''"
abbreviation padding_bottom :: "BoxType \<Rightarrow> f32" where "padding_bottom ty \<equiv> edge_px ty ''padding-bottom'' ''padding''"

definition vertical_values :: "BoxType \<Rightarrow> f32 list" where
  "vertical_values ty = [margin_top ty, border_top ty, padding_top ty, padding_bottom ty, border_bottom ty, margin_bottom ty,
     case given_height ty of None \<Rightarrow> Fin 0 | Some h \<Rightarrow> h]"

fun whole_box :: "LayoutBox \<Rightarrow> bool" where
  "whole_box (LayoutBox d ty ch) \<longleftrightarrow> list_all is_whole (vertical_values ty) \<and> list_all whole_box ch"

text \<open>The sum of the sizes of the vertical values of a box and of all boxes, which bounds every number of the computation.\<close>

definition own_size :: "BoxType \<Rightarrow> int" where
  "own_size ty = sum_list (map (\<lambda>f. \<bar>int_of f\<bar>) (vertical_values ty))"

fun vertical_size :: "LayoutBox \<Rightarrow> int" where
  "vertical_size (LayoutBox d ty ch) = own_size ty + sum_list (map vertical_size ch)"

text \<open>The reference: heights over the integers, and from a top edge the top edge of the margin box, its height and the height of the content of every box, in the order of the
  tree. Blocks are stacked; a given height replaces that of the children without moving them; an inline box and what is inside it are left where they are.\<close>

definition space_above :: "BoxType \<Rightarrow> int" where
  "space_above ty = int_of (margin_top ty) + int_of (border_top ty) + int_of (padding_top ty)"

definition space_below :: "BoxType \<Rightarrow> int" where
  "space_below ty = int_of (padding_bottom ty) + int_of (border_bottom ty) + int_of (margin_bottom ty)"

definition inner_height :: "BoxType \<Rightarrow> int \<Rightarrow> int" where
  "inner_height ty natural = (case given_height ty of None \<Rightarrow> natural | Some h \<Rightarrow> int_of h)"

fun outer_height :: "LayoutBox \<Rightarrow> int" where
  "outer_height (LayoutBox d ty ch) =
     (if inline_type ty then 0 else space_above ty + inner_height ty (sum_list (map outer_height ch)) + space_below ty)"

fun count_boxes :: "LayoutBox \<Rightarrow> nat" where
  "count_boxes (LayoutBox d ty ch) = Suc (sum_list (map count_boxes ch))"

fun stack_box :: "int \<Rightarrow> LayoutBox \<Rightarrow> (int \<times> int \<times> int) list" and stack_boxes :: "int \<Rightarrow> LayoutBox list \<Rightarrow> (int \<times> int \<times> int) list" where
  "stack_box y (LayoutBox d ty ch) =
     (if inline_type ty then replicate (count_boxes (LayoutBox d ty ch)) (0, 0, 0)
      else (y, outer_height (LayoutBox d ty ch), inner_height ty (sum_list (map outer_height ch))) # stack_boxes (y + space_above ty) ch)"
| "stack_boxes y [] = []"
| "stack_boxes y (c # cs) = stack_box y c @ stack_boxes (y + outer_height c) cs"

section \<open>What the layout computes\<close>

text \<open>The extent of each box.\<close>

definition extent :: "Dimensions \<Rightarrow> f32 \<times> f32 \<times> f32" where
  "extent d = (rect_y (margin_box d), rect_height (margin_box d), rect_height (content d))"

fun extents :: "LayoutBox \<Rightarrow> (f32 \<times> f32 \<times> f32) list" where
  "extents (LayoutBox d ty ch) = extent d # concat (map extents ch)"

definition in_px :: "int \<times> int \<times> int \<Rightarrow> f32 \<times> f32 \<times> f32" where
  "in_px = (\<lambda>(y, h, k). (Fin (of_int y), Fin (of_int h), Fin (of_int k)))"

text \<open>Boxes as they are built: no dimension is set. The layout relies on it, since it never clears the height that it adds to.\<close>

fun fresh_box :: "LayoutBox \<Rightarrow> bool" where
  "fresh_box (LayoutBox d ty ch) \<longleftrightarrow> d = dimensions_default \<and> list_all fresh_box ch"

lemma fresh_push: "fresh_box b \<Longrightarrow> fresh_box c \<Longrightarrow> fresh_box (push_child c b)"
  by (cases b) (simp add: push_child_def)

lemma fresh_new: "fresh_box (layout_box_new ty)"
  by (simp add: layout_box_new_def)

lemma fresh_inline_push: "fresh_box b \<Longrightarrow> fresh_box c \<Longrightarrow> fresh_box (get_inline_container (push_child c) b)"
proof (cases b)
  case (LayoutBox d ty ch)
  assume b: "fresh_box b" and c: "fresh_box c"
  define xs where "xs = (if ch \<noteq> [] \<and> box_type (last ch) = AnonymousBlock then ch else ch @ [layout_box_new AnonymousBlock])"
  have "list_all fresh_box xs" "xs \<noteq> []" using b LayoutBox fresh_new by (simp_all add: xs_def)
  then have "list_all fresh_box (butlast xs @ [push_child c (last xs)])" using fresh_push [OF _ c] by (cases xs rule: rev_cases) auto
  moreover have "get_inline_container (push_child c) b = (case ty of BlockNode s \<Rightarrow> LayoutBox d ty (butlast xs @ [push_child c (last xs)]) | _ \<Rightarrow> push_child c b)"
    unfolding get_inline_container_def LayoutBox Let_def LayoutBox.sel xs_def ..
  ultimately show ?thesis using b LayoutBox fresh_push [OF b c] by (cases ty) simp_all
qed

lemma build_fresh:
  "build_layout_tree s = Some b \<Longrightarrow> fresh_box b"
  "fresh_box a \<Longrightarrow> build_children a cs = Some a' \<Longrightarrow> fresh_box a'"
proof (induction s and a cs arbitrary: b and a' rule: build_layout_tree_build_children.induct)
  case (1 n m ch)
  show ?case
  proof (cases "display (StyledNode n m ch)")
    case Inline
    then show ?thesis using "1.IH"(1) [OF Inline fresh_new] "1.prems" by simp
  next
    case Block
    then show ?thesis using "1.IH"(2) [OF Block fresh_new] "1.prems" by simp
  qed (use "1.prems" in simp)
next
  case (3 box c cs)
  show ?case
  proof (cases "display c")
    case Display_None
    then show ?thesis using "3.IH"(5) [OF Display_None "3.prems"(1)] "3.prems"(2) by simp
  next
    case Block
    then obtain bc where bc: "build_layout_tree c = Some bc" using "3.prems"(2) by (auto split: option.splits)
    show ?thesis using "3.IH"(4) [OF Block bc] "3.IH"(3) [OF Block bc] fresh_push [of box bc] "3.prems" Block bc by simp
  next
    case Inline
    then obtain bc where bc: "build_layout_tree c = Some bc" using "3.prems"(2) by (auto split: option.splits)
    show ?thesis using "3.IH"(2) [OF Inline bc] "3.IH"(1) [OF Inline bc] fresh_inline_push [of box bc] "3.prems" Inline bc by simp
  qed
qed simp

lemma extents_fresh: "fresh_box b \<Longrightarrow> extents b = replicate (count_boxes b) (Fin 0, Fin 0, Fin 0)"
proof (induction b)
  case (LayoutBox d ty ch)
  have z: "extent dimensions_default = (Fin 0, Fin 0, Fin 0)" 
    by (simp add: extent_def margin_box_def border_box_def padding_box_def expanded_by_def dimensions_default_def rect_default_def edge_default_def f_sub_def)
  have "list_all fresh_box cs \<Longrightarrow> set cs \<subseteq> set ch \<Longrightarrow> concat (map extents cs) = replicate (sum_list (map count_boxes cs)) (Fin 0, Fin 0, Fin 0)" for cs
    using LayoutBox.IH by (induction cs) (auto simp: replicate_add)
  then show ?case using LayoutBox.prems z by simp
qed

section \<open>Bounds\<close>

lemma vertical_size_nonneg: "0 \<le> vertical_size b"
proof (induction b)
  case (LayoutBox d ty ch)
  have "0 \<le> sum_list (map vertical_size ch)" by (rule sum_list_nonneg) (use LayoutBox.IH in auto)
  moreover have "0 \<le> own_size ty" unfolding own_size_def by (rule sum_list_nonneg) auto
  ultimately show ?case by simp
qed

lemma vertical_sizes_nonneg: "0 \<le> sum_list (map vertical_size bs)"
  by (rule sum_list_nonneg) (use vertical_size_nonneg in auto)

lemma sum_abs_le: "(\<And>x. x \<in> set xs \<Longrightarrow> \<bar>f x\<bar> \<le> g x) \<Longrightarrow> \<bar>sum_list (map f xs)\<bar> \<le> (sum_list (map g xs) :: int)"
  by (induction xs) (auto intro!: order_trans [OF abs_triangle_ineq] add_mono)

lemma outer_height_size: "\<bar>outer_height b\<bar> \<le> vertical_size b"
proof (induction b)
  case (LayoutBox d ty ch)
  let ?A = "sum_list (map int_of (vertical_values ty))" and ?N = "if given_height ty = None then sum_list (map outer_height ch) else 0"
  have "\<bar>?A\<bar> \<le> own_size ty" unfolding own_size_def by (rule sum_abs_le) simp
  moreover have "\<bar>sum_list (map outer_height ch)\<bar> \<le> sum_list (map vertical_size ch)" using LayoutBox.IH by (rule sum_abs_le)
  then have "\<bar>?N\<bar> \<le> sum_list (map vertical_size ch)" by auto
  ultimately have "\<bar>?A + ?N\<bar> \<le> vertical_size (LayoutBox d ty ch)"
    unfolding vertical_size.simps by (meson abs_triangle_ineq add_mono order_trans)
  moreover have "space_above ty + inner_height ty (sum_list (map outer_height ch)) + space_below ty = ?A + ?N"
    by (cases "given_height ty") (simp_all add: vertical_values_def space_above_def space_below_def inner_height_def int_of_def)
  ultimately show ?case using vertical_size_nonneg [of "LayoutBox d ty ch"] by (simp only: outer_height.simps) (simp del: vertical_size.simps)
qed

section \<open>Exact sums\<close>

lemma f_add_ints:
  "\<bar>a\<bar> + sum_list (map abs ns) < 2 ^ 24 \<Longrightarrow> foldl f_add (Fin (of_int a)) (map (\<lambda>n. Fin (of_int n)) ns) = Fin (of_int (a + sum_list ns))"
proof (induction ns arbitrary: a)
  case (Cons n ns)
  have "0 \<le> sum_list (map abs ns)" by (rule sum_list_nonneg) auto
  then have "\<bar>a + n\<bar> < 2 ^ 24" "\<bar>a + n\<bar> + sum_list (map abs ns) < 2 ^ 24" using Cons.prems by simp_all
  then show ?case using Cons.IH [of "a + n"] f_add_int [of a n] by (simp del: f_add.simps of_int_add add: add.assoc)
qed simp

lemma f_sub_ints:
  "\<bar>a\<bar> + sum_list (map abs ns) < 2 ^ 24 \<Longrightarrow> foldl f_sub (Fin (of_int (a + sum_list ns))) (map (\<lambda>n. Fin (of_int n)) (rev ns)) = Fin (of_int a)"
proof (induction ns rule: rev_induct)
  case (snoc n ns)
  have "\<bar>sum_list (map (\<lambda>x. x) ns)\<bar> \<le> sum_list (map abs ns)" by (rule sum_abs_le) simp
  then have "\<bar>a + sum_list ns\<bar> < 2 ^ 24" using snoc.prems by simp
  then have "f_sub (Fin (of_int (a + sum_list ns + n))) (Fin (of_int n)) = Fin (of_int (a + sum_list ns))" using f_sub_int [of "a + sum_list ns + n" n] by simp
  then show ?case using snoc by (simp del: of_int_add add: add.assoc)
qed simp

section \<open>One box\<close>

text \<open>A box that was positioned and has the height \<open>k\<close>.\<close>

definition boxed :: "BoxType \<Rightarrow> int \<Rightarrow> int \<Rightarrow> Dimensions \<Rightarrow> bool" where
  "boxed ty y k d \<longleftrightarrow> edge_top (margin d) = margin_top ty \<and> edge_bottom (margin d) = margin_bottom ty \<and> edge_top (border d) = border_top ty \<and>
     edge_bottom (border d) = border_bottom ty \<and> edge_top (padding d) = padding_top ty \<and> edge_bottom (padding d) = padding_bottom ty \<and>
     rect_y (content d) = Fin (of_int (y + space_above ty)) \<and> rect_height (content d) = Fin (of_int k)"

text \<open>The edges above the content, outermost first, and the edges that the height of the margin box adds to that of the content.\<close>

definition edges_above :: "BoxType \<Rightarrow> int list" where
  "edges_above ty = map int_of [margin_top ty, border_top ty, padding_top ty]"

definition edges_around :: "BoxType \<Rightarrow> int list" where
  "edges_around ty = map int_of [padding_top ty, padding_bottom ty, border_top ty, border_bottom ty, margin_top ty, margin_bottom ty]"

lemma edges_sums:
  "sum_list (edges_above ty) = space_above ty" "sum_list (edges_around ty) = space_above ty + space_below ty"
  by (simp_all add: edges_above_def edges_around_def space_above_def space_below_def)

definition edges_size :: "BoxType \<Rightarrow> int" where
  "edges_size ty = sum_list (map abs (edges_around ty))"

lemma own_size_eq: "own_size ty = edges_size ty + \<bar>inner_height ty 0\<bar>"
  by (simp add: own_size_def edges_size_def edges_around_def vertical_values_def inner_height_def int_of_def split: option.split)

lemma edges_above_size: "sum_list (map abs (edges_above ty)) \<le> edges_size ty"
proof -
  define m where "m = (abs :: int \<Rightarrow> int)"
  have m: "0 \<le> m n" for n by (simp add: m_def)
  have "sum_list (map m (edges_above ty)) \<le> sum_list (map m (edges_around ty))"
    using m [of "int_of (padding_bottom ty)"] m [of "int_of (border_bottom ty)"] m [of "int_of (margin_bottom ty)"] by (simp add: edges_above_def edges_around_def)
  then show ?thesis by (simp add: m_def edges_size_def)
qed

lemma space_above_size: "\<bar>space_above ty\<bar> \<le> edges_size ty"
  using sum_abs_le [of "edges_above ty" "\<lambda>x. x" abs] edges_above_size [of ty] by (simp add: edges_sums)

lemma inner_height_size: "\<bar>inner_height ty n\<bar> \<le> \<bar>inner_height ty 0\<bar> + \<bar>n\<bar>"
  by (simp add: inner_height_def split: option.split)

lemma whole_edges:
  assumes "list_all is_whole (vertical_values ty)"
  shows "margin_top ty = Fin (of_int (int_of (margin_top ty)))" "border_top ty = Fin (of_int (int_of (border_top ty)))" "padding_top ty = Fin (of_int (int_of (padding_top ty)))"
    "padding_bottom ty = Fin (of_int (int_of (padding_bottom ty)))" "border_bottom ty = Fin (of_int (int_of (border_bottom ty)))"
    "margin_bottom ty = Fin (of_int (int_of (margin_bottom ty)))" "given_height ty = Some h \<Longrightarrow> h = Fin (of_int (int_of h))"
  using assms by (simp_all add: vertical_values_def is_whole_def)

lemma block_positioned:
  assumes w: "list_all is_whole (vertical_values ty)" and "\<not> inline_type ty" and c: "rect_y (content c) = Fin (of_int y)" "rect_height (content c) = Fin (of_int h)"
    and b: "\<bar>y\<bar> + \<bar>h\<bar> + own_size ty < 2 ^ 24"
  shows "boxed ty (y + h) 0 (calculate_block_position ty (calculate_block_width ty dimensions_default c) c)"
proof -
  let ?d = "calculate_block_position ty (calculate_block_width ty dimensions_default c) c"
  have y: "rect_y (content ?d) = foldl f_add (rect_height (content c)) [rect_y (content c), margin_top ty, border_top ty, padding_top ty]"
    using assms(2) by (cases ty) (simp_all add: inline_type_def calculate_block_position_def calculate_block_width_def styled_block_width_def vertical_edges_def
        dimensions_default_def edge_default_def rect_default_def edge_px_def box_owner_def Let_def)
  have "\<bar>h\<bar> + sum_list (map abs (y # edges_above ty)) < 2 ^ 24" using b edges_above_size [of ty] by (simp add: own_size_eq)
  then have "foldl f_add (Fin (of_int h)) (map (\<lambda>n. Fin (of_int n)) (y # edges_above ty)) = Fin (of_int (h + (y + space_above ty)))"
    using f_add_ints [of h "y # edges_above ty"] by (simp only: sum_list.Cons edges_sums)
  then have "rect_y (content ?d) = Fin (of_int (y + h + space_above ty))"
    unfolding y c using whole_edges(1-3) [OF w] by (simp add: edges_above_def add_ac del: f_add.simps of_int_add)
  then show ?thesis using assms(2)
    by (cases ty) (simp_all add: boxed_def inline_type_def calculate_block_position_def calculate_block_width_def styled_block_width_def vertical_edges_def
        dimensions_default_def edge_default_def rect_default_def edge_px_def box_owner_def Let_def)
qed

lemma boxed_extent:
  assumes w: "list_all is_whole (vertical_values ty)" and d: "boxed ty y k d" and b: "\<bar>y\<bar> + \<bar>k\<bar> + edges_size ty < 2 ^ 24"
  shows "extent d = in_px (y, space_above ty + k + space_below ty, k)"
proof -
  have "\<bar>y\<bar> + sum_list (map abs (edges_above ty)) < 2 ^ 24" "\<bar>k\<bar> + sum_list (map abs (edges_around ty)) < 2 ^ 24"
    using b edges_above_size [of ty] by (simp_all add: edges_size_def)
  note s = f_sub_ints [OF this(1), unfolded edges_sums] f_add_ints [OF this(2), unfolded edges_sums]
  have "rect_y (margin_box d) = Fin (of_int y)"
    using s(1) d whole_edges(1-3) [OF w] by (simp add: boxed_def margin_box_def border_box_def padding_box_def expanded_by_def edges_above_def add_ac del: of_int_add)
  moreover have "rect_height (margin_box d) = Fin (of_int (space_above ty + k + space_below ty))"
    using s(2) d whole_edges(1-6) [OF w] by (simp add: boxed_def margin_box_def border_box_def padding_box_def expanded_by_def edges_around_def add_ac del: f_add.simps of_int_add)
  ultimately show ?thesis using d by (simp add: extent_def in_px_def boxed_def)
qed

lemma boxed_height:
  assumes "list_all is_whole (vertical_values ty)" and "boxed ty y k d"
  shows "boxed ty y (inner_height ty k) (calculate_block_height ty d)"
proof (cases "given_height ty")
  case None
  then have "calculate_block_height ty d = d"
    by (cases ty) (auto simp: calculate_block_height_def given_height_def box_owner_def split: option.splits Value.splits Unit.splits)
  then show ?thesis using assms(2) None by (simp add: inner_height_def)
next
  case (Some h)
  then have "calculate_block_height ty d = d\<lparr>content := (content d)\<lparr>rect_height := h\<rparr>\<rparr>"
    by (cases ty) (auto simp: calculate_block_height_def given_height_def box_owner_def split: option.splits Value.splits Unit.splits)
  then show ?thesis using assms(2) Some whole_edges(7) [OF assms(1) Some] by (simp add: inner_height_def boxed_def)
qed

section \<open>The whole page\<close>

lemma layout_heights:
  "fresh_box b \<Longrightarrow> whole_box b \<Longrightarrow> rect_y (content c) = Fin (of_int y) \<Longrightarrow> rect_height (content c) = Fin (of_int h) \<Longrightarrow>
     \<bar>y\<bar> + \<bar>h\<bar> + vertical_size b < 2 ^ 24 \<Longrightarrow>
     extents (layout b c) = map in_px (stack_box (y + h) b) \<and> rect_height (margin_box (dimensions (layout b c))) = Fin (of_int (outer_height b))"
  "list_all fresh_box cs \<Longrightarrow> list_all whole_box cs \<Longrightarrow> boxed ty t k d \<Longrightarrow> \<bar>t + space_above ty\<bar> + \<bar>k\<bar> + sum_list (map vertical_size cs) < 2 ^ 24 \<Longrightarrow>
     concat (map extents (fst (layout_block_children cs d))) = map in_px (stack_boxes (t + space_above ty + k) cs) \<and>
     boxed ty t (k + sum_list (map outer_height cs)) (snd (layout_block_children cs d))"
proof (induction b c and cs d arbitrary: y h and ty t k rule: layout_layout_block_children.induct)
  case (1 d ty ch c)
  let ?d = "calculate_block_position ty (calculate_block_width ty d c) c" and ?n = "sum_list (map outer_height ch)"
  have w: "list_all is_whole (vertical_values ty)" "list_all whole_box ch" and f: "d = dimensions_default" "list_all fresh_box ch" using "1.prems" by simp_all
  have z: "\<bar>y\<bar> + \<bar>h\<bar> + (edges_size ty + \<bar>inner_height ty 0\<bar>) + sum_list (map vertical_size ch) < 2 ^ 24"
    using "1.prems"(5) unfolding vertical_size.simps own_size_eq by simp
  have s: "0 \<le> sum_list (map vertical_size ch)" by (rule vertical_sizes_nonneg)
  have n: "\<bar>?n\<bar> \<le> sum_list (map vertical_size ch)" by (rule sum_abs_le) (rule outer_height_size)
  show ?case
  proof (cases "inline_type ty")
    case True
    then have "layout (LayoutBox d ty ch) c = LayoutBox d ty ch" by (auto simp: inline_type_def)
    moreover have "extents (LayoutBox d ty ch) = replicate (count_boxes (LayoutBox d ty ch)) (Fin 0, Fin 0, Fin 0)" by (rule extents_fresh [OF "1.prems"(1)])
    ultimately show ?thesis using True by (simp add: in_px_def extent_def)
  next
    case False
    have d: "boxed ty (y + h) 0 ?d" unfolding f(1) by (rule block_positioned [OF w(1) False "1.prems"(3,4)]) (use z s in \<open>simp add: own_size_eq\<close>)
    have "\<bar>y + h + space_above ty\<bar> + \<bar>0\<bar> + sum_list (map vertical_size ch) < 2 ^ 24" using z space_above_size [of ty] by simp
    note ih = "1.IH" [OF _ refl refl f(2) w(2) d this]
    obtain ch' d3 where l: "layout_block_children ch ?d = (ch', d3)" by fastforce
    have e: "layout (LayoutBox d ty ch) c = LayoutBox (calculate_block_height ty d3) ty ch'"
      using l False by (cases ty) (simp_all add: inline_type_def)
    have ch: "concat (map extents ch') = map in_px (stack_boxes (y + h + space_above ty) ch)" and d3: "boxed ty (y + h) ?n d3"
      using ih l False by (cases ty; simp add: inline_type_def)+
    have "extent (calculate_block_height ty d3) = in_px (y + h, space_above ty + inner_height ty ?n + space_below ty, inner_height ty ?n)"
      by (rule boxed_extent [OF w(1) boxed_height [OF w(1) d3]]) (use z n inner_height_size [of ty ?n] in simp)
    then show ?thesis unfolding e using ch False by (simp add: extent_def in_px_def)
  qed
next
  case (2 d)
  then show ?case by simp
next
  case (3 c cs d)
  have o: "\<bar>outer_height c\<bar> \<le> vertical_size c" by (rule outer_height_size)
  have s: "0 \<le> sum_list (map vertical_size cs)" "0 \<le> vertical_size c" by (rule vertical_sizes_nonneg, rule vertical_size_nonneg)
  let ?d = "add_height (rect_height (margin_box (dimensions (layout c d)))) d"
  have c: "extents (layout c d) = map in_px (stack_box (t + space_above ty + k) c)" "rect_height (margin_box (dimensions (layout c d))) = Fin (of_int (outer_height c))"
    using "3.IH"(1) [of "t + space_above ty" k] "3.prems" s by (auto simp: boxed_def)
  have "f_add (Fin (of_int k)) (Fin (of_int (outer_height c))) = Fin (of_int (k + outer_height c))"
    by (rule f_add_int) (use o s "3.prems"(4) in simp)
  then have d: "boxed ty t (k + outer_height c) ?d" using "3.prems"(3) c(2) by (simp add: boxed_def add_height_def del: f_add.simps)
  have "\<bar>t + space_above ty\<bar> + \<bar>k + outer_height c\<bar> + sum_list (map vertical_size cs) < 2 ^ 24" using "3.prems"(4) o by simp
  note cs = "3.IH"(2) [OF refl _ _ d this]
  show ?case using cs c(1) "3.prems" by (simp add: Let_def case_prod_unfold add.assoc)
qed

text \<open>C32: The heights and positions of block layout are those of exact arithmetic. On whole pixels, when the sizes of all vertical values of the page sum to less than \<open>2^24\<close>,
  every box of the page gets the top edge, the outer height and the content height of a reference layout over the integers: a block starts where its
  previous sibling's margin box ends, the first one at the top of its parent's content; a block without a given height is as high as its children's margin boxes
  together, one with a given height has that height and its children stay where they are; inline boxes have no extent. No assumption is made on widths.\<close>

theorem layout_stacks:
  assumes "build_layout_tree s = Some b" and "whole_box b" and "rect_y (content containing) = Fin (of_int y)" and "\<bar>y\<bar> + vertical_size b < 2 ^ 24"
  shows "\<exists>b'. layout_tree s containing = Some b' \<and> extents b' = map in_px (stack_box y b)"
  using layout_heights(1) [OF build_fresh(1) [OF assms(1)] assms(2), of "containing\<lparr>content := (content containing)\<lparr>rect_height := Fin 0\<rparr>\<rparr>" y 0] assms
  by (simp add: layout_tree_def)

theorem layout_stacks_witness:
  "\<exists>b'. layout_tree (StyledNode (text_node []) [''display'' \<mapsto> Keyword ''block'', ''padding'' \<mapsto> px (Fin 2)]
      [StyledNode (text_node []) [''display'' \<mapsto> Keyword ''block'', ''height'' \<mapsto> px (Fin 10), ''margin'' \<mapsto> px (Fin 5)] [],
       StyledNode (text_node []) [''display'' \<mapsto> Keyword ''block'', ''border-width'' \<mapsto> px (Fin 1), ''width'' \<mapsto> px Not_A_Number] [StyledNode (text_node ''t'') Map.empty []]])
      dimensions_default = Some b' \<and>
    extents b' = map in_px [(0, 26, 22), (2, 20, 10), (22, 2, 0), (23, 0, 0), (0, 0, 0)]"
proof -
  let ?t = "StyledNode (text_node ''t'') Map.empty [] :: f32 StyledNode"
  let ?x = "StyledNode (text_node []) [''display'' \<mapsto> Keyword ''block'', ''height'' \<mapsto> px (Fin 10), ''margin'' \<mapsto> px (Fin 5)] []"
  let ?z = "StyledNode (text_node []) [''display'' \<mapsto> Keyword ''block'', ''border-width'' \<mapsto> px (Fin 1), ''width'' \<mapsto> px Not_A_Number] [?t]"
  let ?s = "StyledNode (text_node []) [''display'' \<mapsto> Keyword ''block'', ''padding'' \<mapsto> px (Fin 2)] [?x, ?z]"
  let ?b = "LayoutBox dimensions_default (BlockNode ?s) [LayoutBox dimensions_default (BlockNode ?x) [],
     LayoutBox dimensions_default (BlockNode ?z) [LayoutBox dimensions_default AnonymousBlock [LayoutBox dimensions_default (InlineNode ?t) []]]]"
  note ev = style_lookup_def style_value_def display_def px_def edge_px_def given_height_def box_owner_def vertical_values_def own_size_def is_whole_def int_of_def
    inline_type_def space_above_def space_below_def inner_height_def
  have b: "build_layout_tree ?s = Some ?b" by (simp add: display_def style_value_def layout_box_new_def push_child_def get_inline_container_def)
  have w: "whole_box ?b" by (simp add: ev)
  have z: "vertical_size ?b = 26" by (simp add: ev)
  have "stack_box 0 ?b = [(0, 26, 22), (2, 20, 10), (22, 2, 0), (23, 0, 0), (0, 0, 0)]" by (simp add: ev)
  then show ?thesis using layout_stacks [OF b w, of dimensions_default 0] z by (simp add: dimensions_default_def rect_default_def)
qed

end
