(* ===== verification/Br_Paint.thy ===== *)
theory Br_Paint
  imports Br_Layout
begin

text \<open>
  Painting of \<open>2026-08-26-rust-browser-engine/src/painting.rs\<close>: the display list of a tree of boxes, the canvas that it is painted on, and the PPM image. A pixel that
  is addressed outside the canvas, and an image too large to allocate, panic (\<open>None\<close>). The theory shows that painting stays inside the canvas, what each pixel shows,
  and that the image can be read back.
\<close>

section \<open>The code\<close>

datatype DisplayCommand = SolidColor Color Rect

definition get_style_color :: "LayoutBox \<Rightarrow> string \<Rightarrow> Color option" where
  "get_style_color b name =
     (case box_type b of
        AnonymousBlock \<Rightarrow> None
      | BlockNode style \<Rightarrow> (case style_value style name of Some (ColorValue c) \<Rightarrow> Some c | _ \<Rightarrow> None)
      | InlineNode style \<Rightarrow> (case style_value style name of Some (ColorValue c) \<Rightarrow> Some c | _ \<Rightarrow> None))"

definition render_background :: "LayoutBox \<Rightarrow> DisplayCommand list" where
  "render_background b = (case get_style_color b ''background'' of Some c \<Rightarrow> [SolidColor c (border_box (dimensions b))] | None \<Rightarrow> [])"

definition render_borders :: "LayoutBox \<Rightarrow> DisplayCommand list" where
  "render_borders b =
     (case get_style_color b ''border-color'' of
        None \<Rightarrow> []
      | Some c \<Rightarrow>
          (let d = dimensions b; bb = border_box d in
           [SolidColor c \<lparr>rect_x = rect_x bb, rect_y = rect_y bb, rect_width = edge_left (border d), rect_height = rect_height bb\<rparr>,
            SolidColor c \<lparr>rect_x = f_sub (f_add (rect_x bb) (rect_width bb)) (edge_right (border d)), rect_y = rect_y bb,
                          rect_width = edge_right (border d), rect_height = rect_height bb\<rparr>,
            SolidColor c \<lparr>rect_x = rect_x bb, rect_y = rect_y bb, rect_width = rect_width bb, rect_height = edge_top (border d)\<rparr>,
            SolidColor c \<lparr>rect_x = rect_x bb, rect_y = f_sub (f_add (rect_y bb) (rect_height bb)) (edge_bottom (border d)),
                          rect_width = rect_width bb, rect_height = edge_bottom (border d)\<rparr>]))"

fun render_layout_box :: "LayoutBox \<Rightarrow> DisplayCommand list" where
  "render_layout_box (LayoutBox d ty ch) =
     render_background (LayoutBox d ty ch) @ render_borders (LayoutBox d ty ch) @ concat (map render_layout_box ch)"

definition build_display_list :: "LayoutBox \<Rightarrow> DisplayCommand list" where
  "build_display_list b = render_layout_box b"

record Canvas =
  pixels :: "Color list"
  canvas_width :: nat
  canvas_height :: nat

definition canvas_new :: "nat \<Rightarrow> nat \<Rightarrow> Canvas option" where
  "canvas_new w h = (if isize_max < 4 * (w * h) then None
     else Some \<lparr>pixels = replicate (w * h) (color_rgb 255 255 255), canvas_width = w, canvas_height = h\<rparr>)"

definition set_pixel :: "Color \<Rightarrow> nat \<Rightarrow> Canvas \<Rightarrow> Canvas option" where
  "set_pixel c i cv = (if i < length (pixels cv) then Some (cv\<lparr>pixels := (pixels cv)[i := c]\<rparr>) else None)"

fun set_pixels :: "Color \<Rightarrow> nat list \<Rightarrow> Canvas \<Rightarrow> Canvas option" where
  "set_pixels c [] cv = Some cv"
| "set_pixels c (i # is) cv = Option.bind (set_pixel c i cv) (set_pixels c is)"

text \<open>An edge of a rectangle, clamped to the canvas and cut to a whole pixel.\<close>

definition pixel_edge :: "nat \<Rightarrow> f32 \<Rightarrow> nat option" where
  "pixel_edge n v = map_option f_as_usize (f_clamp (Fin 0) (f_of_nat n) v)"

definition rows_of :: "nat \<Rightarrow> nat \<Rightarrow> nat \<Rightarrow> nat \<Rightarrow> nat \<Rightarrow> nat list" where
  "rows_of w x0 y0 x1 y1 = concat (map (\<lambda>y. map (\<lambda>x. y * w + x) [x0..<x1]) [y0..<y1])"

fun paint_item :: "DisplayCommand \<Rightarrow> Canvas \<Rightarrow> Canvas option" where
  "paint_item (SolidColor c r) cv =
     Option.bind (pixel_edge (canvas_width cv) (rect_x r)) (\<lambda>x0.
     Option.bind (pixel_edge (canvas_height cv) (rect_y r)) (\<lambda>y0.
     Option.bind (pixel_edge (canvas_width cv) (f_add (rect_x r) (rect_width r))) (\<lambda>x1.
     Option.bind (pixel_edge (canvas_height cv) (f_add (rect_y r) (rect_height r))) (\<lambda>y1.
     set_pixels c (rows_of (canvas_width cv) x0 y0 x1 y1) cv))))"

fun paint_items :: "DisplayCommand list \<Rightarrow> Canvas \<Rightarrow> Canvas option" where
  "paint_items [] cv = Some cv"
| "paint_items (d # ds) cv = Option.bind (paint_item d cv) (paint_items ds)"

definition paint :: "LayoutBox \<Rightarrow> Rect \<Rightarrow> Canvas option" where
  "paint b bounds =
     Option.bind (canvas_new (f_as_usize (rect_width bounds)) (f_as_usize (rect_height bounds))) (paint_items (build_display_list b))"

definition to_ppm :: "Canvas \<Rightarrow> u8 list" where
  "to_ppm cv =
     map u8_of_char (''P6'' @ [CHR 0x0A] @ show_nat (canvas_width cv) @ '' '' @ show_nat (canvas_height cv) @ [CHR 0x0A] @ ''255'' @ [CHR 0x0A]) @
     concat (map (\<lambda>p. [col_r p, col_g p, col_b p]) (pixels cv))"

section \<open>The program\<close>

text \<open>The stages as \<open>main\<close> calls them, from the two sources and the size of the viewport to the bytes of the image; the page may be taller than the viewport.\<close>

definition page_bounds :: "Dimensions \<Rightarrow> LayoutBox \<Rightarrow> Rect" where
  "page_bounds viewport b =
     (content viewport)\<lparr>rect_height := f_max (rect_height (margin_box (dimensions b))) (rect_height (content viewport))\<rparr>"

definition viewport_of :: "f32 \<Rightarrow> f32 \<Rightarrow> Dimensions" where
  "viewport_of w h = dimensions_default\<lparr>content := rect_default\<lparr>rect_width := w, rect_height := h\<rparr>\<rparr>"

definition render_page :: "(string \<Rightarrow> f32 option) \<Rightarrow> string \<Rightarrow> string \<Rightarrow> f32 \<Rightarrow> f32 \<Rightarrow> u8 list run" where
  "render_page parse_f32 html css w h =
     and_then (html_parse html) (\<lambda>dom_root.
     and_then (try_run (css_parse parse_f32 css)) (\<lambda>sheet.
     and_then (try_run (layout_tree (style_tree dom_root sheet) (viewport_of w h))) (\<lambda>layout_root.
     and_then (try_run (paint layout_root (page_bounds (viewport_of w h) layout_root))) (\<lambda>canvas. Returns (to_ppm canvas)))))"

section \<open>Painting\<close>

definition canvas_ok :: "Canvas \<Rightarrow> bool" where
  "canvas_ok cv \<longleftrightarrow> length (pixels cv) = canvas_width cv * canvas_height cv \<and> canvas_width cv < 2 ^ 24 \<and> canvas_height cv < 2 ^ 24"

definition color_at :: "Canvas \<Rightarrow> nat \<Rightarrow> nat \<Rightarrow> Color" where
  "color_at cv x y = pixels cv ! (y * canvas_width cv + x)"

text \<open>Where an edge falls on a canvas, and the pixels that a command covers.\<close>

fun edge_pixel :: "nat \<Rightarrow> f32 \<Rightarrow> nat" where
  "edge_pixel n (Fin a) = min n (nat \<lfloor>a\<rfloor>)"
| "edge_pixel n Pos_Inf = n"
| "edge_pixel n v = 0"

fun covers :: "nat \<Rightarrow> nat \<Rightarrow> nat \<Rightarrow> nat \<Rightarrow> DisplayCommand \<Rightarrow> bool" where
  "covers w h x y (SolidColor c r) \<longleftrightarrow>
     edge_pixel w (rect_x r) \<le> x \<and> x < edge_pixel w (f_add (rect_x r) (rect_width r)) \<and>
     edge_pixel h (rect_y r) \<le> y \<and> y < edge_pixel h (f_add (rect_y r) (rect_height r))"

fun command_color :: "DisplayCommand \<Rightarrow> Color" where
  "command_color (SolidColor c r) = c"

definition painted :: "nat \<Rightarrow> nat \<Rightarrow> DisplayCommand list \<Rightarrow> Color \<Rightarrow> nat \<Rightarrow> nat \<Rightarrow> Color" where
  "painted w h ds c x y = (case filter (covers w h x y) ds of [] \<Rightarrow> c | d # ds' \<Rightarrow> command_color (last (d # ds')))"

lemma pixel_edge_eq:
  assumes "n < 2 ^ 24"
  shows "pixel_edge n v = Some (edge_pixel n v)"
proof -
  have n: "f_of_nat n = Fin (of_nat n)" using round32_exact [OF representable_int, of "int n"] assms by (simp add: f_of_nat_def)
  have le: "f_le (Fin 0) (Fin (of_nat n))" by (cases "n = 0") (simp_all add: f_le_def f_eq_def)
  have u: "n \<le> usize_max" using assms by (simp add: usize_max_def)
  show ?thesis
  proof (cases v)
    case (Fin a)
    have 1: "nat \<lfloor>a\<rfloor> \<le> n" if "a \<le> of_nat n" using that by (metis floor_mono floor_of_nat nat_int nat_mono)
    have 2: "n \<le> nat \<lfloor>a\<rfloor>" if "of_nat n < a" using that by (metis floor_mono floor_of_nat less_imp_le nat_int nat_mono)
    show ?thesis using Fin n le u 1 2 by (auto simp: pixel_edge_def f_clamp_def min_def)
  qed (use n le u in \<open>simp_all add: pixel_edge_def f_clamp_def\<close>)
qed

lemma edge_pixel_le: "edge_pixel n v \<le> n"
  by (cases v) simp_all

lemma set_pixels_eq:
  "\<forall>i \<in> set is. i < length (pixels cv) \<Longrightarrow> \<exists>ps. set_pixels c is cv = Some (cv\<lparr>pixels := ps\<rparr>) \<and> length ps = length (pixels cv) \<and>
     (\<forall>j < length ps. ps ! j = (if j \<in> set is then c else pixels cv ! j))"
proof (induction "is" arbitrary: cv)
  case Nil
  then show ?case by (intro exI [of _ "pixels cv"]) simp
next
  case (Cons i "is")
  let ?cv = "cv\<lparr>pixels := (pixels cv)[i := c]\<rparr>"
  obtain ps where ps: "set_pixels c is ?cv = Some (?cv\<lparr>pixels := ps\<rparr>)" "length ps = length (pixels ?cv)"
    "\<forall>j < length ps. ps ! j = (if j \<in> set is then c else pixels ?cv ! j)"
    using Cons.IH [of ?cv] Cons.prems by auto
  show ?case using Cons.prems ps by (intro exI [of _ ps]) (auto simp: set_pixel_def nth_list_update)
qed

lemma rows_of_set: "i \<in> set (rows_of w x0 y0 x1 y1) \<longleftrightarrow> (\<exists>y x. i = y * w + x \<and> x0 \<le> x \<and> x < x1 \<and> y0 \<le> y \<and> y < y1)"
  by (simp only: rows_of_def set_concat set_map set_upt image_image UN_iff image_iff Bex_def atLeastLessThan_iff) blast

lemma rows_of_member:
  assumes "x < w" and "x1 \<le> w"
  shows "y * w + x \<in> set (rows_of w x0 y0 x1 y1) \<longleftrightarrow> x0 \<le> x \<and> x < x1 \<and> y0 \<le> y \<and> y < y1"
proof
  assume "y * w + x \<in> set (rows_of w x0 y0 x1 y1)"
  then obtain y' x' where p: "y * w + x = y' * w + x'" "x0 \<le> x'" "x' < x1" "y0 \<le> y'" "y' < y1" by (auto simp: rows_of_set)
  have "x' < w" using p(3) assms(2) by simp
  then have "(y * w + x) div w = y" "(y' * w + x') div w = y'" "(y * w + x) mod w = x" "(y' * w + x') mod w = x'" using assms(1) by simp_all
  then have "y = y'" "x = x'" using p(1) by metis+
  then show "x0 \<le> x \<and> x < x1 \<and> y0 \<le> y \<and> y < y1" using p by simp
qed (auto simp: rows_of_set)

lemma pixel_index: "x < w \<Longrightarrow> y < h \<Longrightarrow> y * w + x < w * h" for x :: nat
proof -
  assume "x < w" and "y < h"
  then have "y * w + x < Suc y * w" by simp
  also have "\<dots> \<le> h * w" using \<open>y < h\<close> by (intro mult_le_mono1) simp
  finally show ?thesis by (simp add: mult.commute)
qed

lemma paint_item_eq:
  assumes "canvas_ok cv"
  shows "\<exists>cv'. paint_item d cv = Some cv' \<and> canvas_ok cv' \<and> canvas_width cv' = canvas_width cv \<and> canvas_height cv' = canvas_height cv \<and>
    (\<forall>x < canvas_width cv. \<forall>y < canvas_height cv.
       color_at cv' x y = (if covers (canvas_width cv) (canvas_height cv) x y d then command_color d else color_at cv x y))"
proof -
  obtain c r where d: "d = SolidColor c r" by (cases d)
  let ?w = "canvas_width cv" and ?h = "canvas_height cv"
  let ?x1 = "edge_pixel ?w (f_add (rect_x r) (rect_width r))" and ?y1 = "edge_pixel ?h (f_add (rect_y r) (rect_height r))"
  let ?is = "rows_of ?w (edge_pixel ?w (rect_x r)) (edge_pixel ?h (rect_y r)) ?x1 ?y1"
  have p: "paint_item d cv = set_pixels c ?is cv" using assms pixel_edge_eq by (simp add: d canvas_ok_def)
  have "i < length (pixels cv)" if i: "i \<in> set ?is" for i
  proof -
    obtain x y where "i = y * ?w + x" "x < ?x1" "y < ?y1" using i by (auto simp: rows_of_set)
    moreover have "?x1 \<le> ?w" "?y1 \<le> ?h" by (rule edge_pixel_le)+
    ultimately have "i < ?w * ?h" using pixel_index [of x ?w y ?h] by simp
    then show ?thesis using assms by (simp add: canvas_ok_def)
  qed
  then obtain ps where ps: "set_pixels c ?is cv = Some (cv\<lparr>pixels := ps\<rparr>)" "length ps = length (pixels cv)"
    "\<forall>j < length ps. ps ! j = (if j \<in> set ?is then c else pixels cv ! j)"
    using set_pixels_eq [of ?is cv c] by blast
  have "color_at (cv\<lparr>pixels := ps\<rparr>) x y = (if covers ?w ?h x y d then command_color d else color_at cv x y)" if "x < ?w" "y < ?h" for x y
  proof -
    have "y * ?w + x < length ps" using pixel_index [OF that] ps(2) assms by (simp add: canvas_ok_def)
    then show ?thesis using ps(3) rows_of_member [OF that(1) edge_pixel_le [of ?w "f_add (rect_x r) (rect_width r)"]]
      by (auto simp: color_at_def d)
  qed
  then show ?thesis using p ps assms by (intro exI [of _ "cv\<lparr>pixels := ps\<rparr>"]) (simp add: canvas_ok_def)
qed

lemma painted_Cons:
  "painted w h (d # ds) c x y = painted w h ds (if covers w h x y d then command_color d else c) x y"
  by (auto simp: painted_def split: list.splits)

lemma paint_items_eq:
  assumes "canvas_ok cv"
  shows "\<exists>cv'. paint_items ds cv = Some cv' \<and> canvas_ok cv' \<and> canvas_width cv' = canvas_width cv \<and> canvas_height cv' = canvas_height cv \<and>
    (\<forall>x < canvas_width cv. \<forall>y < canvas_height cv. color_at cv' x y = painted (canvas_width cv) (canvas_height cv) ds (color_at cv x y) x y)"
  using assms
proof (induction ds arbitrary: cv)
  case Nil
  then show ?case by (simp add: painted_def)
next
  case (Cons d ds)
  obtain cv1 where 1: "paint_item d cv = Some cv1" "canvas_ok cv1" "canvas_width cv1 = canvas_width cv" "canvas_height cv1 = canvas_height cv"
    "\<forall>x < canvas_width cv. \<forall>y < canvas_height cv.
       color_at cv1 x y = (if covers (canvas_width cv) (canvas_height cv) x y d then command_color d else color_at cv x y)"
    using paint_item_eq [OF Cons.prems, of d] by blast
  obtain cv2 where "paint_items ds cv1 = Some cv2" "canvas_ok cv2" "canvas_width cv2 = canvas_width cv1" "canvas_height cv2 = canvas_height cv1"
    "\<forall>x < canvas_width cv1. \<forall>y < canvas_height cv1. color_at cv2 x y = painted (canvas_width cv1) (canvas_height cv1) ds (color_at cv1 x y) x y"
    using Cons.IH [OF 1(2)] by blast
  then show ?case using 1 by (simp add: painted_Cons)
qed

lemma paint_total:
  assumes "f_as_usize (rect_width bounds) < 2 ^ 24" and "f_as_usize (rect_height bounds) < 2 ^ 24"
  shows "\<exists>cv. paint b bounds = Some cv \<and> canvas_width cv = f_as_usize (rect_width bounds) \<and> canvas_height cv = f_as_usize (rect_height bounds) \<and>
    length (pixels cv) = canvas_width cv * canvas_height cv \<and>
    (\<forall>x < canvas_width cv. \<forall>y < canvas_height cv.
       color_at cv x y = painted (canvas_width cv) (canvas_height cv) (build_display_list b) (color_rgb 255 255 255) x y)"
proof -
  let ?w = "f_as_usize (rect_width bounds)" and ?h = "f_as_usize (rect_height bounds)"
  let ?cv = "\<lparr>pixels = replicate (?w * ?h) (color_rgb 255 255 255), canvas_width = ?w, canvas_height = ?h\<rparr>"
  have "?w * ?h \<le> 2 ^ 24 * 2 ^ 24" using assms by (intro mult_le_mono) simp_all
  then have "canvas_new ?w ?h = Some ?cv" by (simp add: canvas_new_def isize_max_def)
  moreover have "color_at ?cv x y = color_rgb 255 255 255" if "x < ?w" "y < ?h" for x y
    using pixel_index [OF that] by (simp add: color_at_def)
  moreover have "canvas_ok ?cv" using assms by (simp add: canvas_ok_def)
  ultimately show ?thesis using paint_items_eq [of ?cv "build_display_list b"] by (auto simp: paint_def canvas_ok_def)
qed


text \<open>C35: Painting a page of fewer than \<open>2^24\<close> pixels in each direction never panics: no pixel outside the canvas is touched whatever the boxes are (infinite and
  not-a-number edges included), and every pixel shows the colour of the last command of the display list that covers it, or white.\<close>

theorem paint_pixels:
  assumes "f_as_usize (rect_width bounds) < 2 ^ 24" and "f_as_usize (rect_height bounds) < 2 ^ 24"
  shows "\<exists>cv. paint b bounds = Some cv \<and> canvas_width cv = f_as_usize (rect_width bounds) \<and> canvas_height cv = f_as_usize (rect_height bounds) \<and>
    length (pixels cv) = canvas_width cv * canvas_height cv \<and>
    (\<forall>x < canvas_width cv. \<forall>y < canvas_height cv.
       color_at cv x y = painted (canvas_width cv) (canvas_height cv) (build_display_list b) (color_rgb 255 255 255) x y)"
  by (rule paint_total [OF assms])

theorem paint_pixels_witness:
  "\<exists>cv. paint (LayoutBox (dimensions_default\<lparr>content := \<lparr>rect_x = Fin 1, rect_y = Neg_Inf, rect_width = Fin 1, rect_height = Pos_Inf\<rparr>\<rparr>) AnonymousBlock [])
     \<lparr>rect_x = Fin 0, rect_y = Fin 0, rect_width = Fin 2, rect_height = Fin 1\<rparr> = Some cv \<and> color_at cv 1 0 = color_rgb 255 255 255"
proof -
  let ?r = "\<lparr>rect_x = Fin 0, rect_y = Fin 0, rect_width = Fin 2, rect_height = Fin 1\<rparr>"
  have "f_as_usize (rect_width ?r) = 2" "f_as_usize (rect_height ?r) = 1" by (simp_all add: usize_max_def)
  then show ?thesis
    using paint_pixels [of ?r "LayoutBox (dimensions_default\<lparr>content := \<lparr>rect_x = Fin 1, rect_y = Neg_Inf, rect_width = Fin 1, rect_height = Pos_Inf\<rparr>\<rparr>) AnonymousBlock []"]
    by (auto simp: painted_def build_display_list_def render_background_def render_borders_def get_style_color_def)
qed

section \<open>The image\<close>

text \<open>A reader of binary PPM images: three header lines, then three bytes per pixel.\<close>

fun read_triples :: "u8 list \<Rightarrow> (u8 \<times> u8 \<times> u8) list option" where
  "read_triples [] = Some []"
| "read_triples (r # g # b # bs) = map_option ((#) (r, g, b)) (read_triples bs)"
| "read_triples bs = None"

definition read_ppm :: "u8 list \<Rightarrow> (nat \<times> nat \<times> (u8 \<times> u8 \<times> u8) list) option" where
  "read_ppm bs =
     Option.bind (split_once 10 bs) (\<lambda>(magic, r1).
     Option.bind (split_once 10 r1) (\<lambda>(dims, r2).
     Option.bind (split_once 10 r2) (\<lambda>(depth, body).
     Option.bind (split_once 32 dims) (\<lambda>(w, h).
     if magic = map u8_of_char ''P6'' \<and> depth = map u8_of_char ''255'' then
       Option.bind (parse_uint usize_max (map char_of_u8 w)) (\<lambda>w'.
       Option.bind (parse_uint usize_max (map char_of_u8 h)) (\<lambda>h'.
       map_option (\<lambda>ps. (w', h', ps)) (read_triples body)))
     else None))))"

lemma read_triples_pixels: "read_triples (concat (map (\<lambda>p. [col_r p, col_g p, col_b p]) ps)) = Some (map (\<lambda>p. (col_r p, col_g p, col_b p)) ps)"
  by (induction ps) simp_all

lemma digit_bytes: "b \<in> set (map u8_of_char (show_nat n)) \<Longrightarrow> b \<noteq> 10 \<and> b \<noteq> 32"
proof -
  assume "b \<in> set (map u8_of_char (show_nat n))"
  then obtain c where c: "c \<in> set (show_nat n)" "b = u8_of_char c" by auto
  have d: "48 \<le> code_of c \<and> code_of c \<le> 57" using show_nat_digits [OF c(1)] .
  then have "unat b = code_of c" using c(2) by (simp add: u8_of_char_def unat_of_nat)
  then show ?thesis using d by (auto dest: arg_cong [of _ _ unat])
qed

lemma ppm_read:
  assumes "canvas_width cv \<le> usize_max" and "canvas_height cv \<le> usize_max"
  shows "read_ppm (to_ppm cv) = Some (canvas_width cv, canvas_height cv, map (\<lambda>p. (col_r p, col_g p, col_b p)) (pixels cv))"
proof -
  let ?w = "map u8_of_char (show_nat (canvas_width cv))" and ?h = "map u8_of_char (show_nat (canvas_height cv))"
  let ?body = "concat (map (\<lambda>p. [col_r p, col_g p, col_b p]) (pixels cv))"
  have nl: "u8_of_char (CHR 0x0A) = 10" "u8_of_char (CHR '' '') = 32" by (simp_all add: u8_of_char_def)
  have e: "to_ppm cv = map u8_of_char ''P6'' @ 10 # (?w @ 32 # ?h) @ 10 # map u8_of_char ''255'' @ 10 # ?body"
    by (simp add: to_ppm_def nl)
  have n: "10 \<notin> set (map u8_of_char ''P6'')" "10 \<notin> set (map u8_of_char ''255'')" by (simp_all add: u8_of_char_def)
  have wh: "10 \<notin> set (?w @ 32 # ?h)" "32 \<notin> set ?w" using digit_bytes by auto
  have c: "map char_of_u8 (map u8_of_char s) = s" for s by (simp add: o_def u8_of_char_inverse)
  have 1: "split_once 10 (to_ppm cv) = Some (map u8_of_char ''P6'', (?w @ 32 # ?h) @ 10 # map u8_of_char ''255'' @ 10 # ?body)"
    unfolding e by (rule split_once_append [OF n(1)])
  have 2: "split_once 10 ((?w @ 32 # ?h) @ 10 # map u8_of_char ''255'' @ 10 # ?body) = Some (?w @ 32 # ?h, map u8_of_char ''255'' @ 10 # ?body)"
    by (rule split_once_append [OF wh(1)])
  have 3: "split_once 10 (map u8_of_char ''255'' @ 10 # ?body) = Some (map u8_of_char ''255'', ?body)" by (rule split_once_append [OF n(2)])
  have 4: "split_once 32 (?w @ 32 # ?h) = Some (?w, ?h)" by (rule split_once_append [OF wh(2)])
  show ?thesis unfolding read_ppm_def 1 bind.bind_lunit prod.case 2 3 4
    using assms by (simp only: c parse_uint_show_nat read_triples_pixels simp_thms if_True bind.bind_lunit option.map)
qed

text \<open>Property: The image that is written reads back: a reader of PPM files gets the width, the height and the red, green and blue of every pixel in order.\<close>

theorem ppm_read_back:
  assumes "canvas_width cv \<le> usize_max" and "canvas_height cv \<le> usize_max"
  shows "read_ppm (to_ppm cv) = Some (canvas_width cv, canvas_height cv, map (\<lambda>p. (col_r p, col_g p, col_b p)) (pixels cv))"
  by (rule ppm_read [OF assms])

theorem ppm_read_back_witness:
  "read_ppm (to_ppm \<lparr>pixels = [color_rgb 1 10 32], canvas_width = 1, canvas_height = 1\<rparr>) = Some (1, 1, [(1, 10, 32)])"
  using ppm_read_back [of "\<lparr>pixels = [color_rgb 1 10 32], canvas_width = 1, canvas_height = 1\<rparr>"] by (simp add: usize_max_def color_rgb_def)

end
