(* ===== verification/Br_Main.thy ===== *)
theory Br_Main
  imports Br_Paint File_System
begin

text \<open>
  \<open>main.rs\<close> of the browser engine: the arguments, the two files it reads, the stages, the image it writes, and what it prints. Printing an
  \<open>f32\<close> and an I/O error, and reading an \<open>f32\<close>, are parameters. The theory shows when the program leaves the image and nothing else behind.
\<close>

section \<open>The code\<close>

text \<open>How the program ended, what it printed to its two streams, and the files it left.\<close>

record Exit =
  exit_code :: nat
  stdout :: string
  stderr :: string
  disk_after :: Disk

definition fails :: "string \<Rightarrow> Disk \<Rightarrow> Exit" where
  "fails msg d = \<lparr>exit_code = 1, stdout = [], stderr = msg @ [CHR 0x0A], disk_after = d\<rparr>"

definition usage :: "string \<Rightarrow> Disk \<Rightarrow> Exit" where
  "usage program d = fails (''usage: '' @ program @ '' <page.html> <page.css> <out.ppm> [viewport_width] [viewport_height]'') d"

definition dimension_arg :: "(string \<Rightarrow> f32 option) \<Rightarrow> string list \<Rightarrow> nat \<Rightarrow> f32 \<Rightarrow> f32" where
  "dimension_arg parse_f32 args i dflt =
     (case (if i < length args then parse_f32 (args ! i) else None) of Some v \<Rightarrow> v | None \<Rightarrow> dflt)"

text \<open>The stages, with the bounds of the page that the last message names.\<close>

definition render_bounds :: "(string \<Rightarrow> f32 option) \<Rightarrow> string \<Rightarrow> string \<Rightarrow> f32 \<Rightarrow> f32 \<Rightarrow> (u8 list \<times> Rect) run" where
  "render_bounds parse_f32 html css w h =
     and_then (html_parse html) (\<lambda>dom_root.
     and_then (try_run (css_parse parse_f32 css)) (\<lambda>sheet.
     and_then (try_run (layout_tree (style_tree dom_root sheet) (viewport_of w h))) (\<lambda>layout_root.
     let bounds = page_bounds (viewport_of w h) layout_root in
     and_then (try_run (paint layout_root bounds)) (\<lambda>canvas. Returns (to_ppm canvas, bounds)))))"

definition browser_main ::
  "(string \<Rightarrow> f32 option) \<Rightarrow> (f32 \<Rightarrow> string) \<Rightarrow> (io_error \<Rightarrow> string) \<Rightarrow> string list \<Rightarrow> Disk \<Rightarrow> Exit run" where
  "browser_main parse_f32 show_f32 show_err args d =
     (if length args < 4 then (if args = [] then Panics else Returns (usage (args ! 0) d))
      else case read_to_string (args ! 1) d of
        Err e \<Rightarrow> Returns (fails (''failed to read '' @ args ! 1 @ '': '' @ show_err e) d)
      | Ok html \<Rightarrow>
          (case read_to_string (args ! 2) d of
             Err e \<Rightarrow> Returns (fails (''failed to read '' @ args ! 2 @ '': '' @ show_err e) d)
           | Ok css_src \<Rightarrow>
               let width = dimension_arg parse_f32 args 4 (Fin 800); height = dimension_arg parse_f32 args 5 (Fin 600) in
               and_then (render_bounds parse_f32 html css_src width height) (\<lambda>(img, bounds).
                 case fs_write (args ! 3) (map char_of_u8 img) d of
                   (Err e, d1) \<Rightarrow> Returns (fails (''failed to write '' @ args ! 3 @ '': '' @ show_err e) d1)
                 | (Ok u, d1) \<Rightarrow>
                     Returns \<lparr>exit_code = 0, stdout = ''wrote '' @ args ! 3 @ '' ('' @ show_f32 width @ ''x'' @ show_f32 (rect_height bounds) @ '') from ''
                       @ args ! 1 @ '' + '' @ args ! 2 @ [CHR 0x0A], stderr = [], disk_after = d1\<rparr>)))"

section \<open>Well-formed sources\<close>

text \<open>A well-formed page and style sheet go through every stage.\<close>

lemma render_written:
  assumes "nodes_ok False ws" and "list_all (rule_ok parse_f32 show_f32) rs"
    and "s = style_tree (single_root (concat (map meaning ws))) \<lparr>rules = map sorted_rule rs\<rparr>" and "display s \<noteq> Display_None"
    and "f_as_usize w < 2 ^ 24" and "\<And>b. layout_tree s (viewport_of w h) = Some b \<Longrightarrow> f_as_usize (rect_height (page_bounds (viewport_of w h) b)) < 2 ^ 24"
  shows "\<exists>b img cv. layout_tree s (viewport_of w h) = Some b \<and> render_page parse_f32 (write_nodes ws) (write_sheet show_f32 rs) w h = Returns img \<and>
    read_ppm img = Some (f_as_usize w, f_as_usize (rect_height (page_bounds (viewport_of w h) b)), map (\<lambda>p. (col_r p, col_g p, col_b p)) (pixels cv)) \<and>
    (\<forall>x < f_as_usize w. \<forall>y < canvas_height cv. color_at cv x y = painted (f_as_usize w) (canvas_height cv) (build_display_list b) (color_rgb 255 255 255) x y)"
proof -
  have html: "html_parse (write_nodes ws) = Returns (single_root (concat (map meaning ws)))"
    using parse_written [OF assms(1), of "[]"] by (simp add: ends_def)
  have css: "css_parse parse_f32 (write_sheet show_f32 rs) = Some \<lparr>rules = map sorted_rule rs\<rparr>" by (rule css_parse_sheet [OF assms(2)])
  obtain b where b: "layout_tree s (viewport_of w h) = Some b" using layout_tree_spec [of s "viewport_of w h"] assms(4) by auto
  let ?r = "page_bounds (viewport_of w h) b"
  have rw: "rect_width ?r = w" by (simp add: page_bounds_def viewport_of_def)
  obtain cv where cv: "paint b ?r = Some cv" "canvas_width cv = f_as_usize w" "canvas_height cv = f_as_usize (rect_height ?r)"
    "\<forall>x < canvas_width cv. \<forall>y < canvas_height cv. color_at cv x y = painted (canvas_width cv) (canvas_height cv) (build_display_list b) (color_rgb 255 255 255) x y"
    using paint_total [of ?r b] assms(5) assms(6) [OF b] rw by auto
  have "canvas_width cv \<le> usize_max" "canvas_height cv \<le> usize_max" using cv(2,3) assms(5) assms(6) [OF b] by (simp_all add: usize_max_def)
  then have "read_ppm (to_ppm cv) = Some (canvas_width cv, canvas_height cv, map (\<lambda>p. (col_r p, col_g p, col_b p)) (pixels cv))" by (rule ppm_read)
  moreover have "render_page parse_f32 (write_nodes ws) (write_sheet show_f32 rs) w h = Returns (to_ppm cv)"
    using html css b cv(1) assms(3) by (simp add: render_page_def try_run_def)
  ultimately show ?thesis using b cv by (intro exI [of _ b] exI [of _ "to_ppm cv"] exI [of _ cv]) simp
qed

section \<open>The stages and the page\<close>

lemma render_bounds_page: "render_page parse_f32 html css w h = and_then (render_bounds parse_f32 html css w h) (\<lambda>(img, bounds). Returns img)"
  by (cases "html_parse html"; cases "css_parse parse_f32 css") (auto simp: render_page_def render_bounds_def try_run_def Let_def split: option.split)

lemma render_bounds_returns:
  assumes "render_page parse_f32 html css w h = Returns img"
  obtains bounds where "render_bounds parse_f32 html css w h = Returns (img, bounds)"
  using assms unfolding render_bounds_page by (cases "render_bounds parse_f32 html css w h") auto

lemma fails_sel [simp]: "exit_code (fails msg d) = 1" "stdout (fails msg d) = []" "disk_after (fails msg d) = d"
  by (simp_all add: fails_def)

lemma fs_write_creates: "fs_write name bs d = (r, d') \<Longrightarrow> can_create d name \<or> d' = d \<and> (\<exists>e. r = Err e)"
  by (auto simp: fs_write_def create_file_def split: if_splits)

text \<open>What a run that ends can look like.\<close>

lemma browser_main_ends:
  assumes "browser_main parse_f32 show_f32 show_err args d = Returns x"
  shows "(\<exists>msg. x = fails msg d) \<or> (can_create d (args ! 3) \<and> ((\<exists>msg d'. x = fails msg d') \<or> exit_code x = 0 \<and> stderr x = []))"
proof (cases "\<exists>msg. x = fails msg d")
  case False
  then obtain html css where src: "\<not> length args < 4" "read_to_string (args ! 1) d = Ok html" "read_to_string (args ! 2) d = Ok css"
    using assms by (auto simp: browser_main_def usage_def split: if_splits result.splits)
  obtain img bounds where img: "render_bounds parse_f32 html css (dimension_arg parse_f32 args 4 (Fin 800)) (dimension_arg parse_f32 args 5 (Fin 600)) = Returns (img, bounds)"
    using assms src by (cases "render_bounds parse_f32 html css (dimension_arg parse_f32 args 4 (Fin 800)) (dimension_arg parse_f32 args 5 (Fin 600))") (auto simp: browser_main_def Let_def)
  obtain r d1 where w: "fs_write (args ! 3) (map char_of_u8 img) d = (r, d1)" by fastforce
  show ?thesis using assms src img w fs_write_creates [OF w] by (cases r) (auto simp: browser_main_def Let_def)
qed simp

section \<open>Properties\<close>

text \<open>Property: With a page and a style sheet that can be read and rendered, and room for the image, the program ends with code zero and leaves the image in the file named by
  its third argument, and every other file as it was.\<close>

theorem main_writes_image:
  assumes "4 \<le> length args" and "read_to_string (args ! 1) d = Ok html" and "read_to_string (args ! 2) d = Ok css"
    and "render_page parse_f32 html css (dimension_arg parse_f32 args 4 (Fin 800)) (dimension_arg parse_f32 args 5 (Fin 600)) = Returns img"
    and "can_create d (args ! 3)" and "\<forall>k. space_left d = Some k \<longrightarrow> length img \<le> k"
  shows "\<exists>x. browser_main parse_f32 show_f32 show_err args d = Returns x \<and> exit_code x = 0 \<and> stderr x = []
    \<and> files (disk_after x) = (files d)(args ! 3 \<mapsto> map char_of_u8 img)"
proof -
  obtain bounds where "render_bounds parse_f32 html css (dimension_arg parse_f32 args 4 (Fin 800)) (dimension_arg parse_f32 args 5 (Fin 600)) = Returns (img, bounds)"
    using render_bounds_returns [OF assms(4)] .
  moreover obtain d' where "fs_write (args ! 3) (map char_of_u8 img) d = (Ok (), d')" "files d' = (files d)(args ! 3 \<mapsto> map char_of_u8 img)"
    using fs_write_ok [of d "args ! 3" "map char_of_u8 img"] assms(5,6) by auto
  ultimately show ?thesis using assms(1-3) by (simp add: browser_main_def Let_def)
qed

theorem main_writes_image_witness:
  "\<exists>x img. browser_main (\<lambda>s. None) (\<lambda>x. []) (\<lambda>e. []) [''b'', ''h'', ''c'', ''o'']
      \<lparr>files = [''h'' \<mapsto> ''t'', ''c'' \<mapsto> []], can_read = (\<lambda>n. True), can_create = (\<lambda>n. True), space_left = None\<rparr> = Returns x
    \<and> exit_code x = 0 \<and> files (disk_after x) ''o'' = Some (map char_of_u8 img)"
proof -
  let ?s = "style_tree (single_root (concat (map meaning [W_Text ''t'']))) \<lparr>rules = map sorted_rule []\<rparr> :: f32 StyledNode"
  have d: "display ?s \<noteq> Display_None" by (simp add: single_root_def text_node_def display_def style_value_def)
  have ok: "nodes_ok False [W_Text ''t'']" by (simp add: is_whitespace_def ws_seqs_def)
  have z: "round32 0 = Fin 0" by (simp add: round32_def)
  have b: "f_as_usize (rect_height (page_bounds (viewport_of (Fin 800) (Fin 600)) b)) = 600" if "layout_tree ?s (viewport_of (Fin 800) (Fin 600)) = Some b" for b
    using that by (auto simp: single_root_def text_node_def layout_tree_def display_def style_value_def layout_box_new_def page_bounds_def viewport_of_def
        margin_box_def border_box_def padding_box_def expanded_by_def dimensions_default_def rect_default_def edge_default_def z f_max_def usize_max_def)
  obtain img where img: "render_page (\<lambda>s. None) ''t'' [] (Fin 800) (Fin 600) = Returns img"
    using render_written [OF ok, of "\<lambda>s. None" "\<lambda>f. []" "[]" ?s "Fin 800" "Fin 600", OF _ refl d] b by (auto simp: write_sheet_def usize_max_def)
  have "read_to_string ''h'' \<lparr>files = [''h'' \<mapsto> ''t'', ''c'' \<mapsto> []], can_read = (\<lambda>n. True), can_create = (\<lambda>n. True), space_left = None\<rparr> = Ok ''t''"
    "read_to_string ''c'' \<lparr>files = [''h'' \<mapsto> ''t'', ''c'' \<mapsto> []], can_read = (\<lambda>n. True), can_create = (\<lambda>n. True), space_left = None\<rparr> = Ok []"
    by (simp_all add: read_to_string_def utf8_step_def utf8_lead_def)
  then show ?thesis
    using main_writes_image [of "[''b'', ''h'', ''c'', ''o'']" "\<lparr>files = [''h'' \<mapsto> ''t'', ''c'' \<mapsto> []], can_read = (\<lambda>n. True), can_create = (\<lambda>n. True), space_left = None\<rparr>"
        "''t''" "[]" "\<lambda>s. None" img "\<lambda>x. []" "\<lambda>e. []"] img by (auto simp: dimension_arg_def)
qed

text \<open>Property: Too few arguments and unreadable sources end the program with code one, a message and every file as it was; so does an output file that cannot be
  created, and whenever the program ends its code is zero or one, with a message on one of the two streams only. An empty argument vector panics.\<close>

theorem main_exit_codes:
  "browser_main parse_f32 show_f32 show_err [] d = Panics
   \<and> (args \<noteq> [] \<and> (length args < 4 \<or> (\<exists>e. read_to_string (args ! 1) d = Err e) \<or> (\<exists>e. read_to_string (args ! 2) d = Err e)) \<longrightarrow>
        (\<exists>msg. browser_main parse_f32 show_f32 show_err args d = Returns (fails msg d)))
   \<and> (browser_main parse_f32 show_f32 show_err args d = Returns x \<longrightarrow>
        exit_code x = 1 \<and> stdout x = [] \<and> (can_create d (args ! 3) \<or> disk_after x = d) \<or> exit_code x = 0 \<and> stderr x = [] \<and> can_create d (args ! 3))"
proof (intro conjI impI)
  show "browser_main parse_f32 show_f32 show_err [] d = Panics" by (simp add: browser_main_def)
  show "\<exists>msg. browser_main parse_f32 show_f32 show_err args d = Returns (fails msg d)"
    if a: "args \<noteq> [] \<and> (length args < 4 \<or> (\<exists>e. read_to_string (args ! 1) d = Err e) \<or> (\<exists>e. read_to_string (args ! 2) d = Err e))"
    using a by (cases "read_to_string (args ! 1) d"; cases "read_to_string (args ! 2) d") (auto simp: browser_main_def usage_def)
  show "exit_code x = 1 \<and> stdout x = [] \<and> (can_create d (args ! 3) \<or> disk_after x = d) \<or> exit_code x = 0 \<and> stderr x = [] \<and> can_create d (args ! 3)"
    if r: "browser_main parse_f32 show_f32 show_err args d = Returns x"
    using browser_main_ends [OF r] by auto
qed

theorem main_exit_codes_witness:
  "\<exists>msg. browser_main (\<lambda>s. None) (\<lambda>x. []) (\<lambda>e. []) [''b'', ''h''] \<lparr>files = Map.empty, can_read = (\<lambda>n. True), can_create = (\<lambda>n. True), space_left = None\<rparr> =
     Returns (fails msg \<lparr>files = Map.empty, can_read = (\<lambda>n. True), can_create = (\<lambda>n. True), space_left = None\<rparr>)"
  using main_exit_codes [of "\<lambda>s. None" "\<lambda>x. []" "\<lambda>e. []" "\<lparr>files = Map.empty, can_read = (\<lambda>n. True), can_create = (\<lambda>n. True), space_left = None\<rparr>" "[''b'', ''h'']"] by simp

end
