(* ===== verification/Nv_Rng.thy ===== *)
theory Nv_Rng
  imports F32 "HOL-Library.Monad_Syntax"
begin

text \<open>
  What the neuroevolution crate takes from outside: the random number generator of the \<open>rand\<close> crate, and the trigonometric
  functions of the platform, whose precision the standard library leaves open. Both are records of functions, arguments of every definition that
  calls them; the predicates on them state what their documentation promises. The square root is specified exactly and is defined here.

  The theory also holds the traversals \<open>(0..n).map(...)\<close> and \<open>iter().map(...)\<close> of closures that advance a generator or
  consume a stream, and may panic.
\<close>

section \<open>Traversals\<close>

fun traverse :: "('a \<Rightarrow> 's \<Rightarrow> ('b \<times> 's) option) \<Rightarrow> 'a list \<Rightarrow> 's \<Rightarrow> ('b list \<times> 's) option" where
  "traverse f [] s = Some ([], s)"
| "traverse f (x # xs) s = do {
     (y, s1) \<leftarrow> f x s;
     (ys, s2) \<leftarrow> traverse f xs s1;
     Some (y # ys, s2)
   }"

definition times_map :: "nat \<Rightarrow> ('s \<Rightarrow> ('b \<times> 's) option) \<Rightarrow> 's \<Rightarrow> ('b list \<times> 's) option" where
  "times_map n f s = traverse (\<lambda>i. f) [0..<n] s"

lemma traverse_list_all2:
  assumes "traverse f xs s = Some (ys, s')" "\<And>x s y s'. x \<in> set xs \<Longrightarrow> f x s = Some (y, s') \<Longrightarrow> P x y"
  shows "list_all2 P xs ys"
  using assms by (induction xs arbitrary: s ys) (fastforce simp: bind_eq_Some_conv)+

lemma traverse_total:
  assumes "\<And>x s. x \<in> set xs \<Longrightarrow> \<exists>y s'. f x s = Some (y, s') \<and> P x y"
  shows "\<exists>ys s'. traverse f xs s = Some (ys, s') \<and> list_all2 P xs ys"
  using assms
proof (induction xs arbitrary: s)
  case (Cons x xs)
  obtain y s1 where 1: "f x s = Some (y, s1)" "P x y" using Cons.prems [of x s] by auto
  obtain ys s2 where 2: "traverse f xs s1 = Some (ys, s2)" "list_all2 P xs ys" using Cons.IH [of s1] Cons.prems by auto
  show ?case using 1 2 by auto
qed simp

lemma list_all2_right: "list_all2 (\<lambda>x. P) xs ys \<Longrightarrow> length ys = length xs \<and> (\<forall>y \<in> set ys. P y)"
  by (induction xs ys rule: list_all2_induct) auto

lemma times_map_total:
  assumes "\<And>s. \<exists>y s'. f s = Some (y, s') \<and> P y"
  shows "\<exists>ys s'. times_map n f s = Some (ys, s') \<and> length ys = n \<and> (\<forall>y \<in> set ys. P y)"
proof -
  obtain ys s' where "traverse (\<lambda>i. f) [0..<n] s = Some (ys, s')" "list_all2 (\<lambda>i. P) [0..<n] ys"
    using traverse_total [of "[0..<n]" "\<lambda>i. f" "\<lambda>i. P" s] assms by blast
  then show ?thesis unfolding times_map_def by (auto simp: list_all2_conv_all_nth in_set_conv_nth)
qed

lemma times_map_0 [simp]: "times_map 0 f s = Some ([], s)"
  by (simp add: times_map_def)

lemma traverse_const: "length xs = length zs \<Longrightarrow> traverse (\<lambda>i. f) xs s = traverse (\<lambda>i. f) zs s"
  by (induction xs zs arbitrary: s rule: list_induct2) auto

lemma times_map_Suc:
  "times_map (Suc n) f s = do { (y, s1) \<leftarrow> f s; (ys, s2) \<leftarrow> times_map n f s1; Some (y # ys, s2) }"
proof -
  have "traverse (\<lambda>i. f) [Suc 0..<Suc n] s = traverse (\<lambda>i. f) [0..<n] s" for s by (rule traverse_const) simp
  then show ?thesis by (simp add: times_map_def upt_conv_Cons del: upt_Suc)
qed

lemma times_map_length: "times_map n f s = Some (ys, s') \<Longrightarrow> length ys = n"
  using traverse_list_all2 [of "\<lambda>i. f" "[0..<n]" s ys s' "\<lambda>i y. True"] by (auto simp: times_map_def dest: list_all2_lengthD)

section \<open>The generator\<close>

text \<open>
  The methods of \<open>rand::Rng\<close> and \<open>SliceRandom\<close> the crate calls, over a generator state \<open>'r\<close>. \<open>gen_bool\<close> panics outside
  \<open>[0, 1]\<close> (the probability is an \<open>f64\<close> in the library, but only \<open>f32\<close> values, which widen exactly, are ever passed);
  \<open>gen_range\<close> on \<open>lo..hi\<close> and on \<open>lo..=hi\<close> panics on an empty range; \<open>choose_weighted\<close> returns the
  index of the chosen element, or an error.
\<close>

record 'r rng_ops =
  gen_bool :: "f32 \<Rightarrow> 'r \<Rightarrow> (bool \<times> 'r) option"
  gen_f32 :: "'r \<Rightarrow> f32 \<times> 'r"
  gen_range :: "f32 \<Rightarrow> f32 \<Rightarrow> 'r \<Rightarrow> (f32 \<times> 'r) option"
  gen_range_incl :: "f32 \<Rightarrow> f32 \<Rightarrow> 'r \<Rightarrow> (f32 \<times> 'r) option"
  choose_weighted :: "f32 list \<Rightarrow> 'r \<Rightarrow> nat option \<times> 'r"

definition gen_bool_law :: "'r rng_ops \<Rightarrow> bool" where
  "gen_bool_law g \<longleftrightarrow> (\<forall>p r. fin_in 0 1 p \<longrightarrow> (\<exists>b r'. gen_bool g p r = Some (b, r') \<and> (p = Fin 0 \<longrightarrow> \<not> b)))"

definition gen_f32_law :: "'r rng_ops \<Rightarrow> bool" where
  "gen_f32_law g \<longleftrightarrow> (\<forall>r. fin_in 0 1 (fst (gen_f32 g r)) \<and> finite32 (fst (gen_f32 g r)) \<and> fst (gen_f32 g r) \<noteq> Fin 1)"

definition gen_range_law :: "'r rng_ops \<Rightarrow> bool" where
  "gen_range_law g \<longleftrightarrow>
     (\<forall>lo hi r. representable lo \<and> representable hi \<and> lo < hi \<and> finite32 (round32 (hi - lo)) \<longrightarrow>
        (\<exists>x r'. gen_range g (Fin lo) (Fin hi) r = Some (Fin x, r') \<and> representable x \<and> lo \<le> x \<and> x < hi))"

definition gen_range_incl_law :: "'r rng_ops \<Rightarrow> bool" where
  "gen_range_incl_law g \<longleftrightarrow>
     (\<forall>lo hi r. representable lo \<and> representable hi \<and> lo \<le> hi \<and> finite32 (round32 (hi - lo)) \<longrightarrow>
        (\<exists>x r'. gen_range_incl g (Fin lo) (Fin hi) r = Some (Fin x, r') \<and> representable x \<and> lo \<le> x \<and> x \<le> hi))"

definition choose_weighted_law :: "'r rng_ops \<Rightarrow> bool" where
  "choose_weighted_law g \<longleftrightarrow>
     (\<forall>ws r. (ws \<noteq> [] \<and> (\<forall>w \<in> set ws. f_lt (Fin 0) w) \<and> (\<exists>t. f_sum ws = Fin t) \<longrightarrow>
                (\<exists>i r'. choose_weighted g ws r = (Some i, r') \<and> i < length ws))
             \<and> fst (choose_weighted g [] r) = None)"

definition rng_ok :: "'r rng_ops \<Rightarrow> bool" where
  "rng_ok g \<longleftrightarrow> gen_bool_law g \<and> gen_f32_law g \<and> gen_range_law g \<and> gen_range_incl_law g \<and> choose_weighted_law g"

lemma rng_gen_bool: "rng_ok g \<Longrightarrow> fin_in 0 1 p \<Longrightarrow> \<exists>b r'. gen_bool g p r = Some (b, r')"
  unfolding rng_ok_def gen_bool_law_def by blast

lemma rng_gen_bool_0: "rng_ok g \<Longrightarrow> \<exists>r'. gen_bool g (Fin 0) r = Some (False, r')"
  unfolding rng_ok_def gen_bool_law_def by (metis fin_in_Fin order_refl zero_le_one)

lemma rng_gen_f32: "rng_ok g \<Longrightarrow> gen_f32 g r = (u, r') \<Longrightarrow> fin_in 0 1 u \<and> finite32 u"
  unfolding rng_ok_def gen_f32_law_def by (metis fst_conv)

lemma rng_gen_range:
  "rng_ok g \<Longrightarrow> representable lo \<Longrightarrow> representable hi \<Longrightarrow> lo < hi \<Longrightarrow> finite32 (round32 (hi - lo)) \<Longrightarrow>
   \<exists>x r'. gen_range g (Fin lo) (Fin hi) r = Some (Fin x, r') \<and> representable x \<and> lo \<le> x \<and> x < hi"
  unfolding rng_ok_def gen_range_law_def by blast

lemma rng_gen_range_incl:
  "rng_ok g \<Longrightarrow> representable lo \<Longrightarrow> representable hi \<Longrightarrow> lo \<le> hi \<Longrightarrow> finite32 (round32 (hi - lo)) \<Longrightarrow>
   \<exists>x r'. gen_range_incl g (Fin lo) (Fin hi) r = Some (Fin x, r') \<and> representable x \<and> lo \<le> x \<and> x \<le> hi"
  unfolding rng_ok_def gen_range_incl_law_def by blast

lemma rng_choose_weighted:
  "rng_ok g \<Longrightarrow> ws \<noteq> [] \<Longrightarrow> \<forall>w \<in> set ws. f_lt (Fin 0) w \<Longrightarrow> f_sum ws = Fin t \<Longrightarrow>
   \<exists>i r'. choose_weighted g ws r = (Some i, r') \<and> i < length ws"
  unfolding rng_ok_def choose_weighted_law_def by blast

lemma rng_choose_weighted_Nil: "rng_ok g \<Longrightarrow> fst (choose_weighted g [] r) = None"
  unfolding rng_ok_def choose_weighted_law_def by blast

text \<open>A generator that keeps the laws: it answers with the low end of every range and counts its calls.\<close>

definition low_rng :: "nat rng_ops" where
  "low_rng = \<lparr>gen_bool = (\<lambda>p r. if fin_in 0 1 p then Some (p \<noteq> Fin 0 \<and> even r, Suc r) else None),
     gen_f32 = (\<lambda>r. (Fin 0, Suc r)),
     gen_range = (\<lambda>lo hi r. if f_lt lo hi then Some (lo, Suc r) else None),
     gen_range_incl = (\<lambda>lo hi r. if f_le lo hi then Some (lo, Suc r) else None),
     choose_weighted = (\<lambda>ws r. (if ws = [] then None else Some (r mod length ws), Suc r))\<rparr>"

lemma low_rng_ok: "rng_ok low_rng"
  by (auto simp: rng_ok_def gen_bool_law_def gen_f32_law_def gen_range_law_def gen_range_incl_law_def choose_weighted_law_def low_rng_def
      f_le_def f_eq_def order_le_less)

section \<open>Square roots and trigonometry\<close>

fun isqrt :: "nat \<Rightarrow> nat" where
  "isqrt n = (if n = 0 then 0 else let r = 2 * isqrt (n div 4) in if (r + 1) * (r + 1) \<le> n then r + 1 else r)"

declare isqrt.simps [simp del]

lemma isqrt_bounds: "isqrt n * isqrt n \<le> n \<and> n < (isqrt n + 1) * (isqrt n + 1)"
proof (induction n rule: isqrt.induct)
  case (1 n)
  show ?case
  proof (cases "n = 0")
    case False
    define s where "s = isqrt (n div 4)"
    have s: "s * s \<le> n div 4" "n div 4 < (s + 1) * (s + 1)" using 1 [OF False] by (simp_all add: s_def)
    have "4 * (s * s) \<le> n" using s(1) by linarith
    moreover have "n < 4 * ((s + 1) * (s + 1))" using s(2) by linarith
    ultimately show ?thesis using False by (simp add: isqrt.simps [of n] Let_def flip: s_def)
  qed (simp add: isqrt.simps)
qed

text \<open>
  \<open>f32::sqrt\<close>, correctly rounded. A finite number is a multiple of \<open>2^-149\<close>, so scaled by \<open>4^160\<close> it is an integer, and its
  root there has more than 80 bits. A root that is no integer at this scale is replaced by the middle of the gap it lies in; no
  number halfway between two \<open>f32\<close> values lies inside that gap, so both round the same way.
\<close>

fun f_sqrt :: "f32 \<Rightarrow> f32" where
  "f_sqrt (Fin a) =
     (if a < 0 then Not_A_Number
      else let n = nat \<lfloor>a * 4 ^ 160\<rfloor>; s = isqrt n in
           round32 ((if s * s = n then of_nat s else of_nat s + 1 / 2) / 2 ^ 160))"
| "f_sqrt Pos_Inf = Pos_Inf"
| "f_sqrt x = Not_A_Number"

lemma f_sqrt_nonneg: "f_le (Fin 0) x \<Longrightarrow> f_le (Fin 0) (f_sqrt x)"
  by (elim f_nonneg_cases) (simp_all add: round32_nonneg Let_def f_le_def [of "Fin 0" Pos_Inf])

lemma isqrt_square: "isqrt (k * k) = k"
proof -
  have "isqrt (k * k) * isqrt (k * k) \<le> k * k" "k * k < (isqrt (k * k) + 1) * (isqrt (k * k) + 1)" using isqrt_bounds [of "k * k"] by simp_all
  then have "isqrt (k * k) \<le> k" "k < isqrt (k * k) + 1" by (metis linorder_not_le mult_strict_mono' zero_le, metis linorder_not_le mult_le_mono)
  then show ?thesis by simp
qed

text \<open>The root of the square of a fraction is that fraction.\<close>

lemma f_sqrt_square:
  assumes "representable (of_nat k / 2 ^ j)" "j \<le> 160"
  shows "f_sqrt (Fin (of_nat (k * k) / 4 ^ j)) = Fin (of_nat k / 2 ^ j)"
proof -
  define q where "q = k * 2 ^ (160 - j)"
  have p: "(2 :: rat) ^ 160 = 2 ^ j * 2 ^ (160 - j)" "(4 :: rat) ^ 160 = 4 ^ j * 4 ^ (160 - j)" using assms(2) by (simp_all flip: power_add)
  have f: "(4 :: rat) ^ i = 2 ^ i * 2 ^ i" for i by (simp flip: power_mult_distrib)
  have "of_nat (k * k) / 4 ^ j * 4 ^ 160 = (of_nat (q * q) :: rat)" unfolding p(2) q_def by (simp add: f)
  then have "nat \<lfloor>of_nat (k * k) / 4 ^ j * 4 ^ 160 :: rat\<rfloor> = q * q" by (simp only: floor_of_nat nat_int)
  moreover have "of_nat q / 2 ^ 160 = (of_nat k / 2 ^ j :: rat)" unfolding p(1) q_def by simp
  ultimately show ?thesis using assms(1) round32_exact by (simp add: Let_def isqrt_square not_less del: of_nat_mult power_numeral)
qed

record maths =
  m_sin :: "f32 \<Rightarrow> f32"
  m_cos :: "f32 \<Rightarrow> f32"
  m_atan2 :: "f32 \<Rightarrow> f32 \<Rightarrow> f32"

definition maths_ok :: "maths \<Rightarrow> bool" where
  "maths_ok m \<longleftrightarrow> (\<forall>a. fin_in (- 1) 1 (m_sin m (Fin a)) \<and> fin_in (- 1) 1 (m_cos m (Fin a)))"

text \<open>A coarse platform: the sine is always zero and the cosine one.\<close>

definition flat_maths :: maths where
  "flat_maths = \<lparr>m_sin = (\<lambda>a. Fin 0), m_cos = (\<lambda>a. Fin 1), m_atan2 = (\<lambda>y x. Fin 0)\<rparr>"

lemma flat_maths_ok: "maths_ok flat_maths"
  by (simp add: maths_ok_def flat_maths_def)

end
