(* ===== verification/Nv_Vec2.thy ===== *)
theory Nv_Vec2
  imports Nv_Rng
begin

text \<open>
  \<open>vec2.rs\<close>, \<open>food.rs\<close> and \<open>eye.rs\<close> of the neuroevolution crate: vectors on the torus, food, and the eye that turns food positions into
  a fixed number of cells.
\<close>

section \<open>Vectors\<close>

record vec2 =
  vec_x :: f32
  vec_y :: f32

definition vec2_new :: "f32 \<Rightarrow> f32 \<Rightarrow> vec2" where
  "vec2_new x y = \<lparr>vec_x = x, vec_y = y\<rparr>"

definition vec2_random :: "'r rng_ops \<Rightarrow> 'r \<Rightarrow> (vec2 \<times> 'r) option" where
  "vec2_random g r = do {
     (x, r1) \<leftarrow> gen_range g (Fin 0) (Fin 1) r;
     (y, r2) \<leftarrow> gen_range g (Fin 0) (Fin 1) r1;
     Some (\<lparr>vec_x = x, vec_y = y\<rparr>, r2)
   }"

definition from_angle :: "maths \<Rightarrow> f32 \<Rightarrow> vec2" where
  "from_angle m a = \<lparr>vec_x = m_cos m a, vec_y = m_sin m a\<rparr>"

definition vec2_length :: "vec2 \<Rightarrow> f32" where
  "vec2_length v = f_sqrt (f_add (f_mul (vec_x v) (vec_x v)) (f_mul (vec_y v) (vec_y v)))"

definition vec2_angle :: "maths \<Rightarrow> vec2 \<Rightarrow> f32" where
  "vec2_angle m v = m_atan2 m (vec_y v) (vec_x v)"

definition vec2_wrap :: "f32 \<Rightarrow> f32 \<Rightarrow> vec2 \<Rightarrow> vec2" where
  "vec2_wrap lo hi v =
     (let extent = f_sub hi lo in
      \<lparr>vec_x = f_add lo (f_rem_euclid (f_sub (vec_x v) lo) extent),
       vec_y = f_add lo (f_rem_euclid (f_sub (vec_y v) lo) extent)\<rparr>)"

definition vec2_add :: "vec2 \<Rightarrow> vec2 \<Rightarrow> vec2" where
  "vec2_add u v = vec2_new (f_add (vec_x u) (vec_x v)) (f_add (vec_y u) (vec_y v))"

definition vec2_add_assign :: "vec2 \<Rightarrow> vec2 \<Rightarrow> vec2" where
  "vec2_add_assign u v = u\<lparr>vec_x := f_add (vec_x u) (vec_x v), vec_y := f_add (vec_y u) (vec_y v)\<rparr>"

definition vec2_sub :: "vec2 \<Rightarrow> vec2 \<Rightarrow> vec2" where
  "vec2_sub u v = vec2_new (f_sub (vec_x u) (vec_x v)) (f_sub (vec_y u) (vec_y v))"

definition vec2_mul :: "vec2 \<Rightarrow> f32 \<Rightarrow> vec2" where
  "vec2_mul v k = vec2_new (f_mul (vec_x v) k) (f_mul (vec_y v) k)"

definition wrap_angle :: "f32 \<Rightarrow> f32" where
  "wrap_angle a = f_sub (f_rem_euclid (f_add a (Fin pi32)) (f_mul (Fin 2) (Fin pi32))) (Fin pi32)"

section \<open>Food\<close>

record food =
  food_position :: vec2

definition food_random :: "'r rng_ops \<Rightarrow> 'r \<Rightarrow> (food \<times> 'r) option" where
  "food_random g r = do { (p, r1) \<leftarrow> vec2_random g r; Some (\<lparr>food_position = p\<rparr>, r1) }"

definition food_at :: "vec2 \<Rightarrow> food" where
  "food_at p = \<lparr>food_position = p\<rparr>"

definition food_set_position :: "vec2 \<Rightarrow> food \<Rightarrow> food" where
  "food_set_position p f = f\<lparr>food_position := p\<rparr>"

section \<open>The eye\<close>

record eye =
  fov_range :: f32
  fov_angle :: f32
  eye_cells :: nat

definition FOV_RANGE :: f32 where
  "FOV_RANGE = Fin (1 / 4)"

definition FOV_ANGLE :: f32 where
  "FOV_ANGLE = f_add (Fin pi32) (Fin (pi32 / 4))"

definition CELLS :: nat where
  "CELLS = 9"

definition eye_new :: "f32 \<Rightarrow> f32 \<Rightarrow> nat \<Rightarrow> eye option" where
  "eye_new far angle n =
     (if \<not> f_lt (Fin 0) far then None
      else if \<not> f_lt (Fin 0) angle then None
      else if n = 0 then None
      else Some \<lparr>fov_range = far, fov_angle = angle, eye_cells = n\<rparr>)"

text \<open>
  One round of the loop of \<open>process_vision\<close>. \<open>self.cells - 1\<close> on an eye without cells and an index out of range panic.
\<close>

definition see_food :: "maths \<Rightarrow> eye \<Rightarrow> vec2 \<Rightarrow> f32 \<Rightarrow> f32 list \<Rightarrow> food \<Rightarrow> f32 list option" where
  "see_food m e position rotation cs f =
     (let offset = vec2_sub (food_position f) position;
          distance = vec2_length offset in
      if f_eq distance (Fin 0) \<or> f_le (fov_range e) distance then Some cs
      else
        let angle = wrap_angle (f_sub (vec2_angle m offset) rotation) in
        if f_lt angle (f_div (f_neg (fov_angle e)) (Fin 2)) \<or> f_lt (f_div (fov_angle e) (Fin 2)) angle then Some cs
        else
          let angle = f_add angle (f_div (fov_angle e) (Fin 2));
              cell = f_as_usize (f_mul (f_div angle (fov_angle e)) (f_of_nat (eye_cells e))) in
          if eye_cells e = 0 then None
          else
            let cell = min cell (eye_cells e - 1);
                energy = f_div (f_sub (fov_range e) distance) (fov_range e) in
            if cell < length cs then Some (cs[cell := f_add (cs ! cell) energy]) else None)"

fun see_foods :: "maths \<Rightarrow> eye \<Rightarrow> vec2 \<Rightarrow> f32 \<Rightarrow> f32 list \<Rightarrow> food list \<Rightarrow> f32 list option" where
  "see_foods m e position rotation cs [] = Some cs"
| "see_foods m e position rotation cs (f # fs) = do {
     cs' \<leftarrow> see_food m e position rotation cs f;
     see_foods m e position rotation cs' fs
   }"

definition process_vision :: "maths \<Rightarrow> eye \<Rightarrow> vec2 \<Rightarrow> f32 \<Rightarrow> food list \<Rightarrow> f32 list option" where
  "process_vision m e position rotation foods = see_foods m e position rotation (replicate (eye_cells e) (Fin 0)) foods"

definition eye_default :: "eye option" where
  "eye_default = eye_new FOV_RANGE FOV_ANGLE CELLS"

section \<open>Positions on the torus\<close>

definition on_torus :: "vec2 \<Rightarrow> bool" where
  "on_torus v \<longleftrightarrow> fin_in 0 1 (vec_x v) \<and> finite32 (vec_x v) \<and> fin_in 0 1 (vec_y v) \<and> finite32 (vec_y v)"

lemma unit_range_gen: "rng_ok g \<Longrightarrow> \<exists>x r'. gen_range g (Fin 0) (Fin 1) r = Some (x, r') \<and> fin_in 0 1 x \<and> finite32 x"
  using rng_gen_range [of g 0 1 r] by fastforce

lemma vec2_random_total: "rng_ok g \<Longrightarrow> \<exists>v r'. vec2_random g r = Some (v, r') \<and> on_torus v"
proof -
  assume g: "rng_ok g"
  obtain x r1 where x: "gen_range g (Fin 0) (Fin 1) r = Some (x, r1)" "fin_in 0 1 x" "finite32 x" using unit_range_gen [OF g] by blast
  obtain y r2 where y: "gen_range g (Fin 0) (Fin 1) r1 = Some (y, r2)" "fin_in 0 1 y" "finite32 y" using unit_range_gen [OF g] by blast
  show ?thesis using x y by (simp add: vec2_random_def on_torus_def)
qed

lemma wrap_coordinate:
  assumes "finite32 x"
  shows "fin_in 0 1 (f_add (Fin 0) (f_rem_euclid (f_sub x (Fin 0)) (Fin 1))) \<and> finite32 (f_add (Fin 0) (f_rem_euclid (f_sub x (Fin 0)) (Fin 1)))"
proof -
  obtain a where a: "x = Fin a" using assms by (elim finite32E)
  have "fin_in 0 1 (f_rem_euclid (Fin a) (Fin 1))" by (rule f_rem_euclid_range) simp_all
  then obtain b where b: "f_rem_euclid (Fin a) (Fin 1) = Fin b" "0 \<le> b" "b \<le> 1" by (elim fin_inE)
  show ?thesis using f_sub_0 [OF assms] a b round32_fin_in [of 0 1 b] by simp
qed

lemma vec2_wrap_on_torus: "finite32 (vec_x v) \<Longrightarrow> finite32 (vec_y v) \<Longrightarrow> on_torus (vec2_wrap (Fin 0) (Fin 1) v)"
  using wrap_coordinate [of "vec_x v"] wrap_coordinate [of "vec_y v"] by (simp add: on_torus_def vec2_wrap_def Let_def f_sub_def)

text \<open>Inside the torus wrapping changes nothing, except that the far edge becomes the near one.\<close>

lemma wrap_coordinate_id: "representable a \<Longrightarrow> 0 \<le> a \<Longrightarrow> a < 1 \<Longrightarrow> f_add (Fin 0) (f_rem_euclid (f_sub (Fin a) (Fin 0)) (Fin 1)) = Fin a"
proof -
  assume a: "representable a" "0 \<le> a" "a < 1"
  then have "\<lfloor>a\<rfloor> = 0" by (simp add: floor_eq_iff)
  then show ?thesis using a by (simp add: f_sub_def round32_exact f_rem_euclid_def trunc_rat_def)
qed

section \<open>Angles\<close>

lemma two_pi: "f_mul (Fin 2) (Fin pi32) = Fin (2 * pi32)"
  by (simp add: round32_exact)

lemma representable_2_100: "representable (2 ^ 100)"
  unfolding representable_def by (intro exI [of _ 1] exI [of _ 100]) (simp add: pow2_def)

lemma angle_sum_finite:
  assumes "\<bar>a\<bar> \<le> 2 ^ 99"
  shows "\<exists>s. f_add (Fin a) (Fin pi32) = Fin s"
  using assms round32_fin_in [of "- (2 ^ 100)" "2 ^ 100" "a + pi32"] representable_2_100
  by (auto simp: abs_le_iff pi32_def elim: fin_inE)

text \<open>
  The remainder of a negative sum is a multiple of \<open>2^-22\<close>: an angle below \<open>-pi\<close> is itself such a multiple, because its
  magnitude is above two.
\<close>

lemma negative_angle_multiple:
  assumes "representable a" "f_add (Fin a) (Fin pi32) = Fin s" "s < 0"
  obtains i where "s = of_int i * pow2 (- 22)"
proof -
  obtain m k where a: "a = of_int m * pow2 k" and m: "\<bar>m\<bar> < 2 ^ 24" and k: "- 149 \<le> k" using assms(1) by (auto simp: representable_def)
  have "a + pi32 < 0"
  proof (rule ccontr)
    assume "\<not> a + pi32 < 0"
    then have "a + pi32 \<noteq> 0 \<longrightarrow> 0 \<le> round_ulp (a + pi32)" using round_ulp_ge [of 0 "a + pi32"] by auto
    then show False using assms(2,3) by (cases "a + pi32 = 0") (auto simp: round32_ulp split: if_splits)
  qed
  then have "2 < \<bar>a\<bar>" by (simp add: pi32_def)
  have "- 22 \<le> k"
  proof (rule ccontr)
    assume "\<not> - 22 \<le> k"
    then have "pow2 k \<le> pow2 (- 23)" by (intro pow2_mono) simp
    then have "of_int \<bar>m\<bar> * pow2 k \<le> of_int (2 ^ 24) * pow2 (- 23)" using m by (intro mult_mono) (simp_all only: of_int_le_iff, simp_all add: less_imp_le)
    then show False using \<open>2 < \<bar>a\<bar>\<close> by (simp add: a abs_mult pow2_def power_int_minus)
  qed
  then have "pow2 k = of_int (2 ^ nat (k + 22)) * pow2 (- 22)" using pow2_add [of "k + 22" "- 22"] pow2_of_nat [of "nat (k + 22)"] by simp
  then have "a + pi32 = of_int (m * 2 ^ nat (k + 22) + 13176795) * pow2 (- 22)" by (simp add: a pi32_def pow2_def power_int_minus distrib_right)
  then show thesis by (rule round32_multiple) (use assms(2) in \<open>auto intro: that\<close>)
qed

text \<open>The greatest \<open>f32\<close> below twice \<open>pi\<close>.\<close>

definition below_2pi :: rat where
  "below_2pi = 13176794 / 2 ^ 21"

lemma representable_below_2pi [simp]: "representable below_2pi"
  using representable_scaled [of 13176794 21] by (simp add: below_2pi_def)

lemma multiple_below_2pi: "of_int i * pow2 (- 21) < 2 * pi32 \<Longrightarrow> of_int i * pow2 (- 21) \<le> below_2pi"
proof -
  assume "of_int i * pow2 (- 21) < 2 * pi32"
  then have "(of_int i :: rat) < of_int 13176795" by (simp add: pi32_def pow2_def power_int_minus)
  then have "i \<le> 13176794" unfolding of_int_less_iff by simp
  then have "(of_int i :: rat) \<le> of_int 13176794" by (simp only: of_int_le_iff)
  then show ?thesis by (simp add: below_2pi_def pow2_def power_int_minus)
qed

lemma rem_2pi_nonneg:
  assumes "representable s" "0 \<le> s" "r = s - 2 * pi32 * of_int t" "\<bar>r\<bar> < 2 * pi32" "0 \<le> r"
  shows "r \<le> below_2pi"
proof -
  obtain m k where s: "s = of_int m * pow2 k" and m: "\<bar>m\<bar> < 2 ^ 24" and k: "- 149 \<le> k" using assms(1) by (auto simp: representable_def)
  show ?thesis
  proof (cases "- 21 \<le> k")
    case True
    then have "pow2 k = of_int (2 ^ nat (k + 21)) * pow2 (- 21)" using pow2_add [of "k + 21" "- 21"] pow2_of_nat [of "nat (k + 21)"] by simp
    then have "r = of_int (m * 2 ^ nat (k + 21) - 13176795 * t) * pow2 (- 21)" by (simp add: assms(3) s pi32_def pow2_def power_int_minus left_diff_distrib)
    then obtain j where j: "r = of_int j * pow2 (- 21)" by blast
    then show ?thesis using multiple_below_2pi [of j] assms(4) by (simp add: abs_less_iff)
  next
    case False
    then have "pow2 k \<le> pow2 (- 22)" by (intro pow2_mono) simp
    then have "of_int \<bar>m\<bar> * pow2 k \<le> of_int (2 ^ 24) * pow2 (- 22)" using m by (intro mult_mono) (simp_all only: of_int_le_iff, simp_all add: less_imp_le)
    moreover have "s \<le> of_int \<bar>m\<bar> * pow2 k" unfolding s by (intro mult_right_mono) (simp_all add: less_imp_le)
    ultimately have "s \<le> 4" by (simp add: pow2_def power_int_minus)
    have "r \<le> s"
    proof (cases "0 \<le> t")
      case True
      then show ?thesis using assms(3) by (simp add: pi32_def)
    next
      case False
      then have "of_int t \<le> (- 1 :: rat)" using of_int_le_iff [of t "- 1"] by simp
      then have "2 * pi32 * of_int t \<le> 2 * pi32 * (- 1)" by (intro mult_left_mono) (simp_all add: pi32_def)
      then show ?thesis using assms(2-4) by simp
    qed
    then show ?thesis using \<open>s \<le> 4\<close> by (simp add: below_2pi_def)
  qed
qed

lemma tie_below_2pi: "round32 (26353589 / 2 ^ 22) = Fin below_2pi"
proof -
  have "ulp_exp (26353589 / 2 ^ 22) = - 21" using ilog2_eqI [of 2 "26353589 / 2 ^ 22"] by (simp add: ulp_exp_def pow2_def)
  then show ?thesis using floor_eq_iff [of "26353589 / 2 :: rat" 13176794] by (simp add: round32_ulp round_ulp_def below_2pi_def pow2_def power_int_minus half_even_def)
qed

lemma rem_2pi_negative:
  assumes "r = of_int i * pow2 (- 22)" "r < 0" "\<bar>r\<bar> < 2 * pi32"
  shows "fin_in 0 below_2pi (round32 (r + 2 * pi32))"
proof (cases "i = - 1")
  case True
  then have "r + 2 * pi32 = 26353589 / 2 ^ 22" by (simp add: assms(1) pi32_def pow2_def power_int_minus)
  then have "round32 (r + 2 * pi32) = Fin below_2pi" by (simp only: tie_below_2pi)
  then show ?thesis by (simp add: below_2pi_def)
next
  case False
  have "i < 0" using assms(1,2) by (simp add: mult_less_0_iff pow2_pos [THEN order_less_not_sym])
  then have "of_int i \<le> (- 2 :: rat)" using False of_int_le_iff [of i "- 2"] by simp
  then have "of_int i * pow2 (- 22) \<le> - 2 * pow2 (- 22)" by (intro mult_right_mono) (simp_all add: less_imp_le)
  then have "r + 2 * pi32 \<le> below_2pi" by (simp add: assms(1) pi32_def below_2pi_def pow2_def power_int_minus)
  then show ?thesis using assms(3) round32_fin_in [of 0 below_2pi "r + 2 * pi32"] by (simp add: abs_less_iff)
qed

lemma rem_euclid_2pi:
  assumes "representable a" "f_add (Fin a) (Fin pi32) = Fin s"
  shows "fin_in 0 below_2pi (f_rem_euclid (Fin s) (Fin (2 * pi32)))"
proof (rule f_rem_pos [of "2 * pi32" s])
  show "0 < 2 * pi32" by (simp add: pi32_def)
  fix r t assume r: "f_rem (Fin s) (Fin (2 * pi32)) = Fin r" "r = s - 2 * pi32 * of_int t" "\<bar>r\<bar> < 2 * pi32" "0 \<le> s \<Longrightarrow> 0 \<le> r" "s \<le> 0 \<Longrightarrow> r \<le> 0"
  show ?thesis
  proof (cases "r < 0")
    case True
    then have "s < 0" using r(4) by linarith
    then obtain i where i: "s = of_int i * pow2 (- 22)" using negative_angle_multiple [OF assms] by auto
    have "r = of_int (i - 26353590 * t) * pow2 (- 22)" by (simp add: r(2) i pi32_def pow2_def power_int_minus left_diff_distrib)
    then have "fin_in 0 below_2pi (round32 (r + 2 * pi32))" using rem_2pi_negative True r(3) by blast
    then show ?thesis using True r(1) by (simp add: f_rem_euclid_def pi32_def)
  next
    case False
    have "0 \<le> s \<or> s < 0 \<and> r = 0" using r(5) False by linarith
    moreover have "representable s" using assms(2) round32_representable by simp
    ultimately have "r \<le> below_2pi" using rem_2pi_nonneg [of s r t] r(2,3) False by (auto simp: below_2pi_def)
    then show ?thesis using False r(1) by (simp add: f_rem_euclid_def)
  qed
qed

lemma wrap_angle_fin:
  assumes "representable a" "\<bar>a\<bar> \<le> 2 ^ 99"
  shows "fin_in (- pi32) (below_2pi - pi32) (wrap_angle (Fin a)) \<and> finite32 (wrap_angle (Fin a))"
proof -
  obtain s where s: "f_add (Fin a) (Fin pi32) = Fin s" using angle_sum_finite [OF assms(2)] by blast
  have "fin_in 0 below_2pi (f_rem_euclid (Fin s) (Fin (2 * pi32)))" by (rule rem_euclid_2pi [OF assms(1) s])
  then obtain q where q: "f_rem_euclid (Fin s) (Fin (2 * pi32)) = Fin q" "0 \<le> q" "q \<le> below_2pi" by (elim fin_inE)
  have "representable (below_2pi - pi32)" using representable_scaled [of 13176793 22] by (simp add: below_2pi_def pi32_def)
  then have "fin_in (- pi32) (below_2pi - pi32) (round32 (q + - pi32)) \<and> finite32 (round32 (q + - pi32))" using q by (intro round32_fin_in) simp_all
  then show ?thesis unfolding wrap_angle_def s two_pi q f_sub_def f_neg.simps by simp
qed

section \<open>What the eye reports\<close>

lemma vec2_distance_nonneg:
  assumes "on_torus u" "on_torus v"
  shows "f_le (Fin 0) (vec2_length (vec2_sub u v))"
  using assms unfolding on_torus_def vec2_length_def vec2_sub_def vec2_new_def
  by (intro f_sqrt_nonneg f_add_nonneg f_mul_self_nonneg) (simp_all add: f_sub_finite_not_NaN)

definition eye_ok :: "eye \<Rightarrow> bool" where
  "eye_ok e \<longleftrightarrow> finite32 (fov_range e) \<and> f_lt (Fin 0) (fov_range e) \<and> f_lt (Fin 0) (fov_angle e) \<and> 0 < eye_cells e"

lemma energy_unit:
  assumes "representable far" "0 \<le> d" "d < far"
  shows "fin_in 0 1 (f_div (f_sub (Fin far) (Fin d)) (Fin far))"
proof -
  have "fin_in 0 far (round32 (far + - d))" using assms round32_fin_in [of 0 far "far + - d"] by simp
  then obtain a where a: "round32 (far + - d) = Fin a" "0 \<le> a" "a \<le> far" by (elim fin_inE)
  have "fin_in 0 1 (round32 (a / far))" using a assms round32_fin_in [of 0 1 "a / far"] by simp
  then show ?thesis using a assms by (simp add: f_sub_def)
qed

text \<open>One piece of food adds at most one to one cell, and never makes the loop panic.\<close>

definition cells_bound :: "eye \<Rightarrow> nat \<Rightarrow> f32 list \<Rightarrow> bool" where
  "cells_bound e n cs \<longleftrightarrow> length cs = eye_cells e \<and> (\<forall>c \<in> set cs. fin_in 0 (of_nat n) c)"

lemma cells_bound_mono: "cells_bound e n cs \<Longrightarrow> cells_bound e (Suc n) cs"
  unfolding cells_bound_def by (auto elim!: fin_inE)

lemma cells_bound_update:
  assumes "cells_bound e n cs" "n < 2 ^ 24 - 1" "i < eye_cells e" "fin_in 0 1 x"
  shows "cells_bound e (Suc n) (cs[i := f_add (cs ! i) x])"
proof -
  have "fin_in 0 (of_nat n) (cs ! i)" using assms(1,3) by (simp add: cells_bound_def)
  then obtain a where a: "cs ! i = Fin a" "0 \<le> a" "a \<le> of_nat n" by (elim fin_inE)
  obtain b where b: "x = Fin b" "0 \<le> b" "b \<le> 1" using assms(4) by (elim fin_inE)
  have "representable (of_int (int (Suc n)))" using assms(2) by (intro representable_int) simp
  then have "fin_in 0 (of_nat (Suc n)) (f_add (cs ! i) x)" using a b round32_fin_in [of 0 "of_nat (Suc n)" "a + b"] by simp
  then show ?thesis using cells_bound_mono [OF assms(1)] by (auto simp: cells_bound_def dest!: set_update_subset_insert [THEN subsetD])
qed

lemma see_food_total:
  assumes "eye_ok e" "on_torus p" "on_torus (food_position f)" "cells_bound e n cs" "n < 2 ^ 24 - 1"
  shows "\<exists>cs'. see_food m e p rotation cs f = Some cs' \<and> cells_bound e (Suc n) cs'"
proof -
  define d where "d = vec2_length (vec2_sub (food_position f) p)"
  have d: "f_le (Fin 0) d" unfolding d_def by (rule vec2_distance_nonneg) (use assms in simp_all)
  obtain far where far: "fov_range e = Fin far" "representable far" "0 < far" using assms(1) by (auto simp: eye_ok_def elim!: finite32E)
  note mono = cells_bound_mono [OF assms(4)]
  show ?thesis
  proof (cases "f_eq d (Fin 0) \<or> f_le (fov_range e) d")
    case True
    then show ?thesis using mono by (simp add: see_food_def Let_def flip: d_def)
  next
    case False
    then obtain x where x: "d = Fin x" "0 \<le> x" "x < far" using d far by (cases d) (auto simp: f_le_def f_eq_def)
    have e: "fin_in 0 1 (f_div (f_sub (fov_range e) d) (fov_range e))" using energy_unit far x by simp
    have "0 < eye_cells e" "length cs = eye_cells e" using assms(1,4) by (simp_all add: eye_ok_def cells_bound_def)
    moreover from this have "min i (eye_cells e - Suc 0) < eye_cells e" for i by simp
    ultimately show ?thesis using False mono cells_bound_update [OF assms(4,5) _ e] by (simp add: see_food_def Let_def flip: d_def)
  qed
qed

lemma see_foods_total:
  assumes "eye_ok e" "on_torus p" "\<forall>f \<in> set fs. on_torus (food_position f)" "cells_bound e n cs" "n + length fs < 2 ^ 24"
  shows "\<exists>cs'. see_foods m e p rotation cs fs = Some cs' \<and> cells_bound e (n + length fs) cs'"
  using assms(3-5)
proof (induction fs arbitrary: n cs)
  case (Cons f fs)
  obtain cs1 where "see_food m e p rotation cs f = Some cs1" "cells_bound e (Suc n) cs1"
    using see_food_total [OF assms(1,2), of f n cs m rotation] Cons.prems by auto
  then show ?case using Cons.IH [of "Suc n" cs1] Cons.prems by simp
qed simp

lemma process_vision_total:
  assumes "eye_ok e" "on_torus p" "\<forall>f \<in> set fs. on_torus (food_position f)" "length fs < 2 ^ 24"
  shows "\<exists>cs. process_vision m e p rotation fs = Some cs \<and> length cs = eye_cells e \<and> (\<forall>c \<in> set cs. fin_in 0 (of_nat (length fs)) c)"
  using see_foods_total [OF assms(1-3), of 0 "replicate (eye_cells e) (Fin 0)" m rotation] assms(4)
  by (simp add: process_vision_def cells_bound_def)

lemma eye_default_ok: "\<exists>e. eye_default = Some e \<and> eye_ok e \<and> eye_cells e = 9"
proof -
  have "fin_in 3 4 (round32 (pi32 + pi32 / 4)) \<and> finite32 (round32 (pi32 + pi32 / 4))"
    using representable_int [of 3] representable_int [of 4] by (intro round32_fin_in) (simp_all add: pi32_def)
  then obtain a where a: "round32 (pi32 + pi32 / 4) = Fin a" "3 \<le> a" by (auto elim!: fin_inE)
  have "representable (1 / 4)" using representable_scaled [of 1 2] by simp
  then show ?thesis using a by (simp add: eye_default_def eye_new_def FOV_RANGE_def FOV_ANGLE_def CELLS_def eye_ok_def)
qed

lemma FOV_ANGLE_val: "FOV_ANGLE = Fin (16470994 / 2 ^ 22)"
proof -
  have "ulp_exp (65883975 / 2 ^ 24) = - 22" using ilog2_eqI [of 1 "65883975 / 2 ^ 24"] by (simp add: ulp_exp_def pow2_def)
  moreover have "\<lfloor>65883975 / 4 :: rat\<rfloor> = 16470993" by (simp add: floor_eq_iff)
  ultimately have "round32 (65883975 / 2 ^ 24) = Fin (16470994 / 2 ^ 22)" by (simp add: round32_ulp round_ulp_def pow2_def power_int_minus half_even_def)
  then show ?thesis by (simp add: FOV_ANGLE_def pi32_def)
qed

lemma wrap_angle_0: "wrap_angle (Fin 0) = Fin 0"
proof -
  have "\<lfloor>1 / 2 :: rat\<rfloor> = 0" by (simp add: floor_eq_iff)
  then have "f_rem_euclid (Fin pi32) (Fin (2 * pi32)) = Fin pi32" by (simp add: f_rem_euclid_def trunc_rat_def pi32_def)
  then show ?thesis by (simp add: wrap_angle_def round32_exact f_sub_def)
qed

lemma see_food_ahead:
  assumes "m_atan2 m (Fin 0) (Fin (1 / 64)) = Fin 0" "eye_default = Some e" "4 < length cs"
  shows "see_food m e (vec2_new (Fin (1 / 2)) (Fin (1 / 2))) (Fin 0) cs (food_at (vec2_new (Fin (33 / 64)) (Fin (1 / 2)))) =
    Some (cs[4 := f_add (cs ! 4) (Fin (15 / 16))])"
proof -
  have e: "e = \<lparr>fov_range = Fin (1 / 4), fov_angle = Fin (16470994 / 2 ^ 22), eye_cells = 9\<rparr>"
    using assms(2) by (simp add: eye_default_def eye_new_def FOV_RANGE_def FOV_ANGLE_val CELLS_def)
  have r: "round32 (1 / 64) = Fin (1 / 64)" "round32 (1 / 4096) = Fin (1 / 4096)" "round32 (15 / 64) = Fin (15 / 64)" "round32 (15 / 16) = Fin (15 / 16)"
    "round32 (1 / 2) = Fin (1 / 2)" "round32 (9 / 2) = Fin (9 / 2)" "f_of_nat 9 = Fin 9"
    using representable_scaled [of 1 6] representable_scaled [of 1 12] representable_scaled [of 15 6] representable_scaled [of 15 4]
      representable_scaled [of 1 1] representable_scaled [of 9 1] representable_int [of 9] by (simp_all add: round32_exact f_of_nat_def)
  have h: "round32 (8235497 / 2 ^ 22) = Fin (8235497 / 2 ^ 22)" "round32 (- (8235497 / 2 ^ 22)) = Fin (- (8235497 / 2 ^ 22))"
    using representable_scaled [of 8235497 22] by (simp_all add: round32_exact)
  have "f_sqrt (Fin (1 / 4096)) = Fin (1 / 64)" using f_sqrt_square [of 1 6] representable_scaled [of 1 6] by simp
  then have len: "vec2_length (vec2_new (Fin (1 / 64)) (Fin 0)) = Fin (1 / 64)" by (simp add: vec2_length_def vec2_new_def r)
  have off: "vec2_sub (vec2_new (Fin (33 / 64)) (Fin (1 / 2))) (vec2_new (Fin (1 / 2)) (Fin (1 / 2))) = vec2_new (Fin (1 / 64)) (Fin 0)"
    by (simp add: vec2_sub_def vec2_new_def f_sub_def r)
  have ang: "vec2_angle m (vec2_new (Fin (1 / 64)) (Fin 0)) = Fin 0" using assms(1) by (simp add: vec2_angle_def vec2_new_def)
  have "\<lfloor>9 / 2 :: rat\<rfloor> = 4" by (simp add: floor_eq_iff)
  then have cell: "min (f_as_usize (Fin (9 / 2))) 8 = 4" by (simp add: usize_max_def)
  show ?thesis using h assms(3) cell
    by (simp add: see_food_def food_at_def off len ang Let_def f_sub_def wrap_angle_0 e f_eq_def f_le_def r del: f_as_usize.simps)
qed

section \<open>Properties\<close>

text \<open>Property: \<open>wrap_angle\<close> keeps the promise of its comment in rounded arithmetic too: every finite angle (of magnitude up to \<open>2^99\<close>)
  lands in the half-open interval from \<open>-PI\<close> to \<open>PI\<close>, the upper end excluded.\<close>

theorem wrap_angle_range:
  assumes "representable a" "\<bar>a\<bar> \<le> 2 ^ 99"
  shows "\<exists>b. wrap_angle (Fin a) = Fin b \<and> - pi32 \<le> b \<and> b < pi32"
  using wrap_angle_fin [OF assms] by (auto simp: below_2pi_def pi32_def elim!: fin_inE)

theorem wrap_angle_range_witness:
  "\<exists>b. wrap_angle (Fin (1000 :: rat)) = Fin b \<and> - pi32 \<le> b \<and> b < pi32"
  using wrap_angle_range [of 1000] representable_int [of 1000] by simp

text \<open>Property: A position with finite coordinates is wrapped into the closed unit square; a small negative coordinate is rounded
  up to exactly one, so the upper edge, which the comment of \<open>Vec2::wrap\<close> excludes, is reached.\<close>

theorem wrap_closed_square:
  "(\<forall>v :: vec2. finite32 (vec_x v) \<and> finite32 (vec_y v) \<longrightarrow>
      fin_in 0 1 (vec_x (vec2_wrap (Fin 0) (Fin 1) v)) \<and> fin_in 0 1 (vec_y (vec2_wrap (Fin 0) (Fin 1) v)))
   \<and> vec_x (vec2_wrap (Fin 0) (Fin 1) (vec2_new (Fin (- 1 / 2 ^ 30)) (Fin 0))) = Fin 1"
proof (intro conjI allI impI)
  fix v :: vec2 assume "finite32 (vec_x v) \<and> finite32 (vec_y v)"
  then show "fin_in 0 1 (vec_x (vec2_wrap (Fin 0) (Fin 1) v))" "fin_in 0 1 (vec_y (vec2_wrap (Fin 0) (Fin 1) v))"
    using vec2_wrap_on_torus [of v] by (simp_all add: on_torus_def)
next
  have r: "representable (- 1 / 2 ^ 30)" using representable_scaled [of "- 1" 30] by simp
  have "ulp_exp (1 - 1 / 2 ^ 30) = - 24" using ilog2_eqI [of "- 1" "1 - 1 / 2 ^ 30"] by (simp add: ulp_exp_def pow2_def power_int_minus)
  moreover have "\<lfloor>(1 - 1 / 2 ^ 30) * 2 ^ 24 :: rat\<rfloor> = 16777215" by (simp add: floor_eq_iff)
  ultimately have u: "round32 (1 - 1 / 2 ^ 30) = Fin 1" by (simp add: round32_ulp round_ulp_def pow2_def power_int_minus half_even_def)
  have "trunc_rat (- 1 / 2 ^ 30) = 0" by (simp add: trunc_rat_def ceiling_eq_iff)
  then have "f_rem_euclid (Fin (- 1 / 2 ^ 30)) (Fin 1) = round32 (- 1 / 2 ^ 30 + 1)" by (simp add: f_rem_euclid_def)
  then show "vec_x (vec2_wrap (Fin 0) (Fin 1) (vec2_new (Fin (- 1 / 2 ^ 30)) (Fin 0))) = Fin 1"
    using u f_sub_0 [of "Fin (- 1 / 2 ^ 30)"] r by (simp add: vec2_wrap_def vec2_new_def Let_def f_sub_def [of "Fin 1"])
qed

theorem wrap_closed_square_witness:
  "fin_in 0 1 (vec_x (vec2_wrap (Fin 0) (Fin 1) (vec2_new (Fin 3) (Fin (- 2)))))"
proof -
  have "finite32 (Fin 3)" "finite32 (Fin (- 2))" using representable_int [of 3] representable_int [of 2] by simp_all
  then show ?thesis using wrap_closed_square [THEN conjunct1, rule_format, of "vec2_new (Fin 3) (Fin (- 2))"] by (simp add: vec2_new_def)
qed

text \<open>Property: For an eye that its constructor accepts and food on the torus, \<open>process_vision\<close> never panics and returns one finite entry
  per cell, between zero and the number of pieces of food.\<close>

theorem vision_cells:
  assumes "eye_new (Fin far) angle n = Some e" "representable far" "on_torus p" "\<forall>f \<in> set fs. on_torus (food_position f)" "length fs < 2 ^ 24"
  shows "\<exists>cs. process_vision m e p rotation fs = Some cs \<and> length cs = n \<and> (\<forall>c \<in> set cs. fin_in 0 (of_nat (length fs)) c)"
proof -
  have "eye_ok e" "eye_cells e = n" using assms(1,2) by (auto simp: eye_new_def eye_ok_def split: if_splits)
  then show ?thesis using process_vision_total [OF _ assms(3-5)] by blast
qed

lemma half_on_torus: "on_torus (vec2_new (Fin (1 / 2)) (Fin (1 / 2)))"
  using representable_half [of 1] by (simp add: on_torus_def vec2_new_def)

theorem vision_cells_witness:
  "\<exists>e cs. eye_new (Fin 1) (Fin 3) 3 = Some e
     \<and> process_vision flat_maths e (vec2_new (Fin (1 / 2)) (Fin (1 / 2))) (Fin 0) [food_at (vec2_new (Fin (1 / 2)) (Fin (1 / 2)))] = Some cs
     \<and> length cs = 3"
proof -
  obtain e where e: "eye_new (Fin 1) (Fin 3) 3 = Some e" by (simp add: eye_new_def)
  show ?thesis using e vision_cells [OF e, of "vec2_new (Fin (1 / 2)) (Fin (1 / 2))" "[food_at (vec2_new (Fin (1 / 2)) (Fin (1 / 2)))]" flat_maths "Fin 0"] half_on_torus
    by (auto simp: food_at_def)
qed

text \<open>Property: The comment of \<open>process_vision\<close> bounds a cell by one, but the energies of several pieces of food in one slice add up:
  two pieces straight ahead at a sixteenth of the range give the middle cell a value near two.\<close>

theorem vision_above_one:
  assumes "m_atan2 m (Fin 0) (Fin (1 / 64)) = Fin 0" "eye_default = Some e"
  shows "\<exists>cs. process_vision m e (vec2_new (Fin (1 / 2)) (Fin (1 / 2))) (Fin 0)
      (replicate 2 (food_at (vec2_new (Fin (33 / 64)) (Fin (1 / 2))))) = Some cs \<and> cs ! 4 = Fin (15 / 8)"
proof -
  have "eye_cells e = 9" using assms(2) eye_default_ok by (metis option.inject)
  moreover have "round32 (15 / 8) = Fin (15 / 8)" "round32 (15 / 16) = Fin (15 / 16)" using representable_scaled [of 15 3] representable_scaled [of 15 4] by (simp_all add: round32_exact)
  ultimately show ?thesis using see_food_ahead [OF assms] by (simp add: process_vision_def numeral_2_eq_2)
qed

theorem vision_above_one_witness:
  "\<exists>e cs. eye_default = Some e \<and> process_vision flat_maths e (vec2_new (Fin (1 / 2)) (Fin (1 / 2))) (Fin 0)
      (replicate 2 (food_at (vec2_new (Fin (33 / 64)) (Fin (1 / 2))))) = Some cs \<and> cs ! 4 = Fin (15 / 8)"
proof -
  obtain e where e: "eye_default = Some e" using eye_default_ok by blast
  then show ?thesis using vision_above_one [of flat_maths e] by (auto simp: flat_maths_def)
qed

end
