(* ===== verification/Nv_Genetic.thy ===== *)
theory Nv_Genetic
  imports Nv_Rng
begin

text \<open>
  \<open>genetic_algorithm.rs\<close> of the neuroevolution crate. The trait \<open>Individual\<close> is a record of its three functions; the methods behind
  the traits \<open>SelectionMethod\<close>, \<open>CrossoverMethod\<close> and \<open>MutationMethod\<close> take the generator as the code passes it, and locales state
  what the algorithm needs of them.
\<close>

section \<open>Chromosomes and individuals\<close>

record chromosome =
  genes :: "f32 list"

definition chromosome_len :: "chromosome \<Rightarrow> nat" where
  "chromosome_len c = length (genes c)"

definition chromosome_is_empty :: "chromosome \<Rightarrow> bool" where
  "chromosome_is_empty c \<longleftrightarrow> genes c = []"

definition chromosome_index :: "chromosome \<Rightarrow> nat \<Rightarrow> f32 option" where
  "chromosome_index c i = (if i < length (genes c) then Some (genes c ! i) else None)"

definition chromosome_from_iter :: "f32 list \<Rightarrow> chromosome" where
  "chromosome_from_iter xs = \<lparr>genes = xs\<rparr>"

definition chromosome_into_iter :: "chromosome \<Rightarrow> f32 list" where
  "chromosome_into_iter c = genes c"

record 'i individual =
  ind_fitness :: "'i \<Rightarrow> f32"
  ind_chromosome :: "'i \<Rightarrow> chromosome"
  ind_create :: "chromosome \<Rightarrow> 'i"

section \<open>Operators\<close>

definition roulette_weight :: "'i individual \<Rightarrow> 'i \<Rightarrow> f32" where
  "roulette_weight I x = f_max (ind_fitness I x) (round32 (1 / 100000))"

definition roulette_select :: "'i individual \<Rightarrow> 'r rng_ops \<Rightarrow> 'i list \<Rightarrow> 'r \<Rightarrow> ('i \<times> 'r) option" where
  "roulette_select I g population r =
     (case choose_weighted g (map (roulette_weight I) population) r of
        (None, r1) \<Rightarrow> None
      | (Some i, r1) \<Rightarrow> if i < length population then Some (population ! i, r1) else None)"

definition cross_gene :: "'r rng_ops \<Rightarrow> f32 \<times> f32 \<Rightarrow> 'r \<Rightarrow> (f32 \<times> 'r) option" where
  "cross_gene g ab r = do {
     (left, r1) \<leftarrow> gen_bool g (Fin (1 / 2)) r;
     Some (if left then fst ab else snd ab, r1)
   }"

definition uniform_crossover :: "'r rng_ops \<Rightarrow> chromosome \<Rightarrow> chromosome \<Rightarrow> 'r \<Rightarrow> (chromosome \<times> 'r) option" where
  "uniform_crossover g parent_a parent_b r =
     (if chromosome_len parent_a \<noteq> chromosome_len parent_b then None
      else do {
        (xs, r1) \<leftarrow> traverse (cross_gene g) (zip (genes parent_a) (genes parent_b)) r;
        Some (chromosome_from_iter xs, r1)
      })"

record gaussian_mutation =
  chance :: f32
  coeff :: f32

definition gaussian_mutation_new :: "f32 \<Rightarrow> f32 \<Rightarrow> gaussian_mutation option" where
  "gaussian_mutation_new p c = (if f_le (Fin 0) p \<and> f_le p (Fin 1) then Some \<lparr>chance = p, coeff = c\<rparr> else None)"

definition mutate_gene :: "gaussian_mutation \<Rightarrow> 'r rng_ops \<Rightarrow> f32 \<Rightarrow> 'r \<Rightarrow> (f32 \<times> 'r) option" where
  "mutate_gene gm g gene r = do {
     (hit, r1) \<leftarrow> gen_bool g (chance gm) r;
     if hit then do {
       (negative, r2) \<leftarrow> gen_bool g (Fin (1 / 2)) r1;
       let sign = (if negative then Fin (- 1) else Fin 1);
       let (u, r3) = gen_f32 g r2;
       Some (f_add gene (f_mul (f_mul sign (coeff gm)) u), r3)
     }
     else Some (gene, r1)
   }"

definition gaussian_mutate :: "gaussian_mutation \<Rightarrow> 'r rng_ops \<Rightarrow> chromosome \<Rightarrow> 'r \<Rightarrow> (chromosome \<times> 'r) option" where
  "gaussian_mutate gm g child r = do {
     (xs, r1) \<leftarrow> traverse (mutate_gene gm g) (genes child) r;
     Some (child\<lparr>genes := xs\<rparr>, r1)
   }"

section \<open>Statistics\<close>

record statistics =
  min_fitness :: f32
  max_fitness :: f32
  avg_fitness :: f32

definition fold_fitness :: "f32 \<Rightarrow> f32 \<times> f32 \<times> f32 \<Rightarrow> f32 \<times> f32 \<times> f32" where
  "fold_fitness x acc = (case acc of (lo, hi, t) \<Rightarrow> (f_min lo x, f_max hi x, f_add t x))"

definition statistics_new :: "'i individual \<Rightarrow> 'i list \<Rightarrow> statistics option" where
  "statistics_new I population =
     (if population = [] then None
      else case fold (\<lambda>i. fold_fitness (ind_fitness I i)) population (Pos_Inf, Neg_Inf, Fin 0) of
        (lo, hi, t) \<Rightarrow>
          Some \<lparr>min_fitness = lo, max_fitness = hi, avg_fitness = f_div t (f_of_nat (length population))\<rparr>)"

lemma statistics_new_some: "population \<noteq> [] \<Longrightarrow> \<exists>stats. statistics_new I population = Some stats"
  by (auto simp: statistics_new_def split: prod.split)

section \<open>The algorithm\<close>

record ('r, 'i) genetic_algorithm =
  selection_method :: "'r rng_ops \<Rightarrow> 'i list \<Rightarrow> 'r \<Rightarrow> ('i \<times> 'r) option"
  crossover_method :: "'r rng_ops \<Rightarrow> chromosome \<Rightarrow> chromosome \<Rightarrow> 'r \<Rightarrow> (chromosome \<times> 'r) option"
  mutation_method :: "'r rng_ops \<Rightarrow> chromosome \<Rightarrow> 'r \<Rightarrow> (chromosome \<times> 'r) option"

definition genetic_algorithm_new ::
  "('r rng_ops \<Rightarrow> 'i list \<Rightarrow> 'r \<Rightarrow> ('i \<times> 'r) option) \<Rightarrow> ('r rng_ops \<Rightarrow> chromosome \<Rightarrow> chromosome \<Rightarrow> 'r \<Rightarrow> (chromosome \<times> 'r) option) \<Rightarrow>
   ('r rng_ops \<Rightarrow> chromosome \<Rightarrow> 'r \<Rightarrow> (chromosome \<times> 'r) option) \<Rightarrow> ('r, 'i) genetic_algorithm" where
  "genetic_algorithm_new s c m = \<lparr>selection_method = s, crossover_method = c, mutation_method = m\<rparr>"

definition breed :: "'i individual \<Rightarrow> ('r, 'i) genetic_algorithm \<Rightarrow> 'r rng_ops \<Rightarrow> 'i list \<Rightarrow> 'r \<Rightarrow> ('i \<times> 'r) option" where
  "breed I ga g population r = do {
     (a, r1) \<leftarrow> selection_method ga g population r;
     (b, r2) \<leftarrow> selection_method ga g population r1;
     (child, r3) \<leftarrow> crossover_method ga g (ind_chromosome I a) (ind_chromosome I b) r2;
     (child', r4) \<leftarrow> mutation_method ga g child r3;
     Some (ind_create I child', r4)
   }"

definition ga_evolve ::
  "'i individual \<Rightarrow> ('r, 'i) genetic_algorithm \<Rightarrow> 'r rng_ops \<Rightarrow> 'i list \<Rightarrow> 'r \<Rightarrow> (('i list \<times> statistics) \<times> 'r) option" where
  "ga_evolve I ga g population r =
     (if population = [] then None
      else do {
        (new_population, r1) \<leftarrow> times_map (length population) (breed I ga g population) r;
        stats \<leftarrow> statistics_new I population;
        Some ((new_population, stats), r1)
      })"

section \<open>The interfaces\<close>

text \<open>What \<open>evolve\<close> needs of the operators and of the individuals behind the traits.\<close>

locale selection =
  fixes select :: "'r rng_ops \<Rightarrow> 'i list \<Rightarrow> 'r \<Rightarrow> ('i \<times> 'r) option"
    and selectable :: "'i list \<Rightarrow> bool"
  assumes select_member: "rng_ok g \<Longrightarrow> selectable pop \<Longrightarrow> \<exists>i r'. select g pop r = Some (i, r') \<and> i \<in> set pop"
    and selectable_nonempty: "selectable pop \<Longrightarrow> pop \<noteq> []"

locale crossing =
  fixes cross :: "'r rng_ops \<Rightarrow> chromosome \<Rightarrow> chromosome \<Rightarrow> 'r \<Rightarrow> (chromosome \<times> 'r) option"
  assumes cross_length: "rng_ok g \<Longrightarrow> length (genes a) = length (genes b) \<Longrightarrow>
     \<exists>c r'. cross g a b r = Some (c, r') \<and> length (genes c) = length (genes a)"

locale mutating =
  fixes mutate :: "'m \<Rightarrow> 'r rng_ops \<Rightarrow> chromosome \<Rightarrow> 'r \<Rightarrow> (chromosome \<times> 'r) option"
    and settings_ok :: "'m \<Rightarrow> bool"
  assumes mutate_length: "rng_ok g \<Longrightarrow> settings_ok m \<Longrightarrow> \<exists>c' r'. mutate m g c r = Some (c', r') \<and> length (genes c') = length (genes c)"

locale evolution = selection select selectable + crossing cross + mutating mutate settings_ok
  for select :: "'r rng_ops \<Rightarrow> 'i list \<Rightarrow> 'r \<Rightarrow> ('i \<times> 'r) option" and selectable
    and cross :: "'r rng_ops \<Rightarrow> chromosome \<Rightarrow> chromosome \<Rightarrow> 'r \<Rightarrow> (chromosome \<times> 'r) option"
    and mutate :: "'m \<Rightarrow> 'r rng_ops \<Rightarrow> chromosome \<Rightarrow> 'r \<Rightarrow> (chromosome \<times> 'r) option" and settings_ok +
  fixes I :: "'i individual"
  assumes chromosome_create: "ind_chromosome I (ind_create I c) = c"
begin

lemma breed_total:
  assumes "rng_ok g" "selectable pop" "settings_ok m" "\<forall>i \<in> set pop. length (genes (ind_chromosome I i)) = n"
  shows "\<exists>c r'. breed I (genetic_algorithm_new select cross (mutate m)) g pop r = Some (c, r') \<and> length (genes (ind_chromosome I c)) = n"
proof -
  obtain a r1 where a: "select g pop r = Some (a, r1)" "a \<in> set pop" using select_member assms(1,2) by blast
  obtain b r2 where b: "select g pop r1 = Some (b, r2)" "b \<in> set pop" using select_member assms(1,2) by blast
  obtain c r3 where c: "cross g (ind_chromosome I a) (ind_chromosome I b) r2 = Some (c, r3)" "length (genes c) = n"
    using cross_length [OF assms(1), of "ind_chromosome I a" "ind_chromosome I b" r2] a(2) b(2) assms(4) by auto
  obtain d r4 where d: "mutate m g c r3 = Some (d, r4)" "length (genes d) = n" using mutate_length [OF assms(1,3), of c r3] c(2) by auto
  show ?thesis using a b c d by (simp add: breed_def genetic_algorithm_new_def chromosome_create)
qed

lemma evolve_total:
  assumes "rng_ok g" "selectable pop" "settings_ok m" "\<forall>i \<in> set pop. length (genes (ind_chromosome I i)) = n"
  shows "\<exists>new stats r'. ga_evolve I (genetic_algorithm_new select cross (mutate m)) g pop r = Some ((new, stats), r')
     \<and> length new = length pop \<and> (\<forall>i \<in> set new. length (genes (ind_chromosome I i)) = n) \<and> statistics_new I pop = Some stats"
proof -
  obtain new r' where new: "times_map (length pop) (breed I (genetic_algorithm_new select cross (mutate m)) g pop) r = Some (new, r')"
    "length new = length pop" "\<forall>i \<in> set new. length (genes (ind_chromosome I i)) = n"
    using times_map_total [of "breed I (genetic_algorithm_new select cross (mutate m)) g pop", OF breed_total [OF assms], of "length pop" r] by auto
  have "pop \<noteq> []" using selectable_nonempty [OF assms(2)] .
  then obtain stats where "statistics_new I pop = Some stats" using statistics_new_some by blast
  then show ?thesis using new \<open>pop \<noteq> []\<close> by (simp add: ga_evolve_def)
qed

end

section \<open>The operators keep the interfaces\<close>

lemma floor_weight: "\<exists>w. round32 (1 / 100000) = Fin w \<and> 0 < w \<and> w \<le> 1"
proof -
  have "representable (1 / 2 ^ 20)" using representable_scaled [of 1 20] by simp
  then have "fin_in (1 / 2 ^ 20) 1 (round32 (1 / 100000))" using round32_fin_in [of "1 / 2 ^ 20" 1 "1 / 100000"] by simp
  then show ?thesis by (elim fin_inE) (auto intro: order_less_le_trans [of 0 "1 / 2 ^ 20"])
qed

lemma roulette_weight_pos: "f_lt (Fin 0) (roulette_weight I x)"
proof -
  obtain w where "round32 (1 / 100000) = Fin w" "0 < w" using floor_weight by blast
  then show ?thesis by (cases "ind_fitness I x") (simp_all add: roulette_weight_def f_max_def)
qed

definition roulette_ok :: "'i individual \<Rightarrow> 'i list \<Rightarrow> bool" where
  "roulette_ok I pop \<longleftrightarrow> pop \<noteq> [] \<and> (\<exists>t. f_sum (map (roulette_weight I) pop) = Fin t)"

interpretation roulette: selection "roulette_select I" "roulette_ok I" for I :: "'i individual"
proof
  fix g :: "'b rng_ops" and pop :: "'i list" and r
  assume g: "rng_ok g" and ok: "roulette_ok I pop"
  then obtain t where t: "f_sum (map (roulette_weight I) pop) = Fin t" by (auto simp: roulette_ok_def)
  from ok obtain i r' where "choose_weighted g (map (roulette_weight I) pop) r = (Some i, r')" "i < length pop"
    using rng_choose_weighted [OF g _ _ t, of r] by (auto simp: roulette_ok_def roulette_weight_pos)
  then show "\<exists>i r'. roulette_select I g pop r = Some (i, r') \<and> i \<in> set pop" by (simp add: roulette_select_def)
qed (simp add: roulette_ok_def)

lemma half_unit: "fin_in 0 1 (Fin (1 / 2))"
  by simp

text \<open>Every gene of a child comes from one of the parents.\<close>

lemma uniform_crossover_genes:
  assumes "rng_ok g" "length (genes a) = length (genes b)"
  shows "\<exists>c r'. uniform_crossover g a b r = Some (c, r') \<and> length (genes c) = length (genes a)
     \<and> (\<forall>i < length (genes a). genes c ! i = genes a ! i \<or> genes c ! i = genes b ! i)"
proof -
  have "\<exists>xs r'. traverse (cross_gene g) (zip (genes a) (genes b)) r = Some (xs, r') \<and> list_all2 (\<lambda>ab x. x = fst ab \<or> x = snd ab) (zip (genes a) (genes b)) xs"
  proof (rule traverse_total)
    fix ab and s
    obtain left s' where "gen_bool g (Fin (1 / 2)) s = Some (left, s')" using rng_gen_bool [OF assms(1) half_unit] by blast
    then show "\<exists>y s'. cross_gene g ab s = Some (y, s') \<and> (y = fst ab \<or> y = snd ab)" by (simp add: cross_gene_def)
  qed
  then show ?thesis using assms(2) by (auto simp: uniform_crossover_def chromosome_len_def chromosome_from_iter_def list_all2_conv_all_nth)
qed

interpretation uniform: crossing uniform_crossover
proof
  fix g :: "'a rng_ops" and a b :: chromosome and r
  assume "rng_ok g" "length (genes a) = length (genes b)"
  then show "\<exists>c r'. uniform_crossover g a b r = Some (c, r') \<and> length (genes c) = length (genes a)" using uniform_crossover_genes [of g a b r] by blast
qed

definition mutation_ok :: "gaussian_mutation \<Rightarrow> bool" where
  "mutation_ok gm \<longleftrightarrow> fin_in 0 1 (chance gm)"

lemma gaussian_mutation_new_iff: "gaussian_mutation_new p c = Some gm \<longleftrightarrow> mutation_ok gm \<and> gm = \<lparr>chance = p, coeff = c\<rparr>"
  by (cases p) (auto simp: gaussian_mutation_new_def mutation_ok_def f_le_def f_eq_def fin_in_def)

text \<open>A gene is kept, or moved by at most the coefficient; never moved when the chance is zero.\<close>

definition perturbed :: "gaussian_mutation \<Rightarrow> f32 \<Rightarrow> f32 \<Rightarrow> bool" where
  "perturbed gm x y \<longleftrightarrow> y = x \<or> chance gm \<noteq> Fin 0 \<and> (\<exists>d. y = f_add x d \<and> (\<forall>k. coeff gm = Fin k \<and> representable k \<longrightarrow> fin_in (- \<bar>k\<bar>) \<bar>k\<bar> d))"

lemma perturbation_bound:
  assumes "representable k" "fin_in 0 1 u" "s = Fin 1 \<or> s = Fin (- 1)"
  shows "fin_in (- \<bar>k\<bar>) \<bar>k\<bar> (f_mul (f_mul s (Fin k)) u)"
proof -
  obtain j where s: "f_mul s (Fin k) = Fin j" "\<bar>j\<bar> = \<bar>k\<bar>" using assms(1,3) by (auto simp: round32_exact)
  obtain v where v: "u = Fin v" "0 \<le> v" "v \<le> 1" using assms(2) by (elim fin_inE)
  have "\<bar>j * v\<bar> \<le> \<bar>k\<bar> * 1" unfolding abs_mult s(2) using v by (intro mult_left_mono) auto
  moreover have "representable \<bar>k\<bar>" using assms(1) by (simp add: abs_if)
  ultimately have "fin_in (- \<bar>k\<bar>) \<bar>k\<bar> (round32 (j * v)) \<and> finite32 (round32 (j * v))" by (intro round32_fin_in) (simp_all add: abs_le_iff [of "j * v"])
  then show ?thesis using s v by simp
qed

lemma mutate_gene_total:
  assumes "rng_ok g" "mutation_ok gm"
  shows "\<exists>y r'. mutate_gene gm g x r = Some (y, r') \<and> perturbed gm x y"
proof -
  obtain hit r1 where hit: "gen_bool g (chance gm) r = Some (hit, r1)" using rng_gen_bool assms by (fastforce simp: mutation_ok_def)
  obtain neg r2 where neg: "gen_bool g (Fin (1 / 2)) r1 = Some (neg, r2)" using rng_gen_bool [OF assms(1) half_unit] by blast
  obtain u r3 where u: "gen_f32 g r2 = (u, r3)" by fastforce
  have "\<not> hit" if "chance gm = Fin 0" using rng_gen_bool_0 [OF assms(1), of r] hit that by auto
  moreover have "fin_in (- \<bar>k\<bar>) \<bar>k\<bar> (f_mul (f_mul (if neg then Fin (- 1) else Fin 1) (Fin k)) u)" if "representable k" for k
    by (rule perturbation_bound [OF that]) (use rng_gen_f32 [OF assms(1) u] in auto)
  ultimately show ?thesis using hit neg u by (cases hit) (auto simp: mutate_gene_def perturbed_def Let_def simp del: f_mul.simps)
qed

lemma gaussian_mutate_total:
  assumes "rng_ok g" "mutation_ok gm"
  shows "\<exists>c' r'. gaussian_mutate gm g c r = Some (c', r') \<and> list_all2 (perturbed gm) (genes c) (genes c')"
proof -
  have "\<exists>xs r'. traverse (mutate_gene gm g) (genes c) r = Some (xs, r') \<and> list_all2 (perturbed gm) (genes c) xs"
    by (rule traverse_total) (use mutate_gene_total [OF assms] in auto)
  then show ?thesis by (auto simp: gaussian_mutate_def)
qed

interpretation gaussian: mutating gaussian_mutate mutation_ok
proof
  fix g :: "'a rng_ops" and m c r
  assume "rng_ok g" "mutation_ok m"
  then show "\<exists>c' r'. gaussian_mutate m g c r = Some (c', r') \<and> length (genes c') = length (genes c)"
    using gaussian_mutate_total [of g m c r] by (metis list_all2_lengthD)
qed

section \<open>Statistics of whole numbers\<close>

lemma fold_fitness_nat:
  "t + sum_list ks < 2 ^ 24 \<Longrightarrow>
   fold fold_fitness (map (\<lambda>k. Fin (of_nat k)) ks) (Fin (of_nat lo), Fin (of_nat hi), Fin (of_nat t)) =
     (Fin (of_nat (fold min ks lo)), Fin (of_nat (fold max ks hi)), Fin (of_nat (t + sum_list ks)))"
proof (induction ks arbitrary: lo hi t)
  case (Cons k ks)
  have "round32 (of_nat t + of_nat k) = Fin (of_nat (t + k))" using round32_exact [OF representable_int, of "int (t + k)"] Cons.prems by simp
  moreover have "f_min (Fin (of_nat lo)) (Fin (of_nat k)) = Fin (of_nat (min k lo))" "f_max (Fin (of_nat hi)) (Fin (of_nat k)) = Fin (of_nat (max k hi))"
    by (simp_all add: f_min_def f_max_def min_def max_def)
  ultimately show ?case using Cons.IH [of "t + k" "min k lo" "max k hi"] Cons.prems by (simp add: fold_fitness_def add.assoc)
qed simp

lemma sum_list_between: "n * length xs \<le> sum_list xs" if "\<forall>x \<in> set xs. n \<le> x" for n :: nat
  using that by (induction xs) auto

lemma sum_list_below: "sum_list xs \<le> n * length xs" if "\<forall>x \<in> set xs. x \<le> n" for n :: nat
  using that by (induction xs) auto

text \<open>The mean, rounded, lies between the least and the greatest of the numbers.\<close>

lemma mean_between:
  fixes ks :: "nat list"
  assumes "ks \<noteq> []" "\<forall>k \<in> set ks. lo \<le> k \<and> k \<le> hi" "hi < 2 ^ 24"
  shows "fin_in (of_nat lo) (of_nat hi) (round32 (of_nat (sum_list ks) / of_nat (length ks)))"
proof -
  have lohi: "lo \<le> hi" using assms(1,2) by (cases ks) auto
  have pos: "0 < (of_nat (length ks) :: rat)" using assms(1) by simp
  have "of_nat (lo * length ks) \<le> (of_nat (sum_list ks) :: rat)" "(of_nat (sum_list ks) :: rat) \<le> of_nat (hi * length ks)"
    unfolding of_nat_le_iff using sum_list_between [of ks lo] sum_list_below [of ks hi] assms(2) by blast+
  then have "of_nat lo \<le> (of_nat (sum_list ks) / of_nat (length ks) :: rat)" "(of_nat (sum_list ks) / of_nat (length ks) :: rat) \<le> of_nat hi"
    using pos by (simp_all add: le_divide_eq divide_le_eq)
  moreover have "representable (of_nat lo)" "representable (of_nat hi)"
    using representable_int [of "int lo"] representable_int [of "int hi"] lohi assms(3) by simp_all
  ultimately show ?thesis using round32_fin_in by blast
qed

lemma statistics_nat:
  assumes "ks \<noteq> []" "map (ind_fitness I) population = map (\<lambda>k. Fin (of_nat k)) ks" "sum_list ks < 2 ^ 24" "length ks < 2 ^ 24"
  shows "statistics_new I population = Some \<lparr>min_fitness = Fin (of_nat (Min (set ks))), max_fitness = Fin (of_nat (Max (set ks))),
    avg_fitness = round32 (of_nat (sum_list ks) / of_nat (length ks))\<rparr>"
proof -
  obtain k ks' where ks: "ks = k # ks'" using assms(1) by (cases ks) auto
  have len: "length population = length ks" using assms(2) by (metis length_map)
  have "fold (\<lambda>i. fold_fitness (ind_fitness I i)) population acc = fold fold_fitness (map (ind_fitness I) population) acc" for acc
    by (simp add: fold_map comp_def)
  moreover have "round32 (of_nat k) = Fin (of_nat k)" using f_of_nat_exact [of k] assms(3) ks by (simp add: f_of_nat_def)
  moreover have "fold min ks' k = Min (insert k (set ks'))" "fold max ks' k = Max (insert k (set ks'))"
    using Min.set_eq_fold [of k ks'] Max.set_eq_fold [of k ks'] by simp_all
  ultimately have "fold (\<lambda>i. fold_fitness (ind_fitness I i)) population (Pos_Inf, Neg_Inf, Fin 0) =
      (Fin (of_nat (Min (set ks))), Fin (of_nat (Max (set ks))), Fin (of_nat (sum_list ks)))"
    using fold_fitness_nat [of k ks' k k] assms(2,3) by (simp add: ks fold_fitness_def [of _ "(Pos_Inf, Neg_Inf, Fin 0)"] f_min_def [of Pos_Inf] f_max_def [of Neg_Inf])
  moreover have "population \<noteq> []" using len ks by auto
  ultimately show ?thesis using f_of_nat_exact [OF assms(4)] assms(1) len by (simp add: statistics_new_def)
qed

section \<open>Properties\<close>

text \<open>Property: Uniform crossover of two parents of the same length never panics and yields a child of that length each of whose genes is the gene of one
  of the parents at the same place; parents of different lengths make it panic.\<close>

theorem crossover_genes:
  assumes "rng_ok g"
  shows "(if length (genes a) = length (genes b)
      then \<exists>c r'. uniform_crossover g a b r = Some (c, r') \<and> length (genes c) = length (genes a)
             \<and> (\<forall>i < length (genes a). genes c ! i = genes a ! i \<or> genes c ! i = genes b ! i)
      else uniform_crossover g a b r = None)"
  using uniform_crossover_genes [OF assms, of a b r] by (simp add: uniform_crossover_def chromosome_len_def)

theorem crossover_genes_witness:
  "\<exists>c r'. uniform_crossover low_rng \<lparr>genes = [Fin 1, Fin 2]\<rparr> \<lparr>genes = [Fin 3, Fin 4]\<rparr> 0 = Some (c, r') \<and> length (genes c) = 2"
  using crossover_genes [OF low_rng_ok, of "\<lparr>genes = [Fin 1, Fin 2]\<rparr>" "\<lparr>genes = [Fin 3, Fin 4]\<rparr>" 0] by auto

text \<open>Property: Mutation with settings that the constructor accepts never panics and keeps the number of genes; each gene is kept, or moved by a
  perturbation whose magnitude is at most the coefficient, and with a chance of zero every gene is kept.\<close>

theorem mutation_bounded:
  assumes "rng_ok g" "gaussian_mutation_new p (Fin k) = Some gm" "representable k"
  shows "\<exists>c' r'. gaussian_mutate gm g c r = Some (c', r') \<and> length (genes c') = length (genes c)
     \<and> (\<forall>i < length (genes c). genes c' ! i = genes c ! i
          \<or> p \<noteq> Fin 0 \<and> (\<exists>d. genes c' ! i = f_add (genes c ! i) (Fin d) \<and> \<bar>d\<bar> \<le> \<bar>k\<bar>))"
proof -
  have gm: "mutation_ok gm" "gm = \<lparr>chance = p, coeff = Fin k\<rparr>" using assms(2) unfolding gaussian_mutation_new_iff by blast+
  have "perturbed gm x y \<Longrightarrow> y = x \<or> p \<noteq> Fin 0 \<and> (\<exists>d. y = f_add x (Fin d) \<and> \<bar>d\<bar> \<le> \<bar>k\<bar>)" for x y
    using assms(3) by (auto simp: perturbed_def gm(2) abs_le_iff elim!: fin_inE)
  then show ?thesis using gaussian_mutate_total [OF assms(1) gm(1), of c r] unfolding list_all2_conv_all_nth by metis
qed

theorem mutation_bounded_witness:
  "\<exists>gm c' r'. gaussian_mutation_new (Fin 1) (Fin 1) = Some gm \<and> gaussian_mutate gm low_rng \<lparr>genes = [Fin 1, Fin 2]\<rparr> 0 = Some (c', r') \<and> length (genes c') = 2"
proof -
  obtain gm where gm: "gaussian_mutation_new (Fin 1) (Fin 1) = Some gm" by (simp add: gaussian_mutation_new_def f_le_def f_eq_def)
  then show ?thesis using mutation_bounded [OF low_rng_ok gm, of "\<lparr>genes = [Fin 1, Fin 2]\<rparr>" 0] by auto
qed

text \<open>Property: For fitnesses that are whole numbers with a sum below \<open>2^24\<close>, the statistics are the exact least and greatest fitness and the correctly rounded
  mean, and the rounded mean lies between the two.\<close>

theorem statistics_exact:
  assumes "ks \<noteq> []" "map (ind_fitness I) population = map (\<lambda>k. Fin (of_nat k)) ks" "sum_list ks < 2 ^ 24" "length ks < 2 ^ 24"
  shows "\<exists>a. statistics_new I population = Some \<lparr>min_fitness = Fin (of_nat (Min (set ks))), max_fitness = Fin (of_nat (Max (set ks))), avg_fitness = Fin a\<rparr>
     \<and> Fin a = round32 (of_nat (sum_list ks) / of_nat (length ks)) \<and> of_nat (Min (set ks)) \<le> a \<and> a \<le> of_nat (Max (set ks))"
proof -
  have "Max (set ks) \<le> sum_list ks" using assms(1) by (intro member_le_sum_list) auto
  then have "fin_in (of_nat (Min (set ks))) (of_nat (Max (set ks))) (round32 (of_nat (sum_list ks) / of_nat (length ks)))"
    using assms(1,3) by (intro mean_between) auto
  then show ?thesis using statistics_nat [OF assms] by (auto elim!: fin_inE)
qed

theorem statistics_exact_witness:
  "\<exists>a. statistics_new \<lparr>ind_fitness = (\<lambda>x. x), ind_chromosome = (\<lambda>x. \<lparr>genes = [x]\<rparr>), ind_create = (\<lambda>c. Fin 0)\<rparr> [Fin 1, Fin 2, Fin 4, Fin 1] =
     Some \<lparr>min_fitness = Fin 1, max_fitness = Fin 4, avg_fitness = Fin a\<rparr>"
  using statistics_exact [of "[1, 2, 4, 1]" "\<lparr>ind_fitness = (\<lambda>x. x), ind_chromosome = (\<lambda>x. \<lparr>genes = [x]\<rparr>), ind_create = (\<lambda>c. Fin 0)\<rparr>" "[Fin 1, Fin 2, Fin 4, Fin 1]"]
  by auto

end
