(* ===== verification/Nv_Network.thy ===== *)
theory Nv_Network
  imports Nv_Vec2 Nv_Genetic
begin

text \<open>
  \<open>neural_network.rs\<close> and \<open>brain.rs\<close> of the neuroevolution crate: a feed-forward network with ReLU activations, its flat
  list of weights, and the brain that shapes it after an eye. A panic is \<open>None\<close>; the generator, or the stream of weights still to be
  read, is threaded.
\<close>

section \<open>Networks\<close>

record layer_topology =
  topo_neurons :: nat

record neuron =
  bias :: f32
  in_weights :: "f32 list"

record layer =
  neurons :: "neuron list"

record network =
  layers :: "layer list"

text \<open>\<open>slice::windows(2)\<close>.\<close>

fun windows2 :: "'a list \<Rightarrow> ('a \<times> 'a) list" where
  "windows2 (a # b # xs) = (a, b) # windows2 (b # xs)"
| "windows2 xs = []"

definition neuron_random :: "'r rng_ops \<Rightarrow> nat \<Rightarrow> 'r \<Rightarrow> (neuron \<times> 'r) option" where
  "neuron_random g input_size r = do {
     (b, r1) \<leftarrow> gen_range_incl g (Fin (- 1)) (Fin 1) r;
     (ws, r2) \<leftarrow> times_map input_size (gen_range_incl g (Fin (- 1)) (Fin 1)) r1;
     Some (\<lparr>bias = b, in_weights = ws\<rparr>, r2)
   }"

text \<open>\<open>Iterator::next\<close> of the stream of weights, with the \<open>expect\<close> that follows it.\<close>

fun next_weight :: "f32 list \<Rightarrow> (f32 \<times> f32 list) option" where
  "next_weight [] = None"
| "next_weight (w # ws) = Some (w, ws)"

definition neuron_from_weights :: "nat \<Rightarrow> f32 list \<Rightarrow> (neuron \<times> f32 list) option" where
  "neuron_from_weights input_size ws = do {
     (b, ws1) \<leftarrow> next_weight ws;
     (xs, ws2) \<leftarrow> times_map input_size next_weight ws1;
     Some (\<lparr>bias = b, in_weights = xs\<rparr>, ws2)
   }"

definition neuron_propagate :: "neuron \<Rightarrow> f32 list \<Rightarrow> f32 option" where
  "neuron_propagate n inputs =
     (if length inputs \<noteq> length (in_weights n) then None
      else let s = f_sum (map (\<lambda>(input, weight). f_mul input weight) (zip inputs (in_weights n))) in
           Some (f_max (f_add (bias n) s) (Fin 0)))"

definition layer_random :: "'r rng_ops \<Rightarrow> nat \<Rightarrow> nat \<Rightarrow> 'r \<Rightarrow> (layer \<times> 'r) option" where
  "layer_random g input_size output_size r = do {
     (ns, r1) \<leftarrow> times_map output_size (neuron_random g input_size) r;
     Some (\<lparr>neurons = ns\<rparr>, r1)
   }"

definition layer_from_weights :: "nat \<Rightarrow> nat \<Rightarrow> f32 list \<Rightarrow> (layer \<times> f32 list) option" where
  "layer_from_weights input_size output_size ws = do {
     (ns, ws1) \<leftarrow> times_map output_size (neuron_from_weights input_size) ws;
     Some (\<lparr>neurons = ns\<rparr>, ws1)
   }"

definition layer_propagate :: "layer \<Rightarrow> f32 list \<Rightarrow> f32 list option" where
  "layer_propagate l inputs = those (map (\<lambda>n. neuron_propagate n inputs) (neurons l))"

definition network_random :: "'r rng_ops \<Rightarrow> layer_topology list \<Rightarrow> 'r \<Rightarrow> (network \<times> 'r) option" where
  "network_random g topology r =
     (if \<not> 1 < length topology then None
      else do {
        (ls, r1) \<leftarrow> traverse (\<lambda>(a, b). layer_random g (topo_neurons a) (topo_neurons b)) (windows2 topology) r;
        Some (\<lparr>layers = ls\<rparr>, r1)
      })"

definition network_from_weights :: "layer_topology list \<Rightarrow> f32 list \<Rightarrow> network option" where
  "network_from_weights topology ws =
     (if \<not> 1 < length topology then None
      else do {
        (ls, ws1) \<leftarrow> traverse (\<lambda>(a, b). layer_from_weights (topo_neurons a) (topo_neurons b)) (windows2 topology) ws;
        if ws1 \<noteq> [] then None else Some \<lparr>layers = ls\<rparr>
      })"

definition network_weights :: "network \<Rightarrow> f32 list" where
  "network_weights n = concat (map (\<lambda>x. bias x # in_weights x) (concat (map neurons (layers n))))"

fun layers_propagate :: "layer list \<Rightarrow> f32 list \<Rightarrow> f32 list option" where
  "layers_propagate [] inputs = Some inputs"
| "layers_propagate (l # ls) inputs = do { out \<leftarrow> layer_propagate l inputs; layers_propagate ls out }"

definition network_propagate :: "network \<Rightarrow> f32 list \<Rightarrow> f32 list option" where
  "network_propagate n inputs = layers_propagate (layers n) inputs"

section \<open>Brains\<close>

definition SPEED_ACCEL :: f32 where
  "SPEED_ACCEL = round32 (2 / 10)"

definition ROTATION_ACCEL :: f32 where
  "ROTATION_ACCEL = Fin (pi32 / 2)"

record brain =
  nn :: network

definition brain_topology :: "eye \<Rightarrow> layer_topology list" where
  "brain_topology e = [\<lparr>topo_neurons = eye_cells e\<rparr>, \<lparr>topo_neurons = 2 * eye_cells e\<rparr>, \<lparr>topo_neurons = 2\<rparr>]"

definition brain_random :: "'r rng_ops \<Rightarrow> eye \<Rightarrow> 'r \<Rightarrow> (brain \<times> 'r) option" where
  "brain_random g e r = do { (n, r1) \<leftarrow> network_random g (brain_topology e) r; Some (\<lparr>nn = n\<rparr>, r1) }"

definition brain_from_chromosome :: "chromosome \<Rightarrow> eye \<Rightarrow> brain option" where
  "brain_from_chromosome c e = do { n \<leftarrow> network_from_weights (brain_topology e) (chromosome_into_iter c); Some \<lparr>nn = n\<rparr> }"

definition brain_as_chromosome :: "brain \<Rightarrow> chromosome" where
  "brain_as_chromosome b = chromosome_from_iter (network_weights (nn b))"

text \<open>\<open>response[0]\<close> and \<open>response[1]\<close> panic out of range; \<open>clamp(0.0, 1.0)\<close> has ordered bounds.\<close>

definition response_delta :: "f32 \<Rightarrow> f32 \<Rightarrow> f32 option" where
  "response_delta accel x = do {
     c \<leftarrow> f_clamp (Fin 0) (Fin 1) x;
     Some (f_mul (f_mul (f_sub c (Fin (1 / 2))) (Fin 2)) accel)
   }"

definition brain_propagate :: "brain \<Rightarrow> f32 list \<Rightarrow> (f32 \<times> f32) option" where
  "brain_propagate b vision = do {
     response \<leftarrow> network_propagate (nn b) vision;
     if length response \<le> 1 then None
     else do {
       speed_delta \<leftarrow> response_delta SPEED_ACCEL (response ! 0);
       rotation_delta \<leftarrow> response_delta ROTATION_ACCEL (response ! 1);
       Some (speed_delta, rotation_delta)
     }
   }"

section \<open>Shape\<close>

text \<open>A network fits a topology when every layer has the neurons and every neuron the weights it names.\<close>

definition layer_fits :: "layer_topology \<times> layer_topology \<Rightarrow> layer \<Rightarrow> bool" where
  "layer_fits ab l \<longleftrightarrow> length (neurons l) = topo_neurons (snd ab) \<and> (\<forall>n \<in> set (neurons l). length (in_weights n) = topo_neurons (fst ab))"

definition network_fits :: "layer_topology list \<Rightarrow> network \<Rightarrow> bool" where
  "network_fits topology n \<longleftrightarrow> 1 < length topology \<and> list_all2 layer_fits (windows2 topology) (layers n)"

definition weight_count :: "layer_topology list \<Rightarrow> nat" where
  "weight_count topology = sum_list (map (\<lambda>(a, b). topo_neurons b * (1 + topo_neurons a)) (windows2 topology))"

lemma minus_one_range: "rng_ok g \<Longrightarrow> \<exists>x r'. gen_range_incl g (Fin (- 1)) (Fin 1) r = Some (x, r')"
  using rng_gen_range_incl [of g "- 1" 1 r] round32_fin_in [of 2 2 2] representable_int [of 2] by fastforce

lemma neuron_random_total: "rng_ok g \<Longrightarrow> \<exists>n r'. neuron_random g k r = Some (n, r') \<and> length (in_weights n) = k"
proof -
  assume g: "rng_ok g"
  obtain b r1 where b: "gen_range_incl g (Fin (- 1)) (Fin 1) r = Some (b, r1)" using minus_one_range [OF g] by blast
  obtain ws r2 where "times_map k (gen_range_incl g (Fin (- 1)) (Fin 1)) r1 = Some (ws, r2)" "length ws = k"
    using times_map_total [of "gen_range_incl g (Fin (- 1)) (Fin 1)" "\<lambda>x. True" k r1] minus_one_range [OF g] by auto
  then show ?thesis using b by (simp add: neuron_random_def)
qed

lemma layer_random_total: "rng_ok g \<Longrightarrow> \<exists>l r'. layer_random g (topo_neurons a) (topo_neurons b) r = Some (l, r') \<and> layer_fits (a, b) l"
proof -
  assume g: "rng_ok g"
  obtain ns r1 where "times_map (topo_neurons b) (neuron_random g (topo_neurons a)) r = Some (ns, r1)" "length ns = topo_neurons b"
    "\<forall>n \<in> set ns. length (in_weights n) = topo_neurons a"
    using times_map_total [of "neuron_random g (topo_neurons a)" "\<lambda>n. length (in_weights n) = topo_neurons a"] neuron_random_total [OF g] by blast
  then show ?thesis by (simp add: layer_random_def layer_fits_def)
qed

lemma network_random_total: "rng_ok g \<Longrightarrow> 1 < length topology \<Longrightarrow> \<exists>n r'. network_random g topology r = Some (n, r') \<and> network_fits topology n"
proof -
  assume g: "rng_ok g" and t: "1 < length topology"
  have "\<exists>ls r'. traverse (\<lambda>(a, b). layer_random g (topo_neurons a) (topo_neurons b)) (windows2 topology) r = Some (ls, r') \<and> list_all2 layer_fits (windows2 topology) ls"
    by (rule traverse_total) (use layer_random_total [OF g] in auto)
  then show ?thesis using t by (auto simp: network_random_def network_fits_def)
qed

section \<open>Reading weights\<close>

text \<open>
  The contract of the readers of a stream: \<open>read a\<close> takes from the front of the stream the values \<open>emit y\<close> of a well-shaped
  item \<open>y\<close>, always \<open>width a\<close> of them, and fails only when the stream is too short.
\<close>

locale stream_reader =
  fixes read :: "'a \<Rightarrow> 's list \<Rightarrow> ('b \<times> 's list) option"
    and valid :: "'a \<Rightarrow> 'b \<Rightarrow> bool"
    and emit :: "'b \<Rightarrow> 's list"
    and width :: "'a \<Rightarrow> nat"
  assumes read_iff: "read a ws = Some (y, rest) \<longleftrightarrow> valid a y \<and> ws = emit y @ rest"
    and emit_width: "valid a y \<Longrightarrow> length (emit y) = width a"
    and read_some: "width a \<le> length ws \<Longrightarrow> \<exists>y rest. read a ws = Some (y, rest)"
begin

lemma traverse_iff: "traverse read xs ws = Some (ys, rest) \<longleftrightarrow> list_all2 valid xs ys \<and> ws = concat (map emit ys) @ rest"
proof (induction xs arbitrary: ws ys)
  case (Cons x xs)
  show ?case by (cases ys) (auto simp: bind_eq_Some_conv read_iff Cons.IH)
qed auto

lemma traverse_some: "sum_list (map width xs) \<le> length ws \<Longrightarrow> \<exists>ys rest. traverse read xs ws = Some (ys, rest)"
proof (induction xs arbitrary: ws)
  case (Cons x xs)
  then obtain y w where y: "read x ws = Some (y, w)" using read_some [of x ws] by auto
  then have "length ws = width x + length w" using read_iff [of x ws y w] emit_width by auto
  then have "sum_list (map width xs) \<le> length w" using Cons.prems by simp
  then show ?case using Cons.IH [of w] y by auto
qed simp

lemma emit_list_width: "list_all2 valid xs ys \<Longrightarrow> length (concat (map emit ys)) = sum_list (map width xs)"
  by (induction xs ys rule: list_all2_induct) (simp_all add: emit_width)

lemma times_map_iff: "times_map n (read a) ws = Some (ys, rest) \<longleftrightarrow> length ys = n \<and> (\<forall>y \<in> set ys. valid a y) \<and> ws = concat (map emit ys) @ rest"
proof (induction n arbitrary: ws ys)
  case (Suc n)
  show ?case by (cases ys) (auto simp: times_map_Suc bind_eq_Some_conv read_iff Suc.IH)
qed auto

lemma emit_times_width: "\<forall>y \<in> set ys. valid a y \<Longrightarrow> length (concat (map emit ys)) = length ys * width a"
  by (induction ys) (simp_all add: emit_width)

lemma times_map_some: "n * width a \<le> length ws \<Longrightarrow> \<exists>ys rest. times_map n (read a) ws = Some (ys, rest)"
proof (induction n arbitrary: ws)
  case (Suc n)
  then obtain y w where y: "read a ws = Some (y, w)" using read_some [of a ws] by auto
  then have "length ws = width a + length w" using read_iff [of a ws y w] emit_width by auto
  then show ?case using Suc.IH [of w] Suc.prems y by (auto simp: times_map_Suc)
qed simp

end

interpretation weight_reader: stream_reader "\<lambda>u :: unit. next_weight" "\<lambda>u w. True" "\<lambda>w. [w]" "\<lambda>u. 1"
proof
  fix a :: unit and ws y rest
  show "next_weight ws = Some (y, rest) \<longleftrightarrow> True \<and> ws = [y] @ rest" by (cases ws) auto
  show "1 \<le> length ws \<Longrightarrow> \<exists>y rest. next_weight ws = Some (y, rest)" by (cases ws) auto
qed simp_all

definition neuron_emit :: "neuron \<Rightarrow> f32 list" where
  "neuron_emit n = bias n # in_weights n"

definition layer_emit :: "layer \<Rightarrow> f32 list" where
  "layer_emit l = concat (map neuron_emit (neurons l))"

interpretation neuron_reader: stream_reader neuron_from_weights "\<lambda>k n. length (in_weights n) = k" neuron_emit Suc
proof
  fix k ws y rest
  show "neuron_from_weights k ws = Some (y, rest) \<longleftrightarrow> length (in_weights y) = k \<and> ws = neuron_emit y @ rest"
    by (cases ws; cases y) (auto simp: neuron_from_weights_def neuron_emit_def bind_eq_Some_conv weight_reader.times_map_iff)
  show "length (in_weights y) = k \<Longrightarrow> length (neuron_emit y) = Suc k" by (simp add: neuron_emit_def)
  assume "Suc k \<le> length ws"
  then obtain w v where w: "ws = w # v" "k \<le> length v" by (cases ws) auto
  then show "\<exists>y rest. neuron_from_weights k ws = Some (y, rest)"
    using weight_reader.times_map_some [of k v] by (auto simp: neuron_from_weights_def)
qed

interpretation layer_reader: stream_reader "\<lambda>(a, b). layer_from_weights (topo_neurons a) (topo_neurons b)" layer_fits layer_emit
  "\<lambda>(a, b). topo_neurons b * (1 + topo_neurons a)"
proof
  fix ab :: "layer_topology \<times> layer_topology" and ws l rest
  obtain a b where ab: "ab = (a, b)" by fastforce
  show "(case ab of (a, b) \<Rightarrow> layer_from_weights (topo_neurons a) (topo_neurons b)) ws = Some (l, rest) \<longleftrightarrow> layer_fits ab l \<and> ws = layer_emit l @ rest"
    by (cases l) (auto simp: ab layer_from_weights_def layer_fits_def layer_emit_def bind_eq_Some_conv neuron_reader.times_map_iff)
  show "layer_fits ab l \<Longrightarrow> length (layer_emit l) = (case ab of (a, b) \<Rightarrow> topo_neurons b * (1 + topo_neurons a))"
    using neuron_reader.emit_times_width [of "neurons l" "topo_neurons a"] by (simp add: ab layer_fits_def layer_emit_def)
  show "(case ab of (a, b) \<Rightarrow> topo_neurons b * (1 + topo_neurons a)) \<le> length ws \<Longrightarrow>
    \<exists>l rest. (case ab of (a, b) \<Rightarrow> layer_from_weights (topo_neurons a) (topo_neurons b)) ws = Some (l, rest)"
    using neuron_reader.times_map_some [of "topo_neurons b" "topo_neurons a" ws] by (auto simp: ab layer_from_weights_def)
qed

lemma network_weights_layers: "network_weights n = concat (map layer_emit (layers n))"
proof -
  have "concat (map (\<lambda>x. bias x # in_weights x) (concat (map neurons ls))) = concat (map layer_emit ls)" for ls
    by (induction ls) (simp_all add: layer_emit_def neuron_emit_def [abs_def])
  then show ?thesis by (simp add: network_weights_def)
qed

text \<open>\<open>from_weights\<close> inverts \<open>weights\<close>, and panics exactly on streams of another length.\<close>

lemma network_from_weights_iff: "network_from_weights topology ws = Some n \<longleftrightarrow> network_fits topology n \<and> network_weights n = ws"
  by (cases n) (auto simp: network_from_weights_def network_fits_def network_weights_layers bind_eq_Some_conv layer_reader.traverse_iff)

lemma network_weights_length: "network_fits topology n \<Longrightarrow> length (network_weights n) = weight_count topology"
  using layer_reader.emit_list_width [of "windows2 topology" "layers n"] by (simp add: network_fits_def network_weights_layers weight_count_def)

lemma network_from_weights_defined: "network_from_weights topology ws \<noteq> None \<longleftrightarrow> 1 < length topology \<and> length ws = weight_count topology"
proof
  assume "network_from_weights topology ws \<noteq> None"
  then obtain n where "network_fits topology n" "network_weights n = ws" by (auto simp: network_from_weights_iff)
  then show "1 < length topology \<and> length ws = weight_count topology" using network_weights_length by (auto simp: network_fits_def)
next
  assume t: "1 < length topology \<and> length ws = weight_count topology"
  then obtain ls rest where r: "traverse (\<lambda>(a, b). layer_from_weights (topo_neurons a) (topo_neurons b)) (windows2 topology) ws = Some (ls, rest)"
    using layer_reader.traverse_some [of "windows2 topology" ws] by (auto simp: weight_count_def)
  then have "list_all2 layer_fits (windows2 topology) ls" "ws = concat (map layer_emit ls) @ rest" by (simp_all add: layer_reader.traverse_iff)
  then have "rest = []" using t layer_reader.emit_list_width [of "windows2 topology" ls] by (simp add: weight_count_def)
  then show "network_from_weights topology ws \<noteq> None" using r t by (simp add: network_from_weights_def)
qed

section \<open>Propagation\<close>

lemma neuron_propagate_total: "length inputs = length (in_weights n) \<Longrightarrow> \<exists>y. neuron_propagate n inputs = Some y \<and> f_le (Fin 0) y"
  by (simp add: neuron_propagate_def Let_def f_max_zero_nonneg)

lemma those_map_total: "\<forall>x \<in> set xs. \<exists>y. f x = Some y \<and> P y \<Longrightarrow> \<exists>ys. those (map f xs) = Some ys \<and> length ys = length xs \<and> (\<forall>y \<in> set ys. P y)"
  by (induction xs) fastforce+

lemma layer_propagate_total:
  assumes "layer_fits (a, b) l" "length inputs = topo_neurons a"
  shows "\<exists>out. layer_propagate l inputs = Some out \<and> length out = topo_neurons b \<and> (\<forall>y \<in> set out. f_le (Fin 0) y)"
proof -
  have "\<forall>n \<in> set (neurons l). \<exists>y. neuron_propagate n inputs = Some y \<and> f_le (Fin 0) y" using assms neuron_propagate_total by (auto simp: layer_fits_def)
  then show ?thesis using those_map_total [of "neurons l" "\<lambda>n. neuron_propagate n inputs" "\<lambda>y. f_le (Fin 0) y"] assms(1)
    by (auto simp: layer_propagate_def layer_fits_def)
qed

lemma layer_propagate_mismatch: "layer_fits (a, b) l \<Longrightarrow> length inputs \<noteq> topo_neurons a \<Longrightarrow> 0 < topo_neurons b \<Longrightarrow> layer_propagate l inputs = None"
  by (cases "neurons l") (auto simp: layer_propagate_def layer_fits_def neuron_propagate_def)

lemma layers_propagate_total:
  assumes "list_all2 layer_fits (windows2 (a # ts)) ls" "length inputs = topo_neurons a"
  shows "\<exists>out. layers_propagate ls inputs = Some out \<and> length out = topo_neurons (last (a # ts)) \<and> (ts \<noteq> [] \<longrightarrow> (\<forall>y \<in> set out. f_le (Fin 0) y))"
  using assms
proof (induction ts arbitrary: a ls inputs)
  case (Cons b ts)
  then obtain l ls' where ls: "ls = l # ls'" "layer_fits (a, b) l" "list_all2 layer_fits (windows2 (b # ts)) ls'" by (auto simp: list_all2_Cons1)
  obtain mid where mid: "layer_propagate l inputs = Some mid" "length mid = topo_neurons b" "\<forall>y \<in> set mid. f_le (Fin 0) y"
    using layer_propagate_total [OF ls(2)] Cons.prems(2) by blast
  show ?case using Cons.IH [OF ls(3) mid(2)] mid ls by (cases ts) auto
qed simp

lemma network_propagate_total:
  assumes "network_fits topology n" "length inputs = topo_neurons (hd topology)"
  shows "\<exists>out. network_propagate n inputs = Some out \<and> length out = topo_neurons (last topology) \<and> (\<forall>y \<in> set out. f_le (Fin 0) y)"
proof -
  obtain a b ts where t: "topology = a # b # ts" using assms(1) by (cases topology rule: windows2.cases) (auto simp: network_fits_def)
  show ?thesis using layers_propagate_total [of a "b # ts" "layers n" inputs] assms by (simp add: network_fits_def network_propagate_def t)
qed

lemma response_delta_range:
  assumes "f_le (Fin 0) x" "representable acc" "0 \<le> acc"
  shows "\<exists>d. response_delta (Fin acc) x = Some (Fin d) \<and> - acc \<le> d \<and> d \<le> acc \<and> representable d"
proof -
  have "x \<noteq> Not_A_Number" using assms(1) by (auto simp: f_le_def f_eq_def)
  then obtain c where c: "f_clamp (Fin 0) (Fin 1) x = Some (Fin c)" "0 \<le> c" "c \<le> 1" using f_clamp_range [of 0 1 x] by auto
  have "representable (- (1 / 2))" "representable (1 / 2)" using representable_half [of 1] by simp_all
  then have "fin_in (- (1 / 2)) (1 / 2) (round32 (c + - (1 / 2)))" using c round32_fin_in [of "- (1 / 2)" "1 / 2" "c + - (1 / 2)"] by simp
  then obtain h where h: "round32 (c + - (1 / 2)) = Fin h" "- (1 / 2) \<le> h" "h \<le> 1 / 2" by (elim fin_inE)
  have "fin_in (- 1) 1 (round32 (h * 2))" using h round32_fin_in [of "- 1" 1 "h * 2"] by simp
  then obtain k where k: "round32 (h * 2) = Fin k" "- 1 \<le> k" "k \<le> 1" by (elim fin_inE)
  have "\<bar>k * acc\<bar> \<le> 1 * acc" unfolding abs_mult using k assms(3) by (intro mult_mono) auto
  then have "fin_in (- acc) acc (round32 (k * acc)) \<and> finite32 (round32 (k * acc))" using assms(2) by (intro round32_fin_in) (simp_all add: abs_le_iff)
  then show ?thesis using c h k by (auto simp: response_delta_def f_sub_def elim!: fin_inE)
qed

lemma SPEED_ACCEL_fin: "\<exists>s. SPEED_ACCEL = Fin s \<and> representable s \<and> 0 \<le> s \<and> s \<le> 1 / 4"
proof -
  have "representable (1 / 4)" using representable_scaled [of 1 2] by simp
  then have "fin_in 0 (1 / 4) (round32 (2 / 10)) \<and> finite32 (round32 (2 / 10))" by (intro round32_fin_in) simp_all
  then show ?thesis by (auto simp: SPEED_ACCEL_def elim!: fin_inE)
qed

lemma representable_half_pi: "representable (pi32 / 2)"
  using representable_scaled [of 13176795 23] by (simp add: pi32_def)

lemma brain_propagate_total:
  assumes "network_fits (brain_topology e) (nn b)" "length vision = eye_cells e" "SPEED_ACCEL = Fin acc"
  shows "\<exists>s t. brain_propagate b vision = Some (Fin s, Fin t) \<and> - acc \<le> s \<and> s \<le> acc \<and> representable s
     \<and> - (pi32 / 2) \<le> t \<and> t \<le> pi32 / 2 \<and> representable t"
proof -
  obtain out where out: "network_propagate (nn b) vision = Some out" "length out = 2" "\<forall>y \<in> set out. f_le (Fin 0) y"
    using network_propagate_total [OF assms(1)] assms(2) by (auto simp: brain_topology_def)
  have acc: "representable acc" "0 \<le> acc" using SPEED_ACCEL_fin by (auto simp: assms(3))
  have "f_le (Fin 0) (out ! 0)" "f_le (Fin 0) (out ! 1)" using out by simp_all
  then obtain s t where "response_delta SPEED_ACCEL (out ! 0) = Some (Fin s)" "- acc \<le> s" "s \<le> acc" "representable s"
    "response_delta ROTATION_ACCEL (out ! 1) = Some (Fin t)" "- (pi32 / 2) \<le> t" "t \<le> pi32 / 2" "representable t"
    using response_delta_range [of "out ! 0" acc] response_delta_range [of "out ! 1" "pi32 / 2"] representable_half_pi acc
    by (auto simp: assms(3) ROTATION_ACCEL_def pi32_def)
  then show ?thesis using out by (simp add: brain_propagate_def)
qed

section \<open>Properties\<close>

text \<open>C18: \<open>Network::from_weights\<close> and \<open>Network::weights\<close> are inverse: a stream is accepted exactly when the topology has an input and an output
  layer and the stream has one bias and one weight per input for every neuron, the network built then has the shape of the topology and the same
  weights, and the weights of any network of that shape rebuild it.\<close>

theorem weights_round_trip:
  "(network_from_weights topology ws \<noteq> None \<longleftrightarrow> 1 < length topology \<and> length ws = weight_count topology)
   \<and> (network_from_weights topology ws = Some n \<longleftrightarrow> network_fits topology n \<and> network_weights n = ws)"
  using network_from_weights_defined network_from_weights_iff by blast

text \<open>C24: Whatever the weights of a brain shaped after its eye and whatever the vision of the eye's cells, also with infinities and NaNs among
  them, \<open>Brain::propagate\<close> does not panic and answers two numbers within the physical limits: the ReLU turns a NaN into zero before the
  clamping.\<close>

theorem brain_within_limits:
  assumes "network_fits (brain_topology e) (nn b)" "length vision = eye_cells e"
  shows "\<exists>s t. brain_propagate b vision = Some (s, t) \<and> f_le (f_neg SPEED_ACCEL) s \<and> f_le s SPEED_ACCEL
     \<and> f_le (f_neg ROTATION_ACCEL) t \<and> f_le t ROTATION_ACCEL"
proof -
  obtain acc where acc: "SPEED_ACCEL = Fin acc" using SPEED_ACCEL_fin by blast
  show ?thesis using brain_propagate_total [OF assms acc] by (auto simp: acc ROTATION_ACCEL_def f_le_def f_eq_def)
qed

theorem brain_within_limits_witness:
  "\<exists>s t. brain_propagate \<lparr>nn = \<lparr>layers = [\<lparr>neurons = [\<lparr>bias = Pos_Inf, in_weights = [Neg_Inf]\<rparr>, \<lparr>bias = Fin 1, in_weights = [Not_A_Number]\<rparr>]\<rparr>,
       \<lparr>neurons = [\<lparr>bias = Fin 1, in_weights = [Fin 1, Fin 2]\<rparr>, \<lparr>bias = Fin 1, in_weights = [Fin 0, Fin 0]\<rparr>]\<rparr>]\<rparr>\<rparr> [Fin 1] = Some (s, t)
     \<and> f_le s SPEED_ACCEL"
  (is "\<exists>s t. brain_propagate ?b _ = _ \<and> _")
  using brain_within_limits [of "\<lparr>fov_range = Fin 1, fov_angle = Fin 1, eye_cells = 1\<rparr>" ?b "[Fin 1]"]
  by (auto simp: network_fits_def brain_topology_def layer_fits_def)

end
