(* ===== verification/Nv_Simulation.thy ===== *)
theory Nv_Simulation
  imports Nv_Network
begin

text \<open>
  \<open>animal.rs\<close>, \<open>animal_individual.rs\<close>, \<open>world.rs\<close> and \<open>simulation.rs\<close> of the neuroevolution crate. A step is the composition of
  its phases over the world, with the generator threaded through the phases that draw from it; \<open>train\<close> is the loop of steps, a total
  function because every step without evolution ages the simulation.
\<close>

section \<open>Animals\<close>

definition SPEED_MIN :: f32 where
  "SPEED_MIN = round32 (1 / 1000)"

definition SPEED_MAX :: f32 where
  "SPEED_MAX = round32 (5 / 1000)"

record animal =
  position :: vec2
  rotation :: f32
  speed :: f32
  animal_eye :: eye
  animal_brain :: brain
  satiation :: nat

definition animal_new :: "'r rng_ops \<Rightarrow> eye \<Rightarrow> brain \<Rightarrow> 'r \<Rightarrow> (animal \<times> 'r) option" where
  "animal_new g e b r = do {
     (p, r1) \<leftarrow> vec2_random g r;
     (t, r2) \<leftarrow> gen_range g (Fin 0) (f_mul (Fin 2) (Fin pi32)) r1;
     Some (\<lparr>position = p, rotation = t, speed = SPEED_MIN, animal_eye = e, animal_brain = b, satiation = 0\<rparr>, r2)
   }"

definition animal_random :: "'r rng_ops \<Rightarrow> 'r \<Rightarrow> (animal \<times> 'r) option" where
  "animal_random g r = do {
     e \<leftarrow> eye_default;
     (b, r1) \<leftarrow> brain_random g e r;
     animal_new g e b r1
   }"

definition animal_from_chromosome :: "'r rng_ops \<Rightarrow> chromosome \<Rightarrow> 'r \<Rightarrow> (animal \<times> 'r) option" where
  "animal_from_chromosome g c r = do {
     e \<leftarrow> eye_default;
     b \<leftarrow> brain_from_chromosome c e;
     animal_new g e b r
   }"

definition animal_as_chromosome :: "animal \<Rightarrow> chromosome" where
  "animal_as_chromosome a = brain_as_chromosome (animal_brain a)"

definition animal_vision :: "maths \<Rightarrow> food list \<Rightarrow> animal \<Rightarrow> f32 list option" where
  "animal_vision m fs a = process_vision m (animal_eye a) (position a) (rotation a) fs"

definition animal_think :: "f32 list \<Rightarrow> animal \<Rightarrow> animal option" where
  "animal_think vision a = do {
     (speed_delta, rotation_delta) \<leftarrow> brain_propagate (animal_brain a) vision;
     v \<leftarrow> f_clamp SPEED_MIN SPEED_MAX (f_add (speed a) speed_delta);
     Some (a\<lparr>speed := v, rotation := wrap_angle (f_add (rotation a) rotation_delta)\<rparr>)
   }"

definition animal_walk :: "maths \<Rightarrow> animal \<Rightarrow> animal" where
  "animal_walk m a =
     a\<lparr>position := vec2_wrap (Fin 0) (Fin 1) (vec2_add_assign (position a) (vec2_mul (from_angle m (rotation a)) (speed a)))\<rparr>"

definition animal_eat :: "animal \<Rightarrow> animal" where
  "animal_eat a = a\<lparr>satiation := satiation a + 1\<rparr>"

section \<open>Animals as individuals\<close>

record animal_individual =
  fitness :: f32
  ai_chromosome :: chromosome

definition individual_from_animal :: "animal \<Rightarrow> animal_individual" where
  "individual_from_animal a = \<lparr>fitness = f_of_nat (satiation a), ai_chromosome = animal_as_chromosome a\<rparr>"

definition individual_into_animal :: "'r rng_ops \<Rightarrow> animal_individual \<Rightarrow> 'r \<Rightarrow> (animal \<times> 'r) option" where
  "individual_into_animal g i r = animal_from_chromosome g (ai_chromosome i) r"

definition animal_individual_ops :: "animal_individual individual" where
  "animal_individual_ops = \<lparr>ind_fitness = fitness, ind_chromosome = ai_chromosome, ind_create = (\<lambda>c. \<lparr>fitness = Fin 0, ai_chromosome = c\<rparr>)\<rparr>"

section \<open>The world\<close>

record world =
  animals :: "animal list"
  foods :: "food list"

definition world_random :: "'r rng_ops \<Rightarrow> nat \<Rightarrow> nat \<Rightarrow> 'r \<Rightarrow> (world \<times> 'r) option" where
  "world_random g num_animals num_foods r = do {
     (as, r1) \<leftarrow> times_map num_animals (animal_random g) r;
     (fs, r2) \<leftarrow> times_map num_foods (food_random g) r1;
     Some (\<lparr>animals = as, foods = fs\<rparr>, r2)
   }"

definition set_animals :: "animal list \<Rightarrow> world \<Rightarrow> world" where
  "set_animals as w = w\<lparr>animals := as\<rparr>"

definition set_foods :: "food list \<Rightarrow> world \<Rightarrow> world" where
  "set_foods fs w = w\<lparr>foods := fs\<rparr>"

section \<open>The simulation\<close>

definition GENERATION_LENGTH :: nat where
  "GENERATION_LENGTH = 2500"

definition FOOD_SIZE :: f32 where
  "FOOD_SIZE = round32 (1 / 100)"

record 'r simulation =
  sim_world :: world
  ga :: "('r, animal_individual) genetic_algorithm"
  age :: nat

definition simulation_random :: "'r rng_ops \<Rightarrow> nat \<Rightarrow> nat \<Rightarrow> 'r \<Rightarrow> ('r simulation \<times> 'r) option" where
  "simulation_random g num_animals num_foods r = do {
     (w, r1) \<leftarrow> world_random g num_animals num_foods r;
     gm \<leftarrow> gaussian_mutation_new (round32 (1 / 100)) (round32 (3 / 10));
     Some (\<lparr>sim_world = w, ga = genetic_algorithm_new (roulette_select animal_individual_ops) uniform_crossover (gaussian_mutate gm), age = 0\<rparr>, r1)
   }"

definition process_brains :: "maths \<Rightarrow> world \<Rightarrow> world option" where
  "process_brains m w = do {
     as \<leftarrow> those (map (\<lambda>a. do { vision \<leftarrow> animal_vision m (foods w) a; animal_think vision a }) (animals w));
     Some (w\<lparr>animals := as\<rparr>)
   }"

definition process_movement :: "maths \<Rightarrow> world \<Rightarrow> world" where
  "process_movement m w = w\<lparr>animals := map (animal_walk m) (animals w)\<rparr>"

text \<open>The inner loop of \<open>process_collisions\<close>: one animal against every piece of food, in order.\<close>

fun feed :: "'r rng_ops \<Rightarrow> animal \<Rightarrow> food list \<Rightarrow> 'r \<Rightarrow> ((animal \<times> food list) \<times> 'r) option" where
  "feed g a [] r = Some ((a, []), r)"
| "feed g a (f # fs) r =
     (if f_le (vec2_length (vec2_sub (position a) (food_position f))) FOOD_SIZE then do {
        (p, r1) \<leftarrow> vec2_random g r;
        ((a', fs'), r2) \<leftarrow> feed g (animal_eat a) fs r1;
        Some ((a', food_set_position p f # fs'), r2)
      }
      else do {
        ((a', fs'), r1) \<leftarrow> feed g a fs r;
        Some ((a', f # fs'), r1)
      })"

fun feed_all :: "'r rng_ops \<Rightarrow> animal list \<Rightarrow> food list \<Rightarrow> 'r \<Rightarrow> ((animal list \<times> food list) \<times> 'r) option" where
  "feed_all g [] fs r = Some (([], fs), r)"
| "feed_all g (a # as) fs r = do {
     ((a', fs1), r1) \<leftarrow> feed g a fs r;
     ((as', fs2), r2) \<leftarrow> feed_all g as fs1 r1;
     Some ((a' # as', fs2), r2)
   }"

definition process_collisions :: "'r rng_ops \<Rightarrow> world \<Rightarrow> 'r \<Rightarrow> (world \<times> 'r) option" where
  "process_collisions g w r = do {
     ((as, fs), r1) \<leftarrow> feed_all g (animals w) (foods w) r;
     Some (\<lparr>animals = as, foods = fs\<rparr>, r1)
   }"

definition sim_evolve :: "'r rng_ops \<Rightarrow> 'r simulation \<Rightarrow> 'r \<Rightarrow> ((statistics \<times> 'r simulation) \<times> 'r) option" where
  "sim_evolve g s r = do {
     let s = s\<lparr>age := 0\<rparr>;
     let current_population = map individual_from_animal (animals (sim_world s));
     ((evolved_population, stats), r1) \<leftarrow> ga_evolve animal_individual_ops (ga s) g current_population r;
     (as, r2) \<leftarrow> traverse (individual_into_animal g) evolved_population r1;
     let w = set_animals as (sim_world s);
     (fs, r3) \<leftarrow> times_map (length (foods w)) (food_random g) r2;
     Some ((stats, s\<lparr>sim_world := set_foods fs w\<rparr>), r3)
   }"

definition sim_step :: "maths \<Rightarrow> 'r rng_ops \<Rightarrow> 'r simulation \<Rightarrow> 'r \<Rightarrow> ((statistics option \<times> 'r simulation) \<times> 'r) option" where
  "sim_step m g s r = do {
     w1 \<leftarrow> process_brains m (sim_world s);
     let w2 = process_movement m w1;
     (w3, r1) \<leftarrow> process_collisions g w2 r;
     let s1 = s\<lparr>sim_world := w3, age := age s + 1\<rparr>;
     if GENERATION_LENGTH \<le> age s1
     then do { ((stats, s2), r2) \<leftarrow> sim_evolve g s1 r1; Some ((Some stats, s2), r2) }
     else Some ((None, s1), r1)
   }"

lemma sim_step_age: "sim_step m g s r = Some ((None, s'), r') \<Longrightarrow> age s' = Suc (age s) \<and> age s' < GENERATION_LENGTH"
  by (auto simp: sim_step_def bind_eq_Some_conv Let_def split: if_splits)

function train :: "maths \<Rightarrow> 'r rng_ops \<Rightarrow> 'r simulation \<Rightarrow> 'r \<Rightarrow> ((statistics \<times> 'r simulation) \<times> 'r) option" where
  "train m g s r =
     (case sim_step m g s r of
        None \<Rightarrow> None
      | Some ((Some stats, s'), r') \<Rightarrow> Some ((stats, s'), r')
      | Some ((None, s'), r') \<Rightarrow> train m g s' r')"
  by pat_completeness auto
termination
  by (relation "measure (\<lambda>(m, g, s, r). GENERATION_LENGTH - age s)") (auto dest!: sim_step_age)

declare train.simps [simp del]

section \<open>Invariant\<close>

definition animal_ok :: "animal \<Rightarrow> bool" where
  "animal_ok a \<longleftrightarrow> eye_default = Some (animal_eye a) \<and> network_fits (brain_topology (animal_eye a)) (nn (animal_brain a))
     \<and> on_torus (position a) \<and> fin_in (- (2 * pi32)) (2 * pi32) (rotation a) \<and> finite32 (rotation a)
     \<and> f_le SPEED_MIN (speed a) \<and> f_le (speed a) SPEED_MAX"

lemma speed_limits: "\<exists>lo hi. SPEED_MIN = Fin lo \<and> SPEED_MAX = Fin hi \<and> 0 \<le> lo \<and> lo \<le> hi \<and> hi \<le> 1"
proof -
  have k: "representable (1 / 2 ^ 9)" "representable 1" "representable 0" using representable_scaled [of 1 9] by simp_all
  have "fin_in 0 (1 / 2 ^ 9) SPEED_MIN" "fin_in (1 / 2 ^ 9) 1 SPEED_MAX"
    unfolding SPEED_MIN_def SPEED_MAX_def using k round32_fin_in [of 0 "1 / 2 ^ 9" "1 / 1000"] round32_fin_in [of "1 / 2 ^ 9" 1 "5 / 1000"] by simp_all
  then obtain lo hi where "SPEED_MIN = Fin lo" "0 \<le> lo" "lo \<le> 1 / 2 ^ 9" "SPEED_MAX = Fin hi" "1 / 2 ^ 9 \<le> hi" "hi \<le> 1" by (elim fin_inE)
  then show ?thesis using order_trans by blast
qed

lemma speed_fin: "f_le SPEED_MIN v \<Longrightarrow> f_le v SPEED_MAX \<Longrightarrow> fin_in 0 1 v"
proof -
  assume v: "f_le SPEED_MIN v" "f_le v SPEED_MAX"
  obtain lo hi where lim: "SPEED_MIN = Fin lo" "SPEED_MAX = Fin hi" "0 \<le> lo" "hi \<le> 1" using speed_limits by blast
  then show ?thesis using v by (cases v) (auto simp: lim(1,2) f_le_def f_eq_def)
qed

lemma animal_new_ok:
  assumes "rng_ok g" "eye_default = Some e" "network_fits (brain_topology e) (nn b)"
  shows "\<exists>a r'. animal_new g e b r = Some (a, r') \<and> animal_ok a \<and> satiation a = 0"
proof -
  obtain p r1 where p: "vec2_random g r = Some (p, r1)" "on_torus p" using vec2_random_total [OF assms(1)] by blast
  have "representable (2 * pi32)" "0 < pi32" by (simp_all, simp add: pi32_def)
  then obtain t r2 where t: "gen_range g (Fin 0) (Fin (2 * pi32)) r1 = Some (Fin t, r2)" "representable t" "0 \<le> t" "t < 2 * pi32"
    using rng_gen_range [OF assms(1), of 0 "2 * pi32" r1] by (auto simp: round32_exact)
  obtain lo hi where lim: "SPEED_MIN = Fin lo" "SPEED_MAX = Fin hi" "lo \<le> hi" using speed_limits by blast
  then have "f_le SPEED_MIN SPEED_MIN" "f_le SPEED_MIN SPEED_MAX" by (auto simp: lim(1,2) f_le_def f_eq_def)
  then show ?thesis using p t assms(2,3) two_pi by (simp add: animal_new_def animal_ok_def del: f_mul.simps)
qed

lemma animal_random_ok: "rng_ok g \<Longrightarrow> \<exists>a r'. animal_random g r = Some (a, r') \<and> animal_ok a \<and> satiation a = 0"
proof -
  assume g: "rng_ok g"
  obtain e where e: "eye_default = Some e" using eye_default_ok by blast
  obtain n r1 where "network_random g (brain_topology e) r = Some (n, r1)" "network_fits (brain_topology e) n"
    using network_random_total [OF g, of "brain_topology e" r] by (auto simp: brain_topology_def)
  then show ?thesis using animal_new_ok [OF g e, of "\<lparr>nn = n\<rparr>" r1] by (simp add: animal_random_def e brain_random_def)
qed

text \<open>The number of genes of every animal: nine cells, eighteen hidden neurons, two outputs.\<close>

definition GENES :: nat where
  "GENES = 18 * 10 + 2 * 19"

lemma brain_weight_count: "eye_default = Some e \<Longrightarrow> weight_count (brain_topology e) = GENES"
proof -
  assume "eye_default = Some e"
  then have "eye_cells e = 9" using eye_default_ok by (metis option.inject)
  then show ?thesis by (simp add: weight_count_def brain_topology_def GENES_def)
qed

lemma animal_genes: "animal_ok a \<Longrightarrow> length (genes (animal_as_chromosome a)) = GENES"
  by (auto simp: animal_ok_def animal_as_chromosome_def brain_as_chromosome_def chromosome_from_iter_def network_weights_length brain_weight_count)

lemma animal_from_chromosome_ok:
  assumes "rng_ok g" "length (genes c) = GENES"
  shows "\<exists>a r'. animal_from_chromosome g c r = Some (a, r') \<and> animal_ok a \<and> satiation a = 0"
proof -
  obtain e where e: "eye_default = Some e" using eye_default_ok by blast
  have "1 < length (brain_topology e)" by (simp add: brain_topology_def)
  then obtain n where n: "network_from_weights (brain_topology e) (genes c) = Some n"
    using network_from_weights_defined [of "brain_topology e" "genes c"] brain_weight_count [OF e] assms(2) by auto
  then have "network_fits (brain_topology e) (nn \<lparr>nn = n\<rparr>)" by (simp add: network_from_weights_iff)
  then show ?thesis using animal_new_ok [OF assms(1) e] n by (simp add: animal_from_chromosome_def e brain_from_chromosome_def chromosome_into_iter_def)
qed

section \<open>Phases\<close>

lemma animal_think_ok:
  assumes "animal_ok a" "length vision = eye_cells (animal_eye a)"
  shows "\<exists>a'. animal_think vision a = Some a' \<and> animal_ok a' \<and> satiation a' = satiation a"
proof -
  obtain lo hi where lim: "SPEED_MIN = Fin lo" "SPEED_MAX = Fin hi" "0 \<le> lo" "lo \<le> hi" "hi \<le> 1" using speed_limits by blast
  obtain acc where acc: "SPEED_ACCEL = Fin acc" using SPEED_ACCEL_fin by blast
  obtain s t where b: "brain_propagate (animal_brain a) vision = Some (Fin s, Fin t)" "\<bar>t\<bar> \<le> pi32 / 2"
    using brain_propagate_total [OF _ assms(2) acc, of "animal_brain a"] assms(1) by (auto simp: animal_ok_def abs_le_iff)
  obtain v where "speed a = Fin v" using speed_fin [of "speed a"] assms(1) by (auto simp: animal_ok_def elim: fin_inE)
  then have "f_add (speed a) (Fin s) \<noteq> Not_A_Number" by simp
  then obtain v' where v': "f_clamp SPEED_MIN SPEED_MAX (f_add (speed a) (Fin s)) = Some (Fin v')" "lo \<le> v'" "v' \<le> hi" using f_clamp_range lim by metis
  obtain q where q: "rotation a = Fin q" "\<bar>q\<bar> \<le> 2 * pi32" using assms(1) by (auto simp: animal_ok_def abs_le_iff elim!: fin_inE)
  have "\<bar>q + t\<bar> \<le> 8" using b(2) q(2) by (auto simp: pi32_def abs_le_iff)
  then have "fin_in (- 8) 8 (round32 (q + t)) \<and> finite32 (round32 (q + t))" using representable_int [of 8] by (intro round32_fin_in) (simp_all add: abs_le_iff)
  then obtain u where u: "f_add (rotation a) (Fin t) = Fin u" "representable u" "\<bar>u\<bar> \<le> 8" using q by (auto simp: abs_le_iff elim!: fin_inE)
  have "fin_in (- (2 * pi32)) (2 * pi32) (wrap_angle (Fin u)) \<and> finite32 (wrap_angle (Fin u))"
    using wrap_angle_fin [OF u(2)] u(3) by (auto simp: below_2pi_def pi32_def elim!: fin_inE)
  moreover have "f_le SPEED_MIN (Fin v')" "f_le (Fin v') SPEED_MAX" using v' by (auto simp: lim(1,2) f_le_def f_eq_def)
  ultimately show ?thesis using b(1) v'(1) u(1) assms(1) by (simp add: animal_think_def animal_ok_def)
qed

lemma walk_coordinate:
  assumes "fin_in 0 1 x" "fin_in (- 1) 1 c" "fin_in 0 1 v"
  shows "finite32 (f_add x (f_mul c v))"
proof -
  obtain x' c' v' where e: "x = Fin x'" "0 \<le> x'" "x' \<le> 1" "c = Fin c'" "- 1 \<le> c'" "c' \<le> 1" "v = Fin v'" "0 \<le> v'" "v' \<le> 1" using assms by (elim fin_inE) auto
  have "\<bar>c' * v'\<bar> \<le> 1 * 1" unfolding abs_mult using e by (intro mult_mono) auto
  then have "fin_in (- 1) 1 (round32 (c' * v'))" using round32_fin_in [of "- 1" 1 "c' * v'"] by (simp add: abs_le_iff)
  then obtain d where "round32 (c' * v') = Fin d" "- 1 \<le> d" "d \<le> 1" by (elim fin_inE)
  then show ?thesis using e round32_fin_in [of "- 1" 2 "x' + d"] representable_int [of 2] by simp
qed

lemma animal_walk_ok: "maths_ok m \<Longrightarrow> animal_ok a \<Longrightarrow> animal_ok (animal_walk m a) \<and> satiation (animal_walk m a) = satiation a"
proof -
  assume m: "maths_ok m" and a: "animal_ok a"
  obtain q where "rotation a = Fin q" using a by (auto simp: animal_ok_def elim: fin_inE)
  then have trig: "fin_in (- 1) 1 (m_cos m (rotation a))" "fin_in (- 1) 1 (m_sin m (rotation a))" using m by (simp_all add: maths_ok_def)
  have v: "fin_in 0 1 (speed a)" using a speed_fin by (simp add: animal_ok_def)
  have "on_torus (position (animal_walk m a))" unfolding animal_walk_def
    using walk_coordinate [OF _ trig(1) v, of "vec_x (position a)"] walk_coordinate [OF _ trig(2) v, of "vec_y (position a)"] a
    by (simp, intro vec2_wrap_on_torus) (simp_all add: animal_ok_def on_torus_def vec2_add_assign_def vec2_mul_def vec2_new_def from_angle_def)
  then show ?thesis using a by (simp add: animal_ok_def animal_walk_def)
qed

text \<open>A world of \<open>na\<close> animals and \<open>nf\<close> pieces of food in which no animal has eaten more than \<open>k\<close> times.\<close>

definition world_ok :: "nat \<Rightarrow> nat \<Rightarrow> nat \<Rightarrow> world \<Rightarrow> bool" where
  "world_ok na nf k w \<longleftrightarrow> length (animals w) = na \<and> length (foods w) = nf \<and> (\<forall>a \<in> set (animals w). animal_ok a \<and> satiation a \<le> k)
     \<and> (\<forall>f \<in> set (foods w). on_torus (food_position f))"

lemma food_random_ok: "rng_ok g \<Longrightarrow> \<exists>f r'. food_random g r = Some (f, r') \<and> on_torus (food_position f)"
  using vec2_random_total [of g r] by (auto simp: food_random_def)

lemma foods_random_ok: "rng_ok g \<Longrightarrow> \<exists>fs r'. times_map n (food_random g) r = Some (fs, r') \<and> length fs = n \<and> (\<forall>f \<in> set fs. on_torus (food_position f))"
  using times_map_total [of "food_random g" "\<lambda>f. on_torus (food_position f)" n r] food_random_ok [of g] by blast

lemma world_random_ok: "rng_ok g \<Longrightarrow> \<exists>w r'. world_random g na nf r = Some (w, r') \<and> world_ok na nf 0 w"
proof -
  assume g: "rng_ok g"
  obtain as r1 where as: "times_map na (animal_random g) r = Some (as, r1)" "length as = na" "\<forall>a \<in> set as. animal_ok a \<and> satiation a = 0"
    using times_map_total [of "animal_random g" "\<lambda>a. animal_ok a \<and> satiation a = 0" na r] animal_random_ok [OF g] by blast
  obtain fs r2 where "times_map nf (food_random g) r1 = Some (fs, r2)" "length fs = nf" "\<forall>f \<in> set fs. on_torus (food_position f)"
    using foods_random_ok [OF g] by blast
  then show ?thesis using as by (simp add: world_random_def world_ok_def)
qed

lemma process_brains_ok:
  assumes "world_ok na nf k w" "nf < 2 ^ 24"
  shows "\<exists>w'. process_brains m w = Some w' \<and> world_ok na nf k w'"
proof -
  let ?f = "\<lambda>a. do { vision \<leftarrow> animal_vision m (foods w) a; animal_think vision a }"
  have "\<exists>a'. ?f a = Some a' \<and> animal_ok a' \<and> satiation a' \<le> k" if a: "a \<in> set (animals w)" for a
  proof -
    have ok: "animal_ok a" "satiation a \<le> k" using a assms(1) by (auto simp: world_ok_def)
    have "eye_ok (animal_eye a)" using eye_default_ok ok(1) unfolding animal_ok_def by (metis option.inject)
    then obtain cs where "animal_vision m (foods w) a = Some cs" "length cs = eye_cells (animal_eye a)"
      using process_vision_total [of "animal_eye a" "position a" "foods w" m "rotation a"] assms ok(1) by (auto simp: animal_vision_def world_ok_def animal_ok_def)
    then show ?thesis using animal_think_ok [OF ok(1), of cs] ok(2) by auto
  qed
  then obtain as where "those (map ?f (animals w)) = Some as" "length as = length (animals w)" "\<forall>a \<in> set as. animal_ok a \<and> satiation a \<le> k"
    using those_map_total [of "animals w" ?f "\<lambda>a. animal_ok a \<and> satiation a \<le> k"] by blast
  then show ?thesis using assms(1) by (simp add: process_brains_def world_ok_def)
qed

lemma process_movement_ok: "maths_ok m \<Longrightarrow> world_ok na nf k w \<Longrightarrow> world_ok na nf k (process_movement m w)"
  using animal_walk_ok [of m] by (auto simp: world_ok_def process_movement_def)

lemma feed_ok:
  assumes "rng_ok g"
  shows "animal_ok a \<Longrightarrow> \<forall>f \<in> set fs. on_torus (food_position f) \<Longrightarrow>
    \<exists>a' fs' r'. feed g a fs r = Some ((a', fs'), r') \<and> animal_ok a' \<and> satiation a' \<le> satiation a + length fs
      \<and> length fs' = length fs \<and> (\<forall>f \<in> set fs'. on_torus (food_position f))"
proof (induction fs arbitrary: a r)
  case (Cons f fs)
  have eat: "animal_ok (animal_eat a)" "satiation (animal_eat a) = Suc (satiation a)" using Cons.prems(1) by (simp_all add: animal_ok_def animal_eat_def)
  obtain p r1 where p: "vec2_random g r = Some (p, r1)" "on_torus p" using vec2_random_total [OF assms] by blast
  show ?case
  proof (cases "f_le (vec2_length (vec2_sub (position a) (food_position f))) FOOD_SIZE")
    case True
    then show ?thesis using Cons.IH [OF eat(1), of r1] Cons.prems(2) p eat(2) by (fastforce simp: food_set_position_def)
  next
    case False
    then show ?thesis using Cons.IH [OF Cons.prems(1), of r] Cons.prems(2) by fastforce
  qed
qed simp

lemma feed_all_ok:
  assumes "rng_ok g"
  shows "\<forall>a \<in> set as. animal_ok a \<and> satiation a \<le> k \<Longrightarrow> \<forall>f \<in> set fs. on_torus (food_position f) \<Longrightarrow>
    \<exists>as' fs' r'. feed_all g as fs r = Some ((as', fs'), r') \<and> length as' = length as \<and> (\<forall>a \<in> set as'. animal_ok a \<and> satiation a \<le> k + length fs)
      \<and> length fs' = length fs \<and> (\<forall>f \<in> set fs'. on_torus (food_position f))"
proof (induction as arbitrary: fs r)
  case (Cons a as)
  obtain a' fs1 r1 where 1: "feed g a fs r = Some ((a', fs1), r1)" "animal_ok a'" "satiation a' \<le> satiation a + length fs" "length fs1 = length fs"
    "\<forall>f \<in> set fs1. on_torus (food_position f)" using feed_ok [OF assms, of a fs r] Cons.prems by auto
  obtain as' fs2 r2 where "feed_all g as fs1 r1 = Some ((as', fs2), r2)" "length as' = length as" "\<forall>a \<in> set as'. animal_ok a \<and> satiation a \<le> k + length fs1"
    "length fs2 = length fs1" "\<forall>f \<in> set fs2. on_torus (food_position f)" using Cons.IH [OF _ 1(5), of r1] Cons.prems(1) by auto
  then show ?case using 1 Cons.prems(1) by auto
qed simp

lemma process_collisions_ok:
  assumes "rng_ok g" "world_ok na nf k w"
  shows "\<exists>w' r'. process_collisions g w r = Some (w', r') \<and> world_ok na nf (k + nf) w'"
  using feed_all_ok [OF assms(1), of "animals w" k "foods w" r] assms(2) by (auto simp: process_collisions_def world_ok_def)

section \<open>Evolution\<close>

interpretation animals: evolution "roulette_select animal_individual_ops" "roulette_ok animal_individual_ops" uniform_crossover gaussian_mutate mutation_ok animal_individual_ops
  by unfold_locales (simp add: animal_individual_ops_def)

lemma individual_fitness: "ind_fitness animal_individual_ops (individual_from_animal a) = f_of_nat (satiation a)"
  by (simp add: animal_individual_ops_def individual_from_animal_def)

lemma fitness_range: "n \<le> 2 ^ 36 \<Longrightarrow> fin_in 0 (2 ^ 36) (f_max (f_of_nat n) (round32 (1 / 100000)))"
proof -
  assume n: "n \<le> 2 ^ 36"
  have "representable (2 ^ 36)" unfolding representable_def by (intro exI [of _ 1] exI [of _ 36]) (simp add: pow2_def)
  moreover have "(of_nat n :: rat) \<le> of_nat (2 ^ 36)" using n by (simp only: of_nat_le_iff)
  ultimately have "fin_in 0 (2 ^ 36) (f_of_nat n)" using round32_fin_in [of 0 "2 ^ 36" "of_nat n"] by (simp add: f_of_nat_def)
  moreover obtain w where "round32 (1 / 100000) = Fin w" "0 < w" "w \<le> 1" using floor_weight by blast
  ultimately show ?thesis by (auto simp: f_max_def elim!: fin_inE)
qed

lemma animals_selectable:
  assumes "as \<noteq> []" "length as < 2 ^ 24" "\<forall>a \<in> set as. satiation a \<le> 2 ^ 36"
  shows "roulette_ok animal_individual_ops (map individual_from_animal as)"
proof -
  have "fin_in 0 (of_nat (length as) * 2 ^ 36) (f_sum (map (roulette_weight animal_individual_ops) (map individual_from_animal as)))"
    using f_sum_range [of "map (roulette_weight animal_individual_ops) (map individual_from_animal as)" 36] assms fitness_range
    by (simp add: roulette_weight_def individual_fitness)
  then show ?thesis using assms(1) by (auto simp: roulette_ok_def elim!: fin_inE)
qed

definition ga_ok :: "'r simulation \<Rightarrow> bool" where
  "ga_ok s \<longleftrightarrow> (\<exists>gm. mutation_ok gm \<and> ga s = genetic_algorithm_new (roulette_select animal_individual_ops) uniform_crossover (gaussian_mutate gm))"

definition sim_ok :: "nat \<Rightarrow> nat \<Rightarrow> 'r simulation \<Rightarrow> bool" where
  "sim_ok na nf s \<longleftrightarrow> world_ok na nf (age s * nf) (sim_world s) \<and> age s < GENERATION_LENGTH \<and> ga_ok s"

text \<open>The statistics of a generation: those of the satiations \<open>ks\<close> of its animals.\<close>

definition stats_of :: "nat list \<Rightarrow> statistics \<Rightarrow> bool" where
  "stats_of ks stats \<longleftrightarrow> (\<exists>pop. statistics_new animal_individual_ops pop = Some stats \<and> map (ind_fitness animal_individual_ops) pop = map f_of_nat ks)"

lemma simulation_random_ok: "rng_ok g \<Longrightarrow> \<exists>s r'. simulation_random g na nf r = Some (s, r') \<and> sim_ok na nf s \<and> age s = 0"
proof -
  assume g: "rng_ok g"
  obtain w r1 where w: "world_random g na nf r = Some (w, r1)" "world_ok na nf 0 w" using world_random_ok [OF g] by blast
  have "fin_in 0 1 (round32 (1 / 100))" using round32_fin_in [of 0 1 "1 / 100"] by simp
  then obtain gm where "gaussian_mutation_new (round32 (1 / 100)) (round32 (3 / 10)) = Some gm" "mutation_ok gm"
    using gaussian_mutation_new_iff by (auto simp: mutation_ok_def)
  then show ?thesis using w by (auto simp: simulation_random_def sim_ok_def ga_ok_def GENERATION_LENGTH_def)
qed

lemma sim_evolve_ok:
  assumes "rng_ok g" "world_ok na nf k (sim_world s)" "ga_ok s" "0 < na" "na < 2 ^ 24" "k \<le> 2 ^ 36"
  shows "\<exists>stats s' r'. sim_evolve g s r = Some ((stats, s'), r') \<and> sim_ok na nf s' \<and> age s' = 0 \<and> stats_of (map satiation (animals (sim_world s))) stats"
proof -
  define pop where "pop = map individual_from_animal (animals (sim_world s))"
  have w: "length (animals (sim_world s)) = na" "length (foods (sim_world s)) = nf" "\<forall>a \<in> set (animals (sim_world s)). animal_ok a \<and> satiation a \<le> k"
    using assms(2) by (simp_all add: world_ok_def)
  obtain gm where gm: "mutation_ok gm" "ga s = genetic_algorithm_new (roulette_select animal_individual_ops) uniform_crossover (gaussian_mutate gm)"
    using assms(3) by (auto simp: ga_ok_def)
  have "roulette_ok animal_individual_ops pop" unfolding pop_def using w assms(4-6) by (intro animals_selectable) (auto intro: order_trans)
  moreover have "\<forall>i \<in> set pop. length (genes (ind_chromosome animal_individual_ops i)) = GENES"
    using w(3) animal_genes by (auto simp: pop_def individual_from_animal_def animal_individual_ops_def)
  ultimately obtain new stats r1 where new: "ga_evolve animal_individual_ops (ga s) g pop r = Some ((new, stats), r1)" "length new = na"
    "\<forall>i \<in> set new. length (genes (ai_chromosome i)) = GENES" "statistics_new animal_individual_ops pop = Some stats"
    using animals.evolve_total [OF assms(1) _ gm(1), of pop GENES r] w(1) unfolding gm(2) by (auto simp: pop_def animal_individual_ops_def)
  have "\<exists>as r2. traverse (individual_into_animal g) new r1 = Some (as, r2) \<and> list_all2 (\<lambda>i a. animal_ok a \<and> satiation a = 0) new as"
    by (rule traverse_total) (use animal_from_chromosome_ok [OF assms(1)] new(3) in \<open>auto simp: individual_into_animal_def\<close>)
  then obtain as r2 where as: "traverse (individual_into_animal g) new r1 = Some (as, r2)" "length as = na" "\<forall>a \<in> set as. animal_ok a \<and> satiation a = 0"
    using new(2) by (elim exE conjE) (drule list_all2_right, blast)
  obtain fs r3 where fs: "times_map nf (food_random g) r2 = Some (fs, r3)" "length fs = nf" "\<forall>f \<in> set fs. on_torus (food_position f)"
    using foods_random_ok [OF assms(1)] by blast
  have "map (ind_fitness animal_individual_ops) pop = map f_of_nat (map satiation (animals (sim_world s)))" by (simp add: pop_def individual_fitness)
  then have st: "stats_of (map satiation (animals (sim_world s))) stats" unfolding stats_of_def using new(4) by blast
  have "sim_evolve g s r = Some ((stats, s\<lparr>age := 0, sim_world := set_foods fs (set_animals as (sim_world s))\<rparr>), r3)"
    using new(1) as(1) fs(1) w(2) by (simp add: sim_evolve_def Let_def set_animals_def flip: pop_def)
  moreover have "sim_ok na nf (s\<lparr>age := 0, sim_world := set_foods fs (set_animals as (sim_world s))\<rparr>)"
    using as fs assms(3) by (simp add: sim_ok_def world_ok_def ga_ok_def set_foods_def set_animals_def GENERATION_LENGTH_def)
  ultimately show ?thesis using st by simp
qed

lemma sim_phases_ok:
  assumes "rng_ok g" "maths_ok m" "nf < 2 ^ 24" "sim_ok na nf s"
  shows "\<exists>w1 w3 r1. process_brains m (sim_world s) = Some w1 \<and> process_collisions g (process_movement m w1) r = Some (w3, r1)
     \<and> world_ok na nf (Suc (age s) * nf) w3"
proof -
  obtain w1 where w1: "process_brains m (sim_world s) = Some w1" "world_ok na nf (age s * nf) w1"
    using process_brains_ok [of na nf "age s * nf" "sim_world s" m] assms(3,4) by (auto simp: sim_ok_def)
  have "world_ok na nf (age s * nf) (process_movement m w1)" using process_movement_ok [OF assms(2) w1(2)] .
  then show ?thesis using process_collisions_ok [OF assms(1), of na nf "age s * nf" "process_movement m w1" r] w1(1) by (auto simp: add.commute)
qed

lemma sim_step_quiet:
  assumes "rng_ok g" "maths_ok m" "nf < 2 ^ 24" "sim_ok na nf s" "Suc (age s) < GENERATION_LENGTH"
  shows "\<exists>s' r'. sim_step m g s r = Some ((None, s'), r') \<and> sim_ok na nf s' \<and> age s' = Suc (age s)"
proof -
  obtain w1 w3 r1 where "process_brains m (sim_world s) = Some w1" "process_collisions g (process_movement m w1) r = Some (w3, r1)"
    "world_ok na nf (Suc (age s) * nf) w3" using sim_phases_ok [OF assms(1-4)] by blast
  then show ?thesis using assms(4,5) by (simp add: sim_step_def Let_def sim_ok_def ga_ok_def)
qed

lemma sim_step_last:
  assumes "rng_ok g" "maths_ok m" "nf < 2 ^ 24" "sim_ok na nf s" "Suc (age s) = GENERATION_LENGTH" "0 < na" "na < 2 ^ 24"
  shows "\<exists>stats s' r' ks. sim_step m g s r = Some ((Some stats, s'), r') \<and> sim_ok na nf s' \<and> age s' = 0
     \<and> stats_of ks stats \<and> length ks = na \<and> (\<forall>k \<in> set ks. k \<le> GENERATION_LENGTH * nf)"
proof -
  obtain w1 w3 r1 where w: "process_brains m (sim_world s) = Some w1" "process_collisions g (process_movement m w1) r = Some (w3, r1)"
    "world_ok na nf (GENERATION_LENGTH * nf) w3" using sim_phases_ok [OF assms(1-4), of r] unfolding assms(5) by blast
  define s1 where "s1 = s\<lparr>sim_world := w3, age := GENERATION_LENGTH\<rparr>"
  have "ga_ok s1" using assms(4) by (simp add: s1_def sim_ok_def ga_ok_def)
  moreover have "GENERATION_LENGTH * nf \<le> 2 ^ 36" using assms(3) by (simp add: GENERATION_LENGTH_def)
  ultimately obtain stats s2 r2 where e: "sim_evolve g s1 r1 = Some ((stats, s2), r2)" "sim_ok na nf s2" "age s2 = 0" "stats_of (map satiation (animals w3)) stats"
    using sim_evolve_ok [OF assms(1), of na nf "GENERATION_LENGTH * nf" s1 r1] w(3) assms(6,7) by (auto simp: s1_def)
  have "sim_step m g s r = Some ((Some stats, s2), r2)" using w(1,2) e(1) assms(5) by (simp add: sim_step_def Let_def flip: s1_def)
  then show ?thesis using e(2-4) w(3) by (intro exI [of _ stats] exI [of _ s2] exI [of _ r2] exI [of _ "map satiation (animals w3)"]) (auto simp: world_ok_def)
qed

text \<open>Steps that do not evolve.\<close>

fun quiet_steps :: "maths \<Rightarrow> 'r rng_ops \<Rightarrow> nat \<Rightarrow> 'r simulation \<Rightarrow> 'r \<Rightarrow> ('r simulation \<times> 'r) option" where
  "quiet_steps m g 0 s r = Some (s, r)"
| "quiet_steps m g (Suc n) s r =
     (case sim_step m g s r of Some ((None, s'), r') \<Rightarrow> quiet_steps m g n s' r' | _ \<Rightarrow> None)"

lemma quiet_steps_ok:
  assumes "rng_ok g" "maths_ok m" "nf < 2 ^ 24"
  shows "sim_ok na nf s \<Longrightarrow> age s + n < GENERATION_LENGTH \<Longrightarrow>
    \<exists>s' r'. quiet_steps m g n s r = Some (s', r') \<and> sim_ok na nf s' \<and> age s' = age s + n"
proof (induction n arbitrary: s r)
  case (Suc n)
  then show ?case using sim_step_quiet [OF assms Suc.prems(1), of r] Suc.IH by fastforce
qed simp

lemma train_quiet: "quiet_steps m g n s r = Some (s', r') \<Longrightarrow> train m g s r = train m g s' r'"
proof (induction n arbitrary: s r)
  case (Suc n)
  then show ?case by (subst train.simps) (auto split: option.splits prod.splits)
qed simp

section \<open>Reachable simulations\<close>

inductive sim_reachable :: "maths \<Rightarrow> 'r rng_ops \<Rightarrow> nat \<Rightarrow> nat \<Rightarrow> 'r simulation \<Rightarrow> 'r \<Rightarrow> bool"
  for m g na nf where
  sim_start: "simulation_random g na nf r = Some (s, r') \<Longrightarrow> sim_reachable m g na nf s r'"
| sim_tick: "sim_reachable m g na nf s r \<Longrightarrow> sim_step m g s r = Some ((out, s'), r') \<Longrightarrow> sim_reachable m g na nf s' r'"

lemma sim_step_ok:
  assumes "rng_ok g" "maths_ok m" "0 < na" "na < 2 ^ 24" "nf < 2 ^ 24" "sim_ok na nf s"
  shows "\<exists>out s' r'. sim_step m g s r = Some ((out, s'), r') \<and> sim_ok na nf s'"
proof (cases "Suc (age s) < GENERATION_LENGTH")
  case True
  then show ?thesis using sim_step_quiet [OF assms(1,2,5,6)] by blast
next
  case False
  then have "Suc (age s) = GENERATION_LENGTH" using assms(6) by (simp add: sim_ok_def)
  then show ?thesis using sim_step_last [OF assms(1,2,5,6) _ assms(3,4)] by blast
qed

lemma reachable_ok:
  assumes "rng_ok g" "maths_ok m" "0 < na" "na < 2 ^ 24" "nf < 2 ^ 24" "sim_reachable m g na nf s r"
  shows "sim_ok na nf s"
  using assms(6)
proof induction
  case (sim_start r s r')
  then show ?case using simulation_random_ok [OF assms(1), of na nf r] by auto
next
  case (sim_tick s r out s' r')
  then show ?case using sim_step_ok [OF assms(1-5), of s r] by auto
qed

lemma train_ok:
  assumes "rng_ok g" "maths_ok m" "0 < na" "na < 2 ^ 24" "nf < 2 ^ 24" "sim_ok na nf s"
  shows "\<exists>s1 r1 stats s2 r2 ks. quiet_steps m g (GENERATION_LENGTH - 1 - age s) s r = Some (s1, r1) \<and> sim_step m g s1 r1 = Some ((Some stats, s2), r2)
     \<and> train m g s r = Some ((stats, s2), r2) \<and> sim_ok na nf s2 \<and> age s2 = 0
     \<and> stats_of ks stats \<and> length ks = na \<and> (\<forall>k \<in> set ks. k \<le> GENERATION_LENGTH * nf)"
proof -
  have age: "age s < GENERATION_LENGTH" using assms(6) by (simp add: sim_ok_def)
  then obtain s1 r1 where q: "quiet_steps m g (GENERATION_LENGTH - 1 - age s) s r = Some (s1, r1)" "sim_ok na nf s1" "Suc (age s1) = GENERATION_LENGTH"
    using quiet_steps_ok [OF assms(1,2,5,6), of "GENERATION_LENGTH - 1 - age s" r] by auto
  obtain stats s2 r2 ks where l: "sim_step m g s1 r1 = Some ((Some stats, s2), r2)" "sim_ok na nf s2" "age s2 = 0"
    "stats_of ks stats" "length ks = na" "\<forall>k \<in> set ks. k \<le> GENERATION_LENGTH * nf" using sim_step_last [OF assms(1,2,5) q(2,3) assms(3,4)] by blast
  have "train m g s r = Some ((stats, s2), r2)" using train_quiet [OF q(1)] l(1) by (subst (asm) (2) train.simps) simp
  then show ?thesis using q(1) l by blast
qed

lemma stats_of_nat:
  assumes "stats_of ks stats" "ks \<noteq> []" "sum_list ks < 2 ^ 24" "length ks < 2 ^ 24"
  shows "stats = \<lparr>min_fitness = Fin (of_nat (Min (set ks))), max_fitness = Fin (of_nat (Max (set ks))),
    avg_fitness = round32 (of_nat (sum_list ks) / of_nat (length ks))\<rparr>"
proof -
  obtain pop where pop: "statistics_new animal_individual_ops pop = Some stats" "map (ind_fitness animal_individual_ops) pop = map f_of_nat ks"
    using assms(1) by (auto simp: stats_of_def)
  have "k < 2 ^ 24" if "k \<in> set ks" for k using member_le_sum_list [OF that] assms(3) by simp
  then have "map f_of_nat ks = map (\<lambda>k. Fin (of_nat k)) ks" by (simp add: f_of_nat_exact)
  then show ?thesis using statistics_nat [OF assms(2) _ assms(3,4), of animal_individual_ops pop] pop by simp
qed

lemma train_no_animals:
  assumes "rng_ok g" "maths_ok m" "nf < 2 ^ 24" "sim_ok 0 nf s"
  shows "\<exists>s1 r1. quiet_steps m g (GENERATION_LENGTH - 1 - age s) s r = Some (s1, r1) \<and> sim_step m g s1 r1 = None \<and> train m g s r = None"
proof -
  have "age s < GENERATION_LENGTH" using assms(4) by (simp add: sim_ok_def)
  then obtain s1 r1 where q: "quiet_steps m g (GENERATION_LENGTH - 1 - age s) s r = Some (s1, r1)" "sim_ok 0 nf s1" "Suc (age s1) = GENERATION_LENGTH"
    using quiet_steps_ok [OF assms, of "GENERATION_LENGTH - 1 - age s" r] by auto
  obtain w1 w3 r2 where w: "process_brains m (sim_world s1) = Some w1" "process_collisions g (process_movement m w1) r1 = Some (w3, r2)" "animals w3 = []"
    using sim_phases_ok [OF assms(1-3) q(2), of r1] by (auto simp: world_ok_def)
  have "sim_step m g s1 r1 = None" using w q(3) by (simp add: sim_step_def Let_def sim_evolve_def ga_evolve_def)
  then show ?thesis using q(1) train_quiet [OF q(1)] train.simps [of m g s1 r1] by simp
qed

section \<open>Properties\<close>

text \<open>C11: From a random simulation of at least one animal, and in every state its steps reach, \<open>step\<close> never panics: it keeps the
  numbers of animals and of pieces of food, every animal stays in the unit square with a speed between \<open>SPEED_MIN\<close> and \<open>SPEED_MAX\<close> and a
  brain that fits its eye, and has eaten at most once per step and piece of food, which bounds its counter.\<close>

theorem simulation_invariant:
  assumes "rng_ok g" "maths_ok m" "0 < na" "na < 2 ^ 24" "nf < 2 ^ 24" "sim_reachable m g na nf s r"
  shows "(\<exists>out s' r'. sim_step m g s r = Some ((out, s'), r'))
     \<and> length (animals (sim_world s)) = na \<and> length (foods (sim_world s)) = nf \<and> age s < GENERATION_LENGTH
     \<and> (\<forall>a \<in> set (animals (sim_world s)). on_torus (position a) \<and> f_le SPEED_MIN (speed a) \<and> f_le (speed a) SPEED_MAX
          \<and> network_fits (brain_topology (animal_eye a)) (nn (animal_brain a)) \<and> satiation a \<le> age s * nf)"
proof -
  have ok: "sim_ok na nf s" by (rule reachable_ok [OF assms])
  then show ?thesis using sim_step_ok [OF assms(1-5) ok, of r] by (auto simp: sim_ok_def world_ok_def animal_ok_def)
qed

theorem simulation_invariant_witness:
  "\<exists>s r. simulation_random low_rng 2 3 0 = Some (s, r) \<and> length (animals (sim_world s)) = 2
     \<and> (\<exists>out s' r'. sim_step flat_maths low_rng s r = Some ((out, s'), r'))"
proof -
  obtain s r where s: "simulation_random low_rng 2 3 0 = Some (s, r)" using simulation_random_ok [OF low_rng_ok] by blast
  then have "sim_reachable flat_maths low_rng 2 3 s r" by (rule sim_start)
  then show ?thesis using simulation_invariant [OF low_rng_ok flat_maths_ok, of 2 3 s r] s by auto
qed

text \<open>C16: \<open>train\<close> returns from every reachable state, after exactly the steps that complete the generation: all but the last return
  no statistics, the last one evolves, and what \<open>train\<close> returns is what that step returned; the new generation has age zero and the same numbers
  of animals and of pieces of food.\<close>

theorem train_one_generation:
  assumes "rng_ok g" "maths_ok m" "0 < na" "na < 2 ^ 24" "nf < 2 ^ 24" "sim_reachable m g na nf s r"
  shows "\<exists>s1 r1 stats s2 r2. quiet_steps m g (GENERATION_LENGTH - 1 - age s) s r = Some (s1, r1)
     \<and> sim_step m g s1 r1 = Some ((Some stats, s2), r2) \<and> train m g s r = Some ((stats, s2), r2)
     \<and> age s2 = 0 \<and> length (animals (sim_world s2)) = na \<and> length (foods (sim_world s2)) = nf"
  using train_ok [OF assms(1-5) reachable_ok [OF assms], of r] unfolding sim_ok_def world_ok_def by blast

theorem train_one_generation_witness:
  "\<exists>s r stats s2 r2. simulation_random low_rng 2 3 0 = Some (s, r) \<and> train flat_maths low_rng s r = Some ((stats, s2), r2) \<and> length (animals (sim_world s2)) = 2"
proof -
  obtain s r where s: "simulation_random low_rng 2 3 0 = Some (s, r)" using simulation_random_ok [OF low_rng_ok] by blast
  then have "sim_reachable flat_maths low_rng 2 3 s r" by (rule sim_start)
  then show ?thesis using train_one_generation [OF low_rng_ok flat_maths_ok, of 2 3 s r] s by auto
qed

text \<open>Property: When the product of the generation's length with the numbers of animals and of pieces of food is below \<open>2^24\<close>, as with
  the program's defaults, the statistics that \<open>train\<close> returns are finite, not negative, and the average lies between the least and the greatest
  fitness.\<close>

theorem train_statistics:
  assumes "rng_ok g" "maths_ok m" "0 < na" "nf < 2 ^ 24" "GENERATION_LENGTH * nf * na < 2 ^ 24" "na < 2 ^ 24" "sim_reachable m g na nf s r"
  shows "\<exists>lo a hi s' r'. train m g s r = Some ((\<lparr>min_fitness = Fin lo, max_fitness = Fin hi, avg_fitness = Fin a\<rparr>, s'), r')
     \<and> 0 \<le> lo \<and> lo \<le> a \<and> a \<le> hi"
proof -
  obtain stats s' r' ks where t: "train m g s r = Some ((stats, s'), r')" "stats_of ks stats" "length ks = na" "\<forall>k \<in> set ks. k \<le> GENERATION_LENGTH * nf"
    using train_ok [OF assms(1,2,3,6,4) reachable_ok [OF assms(1,2,3,6,4,7)], of r] by blast
  have ne: "ks \<noteq> []" using t(3) assms(3) by auto
  have s: "sum_list ks < 2 ^ 24" using sum_list_below [OF t(4)] t(3) assms(5) by simp
  have st: "stats = \<lparr>min_fitness = Fin (of_nat (Min (set ks))), max_fitness = Fin (of_nat (Max (set ks))), avg_fitness = round32 (of_nat (sum_list ks) / of_nat (length ks))\<rparr>"
    using stats_of_nat [OF t(2) ne s] t(3) assms(6) by simp
  have "Max (set ks) \<le> sum_list ks" using ne by (intro member_le_sum_list) auto
  then have "fin_in (of_nat (Min (set ks))) (of_nat (Max (set ks))) (round32 (of_nat (sum_list ks) / of_nat (length ks)))"
    using s ne by (intro mean_between) auto
  then obtain a where a: "round32 (of_nat (sum_list ks) / of_nat (length ks)) = Fin a" "of_nat (Min (set ks)) \<le> a" "a \<le> of_nat (Max (set ks))" by (elim fin_inE)
  show ?thesis unfolding t(1) st a(1) using a(2,3) by (intro exI [of _ "of_nat (Min (set ks))"] exI [of _ a] exI [of _ "of_nat (Max (set ks))"]) simp
qed

theorem train_statistics_witness:
  "\<exists>s r lo a hi s' r'. simulation_random low_rng 40 40 0 = Some (s, r)
     \<and> train flat_maths low_rng s r = Some ((\<lparr>min_fitness = Fin lo, max_fitness = Fin hi, avg_fitness = Fin a\<rparr>, s'), r') \<and> lo \<le> a \<and> a \<le> hi"
proof -
  obtain s r where s: "simulation_random low_rng 40 40 0 = Some (s, r)" using simulation_random_ok [OF low_rng_ok] by blast
  then have "sim_reachable flat_maths low_rng 40 40 s r" by (rule sim_start)
  then show ?thesis using train_statistics [OF low_rng_ok flat_maths_ok, of 40 40 s r] s by (auto simp: GENERATION_LENGTH_def)
qed

text \<open>Property: A simulation without animals is created without complaint and steps through a whole generation, and then panics when the
  genetic algorithm refuses to evolve an empty population.\<close>

theorem train_empty_population:
  assumes "rng_ok g" "maths_ok m" "nf < 2 ^ 24"
  shows "\<exists>s r' s1 r1. simulation_random g 0 nf r = Some (s, r') \<and> quiet_steps m g (GENERATION_LENGTH - 1) s r' = Some (s1, r1)
     \<and> sim_step m g s1 r1 = None \<and> train m g s r' = None"
proof -
  obtain s r' where s: "simulation_random g 0 nf r = Some (s, r')" "sim_ok 0 nf s" "age s = 0" using simulation_random_ok [OF assms(1)] by blast
  then show ?thesis using train_no_animals [OF assms s(2), of r'] by auto
qed

theorem train_empty_population_witness:
  "\<exists>s r'. simulation_random low_rng 0 1 0 = Some (s, r') \<and> train flat_maths low_rng s r' = None"
  using train_empty_population [OF low_rng_ok flat_maths_ok, of 1 0] by auto

end
