(* ===== verification/Nv_Main.thy ===== *)
theory Nv_Main
  imports Nv_Simulation
begin

text \<open>
  \<open>main.rs\<close> of the neuroevolution crate: the command line, the run over the generations with what it prints, and the final picture of the
  world. Standard output is a string; the seeding of the generator is a parameter.
\<close>

section \<open>Arguments\<close>

record args =
  generations :: nat
  population :: nat
  food_items :: nat
  seed :: "nat option"

definition args_default :: args where
  "args_default = \<lparr>generations = 100, population = 40, food_items = 40, seed = None\<rparr>"

definition unwrap_or :: "'a option \<Rightarrow> 'a \<Rightarrow> 'a" where
  "unwrap_or x d = (case x of None \<Rightarrow> d | Some v \<Rightarrow> v)"

definition parse_flag :: "string \<Rightarrow> string \<Rightarrow> args \<Rightarrow> args" where
  "parse_flag flag v p =
     (if flag = ''--generations'' then p\<lparr>generations := unwrap_or (parse_uint usize_max v) (generations p)\<rparr>
      else if flag = ''--population'' then p\<lparr>population := unwrap_or (parse_uint usize_max v) (population p)\<rparr>
      else if flag = ''--food'' then p\<lparr>food_items := unwrap_or (parse_uint usize_max v) (food_items p)\<rparr>
      else if flag = ''--seed'' then p\<lparr>seed := parse_uint (2 ^ 64 - 1) v\<rparr>
      else p)"

fun args_parse_loop :: "string list \<Rightarrow> args \<Rightarrow> args" where
  "args_parse_loop [] p = p"
| "args_parse_loop [flag] p = p"
| "args_parse_loop (flag # v # rest) p = args_parse_loop rest (parse_flag flag v p)"

definition args_parse :: "string list \<Rightarrow> args" where
  "args_parse as = args_parse_loop as args_default"

section \<open>The picture\<close>

definition to_cell :: "f32 \<Rightarrow> f32 \<Rightarrow> nat \<Rightarrow> nat \<Rightarrow> nat \<times> nat" where
  "to_cell x y width height =
     (let cx = min (f_as_usize (f_mul x (f_of_nat width))) (width - 1);
          cy = min (f_as_usize (f_mul y (f_of_nat height))) (height - 1) in
      (cx, cy))"

definition heading_char :: "f32 \<Rightarrow> char" where
  "heading_char t =
     (let normalized = f_rem_euclid t (f_mul (Fin 2) (Fin pi32));
          q = f_as_i64 (f_round (f_div normalized (f_div (Fin pi32) (Fin 4))));
          octant = (if 0 \<le> q then q mod 8 else - ((- q) mod 8)) in
      if octant = 0 then CHR ''>''
      else if octant = 1 then CHR 0x5C
      else if octant = 2 then CHR ''v''
      else if octant = 3 then CHR ''/''
      else if octant = 4 then CHR ''<''
      else if octant = 5 then CHR 0x5C
      else if octant = 6 then CHR 0x5E
      else CHR ''/'')"

definition WIDTH :: nat where
  "WIDTH = 60"

definition HEIGHT :: nat where
  "HEIGHT = 24"

text \<open>\<open>grid[y][x] = c\<close>, a panic out of range.\<close>

definition grid_set :: "nat \<times> nat \<Rightarrow> char \<Rightarrow> char list list \<Rightarrow> char list list option" where
  "grid_set xy c grid =
     (case xy of (x, y) \<Rightarrow> if y < length grid \<and> x < length (grid ! y) then Some (grid[y := (grid ! y)[x := c]]) else None)"

fun plot_all :: "((nat \<times> nat) \<times> char) list \<Rightarrow> char list list \<Rightarrow> char list list option" where
  "plot_all [] grid = Some grid"
| "plot_all ((xy, c) # ps) grid = do { grid' \<leftarrow> grid_set xy c grid; plot_all ps grid' }"

definition food_mark :: "food \<Rightarrow> (nat \<times> nat) \<times> char" where
  "food_mark f = (to_cell (vec_x (food_position f)) (vec_y (food_position f)) WIDTH HEIGHT, CHR ''.'')"

definition animal_mark :: "animal \<Rightarrow> (nat \<times> nat) \<times> char" where
  "animal_mark a = (to_cell (vec_x (position a)) (vec_y (position a)) WIDTH HEIGHT, heading_char (rotation a))"

definition render_grid :: "world \<Rightarrow> char list list option" where
  "render_grid w = do {
     let grid = replicate HEIGHT (replicate WIDTH (CHR '' ''));
     grid1 \<leftarrow> plot_all (map food_mark (foods w)) grid;
     plot_all (map animal_mark (animals w)) grid1
   }"

definition render_world :: "world \<Rightarrow> string option" where
  "render_world w = do { grid \<leftarrow> render_grid w; Some (join_with [CHR 0x0A] grid) }"

section \<open>The run\<close>

definition pad_left :: "nat \<Rightarrow> string \<Rightarrow> string" where
  "pad_left n s = replicate (n - length s) (CHR '' '') @ s"

text \<open>\<open>{:.2}\<close>: the exact value, rounded to two decimals, a half to the even digit.\<close>

definition fixed2 :: "rat \<Rightarrow> string" where
  "fixed2 a = (let n = nat (half_even (a * 100)) in show_nat (n div 100) @ ''.'' @ [digit (n div 10 mod 10), digit (n mod 10)])"

fun show_f32_2 :: "f32 \<Rightarrow> string" where
  "show_f32_2 (Fin a) = (if a < 0 then ''-'' @ fixed2 (- a) else fixed2 a)"
| "show_f32_2 Pos_Inf = ''inf''"
| "show_f32_2 Neg_Inf = ''-inf''"
| "show_f32_2 Not_A_Number = ''NaN''"

definition stats_line :: "nat \<Rightarrow> statistics \<Rightarrow> string" where
  "stats_line generation st =
     pad_left 3 (show_nat generation) @ ''   '' @ pad_left 6 (show_f32_2 (min_fitness st)) @ ''   '' @ pad_left 6 (show_f32_2 (avg_fitness st))
     @ ''   '' @ pad_left 6 (show_f32_2 (max_fitness st)) @ [CHR 0x0A]"

text \<open>The loop over the generations: what it prints, and the simulation after it, or \<open>None\<close> when \<open>train\<close> panicked.\<close>

fun run_generations :: "maths \<Rightarrow> 'r rng_ops \<Rightarrow> nat list \<Rightarrow> 'r simulation \<Rightarrow> 'r \<Rightarrow> string \<times> 'r simulation option" where
  "run_generations m g [] s r = ([], Some s)"
| "run_generations m g (n # ns) s r =
     (case train m g s r of
        None \<Rightarrow> ([], None)
      | Some ((st, s'), r') \<Rightarrow> (case run_generations m g ns s' r' of (out, fin) \<Rightarrow> (stats_line n st @ out, fin)))"

text \<open>\<open>main\<close>: the printed text, and whether it ended without a panic.\<close>

definition main_run :: "maths \<Rightarrow> 'r rng_ops \<Rightarrow> (nat \<Rightarrow> 'r) \<Rightarrow> 'r \<Rightarrow> string list \<Rightarrow> string \<times> bool" where
  "main_run m g seed_from_u64 entropy argv =
     (let args = args_parse argv;
          r = (case seed args of Some n \<Rightarrow> seed_from_u64 n | None \<Rightarrow> entropy);
          header = ''gen    min      avg      max'' @ [CHR 0x0A] in
      case simulation_random g (population args) (food_items args) r of
        None \<Rightarrow> ([], False)
      | Some (sim, r1) \<Rightarrow>
          (case run_generations m g [1..<generations args + 1] sim r1 of
             (out, None) \<Rightarrow> (header @ out, False)
           | (out, Some sim') \<Rightarrow>
               let before = header @ out @ [CHR 0x0A] @ ''final snapshot ('' @ [CHR 0x27] @ ''.'' @ [CHR 0x27] @ '' = food, arrow = an animal'' @ [CHR 0x27] @ ''s heading):'' @ [CHR 0x0A] in
               (case render_world (sim_world sim') of
                  None \<Rightarrow> (before, False)
                | Some pic \<Rightarrow> (before @ pic @ [CHR 0x0A], True))))"

section \<open>The picture is complete\<close>

definition grid_ok :: "char list list \<Rightarrow> bool" where
  "grid_ok grid \<longleftrightarrow> length grid = HEIGHT \<and> (\<forall>row \<in> set grid. length row = WIDTH)"

definition in_grid :: "nat \<times> nat \<Rightarrow> bool" where
  "in_grid xy \<longleftrightarrow> fst xy < WIDTH \<and> snd xy < HEIGHT"

lemma to_cell_in_grid: "in_grid (to_cell x y WIDTH HEIGHT)"
proof -
  have "min i 59 < 60" "min i 23 < 24" for i :: nat by simp_all
  then show ?thesis by (simp only: in_grid_def to_cell_def Let_def WIDTH_def HEIGHT_def fst_conv snd_conv) simp
qed

lemma grid_set_ok:
  assumes "grid_ok grid" "in_grid xy"
  shows "\<exists>grid'. grid_set xy c grid = Some grid' \<and> grid_ok grid'
     \<and> (\<forall>x y. in_grid (x, y) \<longrightarrow> grid' ! y ! x = (if (x, y) = xy then c else grid ! y ! x))"
proof -
  obtain x0 y0 where xy: "xy = (x0, y0)" "x0 < WIDTH" "y0 < HEIGHT" using assms(2) by (cases xy) (auto simp: in_grid_def)
  have len: "length grid = HEIGHT" "\<And>y. y < HEIGHT \<Longrightarrow> length (grid ! y) = WIDTH" using assms(1) by (auto simp: grid_ok_def)
  have "grid_ok (grid[y0 := (grid ! y0)[x0 := c]])" using assms(1) len xy by (auto simp: grid_ok_def dest!: set_update_subset_insert [THEN subsetD])
  moreover have "\<forall>x y. in_grid (x, y) \<longrightarrow> grid[y0 := (grid ! y0)[x0 := c]] ! y ! x = (if (x, y) = xy then c else grid ! y ! x)"
    using len xy by (auto simp: in_grid_def nth_list_update)
  ultimately show ?thesis using xy len by (simp add: grid_set_def)
qed

lemma plot_all_ok:
  "grid_ok grid \<Longrightarrow> \<forall>p \<in> set ps. in_grid (fst p) \<Longrightarrow>
   \<exists>grid'. plot_all ps grid = Some grid' \<and> grid_ok grid'
     \<and> (\<forall>x y. in_grid (x, y) \<longrightarrow> grid' ! y ! x = (case map_of (rev ps) (x, y) of Some c \<Rightarrow> c | None \<Rightarrow> grid ! y ! x))"
proof (induction ps arbitrary: grid)
  case (Cons p ps)
  obtain xy c where p: "p = (xy, c)" by fastforce
  obtain grid1 where g1: "grid_set xy c grid = Some grid1" "grid_ok grid1"
    "\<forall>x y. in_grid (x, y) \<longrightarrow> grid1 ! y ! x = (if (x, y) = xy then c else grid ! y ! x)" using grid_set_ok [of grid xy c] Cons.prems p by auto
  obtain grid2 where g2: "plot_all ps grid1 = Some grid2" "grid_ok grid2"
    "\<forall>x y. in_grid (x, y) \<longrightarrow> grid2 ! y ! x = (case map_of (rev ps) (x, y) of Some c \<Rightarrow> c | None \<Rightarrow> grid1 ! y ! x)" using Cons.IH [OF g1(2)] Cons.prems by auto
  have "grid2 ! y ! x = (case map_of (rev (p # ps)) (x, y) of Some c \<Rightarrow> c | None \<Rightarrow> grid ! y ! x)" if "in_grid (x, y)" for x y
    using g1(3) g2(3) that by (auto simp: p map_add_def split: option.splits)
  then show ?case using g1(1) g2(1,2) p by auto
qed simp

lemma blank_grid_ok: "grid_ok (replicate HEIGHT (replicate WIDTH c))"
  by (simp add: grid_ok_def)

lemma food_marks: "map_of (rev (map food_mark fs)) xy = (if xy \<in> (\<lambda>f. fst (food_mark f)) ` set fs then Some (CHR ''.'') else None)"
proof -
  have "map_of (map food_mark gs) xy = (if xy \<in> (\<lambda>f. fst (food_mark f)) ` set gs then Some (CHR ''.'') else None)" for gs
    by (induction gs) (auto simp: food_mark_def)
  from this [of "rev fs"] show ?thesis by (simp add: rev_map)
qed

lemma render_grid_ok:
  "\<exists>grid. render_grid w = Some grid \<and> grid_ok grid
     \<and> (\<forall>x y. in_grid (x, y) \<longrightarrow> grid ! y ! x =
          (case map_of (rev (map animal_mark (animals w))) (x, y) of
             Some c \<Rightarrow> c
           | None \<Rightarrow> if (x, y) \<in> (\<lambda>f. fst (food_mark f)) ` set (foods w) then CHR ''.'' else CHR '' ''))"
proof -
  let ?blank = "replicate HEIGHT (replicate WIDTH (CHR '' ''))"
  have marks: "\<forall>p \<in> set (map food_mark (foods w)). in_grid (fst p)" "\<forall>p \<in> set (map animal_mark (animals w)). in_grid (fst p)"
    using to_cell_in_grid by (auto simp: food_mark_def animal_mark_def)
  then obtain g1 where g1: "plot_all (map food_mark (foods w)) ?blank = Some g1" "grid_ok g1"
      "\<forall>x y. in_grid (x, y) \<longrightarrow> g1 ! y ! x = (case map_of (rev (map food_mark (foods w))) (x, y) of Some c \<Rightarrow> c | None \<Rightarrow> ?blank ! y ! x)"
    using plot_all_ok [OF blank_grid_ok, of "map food_mark (foods w)" "CHR '' ''"] by blast
  obtain g2 where g2: "plot_all (map animal_mark (animals w)) g1 = Some g2" "grid_ok g2"
      "\<forall>x y. in_grid (x, y) \<longrightarrow> g2 ! y ! x = (case map_of (rev (map animal_mark (animals w))) (x, y) of Some c \<Rightarrow> c | None \<Rightarrow> g1 ! y ! x)"
    using plot_all_ok [OF g1(2), of "map animal_mark (animals w)"] marks(2) by blast
  have "g2 ! y ! x = (case map_of (rev (map animal_mark (animals w))) (x, y) of Some c \<Rightarrow> c
      | None \<Rightarrow> if (x, y) \<in> (\<lambda>f. fst (food_mark f)) ` set (foods w) then CHR ''.'' else CHR '' '')" if xy: "in_grid (x, y)" for x y
    using g1(3) [rule_format, OF xy] g2(3) [rule_format, OF xy] xy unfolding food_marks by (simp add: in_grid_def split: option.split if_split_asm)
  then show ?thesis using g1(1) g2(1,2) by (simp add: render_grid_def Let_def)
qed

section \<open>The run completes\<close>

lemma run_generations_ok:
  assumes "rng_ok g" "maths_ok m" "0 < na" "na < 2 ^ 24" "nf < 2 ^ 24"
  shows "sim_ok na nf s \<Longrightarrow> \<exists>out s'. run_generations m g ns s r = (concat (map (\<lambda>(n, st). stats_line n st) (zip ns out)), Some s')
     \<and> length out = length ns \<and> sim_ok na nf s'"
proof (induction ns arbitrary: s r)
  case (Cons n ns)
  obtain st s1 r1 where t: "train m g s r = Some ((st, s1), r1)" "sim_ok na nf s1" using train_ok [OF assms Cons.prems, of r] by blast
  obtain out s' where "run_generations m g ns s1 r1 = (concat (map (\<lambda>(n, st). stats_line n st) (zip ns out)), Some s')" "length out = length ns" "sim_ok na nf s'"
    using Cons.IH [OF t(2)] by blast
  then show ?case using t(1) by (intro exI [of _ "st # out"] exI [of _ s']) simp
qed simp

lemma run_generations_empty:
  assumes "rng_ok g" "maths_ok m" "nf < 2 ^ 24" "sim_ok 0 nf s" "ns \<noteq> []"
  shows "run_generations m g ns s r = ([], None)"
proof -
  have "train m g s r = None" using train_no_animals [OF assms(1-4)] by blast
  then show ?thesis using assms(5) by (cases ns) simp_all
qed

section \<open>Properties\<close>

text \<open>Property: \<open>render\<close> never panics, whatever the positions: the picture has 24 rows of 60 characters, and each cell shows the heading of the last animal
  that stands on it, else a point if some food lies there, else a blank.\<close>

theorem picture_correct:
  "\<exists>grid. render_world w = Some (join_with [CHR 0x0A] grid) \<and> length grid = 24 \<and> (\<forall>row \<in> set grid. length row = 60)
     \<and> (\<forall>x < 60. \<forall>y < 24. grid ! y ! x =
          (case map_of (rev (map animal_mark (animals w))) (x, y) of
             Some c \<Rightarrow> c
           | None \<Rightarrow> if (x, y) \<in> (\<lambda>f. fst (food_mark f)) ` set (foods w) then CHR ''.'' else CHR '' ''))"
proof -
  obtain grid where "render_grid w = Some grid" "grid_ok grid"
    "\<forall>x y. in_grid (x, y) \<longrightarrow> grid ! y ! x = (case map_of (rev (map animal_mark (animals w))) (x, y) of Some c \<Rightarrow> c
       | None \<Rightarrow> if (x, y) \<in> (\<lambda>f. fst (food_mark f)) ` set (foods w) then CHR ''.'' else CHR '' '')" using render_grid_ok by blast
  then show ?thesis by (intro exI [of _ grid]) (simp add: render_world_def grid_ok_def in_grid_def WIDTH_def HEIGHT_def)
qed

theorem picture_correct_witness:
  "\<exists>grid. render_world \<lparr>animals = [], foods = [food_at (vec2_new Not_A_Number Pos_Inf)]\<rparr> = Some (join_with [CHR 0x0A] grid) \<and> length grid = 24"
  using picture_correct [of "\<lparr>animals = [], foods = [food_at (vec2_new Not_A_Number Pos_Inf)]\<rparr>"] by blast

text \<open>Property: For every command line, \<open>main\<close> prints the heading and, with at least one animal, one line of statistics per generation and the
  final picture, and ends normally; without animals it panics in the first generation, after the heading, unless no generation is asked for.\<close>

theorem main_outcome:
  assumes "rng_ok g" "maths_ok m" "args_parse argv = a" "population a < 2 ^ 24" "food_items a < 2 ^ 24"
  shows "if population a = 0 \<and> generations a \<noteq> 0 then main_run m g seeded entropy argv = (''gen    min      avg      max'' @ [CHR 0x0A], False)
     else \<exists>stats w pic. length stats = generations a \<and> length (animals w) = population a \<and> length (foods w) = food_items a \<and> render_world w = Some pic
       \<and> main_run m g seeded entropy argv = (''gen    min      avg      max'' @ [CHR 0x0A] @ concat (map (\<lambda>(n, st). stats_line n st) (zip [1..<generations a + 1] stats))
            @ [CHR 0x0A] @ ''final snapshot ('' @ [CHR 0x27] @ ''.'' @ [CHR 0x27] @ '' = food, arrow = an animal'' @ [CHR 0x27] @ ''s heading):'' @ [CHR 0x0A] @ pic @ [CHR 0x0A], True)"
proof -
  define r where "r = (case seed a of Some n \<Rightarrow> seeded n | None \<Rightarrow> entropy)"
  obtain s r1 where s: "simulation_random g (population a) (food_items a) r = Some (s, r1)" "sim_ok (population a) (food_items a) s"
    using simulation_random_ok [OF assms(1)] by blast
  show ?thesis
  proof (cases "population a = 0 \<and> generations a \<noteq> 0")
    case True
    then have "run_generations m g [1..<generations a + 1] s r1 = ([], None)" using run_generations_empty [OF assms(1,2,5), of s] s(2) by simp
    then show ?thesis using True s(1) by (simp add: main_run_def Let_def assms(3) flip: r_def)
  next
    case False
    obtain stats s' where run: "run_generations m g [1..<generations a + 1] s r1 = (concat (map (\<lambda>(n, st). stats_line n st) (zip [1..<generations a + 1] stats)), Some s')"
      "length stats = generations a" "sim_ok (population a) (food_items a) s'"
    proof (cases "generations a = 0")
      case True
      then show thesis using that [of "[]" s] s(2) by simp
    next
      case nonzero: False
      then have "0 < population a" using False by simp
      then show thesis using run_generations_ok [OF assms(1,2) _ assms(4,5) s(2), of "[1..<generations a + 1]" r1] that by auto
    qed
    obtain pic where "render_world (sim_world s') = Some pic" using render_grid_ok [of "sim_world s'"] by (auto simp: render_world_def)
    then show ?thesis using False s(1) run by (auto simp: main_run_def Let_def assms(3) sim_ok_def world_ok_def simp flip: r_def)
  qed
qed

theorem main_outcome_witness:
  "snd (main_run flat_maths low_rng (\<lambda>n. n) 0 [''--generations'', ''2'', ''--population'', ''3'']) \<and>
   \<not> snd (main_run flat_maths low_rng (\<lambda>n. n) 0 [''--population'', ''0'', ''--seed'', ''7''])"
proof -
  have "args_parse [''--generations'', ''2'', ''--population'', ''3''] = \<lparr>generations = 2, population = 3, food_items = 40, seed = None\<rparr>"
    "args_parse [''--population'', ''0'', ''--seed'', ''7''] = \<lparr>generations = 100, population = 0, food_items = 40, seed = Some 7\<rparr>"
    using parse_uint_show_nat [of 2 usize_max] parse_uint_show_nat [of 3 usize_max] parse_uint_show_nat [of 0 usize_max] parse_uint_show_nat [of 7 "2 ^ 64 - 1"]
    by (simp_all add: args_parse_def args_default_def parse_flag_def unwrap_or_def usize_max_def show_nat.simps digit_def char_of_def bit_0)
  from main_outcome [OF low_rng_ok flat_maths_ok this(1), of "\<lambda>n. n" 0] main_outcome [OF low_rng_ok flat_maths_ok this(2), of "\<lambda>n. n" 0] show ?thesis by auto
qed

end
